(* ===== verification/Prelude.thy ===== *)
theory Prelude
  imports Complex_Main "HOL-Library.Multiset"
begin

text \<open>
  Shared vocabulary of the development: the exceptions the modelled Python code raises as
  values of a sum type, the Python list operations the components use (negative slices,
  \<open>pop\<close> by index, stable sorting), and the generic list facts that carry the component
  proofs. The collections \<open>result_simps\<close> and \<open>pylist_simps\<close> are extended here and
  in the components.
\<close>

named_theorems result_simps "case analysis on results of fallible code"
named_theorems pylist_simps "facts on the Python list operations"

section \<open>Errors as values\<close>

text \<open>The exception classes raised by the modelled code; messages are not modelled.\<close>

datatype py_error =
    ValueError
  | KeyError
  | IndexError
  | TypeError
  | RuntimeError
  | AssertionError
  | NotImplementedError
  | ZeroDivisionError
  | PlacementConfigError
  | SchemaError
  | OSError
  | JSONDecodeError
  | AttributeError

type_synonym 'a result = "py_error + 'a"

definition bind_res :: "'a result \<Rightarrow> ('a \<Rightarrow> 'b result) \<Rightarrow> 'b result" where
  "bind_res r f = (case r of Inl e \<Rightarrow> Inl e | Inr x \<Rightarrow> f x)"

lemma bind_res_simps [simp, result_simps]:
  "bind_res (Inl e) f = Inl e"
  "bind_res (Inr x) f = f x"
  by (simp_all add: bind_res_def)

lemma bind_res_eq_Inr [result_simps]:
  "bind_res r f = Inr y \<longleftrightarrow> (\<exists>x. r = Inr x \<and> f x = Inr y)"
  by (cases r) auto

lemma bind_res_eq_Inl [result_simps]:
  "bind_res r f = Inl e \<longleftrightarrow> r = Inl e \<or> (\<exists>x. r = Inr x \<and> f x = Inl e)"
  by (cases r) auto

lemma isl_bind_res [result_simps]:
  "isl (bind_res r f) \<longleftrightarrow> isl r \<or> (\<exists>x. r = Inr x \<and> isl (f x))"
  by (cases r) auto

text \<open>Mapping a fallible function over a list stops at the first exception.\<close>

fun map_res :: "('a \<Rightarrow> 'b result) \<Rightarrow> 'a list \<Rightarrow> 'b list result" where
  "map_res f [] = Inr []"
| "map_res f (x # xs) =
     bind_res (f x) (\<lambda>y. bind_res (map_res f xs) (\<lambda>ys. Inr (y # ys)))"

lemma map_res_Inr: "(\<And>x. x \<in> set xs \<Longrightarrow> f x = Inr (g x)) \<Longrightarrow> map_res f xs = Inr (map g xs)"
  by (induction xs) auto

lemma map_res_map: "map_res f (map h xs) = map_res (f \<circ> h) xs"
  by (induction xs) simp_all

lemma map_res_nth:
  assumes "length xs = n" and "\<And>i. i < n \<Longrightarrow> f (xs ! i) = Inr (g i)"
  shows "map_res f xs = Inr (map g [0..<n])"
proof -
  have "map_res (f \<circ> (!) xs) [0..<n] = Inr (map g [0..<n])"
    using assms(2) by (intro map_res_Inr) simp
  then show ?thesis unfolding map_res_map [symmetric] using assms(1) map_nth by metis
qed

lemma map_res_length: "map_res f xs = Inr ys \<Longrightarrow> length ys = length xs"
  by (induction xs arbitrary: ys) (auto simp: bind_res_eq_Inr)

section \<open>Python list operations\<close>

text \<open>\<open>xs[:n]\<close>: a negative bound counts from the end.\<close>

definition py_prefix :: "int \<Rightarrow> 'a list \<Rightarrow> 'a list" where
  "py_prefix n xs = take (nat (if 0 \<le> n then n else int (length xs) + n)) xs"

text \<open>\<open>xs[n:]\<close>: a negative bound counts from the end, and one before the start is the start.\<close>

definition py_suffix :: "int \<Rightarrow> 'a list \<Rightarrow> 'a list" where
  "py_suffix n xs = drop (nat (if 0 \<le> n then n else int (length xs) + n)) xs"

text \<open>\<open>xs.pop(i)\<close> for an index in range.\<close>

definition pop_at :: "nat \<Rightarrow> 'a list \<Rightarrow> 'a list" where
  "pop_at i xs = take i xs @ drop (Suc i) xs"

text \<open>\<open>for i in sorted(is, reverse=True): xs.pop(i)\<close>\<close>

definition pop_desc :: "nat list \<Rightarrow> 'a list \<Rightarrow> 'a list" where
  "pop_desc is xs = foldl (\<lambda>ys i. pop_at i ys) xs (rev (sort is))"

lemma py_prefix_nonneg [simp, pylist_simps]: "0 \<le> n \<Longrightarrow> py_prefix n xs = take (nat n) xs"
  by (simp add: py_prefix_def)

lemma py_prefix_is_take: "\<exists>k. py_prefix n xs = take k xs"
  by (auto simp: py_prefix_def)

lemma length_pop_at [pylist_simps]: "i < length xs \<Longrightarrow> length (pop_at i xs) = length xs - 1"
  by (simp add: pop_at_def)

lemma pop_at_nths:
  assumes "i < length xs" and "\<forall>j\<in>A. i < j"
  shows "pop_at i (nths xs (- A)) = nths xs (- insert i A)"
proof -
  let ?p = "take i xs" and ?s = "drop (Suc i) xs"
  have xs: "xs = ?p @ xs ! i # ?s"
    using assms(1) by (rule id_take_nth_drop)
  have len: "length ?p = i" using assms(1) by simp
  have p1: "nths ?p B = ?p" if "\<forall>j<i. j \<in> B" for B
    using that len by (metis nths_all)
  have A1: "\<forall>j<i. j \<in> - A" and A2: "\<forall>j<i. j \<in> - insert i A" and iA: "i \<notin> A"
    using assms(2) by auto
  have eq: "{j. j + length ?p \<in> B} = {j. j + i \<in> B}" for B
    using len by simp
  have l: "nths xs (- A) = ?p @ xs ! i # nths ?s {j. Suc j + i \<in> - A}"
    by (subst xs, subst nths_append, subst nths_Cons)
      (use assms(1) in \<open>simp add: p1 [OF A1] len iA eq min_absorb2\<close>)
  have r: "nths xs (- insert i A) = ?p @ nths ?s {j. Suc j + i \<in> - A}"
    by (subst xs, subst nths_append, subst nths_Cons)
      (use assms(1) in \<open>simp add: p1 [OF A2] len iA eq min_absorb2\<close>)
  show ?thesis
    unfolding l r pop_at_def using len by simp
qed

lemma pop_rev_nths:
  assumes "sorted_wrt (<) is" and "\<forall>i\<in>set is. i < length xs"
  shows "foldl (\<lambda>ys i. pop_at i ys) xs (rev is) = nths xs (- set is)"
  using assms
proof (induction "is")
  case Nil
  then show ?case by (simp add: nths_all)
next
  case (Cons i "is")
  then show ?case
    by (simp add: pop_at_nths)
qed

lemma pop_desc_nths:
  assumes "sorted_wrt (<) is" and "\<forall>i\<in>set is. i < length xs"
  shows "pop_desc is xs = nths xs (- set is)"
proof -
  have "sort is = is"
    using assms(1) by (simp add: sorted_sort_id strict_sorted_imp_sorted)
  then show ?thesis
    unfolding pop_desc_def using assms pop_rev_nths by metis
qed

text \<open>Removing the first \<open>n\<close> elements that satisfy a predicate, the rest in order.\<close>

fun drop_first :: "nat \<Rightarrow> ('a \<Rightarrow> bool) \<Rightarrow> 'a list \<Rightarrow> 'a list" where
  "drop_first 0 P xs = xs"
| "drop_first (Suc n) P [] = []"
| "drop_first (Suc n) P (x # xs) =
     (if P x then drop_first n P xs else x # drop_first (Suc n) P xs)"

lemma drop_first_Nil [simp]: "drop_first n P [] = []"
  by (cases n) simp_all

lemma mset_drop_first: "mset (take n (filter P xs)) + mset (drop_first n P xs) = mset xs"
  by (induction n P xs rule: drop_first.induct) auto

lemma drop_first_none: "\<forall>x\<in>set xs. \<not> P x \<Longrightarrow> drop_first n P xs = xs"
  by (induction n P xs rule: drop_first.induct) auto

lemma filter_not_drop_first: "filter (\<lambda>x. \<not> P x) (drop_first n P xs) = filter (\<lambda>x. \<not> P x) xs"
  by (induction n P xs rule: drop_first.induct) auto

lemma filter_drop_first: "filter P (drop_first n P xs) = drop n (filter P xs)"
  by (induction n P xs rule: drop_first.induct) auto

lemma set_drop_first: "set (drop_first n P xs) \<subseteq> set xs"
  by (induction n P xs rule: drop_first.induct) auto

lemma length_drop_first: "length (drop_first n P xs) = length xs - length (take n (filter P xs))"
proof -
  have "size (mset (take n (filter P xs)) + mset (drop_first n P xs)) = size (mset xs)"
    by (simp only: mset_drop_first)
  then show ?thesis
    by (simp del: length_take)
qed

text \<open>Selecting by an index list computed with a filter is filtering the list itself.\<close>

definition matching :: "('a \<Rightarrow> bool) \<Rightarrow> 'a list \<Rightarrow> nat list" where
  "matching P xs = filter (\<lambda>i. P (xs ! i)) [0..<length xs]"

lemma matching_Cons:
  "matching P (x # xs) = (if P x then 0 # map Suc (matching P xs) else map Suc (matching P xs))"
proof -
  have "[0..<length (x # xs)] = 0 # map Suc [0..<length xs]"
    by (simp add: map_Suc_upt upt_conv_Cons del: upt_Suc)
  then show ?thesis
    by (simp add: matching_def filter_map comp_def)
qed

lemma matching_Nil [simp]: "matching P [] = []"
  by (simp add: matching_def)

lemma set_matching [pylist_simps]: "set (matching P xs) = {i. i < length xs \<and> P (xs ! i)}"
  by (auto simp: matching_def)

lemma sorted_matching: "sorted_wrt (<) (matching P xs)"
  by (simp add: matching_def sorted_wrt_filter)

lemma map_nth_matching [pylist_simps]: "map ((!) xs) (matching P xs) = filter P xs"
  by (induction xs) (simp_all add: matching_Cons comp_def)

lemma length_matching [pylist_simps]: "length (matching P xs) = length (filter P xs)"
  by (metis length_map map_nth_matching)

lemma map_nth_take_matching [pylist_simps]:
  "map ((!) xs) (take n (matching P xs)) = take n (filter P xs)"
  by (metis map_nth_matching take_map)

lemma nths_take_matching [pylist_simps]:
  "nths xs (- set (take n (matching P xs))) = drop_first n P xs"
proof (induction xs arbitrary: n)
  case Nil
  then show ?case by simp
next
  case (Cons x xs)
  have shift: "{j. Suc j \<in> - (Suc ` S)} = - S" for S
    by auto
  show ?case
  proof (cases n)
    case 0
    then show ?thesis by (simp add: nths_all)
  next
    case (Suc m)
    show ?thesis
    proof (cases "P x")
      case True
      have "{j. Suc j \<in> - insert 0 (Suc ` S)} = - S" for S
        by auto
      with True Suc Cons [of m] show ?thesis
        by (simp add: matching_Cons nths_Cons take_map)
    next
      case False
      let ?S = "set (take n (matching P xs))"
      have "- set (take n (matching P (x # xs))) = - (Suc ` ?S)"
        using False by (simp add: matching_Cons take_map)
      moreover have "nths (x # xs) (- (Suc ` ?S)) = x # nths xs (- ?S)"
        unfolding nths_Cons shift by auto
      ultimately show ?thesis
        using Suc False Cons [of n] by simp
    qed
  qed
qed

lemma find_SomeD: "find P xs = Some x \<Longrightarrow> x \<in> set xs \<and> P x"
  by (induction xs) (auto split: if_splits)

text \<open>Positions of a permutation of \<open>[0..<n]\<close>.\<close>

lemma distinct_set_upt_mset: "distinct xs \<Longrightarrow> set xs = {..<n} \<Longrightarrow> mset xs = mset [0..<n]"
  by (metis atLeast_upt distinct_upt set_eq_iff_mset_eq_distinct)

lemma mset_upt_distinct: "mset xs = mset [0..<n] \<Longrightarrow> distinct xs \<and> set xs = {..<n} \<and> length xs = n"
  by (metis atLeast_upt diff_zero distinct_upt length_upt mset_eq_imp_distinct_iff mset_eq_length
      mset_eq_setD)

lemma mset_take_out:
  assumes "distinct xs" and "distinct ys" and "set xs \<subseteq> set ys"
  shows "mset xs + mset (filter (\<lambda>y. y \<notin> set xs) ys) = mset ys"
proof -
  let ?zs = "xs @ filter (\<lambda>y. y \<notin> set xs) ys"
  have "distinct ?zs" and "set ?zs = set ys"
    using assms by auto
  then have "mset ?zs = mset ys"
    using assms(2) set_eq_iff_mset_eq_distinct by blast
  then show ?thesis by simp
qed

lemma find_exists: "x \<in> set xs \<Longrightarrow> P x \<Longrightarrow> \<exists>y. find P xs = Some y"
  by (induction xs) auto

lemma sum_list_map_mset: "mset xs = mset ys \<Longrightarrow> sum_list (map f xs) = sum_list (map f ys)"
  for f :: "'a \<Rightarrow> 'b::comm_monoid_add"
  by (metis mset_map sum_mset_sum_list)

lemma distinct_concat_unique:
  assumes "distinct (concat xss)" and "x \<in> set (concat xss)"
  shows "\<exists>!k. k < length xss \<and> x \<in> set (xss ! k)"
  using assms
proof (induction xss)
  case Nil
  then show ?case by simp
next
  case (Cons xs xss)
  show ?case
  proof (cases "x \<in> set xs")
    case True
    then have "x \<notin> set (xss ! k)" if "k < length xss" for k
      using Cons.prems that nth_mem by fastforce
    with True show ?thesis
      by (intro ex1I [of _ 0]) (auto simp: nth_Cons split: nat.splits)
  next
    case False
    then obtain k where k: "k < length xss \<and> x \<in> set (xss ! k)"
      "\<And>j. j < length xss \<and> x \<in> set (xss ! j) \<Longrightarrow> j = k"
      using Cons by auto
    show ?thesis
    proof (rule ex1I [of _ "Suc k"])
      show "Suc k < length (xs # xss) \<and> x \<in> set ((xs # xss) ! Suc k)" using k(1) by simp
      show "j = Suc k" if "j < length (xs # xss) \<and> x \<in> set ((xs # xss) ! j)" for j
        using that False k(2) by (cases j) simp_all
    qed
  qed
qed

lemma distinct_concat_disjoint:
  assumes "distinct (concat xss)" and "i < length xss" and "j < length xss" and "i \<noteq> j"
  shows "set (xss ! i) \<inter> set (xss ! j) = {}"
proof (rule ccontr)
  assume "set (xss ! i) \<inter> set (xss ! j) \<noteq> {}"
  then obtain x where x: "x \<in> set (xss ! i)" "x \<in> set (xss ! j)" by blast
  then have "x \<in> set (concat xss)" using assms(2) by auto
  from distinct_concat_unique [OF assms(1) this] show False using x assms(2-4) by blast
qed

text \<open>
  \<open>inv = [0] * n; for pos, orig in enumerate(order): inv[orig] = pos\<close>: the inverse of a
  permutation, as the sharding code builds it.
\<close>

definition invert_perm :: "nat \<Rightarrow> nat list \<Rightarrow> nat list" where
  "invert_perm n order = foldl (\<lambda>inv (pos, orig). inv[orig := pos]) (replicate n 0) (enumerate 0 order)"

lemma invert_perm_snoc:
  "invert_perm n (order @ [x]) = (invert_perm n order)[x := length order]"
  by (simp add: invert_perm_def enumerate_append_eq)

lemma length_invert_perm [simp]: "length (invert_perm n order) = n"
  by (induction order rule: rev_induct) (simp_all add: invert_perm_snoc, simp add: invert_perm_def)

lemma invert_perm_nth:
  assumes "distinct order" and "\<forall>i\<in>set order. i < n" and "k < length order"
  shows "invert_perm n order ! (order ! k) = k"
  using assms
proof (induction order arbitrary: k rule: rev_induct)
  case Nil
  then show ?case by simp
next
  case (snoc x order)
  show ?case
  proof (cases "k < length order")
    case True
    then have "order ! k \<noteq> x" using snoc.prems(1) nth_mem by fastforce
    with True snoc show ?thesis by (simp add: invert_perm_snoc nth_append)
  next
    case False
    with snoc.prems show ?thesis by (simp add: invert_perm_snoc nth_append)
  qed
qed

text \<open>Reading a permuted list through the inverse permutation gives back the list.\<close>

lemma invert_perm_restores:
  assumes "mset order = mset [0..<length xs]"
  shows "map ((!) (map ((!) xs) order)) (invert_perm (length xs) order) = xs"
proof (rule nth_equalityI)
  note p = mset_upt_distinct [OF assms]
  let ?inv = "invert_perm (length xs) order"
  show "length (map ((!) (map ((!) xs) order)) ?inv) = length xs" by simp
  fix i assume "i < length (map ((!) (map ((!) xs) order)) ?inv)"
  then have i: "i < length xs" by simp
  then have "i \<in> set order" using p by simp
  then obtain k where k: "k < length order" "i = order ! k" by (metis in_set_conv_nth)
  then have "?inv ! i = k" using p by (simp add: invert_perm_nth)
  then show "map ((!) (map ((!) xs) order)) ?inv ! i = xs ! i"
    using k(1) i k(2) [symmetric] by simp
qed

lemma mset_invert_perm:
  assumes "mset order = mset [0..<n]"
  shows "mset (invert_perm n order) = mset [0..<n]"
proof -
  note p = mset_upt_distinct [OF assms]
  let ?inv = "invert_perm n order"
  have "map ((!) ?inv) order = [0..<n]"
    by (rule nth_equalityI) (use p invert_perm_nth in auto)
  then have "set [0..<n] \<subseteq> set ?inv" using p
    by (metis (no_types, lifting) image_subset_iff length_invert_perm lessThan_iff list.set_map nth_mem)
  then have "{..<n} \<subseteq> set ?inv" by (simp add: atLeast0LessThan)
  then have "card {..<n} \<le> card (set ?inv)" by (intro card_mono) auto
  then have d: "distinct ?inv"
    by (metis card_distinct card_length card_lessThan le_antisym length_invert_perm)
  have "set ?inv = {..<n}"
    using \<open>{..<n} \<subseteq> set ?inv\<close> d
    by (metis card_lessThan card_subset_eq distinct_card length_invert_perm List.finite_set)
  with d show ?thesis by (rule distinct_set_upt_mset)
qed

section \<open>Python dicts\<close>

text \<open>
  A dict whose iteration order matters is an association list in insertion order: assignment
  keeps the position of an existing key and appends a new one; \<open>pop(key, None)\<close> removes it.
\<close>

type_synonym 'v dict = "(string \<times> 'v) list"

fun dict_set :: "'k \<Rightarrow> 'v \<Rightarrow> ('k \<times> 'v) list \<Rightarrow> ('k \<times> 'v) list" where
  "dict_set key value [] = [(key, value)]"
| "dict_set key value ((k, v) # data) =
     (if k = key then (k, value) # data else (k, v) # dict_set key value data)"

definition dict_pop :: "'k \<Rightarrow> ('k \<times> 'v) list \<Rightarrow> ('k \<times> 'v) list" where
  "dict_pop key = filter (\<lambda>(k, _). k \<noteq> key)"

definition dict_update :: "('k \<times> 'v) list \<Rightarrow> ('k \<times> 'v) list \<Rightarrow> ('k \<times> 'v) list" where
  "dict_update d other = foldl (\<lambda>acc (k, v). dict_set k v acc) d other"

lemma map_of_dict_set [simp]: "map_of (dict_set k v d) = (map_of d)(k \<mapsto> v)"
  by (induction d) auto

lemma keys_dict_set [simp]: "fst ` set (dict_set k v d) = insert k (fst ` set d)"
proof (induction d)
  case (Cons x d)
  obtain a b where "x = (a, b)" by fastforce
  with Cons show ?case by (cases "a = k") (simp_all add: insert_commute)
qed simp

lemma distinct_dict_set: "distinct (map fst d) \<Longrightarrow> distinct (map fst (dict_set k v d))"
proof (induction d)
  case (Cons x d)
  obtain a b where "x = (a, b)" by fastforce
  with Cons show ?case by (cases "a = k") simp_all
qed simp

lemma map_of_dict_pop [simp]: "map_of (dict_pop key d) = (map_of d)(key := None)"
  by (induction d) (auto simp: dict_pop_def)

lemma keys_dict_pop [simp]: "fst ` set (dict_pop key d) = fst ` set d - {key}"
  by (force simp: dict_pop_def)

lemma distinct_dict_pop: "distinct (map fst d) \<Longrightarrow> distinct (map fst (dict_pop key d))"
  unfolding dict_pop_def by (induction d) auto

section \<open>Slice assignment\<close>

text \<open>\<open>row[off : off + len] = x\<close> on a tensor row: the slice stops at the end of the row.\<close>

definition assign_span :: "'a list \<Rightarrow> nat \<Rightarrow> nat \<Rightarrow> 'a \<Rightarrow> 'a list" where
  "assign_span row off len x =
     take off row @ replicate (min len (length row - off)) x @ drop (off + len) row"

lemma assign_span_mid:
  "length seg = n \<Longrightarrow> assign_span (pre @ seg @ post) (length pre) n x = pre @ replicate n x @ post"
  by (simp add: assign_span_def)

section \<open>Lists built by appending\<close>

text \<open>A loop that appends an element computed from the elements so far: every element is what it was when it was appended.\<close>

lemma fold_append_build:
  assumes "a \<le> b" and "r = fold (\<lambda>i acc. acc @ [f i acc]) [a..<b] init" and "length init = a"
  shows "length r = b \<and> take a r = init \<and> (\<forall>i. a \<le> i \<and> i < b \<longrightarrow> r ! i = f i (take i r))"
  using assms(1,2)
proof (induction b arbitrary: r rule: dec_induct)
  case base
  then show ?case using assms(3) by (simp add: not_less [symmetric])
next
  case (step b)
  then show ?case by (auto simp: nth_append less_Suc_eq)
qed

end
