(* ===== verification/Replay_Buffer.thy ===== *)
theory Replay_Buffer
  imports Prelude
begin

text \<open>
  The replay buffer of async GRPO, \<^verbatim>\<open>algorithms/async_utils/replay_buffer.py\<close>
  (class \<open>ReplayBufferImpl\<close>). One entry is a per-prompt trajectory group tagged with the
  weight version that generated it and the training step it is meant for. The three Python
  lists are three fields of a record; every public method holds the lock for its whole body,
  so a method is one atomic state transformer. Exceptions are values of \<open>py_error\<close>;
  a method that raises does so before it writes, so the state it leaves is the state it found.

  The theory proves the representation invariant, a functional refinement of the buffer by a
  list of entries, conservation of entries over every sequence of operations, and the
  checkpoint round trip. The locale \<open>trajectory_queue\<close> is the contract the trainer and
  the collector rely on (\<^verbatim>\<open>algorithms/async_utils/interfaces.py\<close>).
\<close>

section \<open>State\<close>

text \<open>A trajectory is a Python dict with string keys; its values are not inspected.\<close>

type_synonym 'v trajectory = "string \<rightharpoonup> 'v"

record 'v replay_buffer =
  max_size :: int
  trajectories :: "'v trajectory list"
  trajectory_versions :: "int list"
  target_weight_versions :: "int list"
  last_target_weight_already_generated :: int

datatype add_status = Success | Full

text \<open>\<open>ReplayBufferImpl.__init__\<close>\<close>

definition rb_init :: "int \<Rightarrow> 'v replay_buffer result" where
  "rb_init capacity =
     (if capacity \<le> 0 then Inl ValueError
      else Inr \<lparr>max_size = capacity, trajectories = [], trajectory_versions = [],
                target_weight_versions = [], last_target_weight_already_generated = -1\<rparr>)"

section \<open>Operations\<close>

definition rb_add ::
  "'v replay_buffer \<Rightarrow> 'v trajectory \<Rightarrow> int \<Rightarrow> int \<Rightarrow> add_status \<times> 'v replay_buffer" where
  "rb_add b trajectory weight_version target_weight_version =
     (if int (length (trajectories b)) \<ge> max_size b then (Full, b)
      else (Success,
        b\<lparr>trajectories := trajectories b @ [trajectory],
          trajectory_versions := trajectory_versions b @ [weight_version],
          target_weight_versions := target_weight_versions b @ [target_weight_version],
          last_target_weight_already_generated :=
            max (last_target_weight_already_generated b) target_weight_version\<rparr>))"

text \<open>
  \<open>sample\<close>: the age window is checked over the whole buffer first (a stale entry raises),
  then the entries inside the window are counted, then those meant for the current step. The
  first \<open>num_prompt_groups\<close> of the latter are returned and popped, highest index first.
  The average age divides by the number of samples, so an empty selection raises.
\<close>

definition min_valid_version :: "int \<Rightarrow> int \<Rightarrow> int" where
  "min_valid_version current_weight_version max_age_steps =
     max 0 (current_weight_version - max_age_steps)"

definition in_age_window :: "int \<Rightarrow> int \<Rightarrow> int \<Rightarrow> bool" where
  "in_age_window current_weight_version max_age_steps v \<longleftrightarrow>
     min_valid_version current_weight_version max_age_steps \<le> v \<and> v \<le> current_weight_version"

definition rb_sample ::
  "'v replay_buffer \<Rightarrow> int \<Rightarrow> int \<Rightarrow> int
     \<Rightarrow> (('v trajectory list \<times> rat) option \<times> 'v replay_buffer) result" where
  "rb_sample b num_prompt_groups current_weight_version max_age_steps =
     (if trajectories b = [] then Inr (None, b)
      else
        if filter (\<lambda>v. v < min_valid_version current_weight_version max_age_steps)
             (trajectory_versions b) \<noteq> []
        then Inl ValueError
        else
          let valid_indices =
                matching (in_age_window current_weight_version max_age_steps)
                  (trajectory_versions b)
          in
          if valid_indices = [] then Inr (None, b)
          else if int (length valid_indices) < num_prompt_groups then Inr (None, b)
          else
            let intended_indices =
                  filter (\<lambda>i. target_weight_versions b ! i = current_weight_version)
                    valid_indices
            in
            if int (length intended_indices) < num_prompt_groups then Inr (None, b)
            else
              let selected = py_prefix num_prompt_groups intended_indices;
                  sampled_weights = map ((!) (trajectory_versions b)) selected
              in
              if sampled_weights = [] then Inl ZeroDivisionError
              else
                Inr (Some (map ((!) (trajectories b)) selected,
                           of_int current_weight_version
                             - of_int (sum_list sampled_weights)
                               / of_nat (length sampled_weights)),
                     b\<lparr>trajectories := pop_desc selected (trajectories b),
                       trajectory_versions := pop_desc selected (trajectory_versions b),
                       target_weight_versions :=
                         pop_desc selected (target_weight_versions b)\<rparr>))"

definition rb_evict :: "'v replay_buffer \<Rightarrow> 'v replay_buffer" where
  "rb_evict b = b"

definition rb_size :: "'v replay_buffer \<Rightarrow> nat" where
  "rb_size b = length (trajectories b)"

definition rb_clear :: "'v replay_buffer \<Rightarrow> 'v replay_buffer" where
  "rb_clear b =
     b\<lparr>trajectories := [], trajectory_versions := [], target_weight_versions := []\<rparr>"

definition rb_existing_target_weights :: "'v replay_buffer \<Rightarrow> int set" where
  "rb_existing_target_weights b = set (target_weight_versions b)"

section \<open>Persistence\<close>

datatype 'v rb_state =
    Not_Persisted (np_max_size: int) (np_discarded_groups: nat)
  | Persisted (ps_max_size: int) (ps_trajectories: "'v trajectory list")
      (ps_trajectory_versions: "int list") (ps_target_weight_versions: "int list")
      (ps_last_target: int)

definition dataplane_backed :: "'v replay_buffer \<Rightarrow> bool" where
  "dataplane_backed b =
     list_ex (\<lambda>t. t ''meta'' \<noteq> None \<and> t ''driver_carry'' \<noteq> None) (trajectories b)"

definition rb_state_dict :: "'v replay_buffer \<Rightarrow> 'v rb_state" where
  "rb_state_dict b =
     (if dataplane_backed b then Not_Persisted (max_size b) (length (trajectories b))
      else Persisted (max_size b) (trajectories b) (trajectory_versions b)
             (target_weight_versions b) (last_target_weight_already_generated b))"

fun rb_load_state_dict :: "'v replay_buffer \<Rightarrow> 'v rb_state \<Rightarrow> bool \<times> 'v replay_buffer" where
  "rb_load_state_dict b (Not_Persisted m d) = (False, b)"
| "rb_load_state_dict b (Persisted m ts vs gs l) =
     (if int (length ts) > max_size b then (False, b)
      else (True, b\<lparr>trajectories := ts, trajectory_versions := vs,
                    target_weight_versions := gs,
                    last_target_weight_already_generated := l\<rparr>))"

section \<open>Abstraction and invariant\<close>

type_synonym 'v entry = "'v trajectory \<times> int \<times> int"

abbreviation e_version :: "'v entry \<Rightarrow> int" where
  "e_version e \<equiv> fst (snd e)"

abbreviation e_target :: "'v entry \<Rightarrow> int" where
  "e_target e \<equiv> snd (snd e)"

definition rb_entries :: "'v replay_buffer \<Rightarrow> 'v entry list" where
  "rb_entries b = zip (trajectories b) (zip (trajectory_versions b) (target_weight_versions b))"

definition rb_wf :: "'v replay_buffer \<Rightarrow> bool" where
  "rb_wf b \<longleftrightarrow>
     0 < max_size b \<and>
     length (trajectory_versions b) = length (trajectories b) \<and>
     length (target_weight_versions b) = length (trajectories b) \<and>
     int (length (trajectories b)) \<le> max_size b \<and>
     (\<forall>g\<in>set (target_weight_versions b). g \<le> last_target_weight_already_generated b)"

text \<open>What a sample takes: the entries inside the age window meant for the current step.\<close>

definition sampleable :: "int \<Rightarrow> int \<Rightarrow> 'v entry \<Rightarrow> bool" where
  "sampleable cur age e \<longleftrightarrow>
     in_age_window cur age (e_version e) \<and> e_target e = cur"

definition sample_entries ::
  "'v entry list \<Rightarrow> nat \<Rightarrow> int \<Rightarrow> int \<Rightarrow> ('v entry list \<times> 'v entry list) option result" where
  "sample_entries es n cur age =
     (if \<exists>e\<in>set es. e_version e < min_valid_version cur age then Inl ValueError
      else if n \<le> length (filter (sampleable cur age) es)
      then Inr (Some (take n (filter (sampleable cur age) es),
                      drop_first n (sampleable cur age) es))
      else Inr None)"

lemma rb_init_wf: "rb_init n = Inr b \<Longrightarrow> rb_wf b \<and> rb_entries b = []"
  by (auto simp: rb_init_def rb_wf_def rb_entries_def split: if_splits)

lemma rb_wf_lengths:
  assumes "rb_wf b"
  shows "length (trajectory_versions b) = length (trajectories b)"
    and "length (target_weight_versions b) = length (trajectories b)"
    and "length (rb_entries b) = length (trajectories b)"
  using assms by (simp_all add: rb_wf_def rb_entries_def)

lemma rb_entries_projections:
  assumes "rb_wf b"
  shows "map fst (rb_entries b) = trajectories b"
    and "map e_version (rb_entries b) = trajectory_versions b"
    and "map e_target (rb_entries b) = target_weight_versions b"
  using rb_wf_lengths [OF assms]
  by (simp_all add: rb_entries_def flip: map_map [unfolded comp_def])

lemma rb_entries_Nil: "rb_wf b \<Longrightarrow> rb_entries b = [] \<longleftrightarrow> trajectories b = []"
  by (metis length_0_conv rb_wf_lengths(3))

lemma rb_versions_ex:
  "rb_wf b \<Longrightarrow> (filter (\<lambda>v. v < m) (trajectory_versions b) \<noteq> [])
     \<longleftrightarrow> (\<exists>e\<in>set (rb_entries b). e_version e < m)"
  by (subst rb_entries_projections(2) [symmetric]) (auto simp: filter_empty_conv)

text \<open>The two index filters of \<open>sample\<close> together are one filter over the entries.\<close>

lemma matching_map: "matching P (map f xs) = matching (\<lambda>x. P (f x)) xs"
  by (auto simp: matching_def intro: filter_cong)

lemma intended_matching:
  assumes "rb_wf b"
  shows "filter (\<lambda>i. target_weight_versions b ! i = cur)
           (matching (in_age_window cur age) (trajectory_versions b))
         = matching (sampleable cur age) (rb_entries b)"
proof -
  let ?es = "rb_entries b"
  have "target_weight_versions b ! i = e_target (?es ! i)" if "i < length ?es" for i
    by (metis nth_map rb_entries_projections(3) [OF assms] that)
  then show ?thesis
    unfolding rb_entries_projections(2) [OF assms, symmetric] matching_map
    by (auto simp: matching_def sampleable_def intro!: filter_cong)
qed

lemma valid_matching_length:
  assumes "rb_wf b"
  shows "length (filter (sampleable cur age) (rb_entries b))
     \<le> length (matching (in_age_window cur age) (trajectory_versions b))"
  by (metis assms intended_matching length_filter_le length_matching)

lemma nths_map: "nths (map f xs) A = map f (nths xs A)"
  by (induction xs arbitrary: A) (simp_all add: nths_Cons)

lemma pop_desc_take_matching:
  "pop_desc (take n (matching P es)) (map f es) = map f (drop_first n P es)"
proof -
  have "sorted_wrt (<) (take n (matching P es))"
    by (rule sorted_wrt_take [OF sorted_matching])
  moreover have "\<forall>i\<in>set (take n (matching P es)). i < length (map f es)"
    using in_set_takeD [of _ n "matching P es"] by (fastforce simp: set_matching)
  ultimately have "pop_desc (take n (matching P es)) (map f es)
      = nths (map f es) (- set (take n (matching P es)))"
    by (rule pop_desc_nths)
  then show ?thesis
    by (simp add: nths_map nths_take_matching)
qed


section \<open>Every operation refines the list of entries\<close>

lemma rb_add_refines:
  assumes "rb_wf b"
  shows "rb_wf (snd (rb_add b t v g))"
    and "rb_entries (snd (rb_add b t v g)) =
      (if int (rb_size b) < max_size b then rb_entries b @ [(t, v, g)] else rb_entries b)"
    and "fst (rb_add b t v g) = (if int (rb_size b) < max_size b then Success else Full)"
  using assms by (auto simp: rb_add_def rb_wf_def rb_entries_def rb_size_def)

lemma rb_clear_refines:
  assumes "rb_wf b"
  shows "rb_wf (rb_clear b)" and "rb_entries (rb_clear b) = []"
  using assms by (auto simp: rb_clear_def rb_wf_def rb_entries_def)

text \<open>The buffer after a successful sample, given as a list of kept entries.\<close>

lemma rb_sample_result:
  fixes b :: "'v replay_buffer" and n cur age :: int
  assumes wf: "rb_wf b" and n: "0 < n"
  defines "P \<equiv> sampleable cur age :: 'v entry \<Rightarrow> bool"
  assumes fresh: "\<not> (\<exists>e\<in>set (rb_entries b). e_version e < min_valid_version cur age)"
    and enough: "nat n \<le> length (filter P (rb_entries b))"
  shows "rb_sample b n cur age =
    Inr (Some (map fst (take (nat n) (filter P (rb_entries b))),
               of_int cur
                 - of_int (sum_list (map e_version (take (nat n) (filter P (rb_entries b)))))
                   / of_nat (nat n)),
         b\<lparr>trajectories := map fst (drop_first (nat n) P (rb_entries b)),
           trajectory_versions := map e_version (drop_first (nat n) P (rb_entries b)),
           target_weight_versions := map e_target (drop_first (nat n) P (rb_entries b))\<rparr>)"
proof -
  let ?es = "rb_entries b"
  let ?I = "matching P ?es"
  let ?V = "matching (in_age_window cur age) (trajectory_versions b)"
  have lenI: "length ?I = length (filter P ?es)"
    by (rule length_matching)
  have sel: "py_prefix n ?I = take (nat n) ?I"
    using n by simp
  have "rb_entries b \<noteq> []"
    using enough n by auto
  then have ne: "trajectories b \<noteq> []"
    using rb_entries_Nil [OF wf] by simp
  have V: "nat n \<le> length ?V"
    using enough valid_matching_length [OF wf, of cur age] unfolding P_def by linarith
  then have VN: "?V \<noteq> []"
    using n by auto
  have int_le: "\<not> int (length ?V) < n" "\<not> int (length ?I) < n"
    using V enough lenI n by linarith+
  have pick: "map ((!) (map f ?es)) (take (nat n) ?I) = map f (take (nat n) (filter P ?es))"
    for f :: "'v entry \<Rightarrow> 'b"
  proof -
    have "map ((!) (map f ?es)) (take (nat n) ?I) = map f (map ((!) ?es) (take (nat n) ?I))"
      using in_set_takeD [of _ "nat n" "matching P ?es"] by (fastforce simp: set_matching)
    then show ?thesis by (simp only: map_nth_take_matching)
  qed
  have len: "length (take (nat n) (filter P ?es)) = nat n"
    using enough by simp
  have nonempty: "map e_version (take (nat n) (filter P ?es)) \<noteq> []"
    using len n by auto
  note proj = rb_entries_projections [OF wf]
  show ?thesis
    unfolding rb_sample_def Let_def
    using ne fresh VN int_le nonempty len
      pick [of fst] pick [of e_version]
      pop_desc_take_matching [of "nat n" P ?es fst]
      pop_desc_take_matching [of "nat n" P ?es e_version]
      pop_desc_take_matching [of "nat n" P ?es e_target]
    by (simp add: rb_versions_ex [OF wf] intended_matching [OF wf] sel proj flip: P_def)
qed

lemma rb_sample_None:
  assumes wf: "rb_wf b" and n: "0 < n"
    and fresh: "\<not> (\<exists>e\<in>set (rb_entries b). e_version e < min_valid_version cur age)"
    and few: "length (filter (sampleable cur age) (rb_entries b)) < nat n"
  shows "rb_sample b n cur age = Inr (None, b)"
proof -
  have "int (length (matching (sampleable cur age) (rb_entries b))) < n"
    using few n by (simp add: length_matching)
  then show ?thesis
    unfolding rb_sample_def Let_def
    using fresh by (simp add: rb_versions_ex [OF wf] intended_matching [OF wf])
qed

lemma rb_sample_stale:
  assumes wf: "rb_wf b" and stale: "\<exists>e\<in>set (rb_entries b). e_version e < min_valid_version cur age"
  shows "rb_sample b n cur age = Inl ValueError"
proof -
  have "trajectories b \<noteq> []"
    using stale rb_entries_Nil [OF wf] by force
  then show ?thesis
    unfolding rb_sample_def Let_def using stale by (simp add: rb_versions_ex [OF wf])
qed

text \<open>A buffer rebuilt from a list of kept entries is well formed and holds those entries.\<close>

lemma rb_rebuild:
  fixes b :: "'v replay_buffer" and es :: "'v entry list"
  assumes "rb_wf b" and "set es \<subseteq> set (rb_entries b)" and "length es \<le> length (rb_entries b)"
  defines "b' \<equiv> b\<lparr>trajectories := map fst es, trajectory_versions := map e_version es,
              target_weight_versions := map e_target es\<rparr>"
  shows "rb_wf b'" and "rb_entries b' = es"
proof -
  have "e_target ` set es \<subseteq> e_target ` set (rb_entries b)"
    using assms(2) by blast
  also have "\<dots> = set (target_weight_versions b)"
    by (simp flip: rb_entries_projections(3) [OF assms(1)])
  finally have "\<forall>g\<in>e_target ` set es. g \<le> last_target_weight_already_generated b"
    using assms(1) by (auto simp: rb_wf_def)
  moreover have "int (length es) \<le> max_size b"
    using assms(1,3) rb_wf_lengths(3) [OF assms(1)] by (simp add: rb_wf_def)
  ultimately show "rb_wf b'"
    using assms(1) by (simp add: rb_wf_def b'_def)
  show "rb_entries b' = es"
    by (simp add: rb_entries_def b'_def zip_map_map zip_same_conv_map) (simp add: map_idI)
qed

lemma rb_sample_rebuild:
  fixes b :: "'v replay_buffer" and n :: nat and cur age :: int
  assumes "rb_wf b"
  defines "k \<equiv> drop_first n (sampleable cur age) (rb_entries b)"
  defines "b' \<equiv> b\<lparr>trajectories := map fst k, trajectory_versions := map e_version k,
              target_weight_versions := map e_target k\<rparr>"
  shows "rb_wf b'" and "rb_entries b' = k"
  unfolding b'_def k_def
  by (rule rb_rebuild [OF assms(1) set_drop_first], simp add: length_drop_first)+

lemma rb_sample_cases [consumes 2, case_names stale none some]:
  assumes wf: "rb_wf b" and n: "0 < n"
  obtains "rb_sample b n cur age = Inl ValueError"
      "sample_entries (rb_entries b) (nat n) cur age = Inl ValueError"
  | "rb_sample b n cur age = Inr (None, b)"
      "sample_entries (rb_entries b) (nat n) cur age = Inr None"
  | avg b' where "rb_sample b n cur age =
        Inr (Some (map fst (take (nat n) (filter (sampleable cur age) (rb_entries b))), avg), b')"
      "sample_entries (rb_entries b) (nat n) cur age =
        Inr (Some (take (nat n) (filter (sampleable cur age) (rb_entries b)), rb_entries b'))"
      "rb_wf b'" "rb_entries b' = drop_first (nat n) (sampleable cur age) (rb_entries b)"
      "max_size b' = max_size b"
proof (cases "\<exists>e\<in>set (rb_entries b). e_version e < min_valid_version cur age")
  case True
  with that(1) show ?thesis
    using rb_sample_stale [OF wf True] by (auto simp: sample_entries_def)
next
  case fresh: False
  show ?thesis
  proof (cases "nat n \<le> length (filter (sampleable cur age) (rb_entries b))")
    case True
    note res = rb_sample_result [OF wf n fresh True]
    show ?thesis
      by (rule that(3) [OF res])
        (use fresh True in \<open>simp_all add: sample_entries_def rb_sample_rebuild [OF wf]\<close>)
  next
    case False
    with fresh that(2) show ?thesis
      using rb_sample_None [OF wf n fresh] by (auto simp: sample_entries_def)
  qed
qed

section \<open>The queue contract and its clients\<close>

text \<open>
  The operations a client performs on a queue of trajectory groups, and the run of a
  sequence of them. The run keeps three logs: the groups whose \<open>add\<close> succeeded, the
  groups handed out by \<open>sample\<close>, and the groups dropped by \<open>clear\<close>.
\<close>

datatype 'v rb_op =
    Add "'v trajectory" int int
  | Sample int int int
  | Clear

fun sample_size_pos :: "'v rb_op \<Rightarrow> bool" where
  "sample_size_pos (Sample n cur age) = (0 < n)"
| "sample_size_pos op = True"

record 'v queue_log =
  added :: "'v trajectory list"
  consumed :: "'v trajectory list"
  dropped :: "'v trajectory list"

definition empty_log :: "'v queue_log" where
  "empty_log = \<lparr>added = [], consumed = [], dropped = []\<rparr>"

fun queue_step ::
  "('q \<Rightarrow> 'v trajectory \<Rightarrow> int \<Rightarrow> int \<Rightarrow> add_status \<times> 'q)
     \<Rightarrow> ('q \<Rightarrow> int \<Rightarrow> int \<Rightarrow> int \<Rightarrow> (('v trajectory list \<times> rat) option \<times> 'q) result)
     \<Rightarrow> ('q \<Rightarrow> 'q) \<Rightarrow> ('q \<Rightarrow> 'v entry list)
     \<Rightarrow> 'q \<times> 'v queue_log \<Rightarrow> 'v rb_op \<Rightarrow> 'q \<times> 'v queue_log" where
  "queue_step add sample clear entries (q, l) (Add t v g) =
     (case add q t v g of
        (Success, q') \<Rightarrow> (q', l\<lparr>added := added l @ [t]\<rparr>)
      | (Full, q') \<Rightarrow> (q', l))"
| "queue_step add sample clear entries (q, l) (Sample n cur age) =
     (case sample q n cur age of
        Inl e \<Rightarrow> (q, l)
      | Inr (None, q') \<Rightarrow> (q', l)
      | Inr (Some (ts, a), q') \<Rightarrow> (q', l\<lparr>consumed := consumed l @ ts\<rparr>))"
| "queue_step add sample clear entries (q, l) Clear =
     (clear q, l\<lparr>dropped := dropped l @ map fst (entries q)\<rparr>)"

definition queue_run ::
  "('q \<Rightarrow> 'v trajectory \<Rightarrow> int \<Rightarrow> int \<Rightarrow> add_status \<times> 'q)
     \<Rightarrow> ('q \<Rightarrow> int \<Rightarrow> int \<Rightarrow> int \<Rightarrow> (('v trajectory list \<times> rat) option \<times> 'q) result)
     \<Rightarrow> ('q \<Rightarrow> 'q) \<Rightarrow> ('q \<Rightarrow> 'v entry list)
     \<Rightarrow> 'q \<times> 'v queue_log \<Rightarrow> 'v rb_op list \<Rightarrow> 'q \<times> 'v queue_log" where
  "queue_run add sample clear entries = foldl (queue_step add sample clear entries)"

text \<open>Groups in the queue plus groups that left it are the groups that came in.\<close>

definition balanced :: "('q \<Rightarrow> 'v entry list) \<Rightarrow> 'q \<times> 'v queue_log \<Rightarrow> 'v trajectory multiset \<Rightarrow> bool" where
  "balanced entries ql start \<longleftrightarrow>
     start + mset (added (snd ql)) =
       mset (map fst (entries (fst ql))) + mset (consumed (snd ql)) + mset (dropped (snd ql))"

lemma sample_entries_mset:
  "sample_entries es n cur age = Inr (Some (xs, ys)) \<Longrightarrow> mset xs + mset ys = mset es"
  using mset_drop_first [of n "sampleable cur age" es]
  by (auto simp: sample_entries_def split: if_splits)

locale trajectory_queue =
  fixes add :: "'q \<Rightarrow> 'v trajectory \<Rightarrow> int \<Rightarrow> int \<Rightarrow> add_status \<times> 'q"
    and sample :: "'q \<Rightarrow> int \<Rightarrow> int \<Rightarrow> int \<Rightarrow> (('v trajectory list \<times> rat) option \<times> 'q) result"
    and clear :: "'q \<Rightarrow> 'q"
    and entries :: "'q \<Rightarrow> 'v entry list"
    and inv :: "'q \<Rightarrow> bool"
  assumes add_inv: "inv q \<Longrightarrow> add q t v g = (st, q') \<Longrightarrow> inv q'"
    and add_success: "inv q \<Longrightarrow> add q t v g = (Success, q') \<Longrightarrow> entries q' = entries q @ [(t, v, g)]"
    and add_full: "inv q \<Longrightarrow> add q t v g = (Full, q') \<Longrightarrow> q' = q"
    and sample_some: "inv q \<Longrightarrow> 0 < n \<Longrightarrow> sample q n cur age = Inr (Some (ts, a), q') \<Longrightarrow>
          inv q' \<and> (\<exists>es. ts = map fst es \<and>
            sample_entries (entries q) (nat n) cur age = Inr (Some (es, entries q')))"
    and sample_none: "inv q \<Longrightarrow> 0 < n \<Longrightarrow> sample q n cur age = Inr (None, q') \<Longrightarrow> q' = q"
    and clear_inv: "inv q \<Longrightarrow> inv (clear q)"
    and clear_entries: "inv q \<Longrightarrow> entries (clear q) = []"
begin

lemma sample_some_conserves:
  assumes "inv q" and "0 < n" and "sample q n cur age = Inr (Some (ts, a), q')"
  shows "inv q'"
    and "mset ts + mset (map fst (entries q')) = mset (map fst (entries q))"
proof -
  from sample_some [OF assms] obtain es where iq: "inv q'" and ts: "ts = map fst es"
    and es: "sample_entries (entries q) (nat n) cur age = Inr (Some (es, entries q'))"
    by blast
  show "inv q'" by (rule iq)
  have "mset es + mset (entries q') = mset (entries q)"
    by (rule sample_entries_mset [OF es])
  then have "image_mset fst (mset es + mset (entries q')) = image_mset fst (mset (entries q))"
    by simp
  then show "mset ts + mset (map fst (entries q')) = mset (map fst (entries q))"
    by (simp add: ts)
qed

lemma step_conserves:
  assumes "inv q" and "sample_size_pos op" and "balanced entries (q, l) start"
  shows "inv (fst (queue_step add sample clear entries (q, l) op)) \<and>
    balanced entries (queue_step add sample clear entries (q, l) op) start"
proof (cases op)
  case (Add t v g)
  obtain st q1 where step: "add q t v g = (st, q1)" by fastforce
  then have "inv q1" by (rule add_inv [OF assms(1)])
  with Add step assms(3) show ?thesis
    by (cases st)
      (auto simp: balanced_def add_success [OF assms(1)] union_assoc union_commute union_lcomm
        dest: add_full [OF assms(1)])
next
  case (Sample n cur age)
  then have n: "0 < n" using assms(2) by simp
  show ?thesis
  proof (cases "sample q n cur age")
    case (Inl e)
    then show ?thesis using assms Sample by simp
  next
    case (Inr r)
    show ?thesis
    proof (cases r)
      case (Pair o1 q1)
      show ?thesis
      proof (cases o1)
        case None
        then show ?thesis
          using sample_none [OF assms(1) n] Inr Pair assms Sample by auto
      next
        case (Some p)
        obtain ts a where p: "p = (ts, a)" by fastforce
        note step = Inr [unfolded Pair Some p]
        note c = sample_some_conserves [OF assms(1) n step]
        show ?thesis
          using assms(3) step Sample c
          by (simp add: balanced_def union_assoc union_commute union_lcomm)
      qed
    qed
  qed
next
  case Clear
  then show ?thesis
    using assms
    by (simp add: balanced_def clear_inv clear_entries union_assoc union_commute union_lcomm)
qed

lemma run_conserves:
  assumes "inv (fst ql)" and "list_all sample_size_pos ops" and "balanced entries ql start"
  shows "inv (fst (queue_run add sample clear entries ql ops)) \<and>
    balanced entries (queue_run add sample clear entries ql ops) start"
  using assms
proof (induction ops arbitrary: ql)
  case Nil
  then show ?case by (simp add: queue_run_def)
next
  case (Cons op ops)
  have "inv (fst (queue_step add sample clear entries ql op)) \<and>
      balanced entries (queue_step add sample clear entries ql op) start"
    using step_conserves [of "fst ql" op "snd ql"] Cons.prems by simp
  then show ?case
    using Cons.IH Cons.prems by (simp add: queue_run_def)
qed

end

interpretation rb: trajectory_queue rb_add rb_sample rb_clear rb_entries rb_wf
proof (unfold_locales, goal_cases)
  case (1 q t v g st q')
  then show ?case using rb_add_refines(1) by (metis snd_conv)
next
  case (2 q t v g q')
  then show ?case using rb_add_refines(2,3) [of q t v g] by (auto split: if_splits)
next
  case (3 q t v g q')
  then show ?case by (auto simp: rb_add_def split: if_splits)
next
  case (4 q n cur age ts a q')
  from 4(1,2) show ?case
    by (cases rule: rb_sample_cases [of q n cur age]) (use 4(3) in auto)
next
  case (5 q n cur age q')
  from 5(1,2) show ?case
    by (cases rule: rb_sample_cases [of q n cur age]) (use 5(3) in auto)
next
  case (6 q)
  then show ?case by (rule rb_clear_refines)
next
  case (7 q)
  then show ?case by (rule rb_clear_refines)
qed

section \<open>Properties\<close>

lemma sum_list_bounds:
  fixes lo hi :: int
  assumes "\<forall>x\<in>set xs. lo \<le> f x \<and> f x \<le> hi"
  shows "int (length xs) * lo \<le> sum_list (map f xs)" and "sum_list (map f xs) \<le> int (length xs) * hi"
  using assms by (induction xs) (simp_all add: distrib_right)

lemma mean_bounds:
  fixes lo hi :: int
  assumes "\<forall>x\<in>set xs. lo \<le> f x \<and> f x \<le> hi" and "xs \<noteq> []"
  shows "(of_int lo :: rat) \<le> of_int (sum_list (map f xs)) / of_nat (length xs)"
    and "(of_int (sum_list (map f xs)) / of_nat (length xs) :: rat) \<le> of_int hi"
proof -
  note b = sum_list_bounds [OF assms(1)]
  have pos: "0 < (of_nat (length xs) :: rat)" using assms(2) by simp
  have "(of_int (int (length xs) * lo) :: rat) \<le> of_int (sum_list (map f xs))"
    and "(of_int (sum_list (map f xs)) :: rat) \<le> of_int (int (length xs) * hi)"
    using b by (simp_all only: of_int_le_iff)
  then show "(of_int lo :: rat) \<le> of_int (sum_list (map f xs)) / of_nat (length xs)"
    and "(of_int (sum_list (map f xs)) / of_nat (length xs) :: rat) \<le> of_int hi"
    using pos by (simp_all add: field_simps)
qed

text \<open>C5: On a well-formed buffer and a positive group count, \<open>sample\<close> implements the
  list specification \<open>sample_entries\<close>: it raises exactly when some entry is older than the
  age window, returns None and leaves the buffer alone exactly when fewer groups than
  requested are inside the window and meant for the current step, and otherwise hands out the
  first \<open>n\<close> such groups in arrival order and keeps every other entry in order.\<close>

theorem rb_sample_refines:
  assumes "rb_wf b" and "0 < n"
  shows "(case rb_sample b n cur age of
            Inl e \<Rightarrow> sample_entries (rb_entries b) (nat n) cur age = Inl e
          | Inr (None, b') \<Rightarrow>
              b' = b \<and> sample_entries (rb_entries b) (nat n) cur age = Inr None
          | Inr (Some (ts, avg), b') \<Rightarrow>
              rb_wf b' \<and>
              (\<exists>es. ts = map fst es \<and>
                sample_entries (rb_entries b) (nat n) cur age = Inr (Some (es, rb_entries b'))))"
  using assms by (cases rule: rb_sample_cases [of b n cur age]) auto

definition demo_traj :: "nat trajectory" where
  "demo_traj = [''batch'' \<mapsto> 7]"

definition demo_buffer :: "nat replay_buffer" where
  "demo_buffer = \<lparr>max_size = 4, trajectories = [demo_traj, demo_traj, Map.empty],
     trajectory_versions = [3, 4, 4], target_weight_versions = [4, 5, 4],
     last_target_weight_already_generated = 5\<rparr>"

lemma demo_buffer_wf: "rb_wf demo_buffer"
  by (simp add: rb_wf_def demo_buffer_def)

lemma demo_buffer_entries:
  "rb_entries demo_buffer = [(demo_traj, 3, 4), (demo_traj, 4, 5), (Map.empty, 4, 4)]"
  by (simp add: rb_entries_def demo_buffer_def)

lemma demo_sampleable:
  "filter (sampleable 4 1) (rb_entries demo_buffer) = [(demo_traj, 3, 4), (Map.empty, 4, 4)]"
  by (simp add: demo_buffer_entries sampleable_def in_age_window_def min_valid_version_def)

lemma demo_sample:
  "rb_sample demo_buffer 2 4 1 =
     Inr (Some ([demo_traj, Map.empty], 1 / 2),
          demo_buffer\<lparr>trajectories := [demo_traj], trajectory_versions := [4],
            target_weight_versions := [5]\<rparr>)"
  using rb_sample_result [OF demo_buffer_wf, of 2 4 1]
  by (simp add: demo_sampleable)
    (simp add: demo_buffer_entries sampleable_def in_age_window_def min_valid_version_def
      eval_nat_numeral)

theorem rb_sample_refines_witness:
  "rb_wf demo_buffer \<and> (0::int) < 2 \<and>
   (\<exists>es b'. [demo_traj, Map.empty] = map fst es \<and>
      sample_entries (rb_entries demo_buffer) (nat 2) 4 1 = Inr (Some (es, rb_entries b')))"
  using rb_sample_refines [of demo_buffer 2 4 1] demo_buffer_wf by (auto simp: demo_sample)

text \<open>C6: No trajectory group is lost or duplicated. Over any sequence of \<open>add\<close>,
  \<open>sample\<close> and \<open>clear\<close> calls started on a fresh buffer, the groups whose \<open>add\<close>
  reported success are, as a multiset, the groups still buffered plus those handed to the
  trainer plus those dropped by \<open>clear\<close>; and the representation invariant holds.\<close>

theorem rb_run_conserves:
  assumes "rb_init m = Inr b" and "list_all sample_size_pos ops"
  defines "r \<equiv> queue_run rb_add rb_sample rb_clear rb_entries (b, empty_log) ops"
  shows "rb_wf (fst r) \<and>
    mset (added (snd r)) =
      mset (trajectories (fst r)) + mset (consumed (snd r)) + mset (dropped (snd r))"
proof -
  have init: "rb_wf b" "rb_entries b = []"
    using rb_init_wf [OF assms(1)] by auto
  have "balanced rb_entries (b, empty_log) {#}"
    by (simp add: balanced_def empty_log_def init)
  then have "rb_wf (fst r)" and "balanced rb_entries r {#}"
    using rb.run_conserves [of "(b, empty_log)" ops "{#}"] init assms(2) by (simp_all add: r_def)
  then show ?thesis
    using rb_entries_projections(1) [of "fst r"] by (simp add: balanced_def del: mset_map)
qed

theorem rb_run_conserves_witness:
  "\<exists>b. rb_init 2 = Inr b \<and> list_all sample_size_pos [Add demo_traj 0 0, Sample 1 0 1] \<and>
     (let r = queue_run rb_add rb_sample rb_clear rb_entries (b, empty_log)
                [Add demo_traj 0 0, Sample 1 0 1]
      in mset (added (snd r)) =
           mset (trajectories (fst r)) + mset (consumed (snd r)) + mset (dropped (snd r)))"
proof -
  obtain b :: "nat replay_buffer" where b: "rb_init 2 = Inr b"
    by (simp add: rb_init_def)
  show ?thesis
    using b rb_run_conserves [OF b, of "[Add demo_traj 0 0, Sample 1 0 1]"]
    by (auto simp: Let_def)
qed

text \<open>Staleness is bounded. A successful \<open>sample\<close> hands out exactly the requested
  number of groups, each meant for the current training step and generated by weights at most
  \<open>max_age_steps\<close> versions old and not newer than the current step, and the reported
  average age lies between 0 and \<open>max_age_steps\<close>.\<close>

lemma rb_sample_bounded_age:
  assumes "rb_wf b" and "0 < n" and "rb_sample b n cur age = Inr (Some (ts, avg), b')"
  shows "length ts = nat n \<and>
    (\<forall>t\<in>set ts. \<exists>v. (t, v, cur) \<in> set (rb_entries b) \<and> cur - age \<le> v \<and> v \<le> cur) \<and>
    0 \<le> avg \<and> avg \<le> of_int age"
proof -
  let ?P = "sampleable cur age"
  let ?es = "take (nat n) (filter ?P (rb_entries b))"
  have fresh: "\<not> (\<exists>e\<in>set (rb_entries b). e_version e < min_valid_version cur age)"
    and enough: "nat n \<le> length (filter ?P (rb_entries b))"
    using assms(3) rb_sample_stale [OF assms(1)] rb_sample_None [OF assms(1,2)]
    by (force simp: not_le [symmetric])+
  note res = rb_sample_result [OF assms(1,2) fresh enough]
  have len: "length ?es = nat n"
    using enough by simp
  have ts: "ts = map fst ?es"
    and "avg = of_int cur - of_int (sum_list (map e_version ?es)) / of_nat (nat n)"
    using trans [OF sym [OF assms(3)] res] by (simp_all only: sum.inject option.inject prod.inject)
  then have avg: "avg = of_int cur - of_int (sum_list (map e_version ?es)) / of_nat (length ?es)"
    by (simp only: len)
  have mem: "\<forall>e\<in>set ?es. e \<in> set (rb_entries b) \<and> ?P e"
  proof
    fix e assume "e \<in> set ?es"
    then have "e \<in> set (filter ?P (rb_entries b))" by (rule in_set_takeD)
    then show "e \<in> set (rb_entries b) \<and> ?P e" by simp
  qed
  have "?P e \<Longrightarrow> cur - age \<le> e_version e \<and> e_version e \<le> cur" for e
    by (simp add: sampleable_def in_age_window_def min_valid_version_def)
  with mem have bounds: "\<forall>e\<in>set ?es. cur - age \<le> e_version e \<and> e_version e \<le> cur"
    by blast
  have "length ts = nat n"
    using ts len by simp
  moreover have "\<forall>t\<in>set ts. \<exists>v. (t, v, cur) \<in> set (rb_entries b) \<and> cur - age \<le> v \<and> v \<le> cur"
  proof
    fix t assume "t \<in> set ts"
    then obtain e where e: "e \<in> set ?es" and t: "t = fst e"
      using ts by auto
    have "?P e" using mem e by blast
    then have "e = (t, e_version e, cur)"
      by (simp add: t sampleable_def prod_eq_iff)
    with mem bounds e show "\<exists>v. (t, v, cur) \<in> set (rb_entries b) \<and> cur - age \<le> v \<and> v \<le> cur"
      by metis
  qed
  moreover have "?es \<noteq> []" using len assms(2) by auto
  from mean_bounds [OF bounds this] have "0 \<le> avg \<and> avg \<le> of_int age"
    by (simp add: avg)
  ultimately show ?thesis by (intro conjI) simp_all
qed

lemma rb_sample_bounded_age_witness:
  "rb_wf demo_buffer \<and> (0::int) < 2 \<and>
   length [demo_traj, Map.empty] = nat 2 \<and> 0 \<le> (1 / 2 :: rat) \<and> (1 / 2 :: rat) \<le> of_int 1"
proof -
  have "(0::int) < 2" by simp
  note r = rb_sample_bounded_age [OF demo_buffer_wf this demo_sample]
  show ?thesis
    using r demo_buffer_wf by (intro conjI) simp_all
qed

text \<open>C7: Checkpoint round trip. Restoring a checkpoint into a buffer large enough to hold it
  reproduces the saved contents and the generation frontier exactly when the saved buffer held
  no data-plane references; in every other case the restore reports failure and leaves the
  target buffer untouched. Either way the invariant holds afterwards.\<close>

theorem rb_checkpoint_roundtrip:
  assumes "rb_wf saved" and "rb_wf target"
  defines "r \<equiv> rb_load_state_dict target (rb_state_dict saved)"
  shows "rb_wf (snd r) \<and> max_size (snd r) = max_size target \<and>
    (fst r \<longleftrightarrow> \<not> dataplane_backed saved \<and> int (rb_size saved) \<le> max_size target) \<and>
    (if fst r then snd r = saved\<lparr>max_size := max_size target\<rparr> else snd r = target)"
  using assms by (auto simp: rb_state_dict_def rb_wf_def rb_size_def)

theorem rb_checkpoint_roundtrip_witness:
  "rb_wf demo_buffer \<and>
   fst (rb_load_state_dict demo_buffer (rb_state_dict demo_buffer)) \<and>
   \<not> dataplane_backed demo_buffer"
  using rb_checkpoint_roundtrip [OF demo_buffer_wf demo_buffer_wf] demo_buffer_wf
  by (auto simp: dataplane_backed_def demo_buffer_def demo_traj_def rb_size_def)

end
