(* ===== verification/Packing.thy ===== *)
theory Packing
  imports Prelude
begin

text \<open>
  Sequence packing, \<^verbatim>\<open>data/packing/algorithms.py\<close>: first-fit decreasing, shuffled
  first-fit, the per-pack subset-sum dynamic program, streaming packing, and the dispatcher.
  Token lengths and capacities are natural numbers. \<open>random.Random(seed).shuffle\<close> is a
  parameter; what is used of it is that it permutes its list.

  The contract of a packer is that on sequences that fit it returns packs that hold every
  index exactly once and never exceed the capacity (locale \<open>packer\<close>). Beyond it, first-fit
  never leaves two packs that could be merged, and the dynamic program fills every pack it
  computes as far as any selection it can represent.
\<close>

type_synonym pack = "nat list"

section \<open>First-fit\<close>

text \<open>The inner search of \<open>first_fit_decreasing\<close> and \<open>shuffle_packing\<close>: the first
  pack whose remaining capacity admits the sequence takes it.\<close>

fun first_fit :: "nat \<Rightarrow> nat \<Rightarrow> pack list \<Rightarrow> nat list \<Rightarrow> (pack list \<times> nat list) option" where
  "first_fit idx seq_len (p # packs) (cap # remaining) =
     (if seq_len \<le> cap then Some ((p @ [idx]) # packs, (cap - seq_len) # remaining)
      else map_option (\<lambda>(ps, cs). (p # ps, cap # cs)) (first_fit idx seq_len packs remaining))"
| "first_fit idx seq_len packs remaining = None"

fun first_fit_loop :: "nat list \<Rightarrow> nat \<Rightarrow> pack list \<Rightarrow> nat list \<Rightarrow> nat list \<Rightarrow> pack list result" where
  "first_fit_loop lengths max_pack_size packs remaining [] = Inr packs"
| "first_fit_loop lengths max_pack_size packs remaining (idx # order) =
     (let seq_len = lengths ! idx in
      if seq_len > max_pack_size then Inl ValueError
      else case first_fit idx seq_len packs remaining of
             Some (packs', remaining') \<Rightarrow>
               first_fit_loop lengths max_pack_size packs' remaining' order
           | None \<Rightarrow>
               first_fit_loop lengths max_pack_size (packs @ [[idx]])
                 (remaining @ [max_pack_size - seq_len]) order)"

text \<open>\<open>sorted(range(n), key=lambda i: lengths[i], reverse=True)\<close>; Python keeps the original
  order of equal keys also under \<open>reverse=True\<close>.\<close>

definition order_desc :: "nat list \<Rightarrow> nat list" where
  "order_desc lengths = sort_key (\<lambda>i. - int (lengths ! i)) [0..<length lengths]"

definition first_fit_decreasing :: "nat list \<Rightarrow> nat \<Rightarrow> pack list result" where
  "first_fit_decreasing lengths max_pack_size =
     first_fit_loop lengths max_pack_size [] [] (order_desc lengths)"

definition shuffle_packing ::
  "(int option \<Rightarrow> nat list \<Rightarrow> nat list) \<Rightarrow> nat list \<Rightarrow> nat \<Rightarrow> int option \<Rightarrow> pack list result" where
  "shuffle_packing shuffle lengths max_pack_size seed =
     first_fit_loop lengths max_pack_size [] [] (shuffle seed [0..<length lengths])"

section \<open>Dynamic-programming packing\<close>

abbreviation pack_len :: "nat list \<Rightarrow> pack \<Rightarrow> nat" where
  "pack_len lengths p \<equiv> sum_list (map ((!) lengths) p)"

text \<open>One cell of the table, visited for \<open>c\<close> from the capacity down to the item's length.\<close>

definition dp_cell ::
  "nat list \<Rightarrow> nat \<Rightarrow> nat \<Rightarrow> nat \<Rightarrow> pack option list \<Rightarrow> nat \<Rightarrow> pack option list" where
  "dp_cell lengths max_sequences_per_pack idx seq_len dp c =
     (case dp ! (c - seq_len) of
        None \<Rightarrow> dp
      | Some s \<Rightarrow>
          let candidate = s @ [idx] in
          if length candidate \<le> max_sequences_per_pack \<and>
             (dp ! c = None \<or> c > pack_len lengths (case dp ! c of None \<Rightarrow> [] | Some p \<Rightarrow> p))
          then dp[c := Some candidate]
          else dp)"

definition dp_item ::
  "nat list \<Rightarrow> nat \<Rightarrow> nat \<Rightarrow> pack option list \<Rightarrow> nat \<Rightarrow> pack option list" where
  "dp_item lengths max_sequences_per_pack capacity dp idx =
     (let seq_len = lengths ! idx in
      if seq_len > capacity then dp
      else foldl (dp_cell lengths max_sequences_per_pack idx seq_len) dp
             (rev [seq_len..<Suc capacity]))"

definition dp_table :: "nat list \<Rightarrow> nat \<Rightarrow> nat \<Rightarrow> nat list \<Rightarrow> pack option list" where
  "dp_table lengths max_sequences_per_pack capacity remaining =
     foldl (dp_item lengths max_sequences_per_pack capacity)
       ((replicate (Suc capacity) None)[0 := Some []]) remaining"

text \<open>The fullest reachable fill, and the fallback to the next sequence alone.\<close>

definition dp_best :: "nat list \<Rightarrow> nat \<Rightarrow> nat \<Rightarrow> nat list \<Rightarrow> pack" where
  "dp_best lengths max_sequences_per_pack capacity remaining =
     (let dp = dp_table lengths max_sequences_per_pack capacity remaining;
          best_pack = (case find (\<lambda>c. dp ! c \<noteq> None) (rev [0..<Suc capacity]) of
                         None \<Rightarrow> [] | Some c \<Rightarrow> the (dp ! c))
      in if best_pack = [] then [hd remaining] else best_pack)"

section \<open>Online packing\<close>

fun online_loop ::
  "nat \<Rightarrow> pack list \<Rightarrow> pack \<Rightarrow> nat \<Rightarrow> (nat \<times> nat) list \<Rightarrow> pack list result" where
  "online_loop max_pack_size packs current_pack current_fill [] =
     Inr (if current_pack \<noteq> [] then packs @ [current_pack] else packs)"
| "online_loop max_pack_size packs current_pack current_fill ((idx, seq_len) # rest) =
     (if seq_len > max_pack_size then Inl ValueError
      else if current_fill + seq_len > max_pack_size
      then online_loop max_pack_size
             (if current_pack \<noteq> [] then packs @ [current_pack] else packs) [idx] seq_len rest
      else online_loop max_pack_size packs (current_pack @ [idx]) (current_fill + seq_len) rest)"

definition online_packing :: "nat list \<Rightarrow> nat \<Rightarrow> pack list result" where
  "online_packing lengths max_pack_size =
     online_loop max_pack_size [] [] 0 (enumerate 0 lengths)"

section \<open>The dynamic program: table invariant and termination\<close>

text \<open>Every filled cell \<open>c\<close> holds distinct items of total length exactly \<open>c\<close>.\<close>

definition cell_ok :: "nat list \<Rightarrow> nat \<Rightarrow> nat set \<Rightarrow> nat \<Rightarrow> pack \<Rightarrow> bool" where
  "cell_ok lengths m items c s \<longleftrightarrow>
     set s \<subseteq> items \<and> distinct s \<and> pack_len lengths s = c \<and> length s \<le> m"

definition table_ok :: "nat list \<Rightarrow> nat \<Rightarrow> nat \<Rightarrow> nat set \<Rightarrow> pack option list \<Rightarrow> bool" where
  "table_ok lengths m capacity items dp \<longleftrightarrow>
     length dp = Suc capacity \<and>
     (\<forall>c s. c \<le> capacity \<longrightarrow> dp ! c = Some s \<longrightarrow> cell_ok lengths m items c s)"

lemma cell_ok_mono: "cell_ok lengths m A c s \<Longrightarrow> A \<subseteq> B \<Longrightarrow> cell_ok lengths m B c s"
  by (auto simp: cell_ok_def)

lemma cell_ok_extend:
  "cell_ok lengths m A c s \<Longrightarrow> idx \<notin> A \<Longrightarrow> Suc (length s) \<le> m \<Longrightarrow>
     cell_ok lengths m (insert idx A) (c + lengths ! idx) (s @ [idx])"
  by (auto simp: cell_ok_def)

text \<open>During the downward sweep, cells below the cursor are still free of the new item.\<close>

definition sweep_ok ::
  "nat list \<Rightarrow> nat \<Rightarrow> nat \<Rightarrow> nat set \<Rightarrow> nat \<Rightarrow> nat \<Rightarrow> pack option list \<Rightarrow> bool" where
  "sweep_ok lengths m capacity A idx k dp \<longleftrightarrow>
     table_ok lengths m capacity (insert idx A) dp \<and>
     (\<forall>c s. c < k \<longrightarrow> c \<le> capacity \<longrightarrow> dp ! c = Some s \<longrightarrow> cell_ok lengths m A c s)"

lemma dp_cell_sweep:
  assumes "sweep_ok lengths m capacity A idx (Suc c) dp" and "idx \<notin> A"
    and "lengths ! idx \<le> c" and "c \<le> capacity"
  shows "sweep_ok lengths m capacity A idx c (dp_cell lengths m idx (lengths ! idx) dp c)"
proof (cases "dp ! (c - lengths ! idx)")
  case None
  with assms(1) show ?thesis by (simp add: dp_cell_def sweep_ok_def)
next
  case (Some s)
  have src: "cell_ok lengths m A (c - lengths ! idx) s"
    using assms Some by (simp add: sweep_ok_def)
  show ?thesis
  proof (cases "Suc (length s) \<le> m \<and>
      (dp ! c = None \<or> c > pack_len lengths (case dp ! c of None \<Rightarrow> [] | Some p \<Rightarrow> p))")
    case True
    have new: "cell_ok lengths m (insert idx A) c (s @ [idx])"
      using cell_ok_extend [OF src assms(2)] True assms(3) by simp
    have "dp_cell lengths m idx (lengths ! idx) dp c = dp[c := Some (s @ [idx])]"
      using Some True by (simp add: dp_cell_def)
    then show ?thesis
      using assms(1,4) new by (auto simp: sweep_ok_def table_ok_def nth_list_update)
  next
    case False
    then have "dp_cell lengths m idx (lengths ! idx) dp c = dp"
      using Some by (auto simp: dp_cell_def)
    with assms(1) show ?thesis by (simp add: sweep_ok_def)
  qed
qed

lemma dp_sweep:
  assumes "idx \<notin> A" and "k \<le> Suc capacity" and "lengths ! idx \<le> k"
    and "sweep_ok lengths m capacity A idx k dp"
  shows "sweep_ok lengths m capacity A idx (lengths ! idx)
     (foldl (dp_cell lengths m idx (lengths ! idx)) dp (rev [lengths ! idx..<k]))"
  using assms(3,2,4)
proof (induction k arbitrary: dp rule: dec_induct)
  case base
  then show ?case by simp
next
  case (step n)
  have "sweep_ok lengths m capacity A idx n (dp_cell lengths m idx (lengths ! idx) dp n)"
    by (rule dp_cell_sweep) (use assms(1) step in auto)
  then show ?case
    using step by simp
qed

lemma dp_item_ok:
  assumes "table_ok lengths m capacity A dp" and "idx \<notin> A"
  shows "table_ok lengths m capacity (insert idx A) (dp_item lengths m capacity dp idx)"
proof (cases "lengths ! idx > capacity")
  case True
  then show ?thesis
    using assms(1) by (auto simp: dp_item_def table_ok_def intro: cell_ok_mono)
next
  case False
  have "sweep_ok lengths m capacity A idx (Suc capacity) dp"
    using assms(1) by (auto simp: sweep_ok_def table_ok_def intro: cell_ok_mono)
  then have "sweep_ok lengths m capacity A idx (lengths ! idx)
      (foldl (dp_cell lengths m idx (lengths ! idx)) dp (rev [lengths ! idx..<Suc capacity]))"
    by (intro dp_sweep) (use assms(2) False in auto)
  then show ?thesis
    using False by (simp add: dp_item_def sweep_ok_def Let_def)
qed

lemma dp_table_ok:
  assumes "distinct remaining"
  shows "table_ok lengths m capacity (set remaining) (dp_table lengths m capacity remaining)"
proof -
  have "table_ok lengths m capacity (A \<union> set remaining)
      (foldl (dp_item lengths m capacity) dp remaining)"
    if "table_ok lengths m capacity A dp" "distinct remaining" "A \<inter> set remaining = {}" for A dp
    using that
  proof (induction remaining arbitrary: A dp)
    case Nil
    then show ?case by simp
  next
    case (Cons i remaining)
    have "table_ok lengths m capacity (insert i A) (dp_item lengths m capacity dp i)"
      by (rule dp_item_ok) (use Cons.prems in auto)
    then show ?case
      using Cons.IH [of "insert i A" "dp_item lengths m capacity dp i"] Cons.prems by simp
  qed
  moreover have "table_ok lengths m capacity {} ((replicate (Suc capacity) None)[0 := Some []])"
    by (auto simp: table_ok_def cell_ok_def nth_list_update nth_append split: if_splits
        simp flip: replicate_append_same)
  ultimately show ?thesis
    using assms unfolding dp_table_def by (metis Int_empty_left Un_empty_left)
qed

lemma dp_best_cases:
  assumes "distinct remaining" and "remaining \<noteq> []"
  obtains "dp_best lengths m capacity remaining = [hd remaining]"
  | c where "c \<le> capacity" "cell_ok lengths m (set remaining) c (dp_best lengths m capacity remaining)"
      "dp_best lengths m capacity remaining \<noteq> []"
proof -
  let ?dp = "dp_table lengths m capacity remaining"
  note ok = dp_table_ok [OF assms(1), of lengths m capacity]
  show thesis
  proof (cases "find (\<lambda>c. ?dp ! c \<noteq> None) (rev [0..<Suc capacity])")
    case None
    then show thesis using that(1) by (simp add: dp_best_def Let_def)
  next
    case (Some c)
    then have "c \<in> set (rev [0..<Suc capacity]) \<and> ?dp ! c \<noteq> None"
      by (rule find_SomeD)
    then obtain s where c: "c \<le> capacity" and s: "?dp ! c = Some s"
      by auto
    then have "cell_ok lengths m (set remaining) c s"
      using ok by (simp add: table_ok_def)
    then show thesis
      using that c s Some by (cases "s = []") (auto simp: dp_best_def Let_def)
  qed
qed

lemma dp_best_subset:
  assumes "distinct remaining" and "remaining \<noteq> []"
  shows "set (dp_best lengths m capacity remaining) \<subseteq> set remaining"
    and "distinct (dp_best lengths m capacity remaining)"
    and "dp_best lengths m capacity remaining \<noteq> []"
  using assms by (cases rule: dp_best_cases [OF assms, of lengths m capacity];
      simp add: cell_ok_def)+

text \<open>The loop consumes at least one sequence per pack. On a list with duplicates, which the
  entry point never builds, the model stops.\<close>

function dp_loop :: "nat list \<Rightarrow> nat \<Rightarrow> nat \<Rightarrow> nat list \<Rightarrow> pack list" where
  "dp_loop lengths m capacity remaining =
     (if remaining = [] \<or> \<not> distinct remaining then []
      else let best_pack = dp_best lengths m capacity remaining in
           best_pack # dp_loop lengths m capacity
                         (filter (\<lambda>i. i \<notin> set best_pack) remaining))"
  by pat_completeness auto
termination
proof (relation "measure (\<lambda>(_, _, _, r). length r)", goal_cases)
  case 1
  show ?case by simp
next
  case (2 lengths m capacity remaining best)
  then have "set best \<subseteq> set remaining" and "best \<noteq> []"
    using dp_best_subset [of remaining lengths m capacity] by auto
  then have "\<exists>x\<in>set remaining. \<not> x \<notin> set best"
    by (metis list.set_intros(1) neq_Nil_conv subsetD)
  then show ?case
    using length_filter_less by fastforce
qed

declare dp_loop.simps [simp del]

definition dp_packing :: "nat list \<Rightarrow> nat \<Rightarrow> nat \<Rightarrow> pack list" where
  "dp_packing lengths max_pack_size max_sequences_per_pack =
     dp_loop lengths max_sequences_per_pack max_pack_size (order_desc lengths)"

text \<open>The dispatcher; \<open>_ALGORITHM_REGISTRY\<close> is a dict of callables, and
  \<open>max_sequences_per_pack\<close> keeps its default.\<close>

datatype algorithm_fn = FFD | Shuffle | DP | Online

definition algorithm_registry :: "string \<rightharpoonup> algorithm_fn" where
  "algorithm_registry =
     [''first_fit_decreasing'' \<mapsto> FFD, ''ffd'' \<mapsto> FFD,
      ''shuffle'' \<mapsto> Shuffle, ''shuffle_packing'' \<mapsto> Shuffle,
      ''dp'' \<mapsto> DP, ''dp_packing'' \<mapsto> DP,
      ''online'' \<mapsto> Online, ''online_packing'' \<mapsto> Online]"

definition validate_packing_algorithm :: "string \<Rightarrow> string result" where
  "validate_packing_algorithm algorithm =
     (if algorithm_registry algorithm = None then Inl ValueError else Inr algorithm)"

fun run_algorithm ::
  "(int option \<Rightarrow> nat list \<Rightarrow> nat list) \<Rightarrow> algorithm_fn \<Rightarrow> nat list \<Rightarrow> nat \<Rightarrow> int option
     \<Rightarrow> pack list result" where
  "run_algorithm shuffle FFD lengths cap seed = first_fit_decreasing lengths cap"
| "run_algorithm shuffle Shuffle lengths cap seed = shuffle_packing shuffle lengths cap seed"
| "run_algorithm shuffle DP lengths cap seed = Inr (dp_packing lengths cap 32)"
| "run_algorithm shuffle Online lengths cap seed = online_packing lengths cap"

definition pack_sequences ::
  "(int option \<Rightarrow> nat list \<Rightarrow> nat list) \<Rightarrow> nat list \<Rightarrow> nat \<Rightarrow> string \<Rightarrow> int option
     \<Rightarrow> pack list result" where
  "pack_sequences shuffle lengths max_pack_size algorithm seed =
     (case algorithm_registry algorithm of
        None \<Rightarrow> Inl KeyError
      | Some fn \<Rightarrow> run_algorithm shuffle fn lengths max_pack_size seed)"

section \<open>What a packing is\<close>

definition fits :: "nat list \<Rightarrow> nat \<Rightarrow> bool" where
  "fits lengths cap \<longleftrightarrow> (\<forall>l\<in>set lengths. l \<le> cap)"

definition packing_ok :: "nat list \<Rightarrow> nat \<Rightarrow> pack list \<Rightarrow> bool" where
  "packing_ok lengths cap packs \<longleftrightarrow>
     mset (concat packs) = mset [0..<length lengths] \<and>
     (\<forall>p\<in>set packs. p \<noteq> [] \<and> pack_len lengths p \<le> cap)"

lemma mset_order_desc [simp]: "mset (order_desc lengths) = mset [0..<length lengths]"
  by (simp add: order_desc_def)

lemma order_desc_facts:
  "distinct (order_desc lengths)" "set (order_desc lengths) = {..<length lengths}"
  using mset_upt_distinct [OF mset_order_desc, of lengths] by auto

text \<open>First-fit keeps the remaining capacities exact, places every index once, and keeps
  every pair of packs too full to be merged.\<close>

definition ff_inv :: "nat list \<Rightarrow> nat \<Rightarrow> pack list \<Rightarrow> nat list \<Rightarrow> bool" where
  "ff_inv lengths cap packs remaining \<longleftrightarrow>
     list_all2 (\<lambda>p c. p \<noteq> [] \<and> pack_len lengths p + c = cap) packs remaining \<and>
     sorted_wrt (\<lambda>a b. a + b < cap) remaining"

lemma first_fit_Some:
  assumes "first_fit idx len packs remaining = Some (packs', remaining')"
    and "len = lengths ! idx"
    and "list_all2 (\<lambda>p c. p \<noteq> [] \<and> pack_len lengths p + c = cap) packs remaining"
  shows "list_all2 (\<lambda>p c. p \<noteq> [] \<and> pack_len lengths p + c = cap) packs' remaining' \<and>
    list_all2 (\<le>) remaining' remaining \<and>
    mset (concat packs') = mset (concat packs) + {#idx#}"
  using assms
  by (induction idx len packs remaining arbitrary: packs' remaining' rule: first_fit.induct)
    (auto split: if_splits simp: list_all2_refl)

lemma first_fit_None:
  assumes "first_fit idx len packs remaining = None" and "length packs = length remaining"
  shows "\<forall>c\<in>set remaining. c < len"
  using assms
  by (induction idx len packs remaining rule: first_fit.induct) (auto split: if_splits)

lemma sorted_wrt_sum_mono:
  assumes "list_all2 (\<le>) xs ys" and "sorted_wrt (\<lambda>a b. a + b < (cap::nat)) ys"
  shows "sorted_wrt (\<lambda>a b. a + b < cap) xs"
  using assms
proof (induction rule: list_all2_induct)
  case Nil
  then show ?case by simp
next
  case (Cons x xs y ys)
  have "x + a < cap" if "a \<in> set xs" for a
  proof -
    obtain b where "b \<in> set ys" "a \<le> b"
      using \<open>a \<in> set xs\<close> Cons.hyps(2) by (metis in_set_conv_nth list_all2_conv_all_nth)
    then show ?thesis using Cons.prems Cons.hyps(1) by fastforce
  qed
  with Cons show ?case by simp
qed

lemma ff_inv_place:
  assumes "ff_inv lengths cap packs remaining" and "lengths ! idx \<le> cap"
  shows "case first_fit idx (lengths ! idx) packs remaining of
      Some (packs', remaining') \<Rightarrow>
        ff_inv lengths cap packs' remaining' \<and>
        mset (concat packs') = mset (concat packs) + {#idx#}
    | None \<Rightarrow> ff_inv lengths cap (packs @ [[idx]]) (remaining @ [cap - lengths ! idx])"
proof (cases "first_fit idx (lengths ! idx) packs remaining")
  case None
  have "\<forall>c\<in>set remaining. c < lengths ! idx"
    using first_fit_None [OF None] assms(1) by (auto simp: ff_inv_def dest: list_all2_lengthD)
  with None assms show ?thesis
    by (auto simp: ff_inv_def sorted_wrt_append list_all2_appendI)
next
  case (Some r)
  obtain packs' remaining' where r: "r = (packs', remaining')" by fastforce
  from first_fit_Some [OF Some [unfolded r] refl] assms(1)
  show ?thesis
    using Some r by (auto simp: ff_inv_def dest: sorted_wrt_sum_mono)
qed

lemma first_fit_loop_ok:
  assumes "ff_inv lengths cap packs remaining" and "\<forall>i\<in>set order. lengths ! i \<le> cap"
  shows "\<exists>packs' remaining'. first_fit_loop lengths cap packs remaining order = Inr packs' \<and>
    ff_inv lengths cap packs' remaining' \<and>
    mset (concat packs') = mset (concat packs) + mset order"
  using assms
proof (induction order arbitrary: packs remaining)
  case Nil
  then show ?case by auto
next
  case (Cons idx order)
  have le: "lengths ! idx \<le> cap" using Cons.prems(2) by simp
  note place = ff_inv_place [OF Cons.prems(1) le]
  show ?case
  proof (cases "first_fit idx (lengths ! idx) packs remaining")
    case None
    then show ?thesis
      using place le Cons.IH [of "packs @ [[idx]]" "remaining @ [cap - lengths ! idx]"] Cons.prems(2)
      by (auto simp: Let_def not_less [symmetric])
  next
    case (Some r)
    obtain packs' remaining' where r: "r = (packs', remaining')" by fastforce
    then show ?thesis
      using place le Cons.IH [of packs' remaining'] Cons.prems(2) Some
      by (auto simp: Let_def not_less [symmetric])
  qed
qed

lemma ff_inv_packs:
  assumes "ff_inv lengths cap packs remaining"
  shows "\<forall>p\<in>set packs. p \<noteq> [] \<and> pack_len lengths p \<le> cap"
    and "sorted_wrt (\<lambda>p q. cap < pack_len lengths p + pack_len lengths q) packs"
proof -
  have len: "length packs = length remaining"
    using assms by (auto simp: ff_inv_def dest: list_all2_lengthD)
  have eq: "packs ! i \<noteq> []" "pack_len lengths (packs ! i) + remaining ! i = cap"
    if "i < length packs" for i
    using assms that by (auto simp: ff_inv_def list_all2_conv_all_nth)
  then show "\<forall>p\<in>set packs. p \<noteq> [] \<and> pack_len lengths p \<le> cap"
    by (metis in_set_conv_nth le_add1)
  show "sorted_wrt (\<lambda>p q. cap < pack_len lengths p + pack_len lengths q) packs"
    unfolding sorted_wrt_iff_nth_less
  proof (intro allI impI)
    fix i j assume ij: "i < j" "j < length packs"
    then have "remaining ! i + remaining ! j < cap"
      using assms len by (auto simp: ff_inv_def sorted_wrt_iff_nth_less)
    with eq(2) [of i] eq(2) [of j] ij
    show "cap < pack_len lengths (packs ! i) + pack_len lengths (packs ! j)" by linarith
  qed
qed

lemma first_fit_order_ok:
  assumes "fits lengths cap" and "mset order = mset [0..<length lengths]"
  shows "\<exists>packs. first_fit_loop lengths cap [] [] order = Inr packs \<and>
    packing_ok lengths cap packs \<and>
    sorted_wrt (\<lambda>p q. cap < pack_len lengths p + pack_len lengths q) packs"
proof -
  have "\<forall>i\<in>set order. lengths ! i \<le> cap"
    using mset_upt_distinct [OF assms(2)] assms(1) by (auto simp: fits_def)
  from first_fit_loop_ok [of lengths cap "[]" "[]", OF _ this] show ?thesis
    using assms(2) ff_inv_packs by (fastforce simp: packing_ok_def ff_inv_def)
qed

section \<open>Online packing keeps arrival order\<close>

lemma online_loop_ok:
  assumes "\<forall>(i, l)\<in>set rest. l = lengths ! i \<and> l \<le> cap"
    and "fill = pack_len lengths cur" and "fill \<le> cap"
    and "\<forall>p\<in>set packs. p \<noteq> [] \<and> pack_len lengths p \<le> cap"
  shows "\<exists>ps. online_loop cap packs cur fill rest = Inr ps \<and>
    concat ps = concat packs @ cur @ map fst rest \<and>
    (\<forall>p\<in>set ps. p \<noteq> [] \<and> pack_len lengths p \<le> cap)"
  using assms
proof (induction rest arbitrary: packs cur fill)
  case Nil
  then show ?case by simp
next
  case (Cons r rest)
  obtain i l where r: "r = (i, l)" by fastforce
  then have l: "l = lengths ! i" "l \<le> cap" using Cons.prems(1) by auto
  let ?packs = "if cur \<noteq> [] then packs @ [cur] else packs"
  show ?case
  proof (cases "fill + l > cap")
    case True
    have "\<forall>p\<in>set ?packs. p \<noteq> [] \<and> pack_len lengths p \<le> cap"
      using Cons.prems(2-4) by simp
    moreover have "concat ?packs = concat packs @ cur" by simp
    ultimately show ?thesis
      using Cons.IH [of l "[i]" ?packs] Cons.prems(1) True l r by (simp split del: if_split)
  next
    case False
    then show ?thesis
      using Cons.IH [of "fill + l" "cur @ [i]" packs] Cons.prems l r by simp
  qed
qed

lemma online_packing_ok:
  assumes "fits lengths cap"
  shows "\<exists>ps. online_packing lengths cap = Inr ps \<and> concat ps = [0..<length lengths] \<and>
    packing_ok lengths cap ps"
proof -
  have "\<forall>(i, l)\<in>set (enumerate 0 lengths). l = lengths ! i \<and> l \<le> cap"
    using assms by (auto simp: fits_def in_set_enumerate_eq)
  from online_loop_ok [OF this, of 0 "[]" "[]"] show ?thesis
    by (auto simp: online_packing_def packing_ok_def)
qed

section \<open>The dynamic program: soundness and optimality\<close>

lemma dp_loop_ok:
  assumes "distinct remaining"
  shows "mset (concat (dp_loop lengths m cap remaining)) = mset remaining \<and>
    (\<forall>p\<in>set (dp_loop lengths m cap remaining).
       p \<noteq> [] \<and> length p \<le> max 1 m \<and>
       (pack_len lengths p \<le> cap \<or> (\<exists>i\<in>set remaining. p = [i] \<and> cap < lengths ! i)))"
  using assms
proof (induction lengths m cap remaining rule: dp_loop.induct)
  case (1 lengths m cap remaining)
  show ?case
  proof (cases "remaining = []")
    case True
    then show ?thesis by (simp add: dp_loop.simps)
  next
    case False
    define best where "best = dp_best lengths m cap remaining"
    let ?rest = "filter (\<lambda>i. i \<notin> set best) remaining"
    have step: "dp_loop lengths m cap remaining = best # dp_loop lengths m cap ?rest"
      using 1(2) False by (subst dp_loop.simps) (simp add: best_def Let_def)
    have b: "set best \<subseteq> set remaining" "distinct best" "best \<noteq> []"
      using dp_best_subset [OF 1(2) False] by (simp_all add: best_def)
    have perm: "mset best + mset ?rest = mset remaining"
      by (rule mset_take_out [OF b(2) 1(2) b(1)])
    have bound: "length best \<le> max 1 m \<and>
        (pack_len lengths best \<le> cap \<or> (\<exists>i\<in>set remaining. best = [i] \<and> cap < lengths ! i))"
      unfolding best_def using 1(2) False
      by (cases rule: dp_best_cases [OF 1(2) False, of lengths m cap])
        (auto simp: cell_ok_def not_le [symmetric])
    have ih: "mset (concat (dp_loop lengths m cap ?rest)) = mset ?rest \<and>
      (\<forall>p\<in>set (dp_loop lengths m cap ?rest). p \<noteq> [] \<and> length p \<le> max 1 m \<and>
       (pack_len lengths p \<le> cap \<or> (\<exists>i\<in>set ?rest. p = [i] \<and> cap < lengths ! i)))"
      using 1 False by (simp add: best_def)
    show ?thesis
      using ih bound perm b(3) by (auto simp: step)
  qed
qed

lemma dp_cell_mono:
  assumes "dp ! c \<noteq> None" and "c < length dp"
  shows "dp_cell lengths m idx l dp k ! c \<noteq> None" and "c < length (dp_cell lengths m idx l dp k)"
  using assms
  by (cases "k = c"; force simp: dp_cell_def Let_def simp del: not_None_eq split: option.splits)+

lemma dp_cells_mono:
  assumes "dp ! c \<noteq> None" and "c < length dp"
  shows "foldl (dp_cell lengths m idx l) dp ks ! c \<noteq> None \<and>
    c < length (foldl (dp_cell lengths m idx l) dp ks)"
  using assms
proof (induction ks arbitrary: dp)
  case Nil
  then show ?case by simp
next
  case (Cons k ks)
  then show ?case
    using Cons.IH [OF dp_cell_mono [OF Cons.prems]] by simp
qed

lemma dp_cell_reach:
  assumes "sweep_ok lengths m capacity A idx (Suc c) dp" and "finite A" and "Suc (card A) \<le> m"
    and "lengths ! idx \<le> c" and "c \<le> capacity" and "dp ! (c - lengths ! idx) \<noteq> None"
  shows "dp_cell lengths m idx (lengths ! idx) dp c ! c \<noteq> None"
proof -
  obtain s where s: "dp ! (c - lengths ! idx) = Some s" using assms(6) by blast
  then have "cell_ok lengths m A (c - lengths ! idx) s"
    using assms(1,5) by (simp add: sweep_ok_def)
  then have "set s \<subseteq> A" "distinct s"
    by (simp_all add: cell_ok_def)
  then have "length s \<le> card A"
    by (metis assms(2) card_mono distinct_card)
  moreover have "c < length dp"
    using assms(1,5) by (simp add: sweep_ok_def table_ok_def)
  ultimately show ?thesis
    using s assms(3) by (auto simp: dp_cell_def)
qed

lemma dp_sweep_reach:
  assumes "idx \<notin> A" and "finite A" and "Suc (card A) \<le> m" and "lengths ! idx \<le> c" and "c < k"
    and "k \<le> Suc capacity" and "lengths ! idx \<le> k"
    and "sweep_ok lengths m capacity A idx k dp" and "dp ! (c - lengths ! idx) \<noteq> None"
  shows "foldl (dp_cell lengths m idx (lengths ! idx)) dp (rev [lengths ! idx..<k]) ! c \<noteq> None"
  using assms(7,5,6,8,9)
proof (induction k arbitrary: dp rule: dec_induct)
  case base
  then show ?case using assms(4) by simp
next
  case (step n)
  let ?dp = "dp_cell lengths m idx (lengths ! idx) dp n"
  have len: "length dp = Suc capacity"
    using step.prems by (simp add: sweep_ok_def table_ok_def)
  have sweep: "sweep_ok lengths m capacity A idx n ?dp"
    by (rule dp_cell_sweep) (use assms(1) step in auto)
  have fold: "foldl (dp_cell lengths m idx (lengths ! idx)) dp (rev [lengths ! idx..<Suc n])
      = foldl (dp_cell lengths m idx (lengths ! idx)) ?dp (rev [lengths ! idx..<n])"
    using step.hyps by simp
  show ?case
  proof (cases "c = n")
    case True
    have "?dp ! n \<noteq> None"
      by (rule dp_cell_reach) (use assms(2-4) step True in auto)
    moreover have "n < length ?dp"
      using sweep step.prems by (simp add: sweep_ok_def table_ok_def)
    ultimately show ?thesis
      unfolding fold True by (simp add: dp_cells_mono)
  next
    case False
    have "?dp ! (c - lengths ! idx) \<noteq> None"
      using step.prems len by (intro dp_cell_mono) auto
    then show ?thesis
      unfolding fold using step.IH step.prems sweep False by simp
  qed
qed

lemma dp_item_reach:
  assumes "table_ok lengths m capacity A dp" and "idx \<notin> A" and "finite A" and "Suc (card A) \<le> m"
    and reach: "\<And>S. S \<subseteq> A \<Longrightarrow> sum ((!) lengths) S \<le> capacity \<Longrightarrow> dp ! sum ((!) lengths) S \<noteq> None"
    and S: "S \<subseteq> insert idx A" "sum ((!) lengths) S \<le> capacity"
  shows "dp_item lengths m capacity dp idx ! sum ((!) lengths) S \<noteq> None"
proof -
  have len: "length dp = Suc capacity" using assms(1) by (simp add: table_ok_def)
  show ?thesis
  proof (cases "idx \<in> S")
    case False
    then have "dp ! sum ((!) lengths) S \<noteq> None" using reach S by blast
    then show ?thesis
      using dp_cells_mono len S(2) by (simp add: dp_item_def Let_def del: upt_Suc)
  next
    case True
    let ?T = "S - {idx}"
    have fin: "finite S" using S(1) assms(3) finite_subset by blast
    have sum: "sum ((!) lengths) S = lengths ! idx + sum ((!) lengths) ?T"
      by (rule sum.remove [OF fin True])
    have "?T \<subseteq> A" and "sum ((!) lengths) ?T \<le> capacity" using S sum by auto
    then have "dp ! sum ((!) lengths) ?T \<noteq> None" by (rule reach)
    moreover have "sweep_ok lengths m capacity A idx (Suc capacity) dp"
      using assms(1) by (auto simp: sweep_ok_def table_ok_def intro: cell_ok_mono)
    ultimately show ?thesis
      using dp_sweep_reach [of idx A m lengths "sum ((!) lengths) S" "Suc capacity" capacity dp]
        assms(2-4) S(2) sum
      by (simp add: dp_item_def Let_def del: upt_Suc)
  qed
qed

lemma dp_table_reach:
  assumes "distinct remaining" and "length remaining \<le> m"
    and "S \<subseteq> set remaining" and "sum ((!) lengths) S \<le> capacity"
  shows "dp_table lengths m capacity remaining ! sum ((!) lengths) S \<noteq> None"
  using assms
proof (induction remaining arbitrary: S rule: rev_induct)
  case Nil
  then show ?case by (simp add: dp_table_def)
next
  case (snoc i remaining)
  have d: "distinct remaining" "i \<notin> set remaining" "length remaining \<le> m"
    "Suc (card (set remaining)) \<le> m" "S \<subseteq> insert i (set remaining)"
    using snoc.prems by (auto simp: distinct_card)
  have split: "dp_table lengths m capacity (remaining @ [i]) =
      dp_item lengths m capacity (dp_table lengths m capacity remaining) i"
    by (simp add: dp_table_def)
  show ?case
    unfolding split
    by (rule dp_item_reach [OF dp_table_ok [OF d(1)] d(2) _ d(4) _ d(5)])
      (use snoc.IH [OF d(1,3)] snoc.prems(4) in auto)
qed

lemma dp_best_optimal_aux:
  assumes "distinct remaining" and "remaining \<noteq> []" and "length remaining \<le> m"
    and "S \<subseteq> set remaining" and "sum ((!) lengths) S \<le> capacity"
  shows "sum ((!) lengths) S \<le> pack_len lengths (dp_best lengths m capacity remaining)"
proof -
  let ?dp = "dp_table lengths m capacity remaining"
  let ?c = "sum ((!) lengths) S"
  have hit: "?dp ! ?c \<noteq> None" by (rule dp_table_reach [OF assms(1,3,4,5)])
  have "?c \<in> set (rev [0..<Suc capacity])"
    using assms(5) by (simp del: upt_Suc)
  from find_exists [of _ _ "\<lambda>c. ?dp ! c \<noteq> None", OF this hit]
  obtain c where c: "find (\<lambda>c. ?dp ! c \<noteq> None) (rev [0..<Suc capacity]) = Some c"
    by blast
  have le: "?c \<le> c"
  proof -
    from c obtain i where i: "i < Suc capacity" "c = rev [0..<Suc capacity] ! i"
      "\<forall>j<i. ?dp ! (rev [0..<Suc capacity] ! j) = None"
      by (auto simp: find_Some_iff simp del: upt_Suc)
    then have ci: "c = capacity - i" by (simp add: rev_nth del: upt_Suc)
    have "rev [0..<Suc capacity] ! (capacity - ?c) = ?c"
      using assms(5) by (simp add: rev_nth del: upt_Suc)
    then have "i \<le> capacity - ?c"
      using i(3) hit by (metis not_le)
    then show ?thesis using ci assms(5) by linarith
  qed
  obtain s where s: "?dp ! c = Some s" "c \<le> capacity"
    using find_SomeD [OF c] by auto
  then have "pack_len lengths s = c"
    using dp_table_ok [OF assms(1), of lengths m capacity] by (simp add: table_ok_def cell_ok_def)
  with c s le show ?thesis
    by (cases "s = []") (auto simp: dp_best_def Let_def simp del: upt_Suc)
qed

section \<open>The packer contract\<close>

lemma sum_list_nth_upt: "sum_list (map ((!) xs) [0..<length xs]) = sum_list xs"
  by (simp add: map_nth)

lemma packing_ok_total:
  assumes "packing_ok lengths cap packs"
  shows "sum_list (map (pack_len lengths) packs) = sum_list lengths"
proof -
  have "sum_list (map (pack_len lengths) packs) = sum_list (map ((!) lengths) (concat packs))"
    by (induction packs) simp_all
  also have "\<dots> = sum_list (map ((!) lengths) [0..<length lengths])"
    using assms by (intro sum_list_map_mset) (simp add: packing_ok_def)
  finally show ?thesis by (simp add: sum_list_nth_upt)
qed

locale packer =
  fixes pack_fn :: "nat list \<Rightarrow> nat \<Rightarrow> pack list result"
  assumes pack_fits:
    "fits lengths cap \<Longrightarrow> \<exists>packs. pack_fn lengths cap = Inr packs \<and> packing_ok lengths cap packs"
begin

lemma pack_ok:
  assumes "fits lengths cap" and "pack_fn lengths cap = Inr packs"
  shows "packing_ok lengths cap packs"
  using pack_fits [OF assms(1)] assms(2) by auto

lemma pack_unique:
  assumes "fits lengths cap" and "pack_fn lengths cap = Inr packs" and "i < length lengths"
  shows "\<exists>!k. k < length packs \<and> i \<in> set (packs ! k)"
proof -
  have "mset (concat packs) = mset [0..<length lengths]"
    using pack_ok [OF assms(1,2)] by (simp add: packing_ok_def)
  from mset_upt_distinct [OF this] assms(3) show ?thesis
    by (intro distinct_concat_unique) auto
qed

lemma pack_count:
  assumes "fits lengths cap" and "pack_fn lengths cap = Inr packs"
  shows "sum_list lengths \<le> length packs * cap"
proof -
  note ok = pack_ok [OF assms]
  have "sum_list (map (pack_len lengths) packs) \<le> sum_list (map (\<lambda>_. cap) packs)"
    using ok by (intro sum_list_mono) (simp add: packing_ok_def)
  then show ?thesis
    using packing_ok_total [OF ok] by (simp add: sum_list_triv)
qed

end

lemma first_fit_decreasing_ok:
  assumes "fits lengths cap"
  shows "\<exists>packs. first_fit_decreasing lengths cap = Inr packs \<and> packing_ok lengths cap packs \<and>
    sorted_wrt (\<lambda>p q. cap < pack_len lengths p + pack_len lengths q) packs"
  unfolding first_fit_decreasing_def by (rule first_fit_order_ok [OF assms mset_order_desc])

lemma shuffle_packing_ok:
  assumes "fits lengths cap" and "\<And>s xs. mset (shuffle s xs) = mset xs"
  shows "\<exists>packs. shuffle_packing shuffle lengths cap seed = Inr packs \<and> packing_ok lengths cap packs"
  unfolding shuffle_packing_def using first_fit_order_ok [OF assms] by blast

lemma dp_packing_ok:
  assumes "fits lengths cap"
  shows "packing_ok lengths cap (dp_packing lengths cap m)"
  using dp_loop_ok [OF order_desc_facts(1), of lengths m cap lengths] assms order_desc_facts(2)
  by (fastforce simp: dp_packing_def packing_ok_def fits_def)

interpretation ffd: packer first_fit_decreasing
  by unfold_locales (use first_fit_decreasing_ok in blast)

interpretation onl: packer online_packing
  by unfold_locales (use online_packing_ok in blast)

interpretation dpp: packer "\<lambda>lengths cap. Inr (dp_packing lengths cap 32)"
  by unfold_locales (simp add: dp_packing_ok)

section \<open>Properties\<close>

lemma registry_cases:
  assumes "algorithm_registry algorithm = Some fn"
    and "\<And>s xs. mset (shuffle s xs) = mset xs" and "fits lengths cap"
  shows "\<exists>packs. run_algorithm shuffle fn lengths cap seed = Inr packs \<and> packing_ok lengths cap packs"
  using ffd.pack_fits onl.pack_fits dpp.pack_fits shuffle_packing_ok assms(2,3)
  by (cases fn) auto

lemma first_fit_loop_oversize:
  "\<exists>i\<in>set order. cap < lengths ! i \<Longrightarrow>
     first_fit_loop lengths cap packs remaining order = Inl ValueError"
  by (induction order arbitrary: packs remaining) (auto simp: Let_def split: option.splits)

lemma online_loop_oversize:
  "\<exists>l\<in>set (map snd rest). cap < l \<Longrightarrow> online_loop cap packs cur fill rest = Inl ValueError"
  by (induction cap packs cur fill rest rule: online_loop.induct)
    (simp, simp split del: if_split, metis)

lemma not_fits_index: "\<not> fits lengths cap \<longleftrightarrow> (\<exists>i<length lengths. cap < lengths ! i)"
  by (metis fits_def in_set_conv_nth not_le)

text \<open>C21: Every registered packing algorithm is sound and total on sequences that fit: it
  returns packs that place every sequence index exactly once, contain no empty pack, and keep
  the token total of each pack within the capacity. The shuffle is only assumed to permute.\<close>

theorem pack_sequences_sound:
  assumes "fits lengths cap" and "algorithm_registry algorithm = Some fn"
    and "\<And>s xs. mset (shuffle s xs) = mset xs"
  shows "\<exists>packs. pack_sequences shuffle lengths cap algorithm seed = Inr packs \<and>
    packing_ok lengths cap packs"
  using registry_cases [OF assms(2,3,1)] assms(2) by (simp add: pack_sequences_def)

theorem pack_sequences_sound_witness:
  "\<exists>packs. pack_sequences (\<lambda>s xs. rev xs) [3, 1, 2] 4 ''shuffle'' None = Inr packs \<and>
     packing_ok [3, 1, 2] 4 packs"
  by (rule pack_sequences_sound [where fn = Shuffle]) (simp_all add: fits_def algorithm_registry_def)

text \<open>C22: First-fit decreasing leaves no two packs that could be merged: any two of the packs
  it returns hold together more tokens than the capacity.\<close>

theorem ffd_no_mergeable_packs:
  assumes "fits lengths cap"
  shows "\<exists>packs. first_fit_decreasing lengths cap = Inr packs \<and>
    (\<forall>i j. i < j \<longrightarrow> j < length packs \<longrightarrow>
       cap < pack_len lengths (packs ! i) + pack_len lengths (packs ! j))"
  using first_fit_decreasing_ok [OF assms] by (auto simp: sorted_wrt_iff_nth_less)

theorem ffd_no_mergeable_packs_witness:
  "\<exists>packs. first_fit_decreasing [2, 5, 4] 6 = Inr packs \<and>
    (\<forall>i j. i < j \<longrightarrow> j < length packs \<longrightarrow>
       6 < pack_len [2, 5, 4] (packs ! i) + pack_len [2, 5, 4] (packs ! j))"
  by (rule ffd_no_mergeable_packs) (simp add: fits_def)

text \<open>The dynamic program is optimal per pack. When the per-pack sequence cap does not bind,
  the pack it selects from the unplaced sequences holds at least as many tokens as any
  sub-collection of them that fits the capacity.\<close>

lemma dp_best_optimal:
  assumes "distinct remaining" and "remaining \<noteq> []" and "length remaining \<le> m"
    and "S \<subseteq> set remaining" and "(\<Sum>i\<in>S. lengths ! i) \<le> capacity"
  shows "(\<Sum>i\<in>S. lengths ! i) \<le> pack_len lengths (dp_best lengths m capacity remaining)"
  using dp_best_optimal_aux [OF assms] .

lemma dp_best_optimal_witness:
  "distinct [1, 0, 2::nat] \<and> (\<Sum>i\<in>{0, 2}. [2, 5, 4::nat] ! i) \<le> 6 \<and>
   (\<Sum>i\<in>{0, 2}. [2, 5, 4] ! i) \<le> pack_len [2, 5, 4] (dp_best [2, 5, 4] 32 6 [1, 0, 2])"
proof -
  have h: "distinct [1, 0, 2::nat]" "[1, 0, 2::nat] \<noteq> []" "length [1, 0, 2::nat] \<le> 32"
    "{0, 2::nat} \<subseteq> set [1, 0, 2]" "(\<Sum>i\<in>{0, 2}. [2, 5, 4::nat] ! i) \<le> 6"
    by simp_all
  show ?thesis using h dp_best_optimal [OF h] by blast
qed

text \<open>What happens to a sequence longer than the capacity depends on the algorithm: first-fit,
  shuffled and online packing raise ValueError, while the dynamic program returns normally with
  the sequence in a pack that exceeds the capacity.\<close>

lemma pack_sequences_oversize:
  assumes "\<not> fits lengths cap" and "algorithm_registry algorithm = Some fn"
    and "\<And>s xs. mset (shuffle s xs) = mset xs"
  shows "if fn = DP
    then \<exists>packs. pack_sequences shuffle lengths cap algorithm seed = Inr packs \<and>
           mset (concat packs) = mset [0..<length lengths] \<and>
           (\<exists>p\<in>set packs. cap < pack_len lengths p)
    else pack_sequences shuffle lengths cap algorithm seed = Inl ValueError"
proof -
  obtain i where i: "i < length lengths" "cap < lengths ! i"
    using assms(1) not_fits_index by auto
  have ff: "first_fit_loop lengths cap [] [] order = Inl ValueError"
    if "mset order = mset [0..<length lengths]" for order
    using mset_upt_distinct [OF that] i by (intro first_fit_loop_oversize) auto
  have "online_packing lengths cap = Inl ValueError"
    unfolding online_packing_def
    by (rule online_loop_oversize) (use i in \<open>simp add: Bex_def, metis nth_mem\<close>)
  moreover have "mset (concat (dp_packing lengths cap 32)) = mset [0..<length lengths]"
    using dp_loop_ok [OF order_desc_facts(1)] by (simp add: dp_packing_def)
  moreover from this have "i \<in> set (concat (dp_packing lengths cap 32))"
    using mset_upt_distinct i(1) by blast
  then obtain p where p: "p \<in> set (dp_packing lengths cap 32)" "i \<in> set p"
    by auto
  have "lengths ! i \<le> pack_len lengths p"
    using p(2) by (intro member_le_sum_list) auto
  with i(2) p(1) have "\<exists>p\<in>set (dp_packing lengths cap 32). cap < pack_len lengths p"
    using less_le_trans by blast
  ultimately show ?thesis
    using ff [OF mset_order_desc] ff [OF assms(3)] assms(2)
    by (cases fn) (simp_all add: pack_sequences_def first_fit_decreasing_def shuffle_packing_def)
qed

lemma pack_sequences_oversize_witness:
  "\<not> fits [9] 4 \<and>
   (\<exists>packs. pack_sequences (\<lambda>s xs. xs) [9] 4 ''dp'' None = Inr packs \<and>
      (\<exists>p\<in>set packs. 4 < pack_len [9] p)) \<and>
   pack_sequences (\<lambda>s xs. xs) [9] 4 ''ffd'' None = Inl ValueError"
  using pack_sequences_oversize [of "[9]" 4 "''dp''" DP "\<lambda>s xs. xs" None]
    pack_sequences_oversize [of "[9]" 4 "''ffd''" FFD "\<lambda>s xs. xs" None]
  by (auto simp: fits_def algorithm_registry_def)

end
