(* ===== verification/Rollout_Allocation.thy ===== *)
theory Rollout_Allocation
  imports Prelude "HOL-Library.Product_Lexorder"
begin

text \<open>
  Graded rollout allocation, \<^verbatim>\<open>algorithms/rollout_allocation.py\<close>: which rows of a
  generation batch are trained on when more rows survive dynamic sampling than the step can
  use. Tensors are lists; Python floats are exact rationals, and the float power \<open>**\<close> is a
  parameter \<open>pw\<close> of the definitions that use it. \<open>torch.unique(.., return_inverse)\<close> is a
  parameter as well. The while loop of \<open>_apportion\<close> is a \<open>partial_function\<close>: that it
  returns is a theorem.
\<close>

section \<open>Configuration\<close>

text \<open>A YAML scalar as the validator sees it: Python's \<open>bool\<close> is an \<open>int\<close> that the
  check excludes by hand.\<close>

datatype cfg_value = Cfg_Int int | Cfg_Bool bool | Cfg_Other

record graded_allocation_config =
  ga_enabled :: bool
  ga_min_rollouts_per_prompt :: "cfg_value option"
  ga_variance_exponent :: "rat option"

definition graded_allocation_enabled :: "graded_allocation_config option \<Rightarrow> bool" where
  "graded_allocation_enabled cfg = (case cfg of None \<Rightarrow> False | Some c \<Rightarrow> ga_enabled c)"

definition supported_trainers :: "string list" where
  "supported_trainers = [''sync'']"

definition validate_graded_allocation_config ::
  "graded_allocation_config option \<Rightarrow> bool \<Rightarrow> string \<Rightarrow> unit result" where
  "validate_graded_allocation_config cfg use_dynamic_sampling trainer =
     (if \<not> graded_allocation_enabled cfg then Inr ()
      else
        let c = the cfg;
            row_floor = (case ga_min_rollouts_per_prompt c of None \<Rightarrow> Cfg_Int 1 | Some v \<Rightarrow> v);
            exponent = (case ga_variance_exponent c of None \<Rightarrow> 1 | Some e \<Rightarrow> e)
        in
        if (case row_floor of Cfg_Int i \<Rightarrow> i < 0 | Cfg_Bool b \<Rightarrow> True | Cfg_Other \<Rightarrow> True)
        then Inl ValueError
        else if exponent < 0 then Inl ValueError
        else if \<not> use_dynamic_sampling then Inl ValueError
        else if trainer \<notin> set supported_trainers then Inl ValueError
        else Inr ())"

section \<open>Group ids\<close>

definition group_id_stride :: int where
  "group_id_stride = 2 ^ 32"

text \<open>\<open>unique_inverse\<close> is the second result of \<open>torch.unique(prompt_ids, dim=0,
  return_inverse=True)\<close>; \<open>dims\<close> is \<open>prompt_ids.dim()\<close>.\<close>

definition assign_group_ids ::
  "('p list \<Rightarrow> nat list) \<Rightarrow> nat \<Rightarrow> 'p list \<Rightarrow> int \<Rightarrow> int list result" where
  "assign_group_ids unique_inverse dims prompt_ids gen_batch_ordinal =
     (if dims \<noteq> 2 then Inl ValueError
      else if gen_batch_ordinal < 0 then Inl ValueError
      else
        let local = map int (unique_inverse prompt_ids) in
        if local \<noteq> [] \<and> Max (set local) \<ge> group_id_stride then Inl ValueError
        else Inr (map (\<lambda>l. l + gen_batch_ordinal * group_id_stride) local))"

text \<open>Rows per group, groups in first-appearance order: the dict and the order list of
  \<open>_group_rows\<close>.\<close>

fun group_rows_step ::
  "int list \<times> (int \<rightharpoonup> nat list) \<Rightarrow> nat \<times> int \<Rightarrow> int list \<times> (int \<rightharpoonup> nat list)" where
  "group_rows_step (order, rows) (row, gid) =
     (case rows gid of
        None \<Rightarrow> (order @ [gid], rows(gid \<mapsto> [row]))
      | Some rs \<Rightarrow> (order, rows(gid \<mapsto> rs @ [row])))"

definition group_rows :: "int list \<Rightarrow> nat list list \<times> int list" where
  "group_rows group_ids =
     (let (order, rows) = foldl group_rows_step ([], Map.empty) (enumerate 0 group_ids)
      in (map (\<lambda>gid. the (rows gid)) order, order))"

section \<open>Largest-remainder apportionment\<close>

text \<open>Python's \<open>int(x)\<close> truncates towards zero.\<close>

definition py_int :: "rat \<Rightarrow> int" where
  "py_int x = (if 0 \<le> x then \<lfloor>x\<rfloor> else \<lceil>x\<rceil>)"

type_synonym quota_state = "int list \<times> int list \<times> int"

text \<open>Moving \<open>k\<close> rows to group \<open>i\<close>: quotas, headroom and what is left.\<close>

definition grant :: "nat \<Rightarrow> int \<Rightarrow> quota_state \<Rightarrow> quota_state" where
  "grant i k st =
     (case st of (quotas, headroom, remainder) \<Rightarrow>
        (quotas[i := quotas ! i + k], headroom[i := headroom ! i - k], remainder - k))"

fun round_robin :: "nat list \<Rightarrow> quota_state \<Rightarrow> quota_state" where
  "round_robin [] st = st"
| "round_robin (i # is) st =
     (case st of (quotas, headroom, remainder) \<Rightarrow>
        if remainder = 0 then st else round_robin is (grant i 1 st))"

text \<open>Whole-row shares; the remainder is reduced after the loop in the source, by the total
  given, so the shares are computed from the remainder at entry.\<close>

fun take_shares :: "(nat \<times> rat) list \<Rightarrow> quota_state \<Rightarrow> quota_state" where
  "take_shares [] st = st"
| "take_shares ((i, share) # shares) st =
     (case st of (quotas, headroom, remainder) \<Rightarrow>
        take_shares shares (grant i (min (py_int share) (headroom ! i)) st))"

fun single_rows :: "(nat \<times> rat) list \<Rightarrow> quota_state \<Rightarrow> quota_state" where
  "single_rows [] st = st"
| "single_rows ((i, share) # shares) st =
     (case st of (quotas, headroom, remainder) \<Rightarrow>
        if remainder = 0 then st
        else if headroom ! i = 0 then single_rows shares st
        else single_rows shares (grant i 1 st))"

definition apportion_round :: "rat list \<Rightarrow> nat list \<Rightarrow> quota_state \<Rightarrow> quota_state" where
  "apportion_round weights active st =
     (case st of (quotas, headroom, remainder) \<Rightarrow>
        let total_w = sum_list (map ((!) weights) active) in
        if total_w \<le> 0 then round_robin active st
        else
          let shares = map (\<lambda>i. (i, of_int remainder * weights ! i / total_w)) active;
              st' = take_shares shares st
          in
          if snd (snd st') = remainder
          then single_rows (sort_key (\<lambda>(i, share). (- share, i)) shares) st'
          else st')"

definition still_active :: "nat list \<Rightarrow> quota_state \<Rightarrow> nat list" where
  "still_active active st = filter (\<lambda>i. fst (snd st) ! i > 0) active"

partial_function (option) apportion_loop ::
  "rat list \<Rightarrow> nat list \<Rightarrow> quota_state \<Rightarrow> int list option" where
  "apportion_loop weights active st =
     (if snd (snd st) > 0 \<and> active \<noteq> []
      then let st' = apportion_round weights active st
           in apportion_loop weights (still_active active st') st'
      else Some (fst st))"

definition apportion :: "rat list \<Rightarrow> int list \<Rightarrow> int \<Rightarrow> int list option" where
  "apportion weights headroom remainder =
     (let st = (replicate (length weights) 0, headroom, remainder)
      in apportion_loop weights (still_active [0..<length weights] st) st)"

section \<open>The allocator\<close>

definition mean_rows :: "rat list \<Rightarrow> nat list \<Rightarrow> rat" where
  "mean_rows flat rows = sum_list (map ((!) flat) rows) / of_nat (length rows)"

definition diversity_factor ::
  "(rat \<Rightarrow> rat \<Rightarrow> rat) \<Rightarrow> nat list list \<Rightarrow> rat list option \<Rightarrow> rat \<Rightarrow> rat list" where
  "diversity_factor pw rows_per_group diversity exponent =
     (case diversity of
        None \<Rightarrow> replicate (length rows_per_group) 1
      | Some flat \<Rightarrow>
          if exponent = 0 then replicate (length rows_per_group) 1
          else
            let per_group = map (\<lambda>rows. max 0 (mean_rows flat rows)) rows_per_group in
            if sum_list per_group \<le> 0 then replicate (length rows_per_group) 1
            else map (\<lambda>value. pw value exponent) per_group)"

text \<open>The floors alone exceed the budget: spend them on the highest-ranked groups.\<close>

fun squeeze_loop :: "int list \<Rightarrow> int \<Rightarrow> nat list \<Rightarrow> int list \<Rightarrow> int \<Rightarrow> int list" where
  "squeeze_loop available row_floor [] quotas left = quotas"
| "squeeze_loop available row_floor (i # ranked) quotas left =
     (if left \<le> 0 then quotas
      else let take = min (min (available ! i) row_floor) left
           in squeeze_loop available row_floor ranked (quotas[i := take]) (left - take))"

definition group_quotas ::
  "rat list \<Rightarrow> rat list \<Rightarrow> int list \<Rightarrow> int \<Rightarrow> int \<Rightarrow> int list option" where
  "group_quotas graded group_weight available row_floor budget =
     (let quotas = map (min row_floor) available in
      if sum_list quotas > budget
      then
        let ranked = sort_key (\<lambda>i. (- graded ! i, - group_weight ! i, i)) [0..<length quotas]
        in Some (squeeze_loop available row_floor ranked (replicate (length quotas) 0) budget)
      else
        let headroom = map (\<lambda>i. available ! i - quotas ! i) [0..<length quotas] in
        map_option (\<lambda>extra. map (\<lambda>i. quotas ! i + extra ! i) [0..<length quotas])
          (apportion graded headroom (budget - sum_list quotas)))"

definition kept_rows :: "nat list list \<Rightarrow> int list \<Rightarrow> nat list" where
  "kept_rows rows_per_group quotas =
     sort (concat (map (\<lambda>(rows, quota). py_prefix quota rows) (zip rows_per_group quotas)))"

definition allocate_rollout_budget ::
  "(rat \<Rightarrow> rat \<Rightarrow> rat) \<Rightarrow> int list \<Rightarrow> rat list \<Rightarrow> int \<Rightarrow> int \<Rightarrow> rat \<Rightarrow> rat list option \<Rightarrow> rat
     \<Rightarrow> nat list option" where
  "allocate_rollout_budget pw group_ids weights budget min_rollouts_per_prompt variance_exponent
       diversity diversity_exponent =
     (let total_rows = length group_ids in
      if budget \<ge> int total_rows then Some [0..<total_rows]
      else if budget \<le> 0 then Some []
      else
        let rows_per_group = fst (group_rows group_ids);
            group_weight = map (\<lambda>rows. max 0 (mean_rows weights rows)) rows_per_group;
            available = map (\<lambda>rows. int (length rows)) rows_per_group;
            factor = diversity_factor pw rows_per_group diversity diversity_exponent;
            graded = map (\<lambda>i. pw (group_weight ! i) variance_exponent * factor ! i)
                       [0..<length group_weight];
            row_floor = max 0 min_rollouts_per_prompt
        in map_option (kept_rows rows_per_group)
             (group_quotas graded group_weight available row_floor budget))"

section \<open>The apportionment is exact\<close>

text \<open>What a step of the loop may do to quotas, headroom and remainder: rows only move from
  the remainder into quotas, group by group, within the headroom.\<close>

definition moves :: "quota_state \<Rightarrow> quota_state \<Rightarrow> bool" where
  "moves st st' \<longleftrightarrow>
     (case (st, st') of ((q, h, r), (q', h', r')) \<Rightarrow>
        length q = length h \<and> length q' = length q \<and> length h' = length h \<and>
        (\<forall>i<length h. 0 \<le> h' ! i \<and> h' ! i \<le> h ! i \<and> q' ! i + h' ! i = q ! i + h ! i) \<and>
        sum_list q' + r' = sum_list q + r \<and> 0 \<le> r' \<and> r' \<le> r)"

lemma sum_list_update_int:
  "i < length xs \<Longrightarrow> sum_list (xs[i := x]) = sum_list xs - xs ! i + (x :: int)"
  by (induction xs arbitrary: i) (auto split: nat.splits)

lemma moves_trans: "moves a b \<Longrightarrow> moves b c \<Longrightarrow> moves a c"
  by (cases a; cases b; cases c) (fastforce simp: moves_def)

lemma moves_self:
  "length q = length h \<Longrightarrow> \<forall>i<length h. 0 \<le> h ! i \<Longrightarrow> 0 \<le> r \<Longrightarrow> moves (q, h, r) (q, h, r)"
  by (simp add: moves_def)

lemma moves_right: "moves a b \<Longrightarrow> moves b b"
  by (cases a; cases b) (auto simp: moves_def)

lemma moves_left_lengths: "moves (q, h, r) st \<Longrightarrow> length q = length h"
  by (cases st) (simp add: moves_def)

lemma moves_le: "moves st st' \<Longrightarrow> snd (snd st') \<le> snd (snd st)"
  by (cases st; cases st') (simp add: moves_def)

lemma sum_list_eq_pointwise:
  "list_all2 (\<le>) xs ys \<Longrightarrow> sum_list xs = sum_list (ys :: int list) \<Longrightarrow> xs = ys"
proof (induction rule: list_all2_induct)
  case Nil
  then show ?case by simp
next
  case (Cons x xs y ys)
  have "sum_list xs \<le> sum_list ys"
    using Cons.hyps(2) by (induction rule: list_all2_induct) auto
  with Cons show ?case by auto
qed

text \<open>A step that leaves the remainder alone leaves everything alone.\<close>

lemma moves_no_change:
  assumes "moves (q, h, r) (q', h', r)"
  shows "h' = h"
proof -
  have "list_all2 (\<le>) q q'"
    using assms by (fastforce simp: moves_def list_all2_conv_all_nth)
  then have "q = q'"
    using assms by (intro sum_list_eq_pointwise) (auto simp: moves_def)
  then show ?thesis
    using assms by (auto simp: moves_def intro: nth_equalityI)
qed

lemma grant_moves:
  assumes "moves (q, h, r) (q, h, r)" and "i < length h" and "0 \<le> k" and "k \<le> h ! i" and "k \<le> r"
  shows "moves (q, h, r) (grant i k (q, h, r))"
  using assms by (auto simp: moves_def grant_def sum_list_update_int nth_list_update)

lemma round_robin_moves:
  assumes "moves (q, h, r) (q, h, r)" and "distinct is" and "\<forall>i\<in>set is. i < length h \<and> 0 < h ! i"
  shows "moves (q, h, r) (round_robin is (q, h, r)) \<and>
    (0 < r \<longrightarrow> is \<noteq> [] \<longrightarrow> snd (snd (round_robin is (q, h, r))) < r)"
  using assms
proof (induction "is" arbitrary: q h r)
  case Nil
  then show ?case by simp
next
  case (Cons i "is")
  show ?case
  proof (cases "r = 0")
    case True
    then show ?thesis using Cons.prems(1) by simp
  next
    case False
    then have r: "1 \<le> r" using Cons.prems(1) by (simp add: moves_def)
    let ?st = "(q[i := q ! i + 1], h[i := h ! i - 1], r - 1)"
    have m: "moves (q, h, r) ?st"
      using grant_moves [OF Cons.prems(1), of i 1] Cons.prems(3) r by (simp add: grant_def)
    have "moves ?st (round_robin is ?st)"
      using Cons.IH [OF moves_right [OF m]] Cons.prems(2,3) by (auto simp: nth_list_update)
    then show ?thesis
      using moves_trans [OF m] moves_le False by (fastforce simp: grant_def)
  qed
qed

lemma take_shares_moves:
  assumes "moves (q, h, r) (q, h, r)"
    and "\<forall>(i, s)\<in>set shares. i < length h \<and> 0 \<le> s"
    and "sum_list (map (\<lambda>x. py_int (snd x)) shares) \<le> r"
  shows "moves (q, h, r) (take_shares shares (q, h, r))"
  using assms
proof (induction shares arbitrary: q h r)
  case Nil
  then show ?case by simp
next
  case (Cons x shares)
  obtain i s where x: "x = (i, s)" by fastforce
  let ?k = "min (py_int s) (h ! i)"
  have i: "i < length h" and s: "0 \<le> py_int s" and h: "0 \<le> h ! i"
    using Cons.prems(1,2) x by (auto simp: py_int_def moves_def)
  have rest: "0 \<le> sum_list (map (\<lambda>x. py_int (snd x)) shares)"
    using Cons.prems(2) by (intro sum_list_nonneg) (auto simp: py_int_def)
  have m: "moves (q, h, r) (grant i ?k (q, h, r))"
    by (rule grant_moves) (use Cons.prems(1,3) i s h rest x in auto)
  obtain q1 h1 r1 where st: "grant i ?k (q, h, r) = (q1, h1, r1)"
    by (metis prod.exhaust)
  have r1: "r1 = r - ?k" and len: "length h1 = length h"
    using st by (auto simp: grant_def)
  have "moves (q1, h1, r1) (take_shares shares (q1, h1, r1))"
    by (rule Cons.IH) (use moves_right [OF m [unfolded st]] Cons.prems(2,3) x r1 len in auto)
  then show ?case
    using moves_trans [OF m [unfolded st]] x st by simp
qed

lemma single_rows_moves:
  assumes "moves (q, h, r) (q, h, r)" and "\<forall>x\<in>set shares. fst x < length h"
  shows "moves (q, h, r) (single_rows shares (q, h, r)) \<and>
    (0 < r \<longrightarrow> shares \<noteq> [] \<longrightarrow> 0 < h ! fst (hd shares) \<longrightarrow>
       snd (snd (single_rows shares (q, h, r))) < r)"
  using assms
proof (induction shares arbitrary: q h r)
  case Nil
  then show ?case by simp
next
  case (Cons x shares)
  obtain i s where x: "x = (i, s)" by fastforce
  show ?case
  proof (cases "r = 0 \<or> h ! i = 0")
    case True
    then show ?thesis using Cons x by auto
  next
    case False
    have i: "i < length h" and h: "1 \<le> h ! i" and r: "1 \<le> r"
      using Cons.prems x False by (auto simp: moves_def zless_imp_add1_zle less_le)
    let ?st = "(q[i := q ! i + 1], h[i := h ! i - 1], r - 1)"
    have m: "moves (q, h, r) ?st"
      using grant_moves [OF Cons.prems(1) i, of 1] h r by (simp add: grant_def)
    have "moves ?st (single_rows shares ?st)"
      using Cons.IH [OF moves_right [OF m]] Cons.prems(2) by auto
    then show ?thesis
      using moves_trans [OF m] moves_le False x by (fastforce simp: grant_def)
  qed
qed

lemma sum_py_int_le:
  assumes "\<forall>s\<in>set ss. 0 \<le> s"
  shows "of_int (sum_list (map py_int ss)) \<le> sum_list ss"
  using assms by (induction ss) (auto simp: py_int_def intro!: add_mono)

lemma shares_sum:
  fixes f :: "nat \<Rightarrow> rat"
  assumes "t = sum_list (map f xs)" and "t \<noteq> 0"
  shows "sum_list (map (\<lambda>i. c * f i / t) xs) = c"
proof -
  have "sum_list (map (\<lambda>i. c * f i / t) xs) = (c / t) * sum_list (map f xs)"
    by (induction xs) (simp_all add: distrib_left)
  then show ?thesis using assms by simp
qed

lemma apportion_round_moves:
  assumes m: "moves (q, h, r) (q, h, r)" and r: "0 < r" and ne: "active \<noteq> []"
    and d: "distinct active" and act: "\<forall>i\<in>set active. i < length h \<and> 0 < h ! i"
    and w: "\<forall>i\<in>set active. 0 \<le> weights ! i"
  shows "moves (q, h, r) (apportion_round weights active (q, h, r)) \<and>
    snd (snd (apportion_round weights active (q, h, r))) < r"
proof -
  define t where "t = sum_list (map ((!) weights) active)"
  define shares where "shares = map (\<lambda>i. (i, of_int r * weights ! i / t)) active"
  show ?thesis
  proof (cases "t \<le> 0")
    case True
    then show ?thesis
      using round_robin_moves [OF m d act] r ne by (simp add: apportion_round_def t_def)
  next
    case False
    have nonneg: "\<forall>s\<in>set (map snd shares). 0 \<le> s"
      using False w r by (auto simp: shares_def)
    have "sum_list (map snd shares) = of_int r"
      using shares_sum [of t "(!) weights" active "of_int r"] False
      by (simp add: shares_def t_def comp_def)
    then have "(of_int (sum_list (map py_int (map snd shares))) :: rat) \<le> of_int r"
      using sum_py_int_le [OF nonneg] by simp
    then have "sum_list (map (\<lambda>x. py_int (snd x)) shares) \<le> r"
      by (simp add: comp_def)
    then have m1: "moves (q, h, r) (take_shares shares (q, h, r))"
      by (rule take_shares_moves [OF m, rotated])
        (use act nonneg in \<open>auto simp: shares_def\<close>)
    obtain q1 h1 r1 where st: "take_shares shares (q, h, r) = (q1, h1, r1)"
      by (metis prod.exhaust)
    let ?sorted = "sort_key (\<lambda>(i, share). (- share, i)) shares"
    have round: "apportion_round weights active (q, h, r) =
        (if r1 = r then single_rows ?sorted (q1, h1, r1) else (q1, h1, r1))"
      using False st by (simp add: apportion_round_def Let_def flip: t_def shares_def)
    show ?thesis
    proof (cases "r1 = r")
      case False
      then show ?thesis using m1 round st by (auto simp: moves_def)
    next
      case True
      have ih: "\<forall>x\<in>set ?sorted. fst x < length h1"
        using act m1 st by (auto simp: shares_def moves_def)
      have "?sorted \<noteq> []" using ne by (metis length_0_conv length_sort length_map shares_def)
      then have "fst (hd ?sorted) \<in> set active"
        using hd_in_set [of ?sorted] by (auto simp: shares_def)
      moreover have "h1 = h"
        using moves_no_change m1 st True by simp
      ultimately have "0 < h1 ! fst (hd ?sorted)" using act by auto
      then show ?thesis
        using single_rows_moves [OF moves_right [OF m1 [unfolded st]] ih] True r
          \<open>?sorted \<noteq> []\<close> moves_trans [OF m1 [unfolded st]] round by auto
    qed
  qed
qed

lemma apportion_loop_total:
  assumes "moves (q, h, r) (q, h, r)" and "distinct active"
    and "\<forall>i. i \<in> set active \<longleftrightarrow> i < length h \<and> 0 < h ! i"
    and "\<forall>i<length h. 0 \<le> weights ! i"
  shows "\<exists>q' h' r'. apportion_loop weights active (q, h, r) = Some q' \<and>
    moves (q, h, r) (q', h', r') \<and> (r' = 0 \<or> (\<forall>i<length h. h' ! i = 0))"
  using assms
proof (induction "nat r" arbitrary: q h r active rule: less_induct)
  case less
  show ?case
  proof (cases "0 < r \<and> active \<noteq> []")
    case False
    have "r = 0 \<or> (\<forall>i<length h. h ! i = 0)"
    proof (cases "active = []")
      case True
      then have "\<forall>i<length h. \<not> 0 < h ! i" using less.prems(3) by auto
      then show ?thesis using less.prems(1) by (fastforce simp: moves_def)
    next
      case False
      then show ?thesis
        using \<open>\<not> (0 < r \<and> active \<noteq> [])\<close> less.prems(1) by (simp add: moves_def)
    qed
    moreover have "apportion_loop weights active (q, h, r) = Some q"
      by (subst apportion_loop.simps, subst if_not_P) (use False in auto)
    ultimately show ?thesis using less.prems(1) by blast
  next
    case True
    obtain q1 h1 r1 where st: "apportion_round weights active (q, h, r) = (q1, h1, r1)"
      by (metis prod.exhaust)
    have m: "moves (q, h, r) (q1, h1, r1)" and dec: "r1 < r"
      using apportion_round_moves [OF less.prems(1), of active weights] True less.prems st by auto
    let ?active = "still_active active (q1, h1, r1)"
    have len: "length h1 = length h" using m by (simp add: moves_def)
    have act: "\<forall>i. i \<in> set ?active \<longleftrightarrow> i < length h1 \<and> 0 < h1 ! i"
      using less.prems(3) m by (fastforce simp: still_active_def moves_def)
    have "nat r1 < nat r" using dec True by linarith
    then obtain q' h' r' where loop: "apportion_loop weights ?active (q1, h1, r1) = Some q'"
      and m': "moves (q1, h1, r1) (q', h', r')" "r' = 0 \<or> (\<forall>i<length h1. h' ! i = 0)"
      using less.hyps [OF _ moves_right [OF m] _ act] less.prems(2,4) len
      by (auto simp: still_active_def)
    have "apportion_loop weights active (q, h, r) = Some q'"
      using True st loop by (subst apportion_loop.simps) (simp add: Let_def)
    then show ?thesis
      using moves_trans [OF m m'(1)] m'(2) len by auto
  qed
qed

lemma sum_list_pointwise_add:
  assumes "length xs = length ys" "length zs = length ys"
    and "\<forall>i<length ys. xs ! i + zs ! i = (ys ! i :: int)"
  shows "sum_list xs + sum_list zs = sum_list ys"
  using assms
proof (induction ys arbitrary: xs zs)
  case Nil
  then show ?case by simp
next
  case (Cons y ys)
  from Cons.prems(1,2) obtain x xs' z zs' where xz: "xs = x # xs'" "zs = z # zs'"
    by (metis length_Suc_conv)
  have "sum_list xs' + sum_list zs' = sum_list ys"
    by (rule Cons.IH) (use Cons.prems xz in auto)
  moreover have "x + z = y" using Cons.prems(3) xz by force
  ultimately show ?case using xz by simp
qed

lemma apportion_total:
  assumes "length weights = length headroom" and "\<forall>w\<in>set weights. 0 \<le> w"
    and "\<forall>h\<in>set headroom. 0 \<le> h" and "0 \<le> remainder"
  shows "\<exists>quotas. apportion weights headroom remainder = Some quotas \<and>
    length quotas = length headroom \<and>
    (\<forall>i<length headroom. 0 \<le> quotas ! i \<and> quotas ! i \<le> headroom ! i) \<and>
    sum_list quotas = min remainder (sum_list headroom)"
proof -
  let ?st = "(replicate (length weights) 0, headroom, remainder)"
  have m: "moves ?st ?st"
    using assms by (intro moves_self) auto
  have act: "\<forall>i. i \<in> set (still_active [0..<length weights] ?st)
      \<longleftrightarrow> i < length headroom \<and> 0 < headroom ! i"
    using assms(1) by (auto simp: still_active_def)
  have d: "distinct (still_active [0..<length weights] ?st)"
    by (simp add: still_active_def)
  obtain q h r where loop: "apportion weights headroom remainder = Some q"
    and mv: "moves ?st (q, h, r)" and stop: "r = 0 \<or> (\<forall>i<length headroom. h ! i = 0)"
    using apportion_loop_total [OF m d act, of weights] assms(1,2)
    by (auto simp: apportion_def Let_def)
  have len: "length q = length headroom" "length h = length headroom"
    and pt: "\<forall>i<length headroom. 0 \<le> h ! i \<and> q ! i + h ! i = headroom ! i \<and> h ! i \<le> headroom ! i"
    and r: "0 \<le> r" "sum_list q + r = remainder"
    using mv assms(1) by (auto simp: moves_def sum_list_replicate)
  have total: "sum_list q + sum_list h = sum_list headroom"
    by (rule sum_list_pointwise_add) (use len pt in auto)
  have hn: "0 \<le> sum_list h"
    using pt len by (intro sum_list_nonneg) (metis in_set_conv_nth)
  have "r = 0 \<or> sum_list h = 0"
    using stop len by (metis in_set_conv_nth sum_list_0 map_idI sum_list_eq_0_iff)
  then have "sum_list q = min remainder (sum_list headroom)"
    using total r hn by auto
  moreover have "0 \<le> q ! i \<and> q ! i \<le> headroom ! i" if "i < length headroom" for i
  proof -
    have "q ! i + h ! i = headroom ! i" "0 \<le> h ! i" "h ! i \<le> headroom ! i"
      using pt that by blast+
    then show ?thesis by linarith
  qed
  ultimately show ?thesis using loop len by blast
qed

section \<open>Grouping\<close>

lemma group_rows_fold:
  "foldl group_rows_step ([], Map.empty) (enumerate 0 gids) = (order, rows) \<Longrightarrow>
     distinct order \<and> set order = set gids \<and>
     rows = (\<lambda>g. if g \<in> set gids then Some (matching (\<lambda>x. x = g) gids) else None)"
proof (induction gids arbitrary: order rows rule: rev_induct)
  case Nil
  then show ?case by auto
next
  case (snoc g gids)
  obtain order' rows' where st: "foldl group_rows_step ([], Map.empty) (enumerate 0 gids) = (order', rows')"
    by fastforce
  note ih = snoc.IH [OF st]
  have app: "matching (\<lambda>x. x = k) (gids @ [g]) =
      (if k = g then matching (\<lambda>x. x = k) gids @ [length gids] else matching (\<lambda>x. x = k) gids)" for k
    by (auto simp: matching_def nth_append intro: filter_cong)
  have none: "matching (\<lambda>x. x = g) gids = []" if "g \<notin> set gids"
    using that by (auto simp: matching_def filter_empty_conv)
  have step: "group_rows_step (order', rows') (length gids, g) = (order, rows)"
    using snoc.prems st by (simp add: enumerate_append_eq)
  show ?case
  proof (cases "g \<in> set gids")
    case True
    with step ih have "order = order'"
      and "rows = rows'(g \<mapsto> matching (\<lambda>x. x = g) gids @ [length gids])"
      by auto
    with True ih show ?thesis by (simp add: app fun_eq_iff insert_absorb)
  next
    case False
    with step ih have "order = order' @ [g]" and "rows = rows'(g \<mapsto> [length gids])"
      by auto
    with False ih none show ?thesis by (simp add: app fun_eq_iff)
  qed
qed

lemma group_rows_spec:
  obtains order where "group_rows gids = (map (\<lambda>g. matching (\<lambda>x. x = g) gids) order, order)"
    and "distinct order" and "set order = set gids"
proof -
  obtain order rows where st: "foldl group_rows_step ([], Map.empty) (enumerate 0 gids) = (order, rows)"
    by fastforce
  note f = group_rows_fold [OF st]
  have "group_rows gids = (map (\<lambda>g. matching (\<lambda>x. x = g) gids) order, order)"
    using st f by (auto simp: group_rows_def)
  then show thesis using that f by blast
qed

lemma group_rows_partition:
  "mset (concat (fst (group_rows gids))) = mset [0..<length gids]"
  "\<forall>rows\<in>set (fst (group_rows gids)). rows \<noteq> [] \<and> sorted_wrt (<) rows"
proof -
  obtain order where o: "group_rows gids = (map (\<lambda>g. matching (\<lambda>x. x = g) gids) order, order)"
    and d: "distinct order" and s: "set order = set gids"
    by (rule group_rows_spec)
  let ?m = "\<lambda>g. matching (\<lambda>x. x = g) gids"
  have sm: "set (?m g) = {i. i < length gids \<and> gids ! i = g}" for g
    by (simp add: set_matching)
  have ne: "?m g \<noteq> []" if "g \<in> set gids" for g
    using that sm by (metis (mono_tags, lifting) empty_iff in_set_conv_nth list.set(1) mem_Collect_eq)
  have inj: "inj_on ?m (set order)"
  proof (rule inj_onI)
    fix g g' assume g: "g \<in> set order" "g' \<in> set order" and eq: "?m g = ?m g'"
    from ne g(1) s obtain i where "i \<in> set (?m g)" by (metis list.set_intros(1) neq_Nil_conv)
    then show "g = g'" using eq sm [of g] sm [of g'] by (metis (mono_tags, lifting) mem_Collect_eq)
  qed
  have "distinct (concat (map ?m order))"
  proof (rule distinct_concat)
    show "distinct (map ?m order)" using d inj by (simp add: distinct_map)
    show "distinct ys" if "ys \<in> set (map ?m order)" for ys
      using that by (auto simp: matching_def)
    show "set ys \<inter> set zs = {}" if "ys \<in> set (map ?m order)" "zs \<in> set (map ?m order)" "ys \<noteq> zs" for ys zs
      using that by (auto simp: sm)
  qed
  moreover have "set (concat (map ?m order)) = {..<length gids}"
    using s by (auto simp: sm)
  ultimately show "mset (concat (fst (group_rows gids))) = mset [0..<length gids]"
    using distinct_set_upt_mset o by simp
  show "\<forall>rows\<in>set (fst (group_rows gids)). rows \<noteq> [] \<and> sorted_wrt (<) rows"
    using o s ne by (auto simp: sorted_matching)
qed

section \<open>Quotas meet the budget\<close>

lemma squeeze_loop_ok:
  assumes "distinct ranked" and "\<forall>i\<in>set ranked. i < length quotas \<and> quotas ! i = 0"
    and "length available = length quotas" and "0 \<le> row_floor" and "0 \<le> left"
    and "\<forall>i<length quotas. 0 \<le> available ! i \<and> 0 \<le> quotas ! i \<and> quotas ! i \<le> available ! i"
  shows "length (squeeze_loop available row_floor ranked quotas left) = length quotas \<and>
    (\<forall>i<length quotas. 0 \<le> squeeze_loop available row_floor ranked quotas left ! i \<and>
       squeeze_loop available row_floor ranked quotas left ! i \<le> available ! i) \<and>
    sum_list (squeeze_loop available row_floor ranked quotas left) =
      sum_list quotas + min left (sum_list (map (\<lambda>i. min (available ! i) row_floor) ranked))"
  using assms
proof (induction ranked arbitrary: quotas left)
  case Nil
  then show ?case by simp
next
  case (Cons i ranked)
  have i: "i < length quotas" "quotas ! i = 0" "0 \<le> available ! i" using Cons.prems by auto
  have tail: "0 \<le> sum_list (map (\<lambda>i. min (available ! i) row_floor) ranked)"
    using Cons.prems by (intro sum_list_nonneg) auto
  show ?case
  proof (cases "left \<le> 0")
    case True
    then show ?thesis using Cons.prems i tail by simp
  next
    case False
    let ?t = "min (min (available ! i) row_floor) left"
    let ?q = "quotas[i := ?t]"
    have "sum_list ?q = sum_list quotas + ?t"
      using i by (simp add: sum_list_update_int)
    moreover have "min left (min (available ! i) row_floor + x) = ?t + min (left - ?t) x"
      if "0 \<le> x" for x using that by auto
    moreover have "\<forall>j<length ?q. 0 \<le> available ! j \<and> 0 \<le> ?q ! j \<and> ?q ! j \<le> available ! j"
      using Cons.prems i False by (auto simp: nth_list_update)
    moreover have "\<forall>j\<in>set ranked. j < length ?q \<and> ?q ! j = 0"
      using Cons.prems by (auto simp: nth_list_update)
    ultimately show ?thesis
      using Cons.IH [of ?q "left - ?t"] Cons.prems False tail by (simp add: Let_def)
  qed
qed

lemma sum_list_nth: "sum_list (map (\<lambda>i. f (xs ! i)) [0..<length xs]) = sum_list (map f xs)"
  by (metis (no_types, lifting) comp_apply map_eq_conv map_map map_nth)

definition floors_fit :: "int list \<Rightarrow> int \<Rightarrow> int \<Rightarrow> bool" where
  "floors_fit available row_floor budget \<longleftrightarrow> sum_list (map (min row_floor) available) \<le> budget"

definition quotas_ok :: "int list \<Rightarrow> int \<Rightarrow> int \<Rightarrow> int list \<Rightarrow> bool" where
  "quotas_ok available row_floor budget quotas \<longleftrightarrow>
     length quotas = length available \<and> sum_list quotas = budget \<and>
     (\<forall>i<length available. 0 \<le> quotas ! i \<and> quotas ! i \<le> available ! i) \<and>
     (floors_fit available row_floor budget \<longrightarrow>
        (\<forall>i<length available. min row_floor (available ! i) \<le> quotas ! i))"

lemma group_quotas_squeeze:
  assumes "\<not> floors_fit available row_floor budget" and "\<forall>a\<in>set available. 0 \<le> a"
    and "0 \<le> row_floor" and "0 < budget"
  shows "\<exists>quotas. group_quotas graded gw available row_floor budget = Some quotas \<and>
    quotas_ok available row_floor budget quotas"
proof -
  let ?n = "length available"
  let ?ranked = "sort_key (\<lambda>i. (- graded ! i, - gw ! i, i)) [0..<?n]"
  let ?zero = "replicate ?n (0 :: int)"
  have "sum_list (map (\<lambda>i. min (available ! i) row_floor) ?ranked)
      = sum_list (map (\<lambda>i. min (available ! i) row_floor) [0..<?n])"
    by (rule sum_list_map_mset) simp
  also have "\<dots> = sum_list (map (min row_floor) available)"
    using sum_list_nth [of "min row_floor" available] by (simp add: min.commute)
  finally have total: "budget < sum_list (map (\<lambda>i. min (available ! i) row_floor) ?ranked)"
    using assms(1) by (simp add: floors_fit_def)
  show ?thesis
    using squeeze_loop_ok [of ?ranked ?zero available row_floor budget] assms total
    by (auto simp: group_quotas_def Let_def quotas_ok_def floors_fit_def sum_list_replicate)
qed

lemma group_quotas_apportion:
  assumes "floors_fit available row_floor budget" and "\<forall>a\<in>set available. 0 \<le> a"
    and "0 \<le> row_floor" and "budget \<le> sum_list available"
    and "length graded = length available" and "\<forall>w\<in>set graded. 0 \<le> w"
  shows "\<exists>quotas. group_quotas graded gw available row_floor budget = Some quotas \<and>
    quotas_ok available row_floor budget quotas"
proof -
  let ?n = "length available"
  let ?base = "map (min row_floor) available"
  let ?head = "map (\<lambda>i. available ! i - ?base ! i) [0..<?n]"
  let ?rem = "budget - sum_list ?base"
  have base: "sum_list ?base \<le> budget" using assms(1) by (simp add: floors_fit_def)
  have head: "\<forall>h\<in>set ?head. 0 \<le> h" by auto
  have "sum_list ?base + sum_list ?head = sum_list available"
    by (rule sum_list_pointwise_add) auto
  then have rem: "min ?rem (sum_list ?head) = ?rem" using assms(4) by linarith
  have "length graded = length ?head" using assms(5) by simp
  from apportion_total [OF this assms(6) head, of ?rem] base obtain extra
    where ap: "apportion graded ?head ?rem = Some extra" and len: "length extra = ?n"
      and bd: "\<forall>i<?n. 0 \<le> extra ! i \<and> extra ! i \<le> ?head ! i" and sum: "sum_list extra = ?rem"
    using rem by auto
  let ?qs = "map (\<lambda>i. ?base ! i + extra ! i) [0..<?n]"
  have "sum_list ?base + sum_list extra = sum_list ?qs"
    by (rule sum_list_pointwise_add) (use len in auto)
  then have total: "sum_list ?qs = budget" using sum by simp
  have q: "group_quotas graded gw available row_floor budget = Some ?qs"
    using base ap by (simp add: group_quotas_def Let_def)
  have "0 \<le> ?qs ! i \<and> ?qs ! i \<le> available ! i \<and> min row_floor (available ! i) \<le> ?qs ! i"
    if "i < ?n" for i
  proof -
    have "0 \<le> extra ! i" "extra ! i \<le> available ! i - min row_floor (available ! i)"
      "0 \<le> available ! i" using bd that assms(2) by auto
    then show ?thesis using that assms(3) by auto
  qed
  then have "quotas_ok available row_floor budget ?qs"
    using total by (simp add: quotas_ok_def)
  with q show ?thesis by blast
qed

section \<open>The rows kept\<close>

lemma concat_prefixes_length:
  assumes "length quotas = length rows"
    and "\<forall>i<length rows. 0 \<le> quotas ! i \<and> quotas ! i \<le> int (length (rows ! i))"
  shows "int (length (concat (map (\<lambda>(r, q). py_prefix q r) (zip rows quotas)))) = sum_list quotas"
  using assms
proof (induction rows arbitrary: quotas)
  case Nil
  then show ?case by simp
next
  case (Cons r rows)
  then obtain q qs where q: "quotas = q # qs" by (cases quotas) auto
  have "int (length (concat (map (\<lambda>(r, q). py_prefix q r) (zip rows qs)))) = sum_list qs"
    by (rule Cons.IH) (use Cons.prems q in force)+
  moreover have "0 \<le> q" "q \<le> int (length r)" using Cons.prems(2) q by force+
  ultimately show ?case using q by simp
qed

lemma mset_concat_prefixes:
  assumes "length quotas = length rows"
  shows "mset (concat (map (\<lambda>(r, q). py_prefix q r) (zip rows quotas))) \<subseteq># mset (concat rows)"
  using assms
proof (induction rows arbitrary: quotas)
  case Nil
  then show ?case by simp
next
  case (Cons r rows)
  then obtain q qs where q: "quotas = q # qs" by (cases quotas) auto
  obtain k where k: "py_prefix q r = take k r" using py_prefix_is_take by blast
  have "mset (take k r) \<subseteq># mset r"
    by (metis append_take_drop_id mset_append mset_subset_eq_add_left)
  with Cons q k show ?case by (simp add: subset_mset.add_mono)
qed

lemma sum_list_int_length: "sum_list (map (\<lambda>r. int (length r)) xs) = int (sum_list (map length xs))"
  by (induction xs) simp_all

lemma set_kept_rows:
  assumes "length quotas = length rows"
  shows "set (kept_rows rows quotas) = (\<Union>i<length rows. set (py_prefix (quotas ! i) (rows ! i)))"
  using assms by (auto simp: kept_rows_def set_zip)

lemma kept_rows_group:
  assumes "length quotas = length rows" and "distinct (concat rows)" and "i < length rows"
    and "0 \<le> quotas ! i"
  shows "set (kept_rows rows quotas) \<inter> set (rows ! i) = set (take (nat (quotas ! i)) (rows ! i))"
proof -
  have sub: "set (py_prefix q r) \<subseteq> set r" for q and r :: "nat list"
    using py_prefix_is_take [of q r] set_take_subset by metis
  have "set (kept_rows rows quotas) \<inter> set (rows ! i)
      = set (py_prefix (quotas ! i) (rows ! i)) \<inter> set (rows ! i)"
    unfolding set_kept_rows [OF assms(1)]
    using sub distinct_concat_disjoint [OF assms(2) assms(3)] assms(3) by fastforce
  also have "\<dots> = set (py_prefix (quotas ! i) (rows ! i))" using sub by blast
  finally show ?thesis using assms(4) by simp
qed

lemma diversity_factor_ok:
  assumes "\<And>x e. 0 \<le> x \<Longrightarrow> 0 \<le> pw x e"
  shows "length (diversity_factor pw rows diversity e) = length rows"
    and "\<forall>f\<in>set (diversity_factor pw rows diversity e). 0 \<le> f"
  using assms by (auto simp: diversity_factor_def Let_def split: option.splits)

text \<open>The quotas chosen inside \<open>allocate_rollout_budget\<close>.\<close>

lemma allocate_quotas:
  assumes "0 < budget" and "budget < int (length gids)" and "\<And>x e. 0 \<le> x \<Longrightarrow> 0 \<le> pw x e"
  defines "rows \<equiv> fst (group_rows gids)"
  defines "available \<equiv> map (\<lambda>r. int (length r)) rows"
  shows "\<exists>quotas. allocate_rollout_budget pw gids weights budget floor_rows ve diversity de
      = Some (kept_rows rows quotas) \<and> quotas_ok available (max 0 floor_rows) budget quotas"
proof -
  let ?gw = "map (\<lambda>r. max 0 (mean_rows weights r)) rows"
  let ?factor = "diversity_factor pw rows diversity de"
  let ?graded = "map (\<lambda>i. pw (?gw ! i) ve * ?factor ! i) [0..<length ?gw]"
  note fac = diversity_factor_ok [of pw rows diversity de, OF assms(3)]
  have graded: "length ?graded = length available" "\<forall>w\<in>set ?graded. 0 \<le> w"
    using fac assms(3) by (auto simp: available_def intro!: mult_nonneg_nonneg)
  have avail: "\<forall>a\<in>set available. 0 \<le> a" by (auto simp: available_def)
  have "length (concat rows) = length gids"
    using mset_upt_distinct [OF group_rows_partition(1), of gids] by (simp add: rows_def)
  then have "sum_list available = int (length gids)"
    by (simp add: available_def length_concat sum_list_int_length)
  then have total: "budget \<le> sum_list available" using assms(2) by simp
  obtain quotas where "group_quotas ?graded ?gw available (max 0 floor_rows) budget = Some quotas"
    and "quotas_ok available (max 0 floor_rows) budget quotas"
    using group_quotas_squeeze [OF _ avail _ assms(1), of "max 0 floor_rows" ?graded ?gw]
      group_quotas_apportion [OF _ avail _ total graded, of "max 0 floor_rows" ?gw]
    by (cases "floors_fit available (max 0 floor_rows) budget") force+
  then show ?thesis
    using assms(1,2)
    by (auto simp: allocate_rollout_budget_def Let_def available_def rows_def comp_def)
qed

section \<open>Properties\<close>

text \<open>C30: The apportionment terminates and is exact. For non-negative weights, headrooms and
  remainder the loop returns, no group receives more than its headroom, and the rows handed out
  are the whole remainder unless the headroom runs out first.\<close>

theorem apportion_exact:
  assumes "length weights = length headroom" and "\<forall>w\<in>set weights. 0 \<le> w"
    and "\<forall>h\<in>set headroom. 0 \<le> h" and "0 \<le> remainder"
  shows "\<exists>quotas. apportion weights headroom remainder = Some quotas \<and>
    length quotas = length headroom \<and>
    (\<forall>i<length headroom. 0 \<le> quotas ! i \<and> quotas ! i \<le> headroom ! i) \<and>
    sum_list quotas = min remainder (sum_list headroom)"
  using apportion_total [OF assms] .

theorem apportion_exact_witness:
  "\<exists>quotas. apportion [1 / 2, 0, 3] [2, 5, 1] 4 = Some quotas \<and> sum_list quotas = 4"
  using apportion_exact [of "[1 / 2, 0, 3]" "[2, 5, 1]" 4] by auto

text \<open>C29: The allocator spends exactly the budget. Whatever the weights, floors, exponents and
  diversity signal, it returns strictly increasing row indices of the batch, as many as the
  budget allows: every row when the budget covers the batch, none when it is not positive, and
  exactly \<open>budget\<close> rows otherwise.\<close>

theorem allocate_spends_budget:
  assumes "\<And>x e. 0 \<le> x \<Longrightarrow> 0 \<le> pw x e"
  shows "\<exists>kept. allocate_rollout_budget pw gids weights budget floor_rows ve diversity de = Some kept \<and>
    sorted_wrt (<) kept \<and> set kept \<subseteq> {..<length gids} \<and>
    int (length kept) = max 0 (min budget (int (length gids)))"
proof (cases "0 < budget \<and> budget < int (length gids)")
  case False
  then show ?thesis
    by (auto simp: allocate_rollout_budget_def Let_def)
next
  case True
  define rows where "rows = fst (group_rows gids)"
  obtain quotas where q: "allocate_rollout_budget pw gids weights budget floor_rows ve diversity de
      = Some (kept_rows rows quotas)"
    and ok: "quotas_ok (map (\<lambda>r. int (length r)) rows) (max 0 floor_rows) budget quotas"
    using allocate_quotas [of budget gids pw] True assms unfolding rows_def by blast
  let ?c = "concat (map (\<lambda>(r, q). py_prefix q r) (zip rows quotas))"
  have len: "length quotas = length rows" using ok by (simp add: quotas_ok_def)
  have part: "mset (concat rows) = mset [0..<length gids]"
    using group_rows_partition(1) by (simp add: rows_def)
  have sub: "mset ?c \<subseteq># mset [0..<length gids]"
    using mset_concat_prefixes [OF len] part by simp
  have "distinct ?c"
    using sub by (metis distinct_upt mset_subset_eq_add_left distinct_append
        mset_append mset_eq_imp_distinct_iff ex_mset subset_mset.le_iff_add)
  then have "sorted_wrt (<) (kept_rows rows quotas)"
    by (simp add: kept_rows_def strict_sorted_iff)
  moreover have "set (kept_rows rows quotas) \<subseteq> {..<length gids}"
    using set_mset_mono [OF sub] by (simp only: kept_rows_def set_sort set_mset_mset atLeast_upt)
  moreover have "int (length (kept_rows rows quotas)) = budget"
    using concat_prefixes_length [OF len] ok by (simp add: kept_rows_def quotas_ok_def)
  ultimately show ?thesis using q True by auto
qed

theorem allocate_spends_budget_witness:
  "\<exists>kept. allocate_rollout_budget (\<lambda>x e. x) [7, 7, 8, 8] [1, 1, 3, 3] 2 1 1 None 0 = Some kept \<and>
     sorted_wrt (<) kept \<and> int (length kept) = 2"
  using allocate_spends_budget [of "\<lambda>x e. x" "[7, 7, 8, 8]" "[1, 1, 3, 3]" 2 1 1 None 0] by auto

text \<open>The allocation is across groups, never within one, and honours the floor. The rows kept
  of each prompt group are a prefix of its rows in batch order; and whenever the floors of all
  groups fit the budget together, every group keeps at least its floor (or all its rows).\<close>

lemma allocate_group_prefix_floor:
  assumes "0 < budget" and "budget < int (length gids)" and "\<And>x e. 0 \<le> x \<Longrightarrow> 0 \<le> pw x e"
    and "allocate_rollout_budget pw gids weights budget floor_rows ve diversity de = Some kept"
  shows "\<forall>rows\<in>set (fst (group_rows gids)). \<exists>k\<le>length rows.
    set kept \<inter> set rows = set (take k rows) \<and>
    (floors_fit (map (\<lambda>r. int (length r)) (fst (group_rows gids))) (max 0 floor_rows) budget \<longrightarrow>
       min (max 0 floor_rows) (int (length rows)) \<le> int k)"
proof
  fix rs assume rs: "rs \<in> set (fst (group_rows gids))"
  define rows where "rows = fst (group_rows gids)"
  obtain i where i: "i < length rows" "rs = rows ! i"
    using rs by (auto simp: rows_def in_set_conv_nth)
  obtain quotas where k: "kept = kept_rows rows quotas"
    and ok: "quotas_ok (map (\<lambda>r. int (length r)) rows) (max 0 floor_rows) budget quotas"
    using allocate_quotas [OF assms(1,2), of pw weights floor_rows ve diversity de] assms(3,4)
    unfolding rows_def by auto
  have len: "length quotas = length rows" and q: "0 \<le> quotas ! i" "quotas ! i \<le> int (length rs)"
    using ok i by (auto simp: quotas_ok_def)
  have d: "distinct (concat rows)"
    using mset_upt_distinct [OF group_rows_partition(1), of gids] by (simp add: rows_def)
  have "set kept \<inter> set rs = set (take (nat (quotas ! i)) rs)"
    using kept_rows_group [OF len d i(1) q(1)] k i(2) by simp
  moreover have "nat (quotas ! i) \<le> length rs" using q by linarith
  moreover have "floors_fit (map (\<lambda>r. int (length r)) rows) (max 0 floor_rows) budget \<longrightarrow>
      min (max 0 floor_rows) (int (length rs)) \<le> int (nat (quotas ! i))"
    using ok i q(1) by (auto simp: quotas_ok_def)
  ultimately show "\<exists>k\<le>length rs. set kept \<inter> set rs = set (take k rs) \<and>
      (floors_fit (map (\<lambda>r. int (length r)) (fst (group_rows gids))) (max 0 floor_rows) budget \<longrightarrow>
       min (max 0 floor_rows) (int (length rs)) \<le> int k)"
    unfolding rows_def by blast
qed

lemma demo_allocation:
  "\<exists>kept. allocate_rollout_budget (\<lambda>x e. x) [7, 7, 8, 8] [1, 1, 3, 3] 2 1 1 None 0 = Some kept"
  using allocate_spends_budget [of "\<lambda>x e. x" "[7, 7, 8, 8]" "[1, 1, 3, 3]" 2 1 1 None 0] by auto

lemma allocate_group_prefix_floor_witness:
  "\<exists>kept. allocate_rollout_budget (\<lambda>x e. x) [7, 7, 8, 8] [1, 1, 3, 3] 2 1 1 None 0 = Some kept \<and>
    (\<forall>rows\<in>set (fst (group_rows [7, 7, 8, 8])). \<exists>k\<le>length rows. set kept \<inter> set rows = set (take k rows))"
proof -
  obtain kept where k:
    "allocate_rollout_budget (\<lambda>x e. x) [7, 7, 8, 8] [1, 1, 3, 3] 2 1 1 None 0 = Some kept"
    using demo_allocation by blast
  have h: "(0::int) < 2" "2 < int (length [7, 7, 8, 8 :: int])" by simp_all
  have "0 \<le> x \<Longrightarrow> 0 \<le> (\<lambda>x (e::rat). x) x e" for x e :: rat by simp
  from allocate_group_prefix_floor [OF h this k] show ?thesis using k by blast
qed

text \<open>Group ids separate what carries different baselines. Within a batch two rows share an
  id exactly when \<open>torch.unique\<close> puts them in the same class, and ids from two different
  generation batches never coincide.\<close>

lemma assign_group_ids_separate:
  assumes "assign_group_ids ui 2 ps m = Inr ids" and "assign_group_ids ui 2 qs n = Inr ids'"
    and "i < length ids" and "j < length ids'"
  shows "ids ! i = ids' ! j \<longleftrightarrow> m = n \<and> ui ps ! i = ui qs ! j"
proof -
  have range: "length xs = length (ui rs) \<and>
      (\<forall>k<length xs. xs ! k = int (ui rs ! k) + o1 * group_id_stride \<and> int (ui rs ! k) < group_id_stride)"
    if "assign_group_ids ui 2 rs o1 = Inr xs" for rs o1 xs
  proof -
    have xs: "xs = map (\<lambda>l. l + o1 * group_id_stride) (map int (ui rs))"
      and mx: "map int (ui rs) = [] \<or> Max (set (map int (ui rs))) < group_id_stride"
      using that by (auto simp: assign_group_ids_def Let_def simp del: list.map_comp split: if_splits)
    have "int (ui rs ! k) < group_id_stride" if k: "k < length (ui rs)" for k
    proof -
      have "int (ui rs ! k) \<in> set (map int (ui rs))" using k by auto
      then have "int (ui rs ! k) \<le> Max (set (map int (ui rs)))" by (intro Max_ge) auto
      moreover have "map int (ui rs) \<noteq> []" using k by auto
      ultimately show ?thesis using mx le_less_trans by blast
    qed
    then show ?thesis using xs by simp
  qed
  let ?s = group_id_stride
  have s: "0 < ?s" by (simp add: group_id_stride_def)
  have i: "ids ! i = int (ui ps ! i) + m * ?s" "int (ui ps ! i) < ?s"
    and j: "ids' ! j = int (ui qs ! j) + n * ?s" "int (ui qs ! j) < ?s"
    using range [OF assms(1)] range [OF assms(2)] assms(3,4) by auto
  have "ids ! i div ?s = m" "ids ! i mod ?s = int (ui ps ! i)"
    "ids' ! j div ?s = n" "ids' ! j mod ?s = int (ui qs ! j)"
    using i j s by simp_all
  then show ?thesis using i(1) j(1) by (metis of_nat_eq_iff)
qed

lemma assign_group_ids_separate_witness:
  "\<exists>ids ids'. assign_group_ids (\<lambda>ps. [0, 1, 0]) 2 [[5], [6], [5::int]] 0 = Inr ids \<and>
     assign_group_ids (\<lambda>ps. [0, 1, 0]) 2 [[5], [6], [5::int]] 1 = Inr ids' \<and>
     ids ! 0 = ids ! 2 \<and> ids ! 0 \<noteq> ids' ! 0"
proof -
  let ?ui = "\<lambda>ps :: int list list. [0, 1, 0 :: nat]"
  obtain ids ids' where a: "assign_group_ids ?ui 2 [[5], [6], [5]] 0 = Inr ids"
    and b: "assign_group_ids ?ui 2 [[5], [6], [5]] 1 = Inr ids'"
    and l: "length ids = 3" "length ids' = 3"
    by (auto simp: assign_group_ids_def group_id_stride_def)
  from l have h: "0 < length ids" "2 < length ids" "0 < length ids'" by simp_all
  show ?thesis
    using a b assign_group_ids_separate [OF a a h(1) h(2)] assign_group_ids_separate [OF a b h(1) h(3)]
    by auto
qed

text \<open>The configuration check accepts exactly the configurations that can do what they say: a
  disabled block, or an integer non-boolean non-negative floor, a non-negative exponent, dynamic
  sampling on, and the sync trainer.\<close>

lemma validate_graded_allocation_exact:
  "validate_graded_allocation_config cfg uds trainer = Inr () \<longleftrightarrow>
     (case cfg of None \<Rightarrow> True
      | Some c \<Rightarrow>
          if ga_enabled c
          then (case ga_min_rollouts_per_prompt c of
                  None \<Rightarrow> True | Some (Cfg_Int i) \<Rightarrow> 0 \<le> i | Some v \<Rightarrow> False) \<and>
               (case ga_variance_exponent c of None \<Rightarrow> True | Some e \<Rightarrow> 0 \<le> e) \<and>
               uds \<and> trainer = ''sync''
          else True)"
  by (auto simp: validate_graded_allocation_config_def graded_allocation_enabled_def
      supported_trainers_def Let_def split: option.splits cfg_value.splits)

end
