(* ===== verification/Batched_Data.thy ===== *)
theory Batched_Data
  imports Packing "HOL-Library.Product_Lexorder"
begin

text \<open>
  The batch container of the training pipeline,
  \<^verbatim>\<open>distributed/batched_data_dict.py\<close> (class \<open>BatchedDataDict\<close>). A tensor, an array, a
  list and a packed multimodal tensor are all row-indexed along their first dimension, so each
  of them is a column \<open>Batched rows\<close>; every other value is \<open>Scalar\<close>. The dict is an
  association list in insertion order. Device and dtype moves do not change rows and are left
  out. \<open>row_len\<close> reads a row of the length column as a token count.

  The theory follows one batch through the data-parallel split: repetition of prompts, sharding
  over ranks, length-sorted sharding for sequence packing with the permutation that undoes it,
  and the packs that become micro-batches.
\<close>

datatype 'a column = Batched "'a list" | Scalar 'a

record packing_args =
  pa_max_tokens_per_microbatch :: nat
  pa_input_lengths_key :: string
  pa_algorithm :: "string option"

record 'a batch =
  bd_data :: "(string \<times> 'a column) list"
  bd_batch_size :: "nat option"
  bd_packing_args :: "packing_args option"

section \<open>Construction and access\<close>

fun batch_dim :: "'a column \<Rightarrow> nat option" where
  "batch_dim (Batched rows) = Some (length rows)"
| "batch_dim (Scalar v) = None"

fun infer_batch_size :: "(string \<times> 'a column) list \<Rightarrow> nat option" where
  "infer_batch_size [] = None"
| "infer_batch_size ((k, v) # data) =
     (case batch_dim v of Some n \<Rightarrow> Some n | None \<Rightarrow> infer_batch_size data)"

definition bd_init :: "(string \<times> 'a column) list \<Rightarrow> 'a batch" where
  "bd_init data =
     \<lparr>bd_data = data, bd_batch_size = infer_batch_size data, bd_packing_args = None\<rparr>"

definition bd_setitem :: "'a batch \<Rightarrow> string \<Rightarrow> 'a column \<Rightarrow> 'a batch result" where
  "bd_setitem d key value =
     (case batch_dim value of
        None \<Rightarrow> Inr (d\<lparr>bd_data := dict_set key value (bd_data d)\<rparr>)
      | Some dm \<Rightarrow>
          (case bd_batch_size d of
             None \<Rightarrow> Inr (d\<lparr>bd_data := dict_set key value (bd_data d), bd_batch_size := Some dm\<rparr>)
           | Some n \<Rightarrow>
               if dm \<noteq> n then Inl ValueError
               else Inr (d\<lparr>bd_data := dict_set key value (bd_data d)\<rparr>)))"

definition bd_size :: "'a batch \<Rightarrow> nat" where
  "bd_size d = (case bd_batch_size d of Some n \<Rightarrow> n | None \<Rightarrow> 0)"

definition bd_batch_size_prop :: "'a batch \<Rightarrow> nat result" where
  "bd_batch_size_prop d = (case bd_batch_size d of Some n \<Rightarrow> Inr n | None \<Rightarrow> Inl RuntimeError)"

definition bd_pop :: "'a batch \<Rightarrow> string \<Rightarrow> ('a column \<times> 'a batch) result" where
  "bd_pop d key =
     (case map_of (bd_data d) key of
        None \<Rightarrow> Inl KeyError
      | Some v \<Rightarrow>
          let data = filter (\<lambda>(k, _). k \<noteq> key) (bd_data d)
          in Inr (v, d\<lparr>bd_data := data, bd_batch_size := infer_batch_size data\<rparr>))"

section \<open>Slicing\<close>

text \<open>\<open>v[idx]\<close> for a list of indices: an index out of range raises.\<close>

fun slice_value :: "nat list \<Rightarrow> 'a column \<Rightarrow> 'a column result" where
  "slice_value idx (Batched rows) =
     (if list_all (\<lambda>i. i < length rows) idx then Inr (Batched (map ((!) rows) idx))
      else Inl IndexError)"
| "slice_value idx (Scalar v) = Inr (Scalar v)"

text \<open>\<open>v[start:end]\<close>: a slice clips.\<close>

fun slice_range :: "nat \<Rightarrow> nat \<Rightarrow> 'a column \<Rightarrow> 'a column" where
  "slice_range start stop (Batched rows) = Batched (take (stop - start) (drop start rows))"
| "slice_range start stop (Scalar v) = Scalar v"

definition bd_select :: "'a batch \<Rightarrow> nat list \<Rightarrow> 'a batch result" where
  "bd_select d idx =
     bind_res (map_res (\<lambda>(k, v). bind_res (slice_value idx v) (\<lambda>w. Inr (k, w))) (bd_data d))
       (\<lambda>data. Inr (bd_init data))"

definition bd_select_range :: "'a batch \<Rightarrow> nat \<Rightarrow> nat \<Rightarrow> 'a batch" where
  "bd_select_range d start stop =
     bd_init (map (\<lambda>(k, v). (k, slice_range start stop v)) (bd_data d))"

definition bd_get_batch :: "'a batch \<Rightarrow> nat \<Rightarrow> nat \<Rightarrow> 'a batch" where
  "bd_get_batch d batch_idx batch_size =
     bd_select_range d (batch_idx * batch_size) (batch_idx * batch_size + batch_size)"

text \<open>\<open>range(0, total, microbatch_size)\<close>\<close>

definition microbatch_starts :: "nat \<Rightarrow> nat \<Rightarrow> nat list" where
  "microbatch_starts n step = map (\<lambda>k. k * step) [0..<(n + step - 1) div step]"

definition make_microbatch_iterator :: "'a batch \<Rightarrow> int \<Rightarrow> 'a batch list result" where
  "make_microbatch_iterator d microbatch_size =
     (if microbatch_size \<le> 0 then Inl ValueError
      else
        let total = bd_size d; m = nat microbatch_size
        in Inr (map (\<lambda>start. bd_select_range d start (min (start + m) total))
                  (microbatch_starts total m)))"

fun repeat_column :: "nat \<Rightarrow> 'a column \<Rightarrow> 'a column" where
  "repeat_column n (Batched rows) = Batched (concat (map (replicate n) rows))"
| "repeat_column n (Scalar v) = Scalar v"

definition repeat_interleave :: "'a batch \<Rightarrow> int \<Rightarrow> 'a batch result" where
  "repeat_interleave d num_repeats =
     (if num_repeats \<le> 0 then Inl ValueError
      else Inr (bd_init (map (\<lambda>(k, v). (k, repeat_column (nat num_repeats) v)) (bd_data d))))"

definition bd_split :: "'a batch \<Rightarrow> int \<Rightarrow> 'a batch list result" where
  "bd_split d n =
     (if n \<le> 0 then Inl ValueError
      else bind_res (bd_batch_size_prop d) (\<lambda>bs.
        let m = nat n; chunk = bs div m
        in Inr (map (\<lambda>i. bd_select_range d (i * chunk) (if i < m - 1 then (i + 1) * chunk else bs))
                  [0..<m])))"

definition split_for_dp :: "'a batch \<Rightarrow> nat \<Rightarrow> bool \<Rightarrow> 'a batch list result" where
  "split_for_dp d dp_size drop_remainder =
     bind_res (bd_batch_size_prop d) (\<lambda>bs.
       if dp_size = 0 then Inl ZeroDivisionError
       else
         let per_rank = bs div dp_size in
         if per_rank = 0 then Inl ValueError
         else if \<not> drop_remainder \<and> bs mod dp_size \<noteq> 0 then Inl ValueError
         else
           let total = per_rank * dp_size;
               trimmed = (if total < bs then bd_select_range d 0 total else d)
           in bd_split trimmed (int dp_size))"

section \<open>Sharding\<close>

fun column_len :: "'a column \<Rightarrow> nat result" where
  "column_len (Batched rows) = Inr (length rows)"
| "column_len (Scalar v) = Inl TypeError"

text \<open>The row ranges of one shard: one per chunk, empty ones dropped.\<close>

definition shard_ranges ::
  "nat \<Rightarrow> nat \<Rightarrow> nat \<Rightarrow> nat \<Rightarrow> bool \<Rightarrow> nat \<Rightarrow> (nat \<times> nat) list" where
  "shard_ranges total_batch_size chunk_size num_chunks shard_size allow_uneven shard_idx =
     filter (\<lambda>(a, b). a < b)
       (map (\<lambda>chunk_idx.
          let chunk_start = chunk_idx * chunk_size;
              shard_start = chunk_start + shard_idx * shard_size;
              shard_end = chunk_start + (shard_idx + 1) * shard_size
          in if allow_uneven then (min shard_start total_batch_size, min shard_end total_batch_size)
             else (shard_start, shard_end)) [0..<num_chunks])"

fun shard_column :: "(nat \<times> nat) list \<Rightarrow> 'a column \<Rightarrow> 'a column" where
  "shard_column ranges (Batched rows) =
     Batched (concat (map (\<lambda>(a, b). take (b - a) (drop a rows)) ranges))"
| "shard_column ranges (Scalar v) = Scalar v"

definition shard_plain ::
  "'a batch \<Rightarrow> nat \<Rightarrow> nat option \<Rightarrow> bool \<Rightarrow> 'a batch list result" where
  "shard_plain d shards batch_size allow_uneven_shards =
     (if allow_uneven_shards \<and> batch_size \<noteq> None then Inl AssertionError
      else bind_res (map_res (\<lambda>(k, v). column_len v) (bd_data d)) (\<lambda>batch_sizes.
        if card (set batch_sizes) \<noteq> 1 then Inl AssertionError
        else
          let total_batch_size = hd batch_sizes;
              chunk_size = (case batch_size of None \<Rightarrow> total_batch_size | Some b \<Rightarrow> b)
          in
          if chunk_size = 0 then Inl ZeroDivisionError
          else if total_batch_size mod chunk_size \<noteq> 0 then Inl AssertionError
          else if shards = 0 then Inl ZeroDivisionError
          else if \<not> allow_uneven_shards \<and> chunk_size mod shards \<noteq> 0 then Inl AssertionError
          else
            let num_chunks = total_batch_size div chunk_size;
                shard_size = (if allow_uneven_shards then (chunk_size + shards - 1) div shards
                              else chunk_size div shards)
            in Inr (map (\<lambda>s.
                 let ranges = shard_ranges total_batch_size chunk_size num_chunks shard_size
                                allow_uneven_shards s
                 in bd_init (map (\<lambda>(k, v). (k, shard_column ranges v)) (bd_data d))) [0..<shards])))"

fun column_rows :: "'a column \<Rightarrow> 'a list result" where
  "column_rows (Batched rows) = Inr rows"
| "column_rows (Scalar v) = Inl TypeError"

definition packable_lengths :: "('a \<Rightarrow> nat) \<Rightarrow> 'a batch \<Rightarrow> string \<Rightarrow> nat list result" where
  "packable_lengths row_len d key =
     (case map_of (bd_data d) key of
        None \<Rightarrow> Inl KeyError
      | Some v \<Rightarrow> bind_res (column_rows v) (\<lambda>rows. Inr (map row_len rows)))"

definition length_order :: "nat list \<Rightarrow> nat list" where
  "length_order lengths = sort_key ((!) lengths) [0..<length lengths]"

definition shard_packed ::
  "('a \<Rightarrow> nat) \<Rightarrow> 'a batch \<Rightarrow> nat \<Rightarrow> packing_args \<Rightarrow> ('a batch list \<times> nat list) result" where
  "shard_packed row_len d shards args =
     bind_res (packable_lengths row_len d (pa_input_lengths_key args)) (\<lambda>lengths.
       let sort_order = length_order lengths;
           inverse = invert_perm (length lengths) sort_order
       in bind_res (bd_select d sort_order) (\<lambda>reordered.
            bind_res (shard_plain reordered shards None False) (\<lambda>shard_list.
              Inr (map (\<lambda>shard. shard\<lparr>bd_packing_args := Some args\<rparr>) shard_list, inverse))))"

text \<open>The dispatcher: dynamic batching is refused, sequence packing sorts first.\<close>

datatype 'a shard_result = Plain "'a batch list" | Packed "'a batch list" "nat list"

definition shard_by_batch_size ::
  "('a \<Rightarrow> nat) \<Rightarrow> 'a batch \<Rightarrow> nat \<Rightarrow> nat option \<Rightarrow> bool \<Rightarrow> bool \<Rightarrow> packing_args option
     \<Rightarrow> 'a shard_result result" where
  "shard_by_batch_size row_len d shards batch_size allow_uneven_shards dynamic_batching
       sequence_packing =
     (if dynamic_batching then Inl NotImplementedError
      else case sequence_packing of
        Some args \<Rightarrow>
          bind_res (shard_packed row_len d shards args) (\<lambda>(ss, inverse). Inr (Packed ss inverse))
      | None \<Rightarrow>
          bind_res (shard_plain d shards batch_size allow_uneven_shards) (\<lambda>ss. Inr (Plain ss)))"

definition reorder_data :: "'a batch \<Rightarrow> nat list \<Rightarrow> 'a batch result" where
  "reorder_data d idx =
     bind_res (map_res (\<lambda>(k, v). bind_res (slice_value idx v) (\<lambda>w. Inr (k, w))) (bd_data d))
       (\<lambda>data. Inr (d\<lparr>bd_data := data, bd_batch_size := infer_batch_size data\<rparr>))"

section \<open>Packs as micro-batches\<close>

definition compute_packs ::
  "(int option \<Rightarrow> nat list \<Rightarrow> nat list) \<Rightarrow> ('a \<Rightarrow> nat) \<Rightarrow> 'a batch \<Rightarrow> pack list result" where
  "compute_packs shuffle row_len d =
     (case bd_packing_args d of
        None \<Rightarrow> Inl RuntimeError
      | Some args \<Rightarrow>
          bind_res (packable_lengths row_len d (pa_input_lengths_key args)) (\<lambda>lengths.
          bind_res (pack_sequences shuffle lengths (pa_max_tokens_per_microbatch args)
                      (case pa_algorithm args of None \<Rightarrow> ''first_fit_decreasing'' | Some a \<Rightarrow> a)
                      (Some 0)) (\<lambda>packs.
            Inr (sort_key (\<lambda>pack. (- int (pack_len lengths pack), hd pack)) packs))))"

definition get_packable_sequence_order ::
  "(int option \<Rightarrow> nat list \<Rightarrow> nat list) \<Rightarrow> ('a \<Rightarrow> nat) \<Rightarrow> 'a batch \<Rightarrow> nat list result" where
  "get_packable_sequence_order shuffle row_len d =
     bind_res (compute_packs shuffle row_len d) (\<lambda>packs. Inr (concat packs))"

definition packable_microbatches ::
  "(int option \<Rightarrow> nat list \<Rightarrow> nat list) \<Rightarrow> ('a \<Rightarrow> nat) \<Rightarrow> 'a batch \<Rightarrow> 'a batch list result" where
  "packable_microbatches shuffle row_len d =
     bind_res (compute_packs shuffle row_len d) (map_res (bd_select d))"

definition packable_sequences_len ::
  "(int option \<Rightarrow> nat list \<Rightarrow> nat list) \<Rightarrow> ('a \<Rightarrow> nat) \<Rightarrow> 'a batch \<Rightarrow> (nat \<times> nat) result" where
  "packable_sequences_len shuffle row_len d =
     (case bd_packing_args d of
        None \<Rightarrow> Inl RuntimeError
      | Some args \<Rightarrow>
          bind_res (packable_lengths row_len d (pa_input_lengths_key args)) (\<lambda>lengths.
          bind_res (compute_packs shuffle row_len d) (\<lambda>packs.
            Inr (length packs, foldl max 0 (map (pack_len lengths) packs)))))"

section \<open>Concatenation\<close>

text \<open>
  Columns of one kind are concatenated, scalars are collected into a list. The first value
  decides; a key that is batched in one dict and scalar in another is refused here (the
  tensor, array and list concatenations of the code raise, a list starting with a scalar would
  become a nested list that has no batch meaning).
\<close>

fun scalar_value :: "'a column \<Rightarrow> 'a result" where
  "scalar_value (Scalar v) = Inr v"
| "scalar_value (Batched rows) = Inl TypeError"

fun concat_columns :: "'a column list \<Rightarrow> 'a column result" where
  "concat_columns [] = Inl ValueError"
| "concat_columns (Batched rows # vs) =
     bind_res (map_res column_rows vs) (\<lambda>rest. Inr (Batched (concat (rows # rest))))"
| "concat_columns (Scalar v # vs) =
     bind_res (map_res scalar_value vs) (\<lambda>rest. Inr (Batched (v # rest)))"

text \<open>The merged dict is built in the key order of the first dict.\<close>

definition bd_concat :: "'a batch list \<Rightarrow> 'a batch result" where
  "bd_concat dicts =
     (case dicts of
        [] \<Rightarrow> Inr (bd_init [])
      | [d] \<Rightarrow> Inr (bd_init (bd_data d))
      | d # rest \<Rightarrow>
          if \<exists>e\<in>set rest. fst ` set (bd_data e) \<noteq> fst ` set (bd_data d) then Inl ValueError
          else bind_res (map_res (\<lambda>(key, v).
                   bind_res (concat_columns (v # map (\<lambda>e. the (map_of (bd_data e) key)) rest))
                     (\<lambda>w. Inr (key, w))) (bd_data d))
                 (\<lambda>merged. Inr (bd_init merged)))"

section \<open>Uniform batches\<close>

text \<open>All columns batched with \<open>n\<close> rows, keys distinct, at least one column.\<close>

definition uniform :: "nat \<Rightarrow> 'a batch \<Rightarrow> bool" where
  "uniform n d \<longleftrightarrow>
     bd_data d \<noteq> [] \<and> distinct (map fst (bd_data d)) \<and>
     (\<forall>(k, v)\<in>set (bd_data d). batch_dim v = Some n)"

text \<open>Selecting rows in every column, for indices in range.\<close>

fun pick :: "nat list \<Rightarrow> 'a column \<Rightarrow> 'a column" where
  "pick idx (Batched rows) = Batched (map ((!) rows) idx)"
| "pick idx (Scalar v) = Scalar v"

definition pick_data :: "nat list \<Rightarrow> (string \<times> 'a column) list \<Rightarrow> (string \<times> 'a column) list" where
  "pick_data idx data = map (\<lambda>(k, v). (k, pick idx v)) data"

lemma uniform_column:
  "uniform n d \<Longrightarrow> (k, v) \<in> set (bd_data d) \<Longrightarrow> \<exists>rows. v = Batched rows \<and> length rows = n"
  by (cases v) (auto simp: uniform_def)

lemma infer_uniform: "\<forall>(k, v)\<in>set data. batch_dim v = Some n \<Longrightarrow> data \<noteq> [] \<Longrightarrow> infer_batch_size data = Some n"
  by (cases data) auto

lemma pick_data_dim:
  "uniform n d \<Longrightarrow> \<forall>(k, v)\<in>set (pick_data idx (bd_data d)). batch_dim v = Some (length idx)"
  by (force simp: pick_data_def dest: uniform_column)

lemma pick_data_keys [simp]: "map fst (pick_data idx data) = map fst data"
  by (induction data) (auto simp: pick_data_def)

lemma uniform_pick:
  assumes "uniform n d"
  shows "uniform (length idx) (bd_init (pick_data idx (bd_data d)))"
proof -
  have "pick_data idx (bd_data d) \<noteq> []" using assms by (simp add: uniform_def pick_data_def)
  then show ?thesis
    using assms pick_data_dim [OF assms, of idx] by (simp add: uniform_def bd_init_def)
qed

lemma map_res_slice:
  assumes "uniform n d" and "\<forall>i\<in>set idx. i < n"
  shows "map_res (\<lambda>(k, v). bind_res (slice_value idx v) (\<lambda>w. Inr (k, w))) (bd_data d)
    = Inr (pick_data idx (bd_data d))"
  unfolding pick_data_def
proof (rule map_res_Inr)
  fix x assume x: "x \<in> set (bd_data d)"
  obtain k v where kv: "x = (k, v)" by fastforce
  obtain rows where "v = Batched rows" "length rows = n"
    using uniform_column [OF assms(1)] x kv by blast
  then show "(case x of (k, v) \<Rightarrow> bind_res (slice_value idx v) (\<lambda>w. Inr (k, w)))
      = Inr (case x of (k, v) \<Rightarrow> (k, pick idx v))"
    using assms(2) kv by (simp add: list_all_iff)
qed

lemma bd_select_uniform:
  assumes "uniform n d" and "\<forall>i\<in>set idx. i < n"
  shows "bd_select d idx = Inr (bd_init (pick_data idx (bd_data d)))"
  by (simp add: bd_select_def map_res_slice [OF assms])

lemma pick_pick: "\<forall>i\<in>set idx. i < length jdx \<Longrightarrow> pick idx (pick jdx v) = pick (map ((!) jdx) idx) v"
  by (cases v) auto

lemma pick_all: "batch_dim v = Some n \<Longrightarrow> pick [0..<n] v = v"
  by (cases v) (auto simp: map_nth)

lemma pick_data_all: "uniform n d \<Longrightarrow> pick_data [0..<n] (bd_data d) = bd_data d"
  unfolding pick_data_def uniform_def by (rule map_idI) (auto simp: pick_all)

section \<open>Sharding as row selection\<close>

definition shard_indices :: "nat \<Rightarrow> nat \<Rightarrow> nat \<Rightarrow> nat \<Rightarrow> nat list" where
  "shard_indices chunk_size num_chunks shard_size s =
     concat (map (\<lambda>c. [c * chunk_size + s * shard_size..<c * chunk_size + (s + 1) * shard_size])
              [0..<num_chunks])"

lemma upt_blocks: "concat (map (\<lambda>s. [a + s * z..<a + (s + 1) * z]) [0..<m]) = [a..<a + m * z]"
proof (induction m)
  case 0
  then show ?case by simp
next
  case (Suc m)
  have "[a..<a + m * z] @ [a + m * z..<a + Suc m * z] = [a..<a + Suc m * z]"
    using upt_add_eq_append [of a "a + m * z" z] by (simp add: algebra_simps)
  with Suc show ?case by simp
qed

lemma mset_concat_swap:
  "mset (concat (map (\<lambda>s. concat (map (f s) cs)) ss)) = mset (concat (map (\<lambda>c. concat (map (\<lambda>s. f s c) ss)) cs))"
proof (induction ss)
  case Nil
  then show ?case by (induction cs) simp_all
next
  case (Cons s ss)
  have "mset (concat (map (\<lambda>c. f s c @ concat (map (\<lambda>s. f s c) ss)) cs))
      = mset (concat (map (f s) cs)) + mset (concat (map (\<lambda>c. concat (map (\<lambda>s. f s c) ss)) cs))"
    by (induction cs) simp_all
  with Cons show ?case by simp
qed

lemma shard_indices_partition:
  assumes "chunk_size = shards * shard_size"
  shows "mset (concat (map (shard_indices chunk_size num_chunks shard_size) [0..<shards]))
    = mset [0..<num_chunks * chunk_size]"
proof -
  have "mset (concat (map (shard_indices chunk_size num_chunks shard_size) [0..<shards]))
    = mset (concat (map (\<lambda>c. concat (map (\<lambda>s.
        [c * chunk_size + s * shard_size..<c * chunk_size + (s + 1) * shard_size]) [0..<shards]))
        [0..<num_chunks]))"
    unfolding shard_indices_def by (rule mset_concat_swap)
  also have "\<dots> = mset (concat (map (\<lambda>c. [c * chunk_size..<c * chunk_size + shards * shard_size])
      [0..<num_chunks]))"
    by (simp only: upt_blocks)
  also have "\<dots> = mset (concat (map (\<lambda>c. [0 + c * chunk_size..<0 + (c + 1) * chunk_size]) [0..<num_chunks]))"
    by (simp add: assms add.commute)
  also have "\<dots> = mset [0..<num_chunks * chunk_size]"
    using upt_blocks [of 0 chunk_size num_chunks] by simp
  finally show ?thesis .
qed

lemma length_shard_indices: "length (shard_indices chunk_size num_chunks shard_size s) = num_chunks * shard_size"
  unfolding shard_indices_def by (induction num_chunks) simp_all

lemma shard_indices_single:
  assumes "0 < n" and "n mod shards = 0"
  shows "concat (map (shard_indices n (n div n) (n div shards)) [0..<shards]) = [0..<n]"
proof -
  have "shard_indices n (n div n) (n div shards) = (\<lambda>s. [0 + s * (n div shards)..<0 + (s + 1) * (n div shards)])"
    using assms(1) by (auto simp: shard_indices_def)
  moreover have "shards * (n div shards) = n" using assms(2) by auto
  ultimately show ?thesis using upt_blocks [of 0 "n div shards" shards] by simp
qed

lemma take_drop_upt: "b \<le> length xs \<Longrightarrow> take (b - a) (drop a xs) = map ((!) xs) [a..<b]"
  by (rule nth_equalityI) auto

lemma shard_column_pick:
  assumes "batch_dim v = Some n" and "\<forall>(a, b)\<in>set ranges. b \<le> n"
  shows "shard_column ranges v = pick (concat (map (\<lambda>(a, b). [a..<b]) ranges)) v"
proof (cases v)
  case (Batched rows)
  have "concat (map (\<lambda>(a, b). take (b - a) (drop a rows)) ranges)
      = map ((!) rows) (concat (map (\<lambda>(a, b). [a..<b]) ranges))"
    using assms(2) assms(1) Batched
    by (induction ranges) (auto simp: take_drop_upt)
  then show ?thesis using Batched by simp
next
  case (Scalar w)
  then show ?thesis using assms(1) by simp
qed

lemma concat_filter_upt:
  "concat (map (\<lambda>(a, b). [a..<b]) (filter (\<lambda>(a, b). a < b) rs)) = concat (map (\<lambda>(a, b). [a..<b :: nat]) rs)"
  by (induction rs) auto

lemma even_ranges_indices:
  "concat (map (\<lambda>(a, b). [a..<b]) (shard_ranges t chunk_size num_chunks shard_size False s))
    = shard_indices chunk_size num_chunks shard_size s"
  unfolding shard_ranges_def concat_filter_upt
  by (simp add: shard_indices_def Let_def comp_def)

lemma map_res_column_len:
  assumes "uniform n d"
  shows "map_res (\<lambda>(k, v). column_len v) (bd_data d) = Inr (map (\<lambda>_. n) (bd_data d))"
proof (rule map_res_Inr)
  fix x assume x: "x \<in> set (bd_data d)"
  obtain k v where kv: "x = (k, v)" by fastforce
  then show "(case x of (k, v) \<Rightarrow> column_len v) = Inr n"
    using uniform_column [OF assms, of k v] x by auto
qed

text \<open>An even split is a selection of rows, computed before any data is touched.\<close>

lemma shard_plain_even:
  assumes u: "uniform n d" and n: "0 < chunk" and "n mod chunk = 0" and "0 < shards"
    and "chunk mod shards = 0" and "chunk = (case bs of None \<Rightarrow> n | Some b \<Rightarrow> b)"
  shows "shard_plain d shards bs False =
    Inr (map (\<lambda>s. bd_init (pick_data (shard_indices chunk (n div chunk) (chunk div shards) s) (bd_data d)))
      [0..<shards])"
proof -
  let ?r = "shard_ranges n chunk (n div chunk) (chunk div shards) False"
  have ne: "bd_data d \<noteq> []" using u by (simp add: uniform_def)
  have hd: "hd (map (\<lambda>_. n) (bd_data d)) = n" and card: "card (set (map (\<lambda>_. n) (bd_data d))) = 1"
    using ne by (simp_all add: hd_map image_constant_conv)
  have bound: "\<forall>(a, b)\<in>set (?r s). b \<le> n" if "s < shards" for s
  proof -
    have "c * chunk + (s + 1) * (chunk div shards) \<le> n" if "c < n div chunk" for c
    proof -
      have "(s + 1) * (chunk div shards) \<le> shards * (chunk div shards)"
        using \<open>s < shards\<close> by (intro mult_le_mono1) simp
      also have "\<dots> \<le> chunk" by simp
      finally have "c * chunk + (s + 1) * (chunk div shards) \<le> (c + 1) * chunk" by simp
      also have "\<dots> \<le> (n div chunk) * chunk" using that by (intro mult_le_mono1) simp
      finally show ?thesis using div_times_less_eq_dividend le_trans by blast
    qed
    then show ?thesis by (auto simp: shard_ranges_def Let_def)
  qed
  have pick: "map (\<lambda>(k, v). (k, shard_column (?r s) v)) (bd_data d)
      = pick_data (shard_indices chunk (n div chunk) (chunk div shards) s) (bd_data d)"
    if "s < shards" for s
    unfolding pick_data_def
  proof (rule map_cong [OF refl])
    fix x assume x: "x \<in> set (bd_data d)"
    obtain k v where kv: "x = (k, v)" by fastforce
    then have "batch_dim v = Some n" using u x by (auto simp: uniform_def)
    from shard_column_pick [OF this bound [OF that]] kv
    show "(case x of (k, v) \<Rightarrow> (k, shard_column (?r s) v))
        = (case x of (k, v) \<Rightarrow> (k, pick (shard_indices chunk (n div chunk) (chunk div shards) s) v))"
      by (simp add: even_ranges_indices)
  qed
  have shards: "map (\<lambda>s. bd_init (map (\<lambda>(k, v). (k, shard_column (?r s) v)) (bd_data d))) [0..<shards]
      = map (\<lambda>s. bd_init (pick_data (shard_indices chunk (n div chunk) (chunk div shards) s) (bd_data d)))
          [0..<shards]"
    by (rule map_cong [OF refl]) (simp add: pick)
  show ?thesis
    unfolding shard_plain_def map_res_column_len [OF u] bind_res_simps card hd Let_def
      assms(6) [symmetric]
    using assms(2-5) shards by (simp only: if_False if_True simp_thms neq0_conv less_not_refl2)
qed

section \<open>Gathering shards back\<close>

lemma concat_columns_pick:
  assumes "idxs \<noteq> []" and "batch_dim v = Some n"
  shows "concat_columns (map (\<lambda>idx. pick idx v) idxs) = Inr (pick (concat idxs) v)"
proof -
  obtain rows where v: "v = Batched rows" using assms(2) by (cases v) auto
  obtain i rest where idxs: "idxs = i # rest" using assms(1) by (cases idxs) auto
  have "map_res column_rows (map (\<lambda>idx. Batched (map ((!) rows) idx)) rest)
      = Inr (map (map ((!) rows)) rest)"
    by (induction rest) simp_all
  then show ?thesis by (simp add: v idxs map_concat)
qed

lemma map_of_pick_data:
  "distinct (map fst data) \<Longrightarrow> (k, v) \<in> set data \<Longrightarrow> map_of (pick_data idx data) k = Some (pick idx v)"
  by (induction data) (auto simp: pick_data_def rev_image_eqI)

lemma bd_concat_picks:
  assumes u: "uniform n d" and ne: "idxs \<noteq> []"
    and ds: "map bd_data ds = map (\<lambda>idx. pick_data idx (bd_data d)) idxs"
  shows "\<exists>g. bd_concat ds = Inr g \<and> bd_data g = pick_data (concat idxs) (bd_data d)"
proof -
  obtain i rest where idxs: "idxs = i # rest" using ne by (cases idxs) auto
  from ds idxs obtain e es where des: "ds = e # es" and e: "bd_data e = pick_data i (bd_data d)"
    and es: "map bd_data es = map (\<lambda>idx. pick_data idx (bd_data d)) rest"
    by (cases ds) auto
  show ?thesis
  proof (cases es)
    case Nil
    then show ?thesis using des e es idxs by (simp add: bd_concat_def bd_init_def)
  next
    case (Cons e2 es2)
    have keys: "fst ` set (bd_data x) = fst ` set (bd_data d)" if "x \<in> set ds" for x
    proof -
      have "bd_data x \<in> set (map bd_data ds)" using that by simp
      then obtain idx where "bd_data x = pick_data idx (bd_data d)" unfolding ds by auto
      then show ?thesis by (metis list.set_map pick_data_keys)
    qed
    have col: "concat_columns (pick i v # map (\<lambda>x. the (map_of (bd_data x) k)) es)
        = Inr (pick (concat idxs) v)" if kv: "(k, v) \<in> set (bd_data d)" for k v
    proof -
      have "map (\<lambda>x. the (map_of (bd_data x) k)) es
          = map (\<lambda>data. the (map_of data k)) (map bd_data es)" by simp
      also have "\<dots> = map (\<lambda>idx. pick idx v) rest"
        unfolding es using u kv by (simp add: uniform_def map_of_pick_data)
      finally show ?thesis
        using concat_columns_pick [of idxs v n] u kv idxs by (auto simp: uniform_def)
    qed
    have "map_res (\<lambda>(key, v). bind_res (concat_columns (v # map (\<lambda>x. the (map_of (bd_data x) key)) es))
        (\<lambda>w. Inr (key, w))) (pick_data i (bd_data d)) = Inr (pick_data (concat idxs) (bd_data d))"
      using col unfolding pick_data_def map_res_map
      by (intro map_res_Inr) (auto simp: case_prod_beta)
    then show ?thesis
      using des Cons keys by (simp add: bd_concat_def bd_init_def flip: e)
  qed
qed

lemma packable_lengths_uniform:
  assumes "uniform n d" and "key \<in> fst ` set (bd_data d)"
  shows "\<exists>lengths. packable_lengths row_len d key = Inr lengths \<and> length lengths = n"
proof -
  obtain v where kv: "(key, v) \<in> set (bd_data d)" using assms(2) by force
  with assms(1) have "map_of (bd_data d) key = Some v" by (simp add: uniform_def)
  with uniform_column [OF assms(1) kv] show ?thesis by (auto simp: packable_lengths_def)
qed

lemma packable_lengths_length:
  assumes "uniform n d" and "packable_lengths row_len d key = Inr lengths"
  shows "length lengths = n"
proof -
  obtain v rows where "map_of (bd_data d) key = Some v" "column_rows v = Inr rows"
    and l: "lengths = map row_len rows"
    using assms(2) by (auto simp: packable_lengths_def bind_res_eq_Inr split: option.splits)
  with uniform_column [OF assms(1) map_of_SomeD] show ?thesis by fastforce
qed

text \<open>A packed split of a uniform batch, as a selection of rows of the batch itself.\<close>

lemma shard_packed_rows:
  assumes u: "uniform n d" and "0 < n" and "0 < shards" and "n mod shards = 0"
    and len: "packable_lengths row_len d (pa_input_lengths_key args) = Inr lengths"
  shows "shard_packed row_len d shards args =
    Inr (map (\<lambda>s. (bd_init (pick_data (map ((!) (length_order lengths)) (shard_indices n (n div n) (n div shards) s))
           (bd_data d)))\<lparr>bd_packing_args := Some args\<rparr>) [0..<shards],
         invert_perm n (length_order lengths))"
proof -
  let ?order = "length_order lengths"
  let ?r = "bd_init (pick_data ?order (bd_data d))"
  let ?idx = "shard_indices n (n div n) (n div shards)"
  have n: "length lengths = n" using packable_lengths_length [OF u len] .
  have perm: "mset ?order = mset [0..<n]" by (simp add: length_order_def n)
  note p = mset_upt_distinct [OF perm]
  have sel: "bd_select d ?order = Inr ?r"
    using p by (intro bd_select_uniform [OF u]) auto
  have ur: "uniform n ?r" using uniform_pick [OF u, of ?order] p by simp
  have range: "\<forall>i\<in>set (?idx s). i < n" if "s < shards" for s
  proof -
    have "set (?idx s) \<subseteq> set (concat (map ?idx [0..<shards]))" using that by auto
    then show ?thesis using shard_indices_single [OF assms(2,4)] by auto
  qed
  have "pick_data (?idx s) (bd_data ?r) = pick_data (map ((!) ?order) (?idx s)) (bd_data d)" if "s < shards" for s
  proof -
    have "pick (?idx s) (pick ?order v) = pick (map ((!) ?order) (?idx s)) v" for v :: "'a column"
      using range [OF that] p by (intro pick_pick) simp
    then show ?thesis by (simp only: bd_init_def pick_data_def map_map comp_def batch.select_convs split_def fst_conv snd_conv)
  qed
  then have eq: "map (\<lambda>s. bd_init (pick_data (?idx s) (bd_data ?r))) [0..<shards]
      = map (\<lambda>s. bd_init (pick_data (map ((!) ?order) (?idx s)) (bd_data d))) [0..<shards]"
    by simp
  have "shard_plain ?r shards None False = Inr (map (\<lambda>s. bd_init (pick_data (?idx s) (bd_data ?r))) [0..<shards])"
    by (rule shard_plain_even [OF ur]) (use assms(2-4) in auto)
  then show ?thesis
    unfolding shard_packed_def len bind_res_simps Let_def sel eq n by (simp add: comp_def)
qed

lemma reorder_restores:
  assumes u: "uniform n d" and g: "bd_data g = pick_data order (bd_data d)"
    and perm: "mset order = mset [0..<n]"
  shows "\<exists>r. reorder_data g (invert_perm n order) = Inr r \<and> bd_data r = bd_data d"
proof -
  note p = mset_upt_distinct [OF perm] and q = mset_upt_distinct [OF mset_invert_perm [OF perm]]
  have "map_res (\<lambda>(k, v). bind_res (slice_value (invert_perm n order) v) (\<lambda>w. Inr (k, w))) (bd_data g)
      = Inr (map (\<lambda>x. x) (bd_data d))"
    unfolding g pick_data_def map_res_map
  proof (rule map_res_Inr)
    fix x assume x: "x \<in> set (bd_data d)"
    obtain k v where kv: "x = (k, v)" by fastforce
    obtain rows where v: "v = Batched rows" "length rows = n"
      using uniform_column [OF u] x kv by blast
    then have "map ((!) (map ((!) rows) order)) (invert_perm n order) = rows"
      using invert_perm_restores [of order rows] perm by simp
    then show "((\<lambda>(k, v). bind_res (slice_value (invert_perm n order) v) (\<lambda>w. Inr (k, w)))
        \<circ> (\<lambda>(k, v). (k, pick order v))) x = Inr x"
      using kv v p q by (simp add: list_all_iff)
  qed
  then show ?thesis by (simp add: reorder_data_def)
qed

lemma foldl_max_le: "\<forall>x\<in>set xs. x \<le> c \<Longrightarrow> a \<le> c \<Longrightarrow> foldl max a xs \<le> (c :: nat)"
  by (induction xs arbitrary: a) auto

lemma packing_ok_mset:
  assumes "mset ps = mset qs" and "packing_ok lengths cap ps"
  shows "packing_ok lengths cap qs"
proof -
  have "mset (concat qs) = mset (concat ps)"
    unfolding mset_concat by (metis assms(1) sum_list_map_mset)
  moreover have "set qs = set ps" using assms(1) by (metis set_mset_mset)
  ultimately show ?thesis using assms(2) by (simp add: packing_ok_def)
qed

lemma sorted_neg_weight:
  assumes "sorted (map (\<lambda>p. (- int (w p), h p :: nat)) ps)"
  shows "sorted_wrt (\<ge>) (map w ps)"
  using assms by (induction ps) (auto simp: less_eq_prod_def)

lemma compute_packs_ok:
  assumes "bd_packing_args d = Some args"
    and "packable_lengths row_len d (pa_input_lengths_key args) = Inr lengths"
    and "fits lengths (pa_max_tokens_per_microbatch args)"
    and reg: "algorithm_registry (case pa_algorithm args of None \<Rightarrow> ''first_fit_decreasing'' | Some a \<Rightarrow> a) = Some fn"
    and "\<And>s xs. mset (shuffle s xs) = mset xs"
  shows "\<exists>packs. compute_packs shuffle row_len d = Inr packs
    \<and> packing_ok lengths (pa_max_tokens_per_microbatch args) packs
    \<and> sorted_wrt (\<ge>) (map (pack_len lengths) packs)"
proof -
  let ?key = "\<lambda>pack. (- int (pack_len lengths pack), hd pack)"
  obtain ps where ps: "run_algorithm shuffle fn lengths (pa_max_tokens_per_microbatch args) (Some 0) = Inr ps"
    and ok: "packing_ok lengths (pa_max_tokens_per_microbatch args) ps"
    using registry_cases [where shuffle = shuffle, OF reg assms(5,3)] by blast
  have "compute_packs shuffle row_len d = Inr (sort_key ?key ps)"
    using reg ps by (simp add: compute_packs_def assms(1,2) pack_sequences_def)
  moreover have "packing_ok lengths (pa_max_tokens_per_microbatch args) (sort_key ?key ps)"
    by (rule packing_ok_mset [OF _ ok]) simp
  moreover have "sorted_wrt (\<ge>) (map (pack_len lengths) (sort_key ?key ps))"
    by (rule sorted_neg_weight [where h = hd]) (rule sorted_sort_key)
  ultimately show ?thesis by blast
qed

section \<open>Properties\<close>

text \<open>Plain sharding of a batch whose columns all have n rows, with chunk and shard sizes that
  divide, returns one shard per rank; every shard has n/shards rows in every column, and the row
  indices the shards select are together each of 0..n-1 exactly once.\<close>

lemma shard_plain_partition:
  assumes "uniform n d" and "0 < chunk" and "n mod chunk = 0" and "0 < shards"
    and "chunk mod shards = 0" and "chunk = (case bs of None \<Rightarrow> n | Some b \<Rightarrow> b)"
  shows "\<exists>ss idx. shard_plain d shards bs False = Inr ss
    \<and> ss = map (\<lambda>s. bd_init (pick_data (idx s) (bd_data d))) [0..<shards]
    \<and> (\<forall>s<shards. uniform (n div shards) (ss ! s))
    \<and> mset (concat (map idx [0..<shards])) = mset [0..<n]"
proof -
  let ?idx = "shard_indices chunk (n div chunk) (chunk div shards)"
  let ?ss = "map (\<lambda>s. bd_init (pick_data (?idx s) (bd_data d))) [0..<shards]"
  have chunk: "chunk = shards * (chunk div shards)" and n: "n = n div chunk * chunk"
    using assms(3,5) by auto
  have len: "length (?idx s) = n div shards" for s
  proof -
    have "length (?idx s) = n div chunk * (chunk div shards)"
      by (simp add: length_shard_indices)
    also have "\<dots> = n div shards"
      by (metis assms(4) chunk n nonzero_mult_div_cancel_left mult.left_commute neq0_conv)
    finally show ?thesis .
  qed
  have "uniform (n div shards) (?ss ! s)" if "s < shards" for s
    using uniform_pick [OF assms(1), of "?idx s"] that by (simp add: len)
  moreover have "mset (concat (map ?idx [0..<shards])) = mset [0..<n]"
    using shard_indices_partition [OF chunk, of "n div chunk"] n by simp
  ultimately show ?thesis using shard_plain_even [OF assms] by blast
qed

definition demo_batch :: "nat batch" where
  "demo_batch = bd_init [(''input_ids'', Batched [7, 5, 6, 8]), (''input_lengths'', Batched [4, 1, 4, 1])]"

lemma demo_uniform: "uniform 4 demo_batch"
  by (simp add: demo_batch_def uniform_def bd_init_def)

lemma shard_plain_partition_witness:
  "\<exists>ss idx. shard_plain demo_batch 2 (Some 2) False = Inr ss
    \<and> ss = map (\<lambda>s. bd_init (pick_data (idx s) (bd_data demo_batch))) [0..<2]
    \<and> (\<forall>s<2. uniform (4 div 2) (ss ! s))
    \<and> mset (concat (map idx [0..<2])) = mset [0..<4]"
  using shard_plain_partition [OF demo_uniform, of 2 2 "Some 2"] by simp

text \<open>C28: Sequence-packed sharding is undone by gathering and reordering: for a batch whose columns all
  have n rows and a rank count that divides n, sharding by sorted length succeeds, each shard carries the
  packing arguments, and concatenating the shards followed by \<open>reorder_data\<close> with the returned inverse
  permutation gives back every column of the batch.\<close>

theorem shard_packed_roundtrip:
  assumes "uniform n d" and "0 < n" and "0 < shards" and "n mod shards = 0"
    and "pa_input_lengths_key args \<in> fst ` set (bd_data d)"
  shows "\<exists>ss inverse g r. shard_packed row_len d shards args = Inr (ss, inverse)
    \<and> length ss = shards \<and> (\<forall>s\<in>set ss. bd_packing_args s = Some args)
    \<and> bd_concat ss = Inr g \<and> reorder_data g inverse = Inr r \<and> bd_data r = bd_data d"
proof -
  obtain lengths where len: "packable_lengths row_len d (pa_input_lengths_key args) = Inr lengths"
    and n: "length lengths = n"
    using packable_lengths_uniform [OF assms(1,5)] by blast
  let ?order = "length_order lengths"
  let ?inv = "invert_perm n ?order"
  let ?r = "bd_init (pick_data ?order (bd_data d))"
  have perm: "mset ?order = mset [0..<n]" by (simp add: length_order_def n)
  note p = mset_upt_distinct [OF perm]
  have sel: "bd_select d ?order = Inr ?r"
    using p by (intro bd_select_uniform [OF assms(1)]) auto
  have u: "uniform n ?r" using uniform_pick [OF assms(1), of ?order] p by simp
  let ?idx = "shard_indices n (n div n) (n div shards)"
  let ?ss = "map (\<lambda>s. bd_init (pick_data (?idx s) (bd_data ?r))) [0..<shards]"
  let ?ps = "map (\<lambda>shard. shard\<lparr>bd_packing_args := Some args\<rparr>) ?ss"
  have "shard_plain ?r shards None False = Inr ?ss"
    by (rule shard_plain_even [OF u]) (use assms(2-4) in auto)
  then have sh: "shard_packed row_len d shards args = Inr (?ps, ?inv)"
    by (simp add: shard_packed_def len sel n Let_def)
  have all: "concat (map ?idx [0..<shards]) = [0..<n]"
    using assms(2-4) by (intro shard_indices_single) auto
  have "map bd_data ?ps = map (\<lambda>idx. pick_data idx (bd_data ?r)) (map ?idx [0..<shards])"
    by (simp add: bd_init_def comp_def)
  from bd_concat_picks [OF u _ this] obtain g where g: "bd_concat ?ps = Inr g"
    and "bd_data g = pick_data (concat (map ?idx [0..<shards])) (bd_data ?r)"
    using assms(3) by auto
  then have gd: "bd_data g = pick_data ?order (bd_data d)"
    unfolding all using pick_data_all [OF u] by (simp add: bd_init_def)
  from reorder_restores [OF assms(1) gd perm] obtain r where "reorder_data g ?inv = Inr r" "bd_data r = bd_data d"
    by blast
  with sh g show ?thesis by (intro exI [of _ ?ps] exI [of _ ?inv]) auto
qed

theorem shard_packed_roundtrip_witness:
  "\<exists>ss inverse g r. shard_packed (\<lambda>x. x) demo_batch 2 \<lparr>pa_max_tokens_per_microbatch = 4,
        pa_input_lengths_key = ''input_lengths'', pa_algorithm = None\<rparr> = Inr (ss, inverse)
    \<and> length ss = 2 \<and> bd_concat ss = Inr g \<and> reorder_data g inverse = Inr r
    \<and> bd_data r = bd_data demo_batch"
proof -
  have "''input_lengths'' \<in> fst ` set (bd_data demo_batch)"
    by (simp add: demo_batch_def bd_init_def)
  then show ?thesis
    using shard_packed_roundtrip [OF demo_uniform, of 2 "\<lparr>pa_max_tokens_per_microbatch = 4,
        pa_input_lengths_key = ''input_lengths'', pa_algorithm = None\<rparr>" "\<lambda>x. x"] by simp blast
qed

text \<open>The packed micro-batches of a tagged shard, when every sequence fits the token budget and the
  configured algorithm is registered: the packs exist, are in order of non-increasing weight, each is
  non-empty and within the budget; the micro-batch iterator yields exactly the rows of each pack, its
  length companion reports the number of packs and a maximum within the budget, and scattering the
  concatenated results through the reported row order restores the shard.\<close>

lemma packable_microbatches_sound:
  assumes "uniform n d" and "bd_packing_args d = Some args"
    and "packable_lengths row_len d (pa_input_lengths_key args) = Inr lengths"
    and "fits lengths (pa_max_tokens_per_microbatch args)"
    and "algorithm_registry (case pa_algorithm args of None \<Rightarrow> ''first_fit_decreasing'' | Some a \<Rightarrow> a) = Some fn"
    and "\<And>s xs. mset (shuffle s xs) = mset xs"
  shows "\<exists>packs order mbs heaviest g r.
      compute_packs shuffle row_len d = Inr packs
    \<and> packing_ok lengths (pa_max_tokens_per_microbatch args) packs
    \<and> sorted_wrt (\<ge>) (map (pack_len lengths) packs)
    \<and> get_packable_sequence_order shuffle row_len d = Inr order
    \<and> packable_microbatches shuffle row_len d = Inr mbs
    \<and> packable_sequences_len shuffle row_len d = Inr (length mbs, heaviest)
    \<and> heaviest \<le> pa_max_tokens_per_microbatch args
    \<and> (0 < n \<longrightarrow> bd_concat mbs = Inr g \<and> reorder_data g (invert_perm n order) = Inr r \<and> bd_data r = bd_data d)"
proof -
  let ?cap = "pa_max_tokens_per_microbatch args"
  obtain packs where packs: "compute_packs shuffle row_len d = Inr packs"
    and ok: "packing_ok lengths ?cap packs" and sorted: "sorted_wrt (\<ge>) (map (pack_len lengths) packs)"
    using compute_packs_ok [where shuffle = shuffle, OF assms(2-6)] by blast
  have n: "length lengths = n" using packable_lengths_length [OF assms(1,3)] .
  have perm: "mset (concat packs) = mset [0..<n]" using ok n by (simp add: packing_ok_def)
  let ?mbs = "map (\<lambda>p. bd_init (pick_data p (bd_data d))) packs"
  have mbs: "packable_microbatches shuffle row_len d = Inr ?mbs"
    unfolding packable_microbatches_def packs bind_res_simps
    using mset_upt_distinct [OF perm]
    by (intro map_res_Inr bd_select_uniform [OF assms(1)]) auto
  let ?h = "foldl max 0 (map (pack_len lengths) packs)"
  have len: "packable_sequences_len shuffle row_len d = Inr (length ?mbs, ?h)"
    by (simp add: packable_sequences_len_def assms(2,3) packs)
  have h: "?h \<le> ?cap" using ok by (intro foldl_max_le) (auto simp: packing_ok_def)
  have order: "get_packable_sequence_order shuffle row_len d = Inr (concat packs)"
    by (simp add: get_packable_sequence_order_def packs)
  have "\<exists>g r. 0 < n \<longrightarrow> bd_concat ?mbs = Inr g \<and> reorder_data g (invert_perm n (concat packs)) = Inr r
      \<and> bd_data r = bd_data d"
  proof (cases "packs = []")
    case False
    have "map bd_data ?mbs = map (\<lambda>p. pick_data p (bd_data d)) packs" by (simp add: bd_init_def)
    from bd_concat_picks [OF assms(1) False this] obtain g where g: "bd_concat ?mbs = Inr g"
      "bd_data g = pick_data (concat packs) (bd_data d)" by blast
    from reorder_restores [OF assms(1) g(2) perm] g(1) show ?thesis by blast
  qed (use perm mset_upt_distinct [OF perm] in simp)
  with packs ok sorted order mbs len h show ?thesis by blast
qed

lemma packable_microbatches_sound_witness:
  "\<exists>packs order. compute_packs (\<lambda>s xs. xs) (\<lambda>x. x) (demo_batch\<lparr>bd_packing_args := Some \<lparr>pa_max_tokens_per_microbatch = 5,
        pa_input_lengths_key = ''input_lengths'', pa_algorithm = None\<rparr>\<rparr>) = Inr packs
    \<and> packing_ok [4, 1, 4, 1] 5 packs
    \<and> get_packable_sequence_order (\<lambda>s xs. xs) (\<lambda>x. x) (demo_batch\<lparr>bd_packing_args := Some \<lparr>pa_max_tokens_per_microbatch = 5,
        pa_input_lengths_key = ''input_lengths'', pa_algorithm = None\<rparr>\<rparr>) = Inr order"
proof -
  let ?a = "\<lparr>pa_max_tokens_per_microbatch = 5, pa_input_lengths_key = ''input_lengths'', pa_algorithm = None\<rparr>"
  let ?d = "demo_batch\<lparr>bd_packing_args := Some ?a\<rparr>"
  have u: "uniform 4 ?d" using demo_uniform by (simp add: uniform_def)
  have l: "packable_lengths (\<lambda>x. x) ?d (pa_input_lengths_key ?a) = Inr [4, 1, 4, 1]"
    by (simp add: packable_lengths_def demo_batch_def bd_init_def)
  have f: "fits [4, 1, 4, 1] (pa_max_tokens_per_microbatch ?a)" by (simp add: fits_def)
  have r: "algorithm_registry (case pa_algorithm ?a of None \<Rightarrow> ''first_fit_decreasing'' | Some a \<Rightarrow> a)
      = Some FFD" by (simp add: algorithm_registry_def)
  from packable_microbatches_sound [OF u _ l f r, of "\<lambda>s xs. xs"] show ?thesis by auto
qed

text \<open>Sorting by length and splitting into equal row counts does not equalise the number of packs:
  with lengths 4, 1, 4, 1, a budget of 4 tokens and two ranks, both ranks get two rows, but one rank has one
  micro-batch and the other has two.\<close>

lemma packed_ranks_uneven_microbatches:
  "(case shard_packed (\<lambda>x. x) demo_batch 2 \<lparr>pa_max_tokens_per_microbatch = 4,
        pa_input_lengths_key = ''input_lengths'', pa_algorithm = None\<rparr> of
      Inl e \<Rightarrow> False
    | Inr (ss, unsorted) \<Rightarrow> map bd_size ss = [2, 2]
        \<and> map (packable_sequences_len (\<lambda>s xs. xs) (\<lambda>x. x)) ss = [Inr (1, 2), Inr (2, 4)])"
  by code_simp

text \<open>Row slices forget the packing tag. Whatever the shard, the global batch that the policy worker
  takes from it with \<open>get_batch\<close> (and likewise \<open>select\<close>) has no packing arguments, so the packed
  iterator, its length companion and the row order all raise RuntimeError on it.\<close>
lemma get_batch_drops_packing:
  "packable_sequences_len shuffle row_len (bd_get_batch d batch_idx batch_size) = Inl RuntimeError
    \<and> packable_microbatches shuffle row_len (bd_get_batch d batch_idx batch_size) = Inl RuntimeError
    \<and> get_packable_sequence_order shuffle row_len (bd_get_batch d batch_idx batch_size) = Inl RuntimeError"
  by (simp add: packable_sequences_len_def packable_microbatches_def get_packable_sequence_order_def
      compute_packs_def bd_get_batch_def bd_select_range_def bd_init_def)

end
