(* ===== verification/Data_Plane.thy ===== *)
theory Data_Plane
  imports Batched_Data
begin

text \<open>
  The data plane between rollout and training: the per-batch metadata \<open>KVBatchMeta\<close> of
  \<^verbatim>\<open>data_plane/interfaces.py\<close>, the in-memory client of
  \<^verbatim>\<open>data_plane/adapters/noop.py\<close> and the rank assignment of
  \<^verbatim>\<open>data_plane/preshard.py\<close>.

  A client operation returns the new client together with its result, so that a call that raises
  half-way leaves the writes it already made. Tensor values are elements of \<open>'v\<close>, primitive
  tag values elements of \<open>'t\<close>; \<open>tag_int\<close> reads a length tag as a token count. A column read
  back is the list of its rows (stacked or nested by the codec).
\<close>

section \<open>Batch metadata\<close>

record 't kv_meta =
  km_partition_id :: string
  km_task_name :: "string option"
  km_sample_ids :: "string list"
  km_fields :: "string list option"
  km_sequence_lengths :: "nat list option"
  km_extra_info :: "'t dict"
  km_tags :: "'t dict list option"

definition meta_aligned :: "'t kv_meta \<Rightarrow> bool" where
  "meta_aligned m =
     (case km_tags m of None \<Rightarrow> True | Some ts \<Rightarrow> length ts = length (km_sample_ids m))"

text \<open>The constructor with its \<open>__post_init__\<close> check.\<close>

definition kv_meta_init :: "'t kv_meta \<Rightarrow> 't kv_meta result" where
  "kv_meta_init m = (if meta_aligned m then Inr m else Inl ValueError)"

definition km_size :: "'t kv_meta \<Rightarrow> nat" where
  "km_size m = length (km_sample_ids m)"

text \<open>
  \<open>stamp_tags\<close> updates the object column by column; a column of the wrong length raises after
  the columns before it are written.
\<close>

fun stamp_columns ::
  "nat \<Rightarrow> (string \<times> 't list) list \<Rightarrow> 't dict list \<Rightarrow> 't dict list \<times> py_error option" where
  "stamp_columns n [] tags = (tags, None)"
| "stamp_columns n ((name, vals) # scalars) tags =
     (if length vals \<noteq> n then (tags, Some ValueError)
      else stamp_columns n scalars (map2 (dict_set name) vals tags))"

definition stamp_tags ::
  "'t kv_meta \<Rightarrow> (string \<times> 't list) list \<Rightarrow> 't kv_meta \<times> py_error option" where
  "stamp_tags m scalars =
     (let n = km_size m;
          start = (case km_tags m of None \<Rightarrow> replicate n [] | Some ts \<Rightarrow> ts);
          (tags, err) = stamp_columns n scalars start
      in (m\<lparr>km_tags := Some tags\<rparr>, err))"

text \<open>\<open>_replace\<close> rebuilds the metadata through the checking constructor.\<close>

definition kv_replace ::
  "'t kv_meta \<Rightarrow> string list \<Rightarrow> nat list option \<Rightarrow> 't dict list option \<Rightarrow> 't kv_meta result" where
  "kv_replace m sample_ids sequence_lengths tags =
     kv_meta_init (m\<lparr>km_sample_ids := sample_ids, km_sequence_lengths := sequence_lengths,
                     km_tags := tags\<rparr>)"

definition index_list :: "'a list \<Rightarrow> nat list \<Rightarrow> 'a list result" where
  "index_list xs idx = map_res (\<lambda>i. if i < length xs then Inr (xs ! i) else Inl IndexError) idx"

definition index_optional :: "'a list option \<Rightarrow> nat list \<Rightarrow> 'a list option result" where
  "index_optional xs idx =
     (case xs of None \<Rightarrow> Inr None | Some ys \<Rightarrow> bind_res (index_list ys idx) (\<lambda>zs. Inr (Some zs)))"

definition kv_subset :: "'t kv_meta \<Rightarrow> nat list \<Rightarrow> 't kv_meta result" where
  "kv_subset m indices =
     bind_res (index_list (km_sample_ids m) indices) (\<lambda>ids.
     bind_res (index_optional (km_sequence_lengths m) indices) (\<lambda>lens.
     bind_res (index_optional (km_tags m) indices) (\<lambda>tags.
       kv_replace m ids lens tags)))"

definition kv_slice :: "'t kv_meta \<Rightarrow> nat \<Rightarrow> nat \<Rightarrow> 't kv_meta result" where
  "kv_slice m start stop =
     kv_replace m (take (stop - start) (drop start (km_sample_ids m)))
       (map_option (\<lambda>xs. take (stop - start) (drop start xs)) (km_sequence_lengths m))
       (map_option (\<lambda>xs. take (stop - start) (drop start xs)) (km_tags m))"

definition all_or_none :: "'a list option list \<Rightarrow> 'a list option" where
  "all_or_none xss =
     (if list_all (\<lambda>x. x \<noteq> None) xss
      then Some (concat (map (\<lambda>x. case x of None \<Rightarrow> [] | Some ys \<Rightarrow> ys) xss)) else None)"

definition kv_concat :: "'t kv_meta \<Rightarrow> 't kv_meta list \<Rightarrow> 't kv_meta result" where
  "kv_concat m others =
     (if list_ex (\<lambda>o'. km_partition_id o' \<noteq> km_partition_id m) others then Inl ValueError
      else
        let all_m = m # others
        in kv_replace m (concat (map km_sample_ids all_m))
             (all_or_none (map km_sequence_lengths all_m)) (all_or_none (map km_tags all_m)))"

section \<open>The in-memory client\<close>

datatype 'v leaf = Tensor "'v list" | NonTensor

record ('v, 't) part =
  pt_fields :: "string list"
  pt_num_samples :: int
  pt_consumer_tasks :: "string list"
  pt_grpo_group_size :: "int option"
  pt_enums :: "string list dict"
  pt_rows :: "'v dict dict"
  pt_tags :: "'t dict dict"
  pt_consumed :: "string \<rightharpoonup> string set"

record ('v, 't) client =
  dc_partitions :: "string \<rightharpoonup> ('v, 't) part"
  dc_closed :: bool

definition dp_init :: "('v, 't) client" where
  "dp_init = \<lparr>dc_partitions = Map.empty, dc_closed = False\<rparr>"

definition register_partition ::
  "('v, 't) client \<Rightarrow> string \<Rightarrow> string list \<Rightarrow> int \<Rightarrow> string list \<Rightarrow> int option
     \<Rightarrow> string list dict option \<Rightarrow> ('v, 't) client" where
  "register_partition c partition_id columns num_samples consumer_tasks grpo_group_size enums =
     c\<lparr>dc_partitions := (dc_partitions c)(partition_id \<mapsto>
       \<lparr>pt_fields = columns, pt_num_samples = num_samples, pt_consumer_tasks = consumer_tasks,
        pt_grpo_group_size = grpo_group_size,
        pt_enums = (case enums of None \<Rightarrow> [] | Some e \<Rightarrow> e),
        pt_rows = [], pt_tags = [],
        pt_consumed = (\<lambda>t. if t \<in> set consumer_tasks then Some {} else None)\<rparr>)\<rparr>"

text \<open>The scan of \<open>claim_meta\<close>: rows in insertion order, stopping once the batch is full.\<close>

fun claim_scan ::
  "int \<Rightarrow> string set \<Rightarrow> string list \<Rightarrow> 'v dict dict \<Rightarrow> string list \<Rightarrow> string list" where
  "claim_scan batch_size used required [] ready = ready"
| "claim_scan batch_size used required ((key, row) # rows) ready =
     (if key \<in> used then claim_scan batch_size used required rows ready
      else if \<not> list_all (\<lambda>f. f \<in> fst ` set row) required
      then claim_scan batch_size used required rows ready
      else if batch_size \<le> int (length (ready @ [key])) then ready @ [key]
      else claim_scan batch_size used required rows (ready @ [key]))"

definition row_length :: "('t \<Rightarrow> nat) \<Rightarrow> ('v, 't) part \<Rightarrow> string \<Rightarrow> nat" where
  "row_length tag_int rec key =
     (case map_of (pt_tags rec) key of
        None \<Rightarrow> 0
      | Some tag \<Rightarrow> (case map_of tag ''input_lengths'' of None \<Rightarrow> 0 | Some v \<Rightarrow> tag_int v))"

definition claim_meta ::
  "('t \<Rightarrow> nat) \<Rightarrow> ('v, 't) client \<Rightarrow> string \<Rightarrow> string \<Rightarrow> string list \<Rightarrow> int
     \<Rightarrow> ('v, 't) client \<times> 't kv_meta result" where
  "claim_meta tag_int c partition_id task_name required_fields batch_size =
     (case dc_partitions c partition_id of
        None \<Rightarrow> (c, Inl KeyError)
      | Some rec \<Rightarrow>
          (case pt_consumed rec task_name of
             None \<Rightarrow> (c, Inl KeyError)
           | Some used \<Rightarrow>
               let ready = claim_scan batch_size used required_fields (pt_rows rec) [];
                   seqs = map (row_length tag_int rec) ready;
                   rec' = rec\<lparr>pt_consumed := (pt_consumed rec)(task_name \<mapsto> used \<union> set ready)\<rparr>
               in (c\<lparr>dc_partitions := (dc_partitions c)(partition_id \<mapsto> rec')\<rparr>,
                   kv_meta_init
                     \<lparr>km_partition_id = partition_id, km_task_name = Some task_name,
                      km_sample_ids = ready, km_fields = Some required_fields,
                      km_sequence_lengths = (if list_ex (\<lambda>s. s \<noteq> 0) seqs then Some seqs else None),
                      km_extra_info = [], km_tags = None\<rparr>)))"

text \<open>Writing the fields of one sample; an index past the column raises.\<close>

fun write_fields :: "nat \<Rightarrow> 'v leaf dict \<Rightarrow> 'v dict \<Rightarrow> 'v dict \<times> py_error option" where
  "write_fields i [] row = (row, None)"
| "write_fields i ((fname, Tensor vs) # columns) row =
     (if i < length vs then write_fields i columns (dict_set fname (vs ! i) row)
      else (row, Some IndexError))"
| "write_fields i ((fname, NonTensor) # columns) row = (row, Some TypeError)"

definition get_default :: "('k \<times> 'v) list \<Rightarrow> 'k \<Rightarrow> 'v \<Rightarrow> 'v" where
  "get_default d k dflt = (case map_of d k of None \<Rightarrow> dflt | Some v \<Rightarrow> v)"

fun put_rows ::
  "nat \<Rightarrow> 'v leaf dict \<Rightarrow> string list \<Rightarrow> 'v dict dict \<Rightarrow> 'v dict dict \<times> py_error option" where
  "put_rows i columns [] rows = (rows, None)"
| "put_rows i columns (sid # sids) rows =
     (case write_fields i columns (get_default rows sid []) of
        (row, Some e) \<Rightarrow> (dict_set sid row rows, Some e)
      | (row, None) \<Rightarrow> put_rows (Suc i) columns sids (dict_set sid row rows))"

definition put_tags :: "(string \<times> 't dict) list \<Rightarrow> 't dict dict \<Rightarrow> 't dict dict" where
  "put_tags pairs tags =
     foldl (\<lambda>acc (sid, tag). dict_set sid (dict_update (get_default acc sid []) tag) acc) tags pairs"

definition reject_non_tensor_leaves :: "'v leaf dict \<Rightarrow> bool" where
  "reject_non_tensor_leaves columns = list_ex (\<lambda>(k, v). v = NonTensor) columns"

definition put_samples ::
  "('v, 't) client \<Rightarrow> string list \<Rightarrow> string \<Rightarrow> 'v leaf dict option \<Rightarrow> 't dict list option
     \<Rightarrow> ('v, 't) client \<times> 't kv_meta result" where
  "put_samples c sample_ids partition_id columns tags =
     (case dc_partitions c partition_id of
        None \<Rightarrow> (c, Inl KeyError)
      | Some rec \<Rightarrow>
          if (case columns of None \<Rightarrow> False | Some fs \<Rightarrow> reject_non_tensor_leaves fs)
          then (c, Inl TypeError)
          else
            let (rows, err) = (case columns of None \<Rightarrow> (pt_rows rec, None)
                               | Some fs \<Rightarrow> put_rows 0 fs sample_ids (pt_rows rec));
                rec1 = rec\<lparr>pt_rows := rows\<rparr>
            in (case err of
                  Some e \<Rightarrow> (c\<lparr>dc_partitions := (dc_partitions c)(partition_id \<mapsto> rec1)\<rparr>, Inl e)
                | None \<Rightarrow>
                    let rec2 = (case tags of None \<Rightarrow> rec1
                                | Some ts \<Rightarrow> rec1\<lparr>pt_tags := put_tags (zip sample_ids ts) (pt_tags rec1)\<rparr>)
                    in (c\<lparr>dc_partitions := (dc_partitions c)(partition_id \<mapsto> rec2)\<rparr>,
                        kv_meta_init
                          \<lparr>km_partition_id = partition_id, km_task_name = None,
                           km_sample_ids = sample_ids, km_fields = map_option (map fst) columns,
                           km_sequence_lengths = None, km_extra_info = [], km_tags = tags\<rparr>)))"

text \<open>
  \<open>get_samples\<close>: an unknown sample or a field not yet produced raises. A field named twice
  is appended twice per sample, and the tensor dict then refuses the column for its length.
\<close>

definition get_samples ::
  "('v, 't) client \<Rightarrow> string list \<Rightarrow> string \<Rightarrow> string list \<Rightarrow> 'v list dict result" where
  "get_samples c sample_ids partition_id select_fields =
     (case dc_partitions c partition_id of
        None \<Rightarrow> Inl KeyError
      | Some rec \<Rightarrow>
          if sample_ids = [] then Inr []
          else bind_res (map_res (\<lambda>sid.
                 (case map_of (pt_rows rec) sid of
                    None \<Rightarrow> Inl KeyError
                  | Some row \<Rightarrow>
                      map_res (\<lambda>f. case map_of row f of None \<Rightarrow> Inl KeyError | Some v \<Rightarrow> Inr v)
                        select_fields)) sample_ids)
               (\<lambda>out. if distinct select_fields
                       then Inr (map (\<lambda>(j, f). (f, map (\<lambda>vals. vals ! j) out)) (enumerate 0 select_fields))
                       else Inl RuntimeError))"

definition get_data ::
  "('v, 't) client \<Rightarrow> 't kv_meta \<Rightarrow> string list option \<Rightarrow> 'v list dict result" where
  "get_data c m select_fields =
     (case (case select_fields of Some fs \<Rightarrow> Some fs | None \<Rightarrow> km_fields m) of
        None \<Rightarrow> Inl ValueError
      | Some columns \<Rightarrow> get_samples c (km_sample_ids m) (km_partition_id m) columns)"

definition check_consumption_status ::
  "('v, 't) client \<Rightarrow> string \<Rightarrow> string list \<Rightarrow> bool result" where
  "check_consumption_status c partition_id task_names =
     (case dc_partitions c partition_id of
        None \<Rightarrow> Inl KeyError
      | Some rec \<Rightarrow>
          Inr (list_all (\<lambda>t. case pt_consumed rec t of
                  None \<Rightarrow> False
                | Some used \<Rightarrow> \<not> card used < length (pt_rows rec)) task_names))"

definition clear_one :: "string \<Rightarrow> ('v, 't) part \<Rightarrow> ('v, 't) part" where
  "clear_one sid rec =
     rec\<lparr>pt_rows := dict_pop sid (pt_rows rec), pt_tags := dict_pop sid (pt_tags rec),
         pt_consumed := (\<lambda>t. map_option (\<lambda>s. s - {sid}) (pt_consumed rec t))\<rparr>"

definition clear_samples ::
  "('v, 't) client \<Rightarrow> string list option \<Rightarrow> string \<Rightarrow> ('v, 't) client" where
  "clear_samples c sample_ids partition_id =
     (case dc_partitions c partition_id of
        None \<Rightarrow> c
      | Some rec \<Rightarrow>
          (case sample_ids of
             None \<Rightarrow> c\<lparr>dc_partitions := (dc_partitions c)(partition_id := None)\<rparr>
           | Some ids \<Rightarrow>
               c\<lparr>dc_partitions := (dc_partitions c)(partition_id \<mapsto> foldl (\<lambda>r sid. clear_one sid r) rec ids)\<rparr>))"

definition dp_close :: "('v, 't) client \<Rightarrow> ('v, 't) client" where
  "dp_close c = (if dc_closed c then c else \<lparr>dc_partitions = Map.empty, dc_closed = True\<rparr>)"

section \<open>Rank assignment\<close>

text \<open>
  \<open>shard_meta_for_dp\<close> shards a skeleton batch and reads back which rows each rank got. The
  skeleton's token ids and mask are placeholders. The packing attributes it would copy into
  \<open>extra_info\<close> are attributes that no shard of this code base carries, so every rank's
  \<open>extra_info\<close> is the batch's.
\<close>

definition meta_skeleton :: "nat list \<Rightarrow> nat batch" where
  "meta_skeleton seq_lens =
     bd_init [(''input_ids'', Batched (map (\<lambda>_. 0) seq_lens)), (''input_lengths'', Batched seq_lens),
              (''sample_mask'', Batched (map (\<lambda>_. 1) seq_lens)),
              (''meta_idx'', Batched [0..<length seq_lens])]"

definition shard_of_result :: "'a shard_result \<Rightarrow> 'a batch list" where
  "shard_of_result r = (case r of Plain ss \<Rightarrow> ss | Packed ss _ \<Rightarrow> ss)"

definition rank_meta :: "'t kv_meta \<Rightarrow> nat list \<Rightarrow> nat list \<Rightarrow> 't kv_meta result" where
  "rank_meta m seq_lens idx_list =
     kv_meta_init
       \<lparr>km_partition_id = km_partition_id m, km_task_name = km_task_name m,
        km_sample_ids = map ((!) (km_sample_ids m)) idx_list, km_fields = km_fields m,
        km_sequence_lengths = Some (map ((!) seq_lens) idx_list),
        km_extra_info = km_extra_info m, km_tags = None\<rparr>"

definition shard_meta_for_dp ::
  "'t kv_meta \<Rightarrow> nat \<Rightarrow> nat option \<Rightarrow> packing_args option \<Rightarrow> bool
     \<Rightarrow> ('t kv_meta list \<times> nat list option) result" where
  "shard_meta_for_dp m dp_world batch_size sequence_packing dynamic_batching =
     (let n = length (km_sample_ids m) in
      if n = 0 then Inl ValueError
      else case km_sequence_lengths m of
        None \<Rightarrow> Inl ValueError
      | Some seq_lens \<Rightarrow>
          if length seq_lens \<noteq> n then Inl ValueError
          else if sequence_packing \<noteq> None \<and> dynamic_batching then Inl ValueError
          else
            bind_res (shard_by_batch_size (\<lambda>x. x) (meta_skeleton seq_lens) dp_world batch_size False
                        dynamic_batching sequence_packing) (\<lambda>r.
            bind_res (map_res (\<lambda>shard. packable_lengths (\<lambda>x. x) shard ''meta_idx'') (shard_of_result r))
              (\<lambda>idx_lists.
            bind_res (map_res (rank_meta m seq_lens) idx_lists) (\<lambda>out.
              let flat_idx = concat idx_lists
              in Inr (out, if flat_idx \<noteq> [0..<n] then Some (invert_perm n flat_idx) else None)))))"

section \<open>Metadata transforms keep the row alignment\<close>

lemma kv_meta_init_aligned: "kv_meta_init m = Inr r \<Longrightarrow> r = m \<and> meta_aligned r"
  by (simp add: kv_meta_init_def split: if_splits)

lemma index_list_Inr: "index_list xs idx = Inr ys \<longleftrightarrow> (\<forall>i\<in>set idx. i < length xs) \<and> ys = map ((!) xs) idx"
  unfolding index_list_def by (induction idx arbitrary: ys) (auto simp: bind_res_eq_Inr)

lemma stamp_columns_length: "length tags = n \<Longrightarrow> length (fst (stamp_columns n scalars tags)) = n"
  by (induction n scalars tags rule: stamp_columns.induct) auto

lemma map2_dict_set_nth:
  "i < length vals \<Longrightarrow> length vals = length tags \<Longrightarrow>
     map_of (map2 (dict_set name) vals tags ! i) name' = ((map_of (tags ! i))(name \<mapsto> vals ! i)) name'"
  by simp

lemma stamp_columns_nth:
  assumes "snd (stamp_columns n scalars tags) = None" and "length tags = n" and "i < n"
  shows "map_of (fst (stamp_columns n scalars tags) ! i) name =
    (case map_of (rev scalars) name of None \<Rightarrow> map_of (tags ! i) name | Some vals \<Rightarrow> Some (vals ! i))"
  using assms
  by (induction n scalars tags rule: stamp_columns.induct)
    (auto simp: map_add_Some_iff map_add_def split: if_splits option.splits)

section \<open>Invariant of the store\<close>

text \<open>Row ids are distinct, and a task has consumed only rows that are present.\<close>

definition part_inv :: "('v, 't) part \<Rightarrow> bool" where
  "part_inv rec \<longleftrightarrow> distinct (map fst (pt_rows rec))
     \<and> (\<forall>t used. pt_consumed rec t = Some used \<longrightarrow> used \<subseteq> fst ` set (pt_rows rec))"

definition client_inv :: "('v, 't) client \<Rightarrow> bool" where
  "client_inv c \<longleftrightarrow> (\<forall>p rec. dc_partitions c p = Some rec \<longrightarrow> part_inv rec)"

lemma client_inv_upd:
  assumes "client_inv c" and "part_inv rec"
  shows "client_inv (c\<lparr>dc_partitions := (dc_partitions c)(p \<mapsto> rec)\<rparr>)"
  using assms by (simp add: client_inv_def)

lemma claim_scan_spec:
  assumes "distinct (ready @ map fst rows)" and "set ready \<inter> used = {}"
  shows "\<exists>new. claim_scan batch_size used required rows ready = ready @ new
    \<and> distinct (ready @ new) \<and> set new \<subseteq> fst ` set rows - used
    \<and> (\<forall>k\<in>set new. \<exists>row. (k, row) \<in> set rows \<and> (\<forall>f\<in>set required. f \<in> fst ` set row))"
  using assms
proof (induction batch_size used required rows ready rule: claim_scan.induct)
  case (1 batch_size used required ready)
  then show ?case by simp
next
  case (2 batch_size used required key row rows ready)
  consider "key \<in> used" | "key \<notin> used" "\<not> list_all (\<lambda>f. f \<in> fst ` set row) required"
    | "key \<notin> used" "list_all (\<lambda>f. f \<in> fst ` set row) required" "batch_size \<le> int (length (ready @ [key]))"
    | "key \<notin> used" "list_all (\<lambda>f. f \<in> fst ` set row) required" "\<not> batch_size \<le> int (length (ready @ [key]))"
    by blast
  then show ?case
  proof cases
    case 1
    then obtain new where "claim_scan batch_size used required rows ready = ready @ new"
      "distinct (ready @ new)" "set new \<subseteq> fst ` set rows - used"
      "\<forall>k\<in>set new. \<exists>row. (k, row) \<in> set rows \<and> (\<forall>f\<in>set required. f \<in> fst ` set row)"
      using 2 by auto
    with 1 show ?thesis by (intro exI [of _ new]) auto
  next
    case 2
    then obtain new where "claim_scan batch_size used required rows ready = ready @ new"
      "distinct (ready @ new)" "set new \<subseteq> fst ` set rows - used"
      "\<forall>k\<in>set new. \<exists>row. (k, row) \<in> set rows \<and> (\<forall>f\<in>set required. f \<in> fst ` set row)"
      using "2.IH"(2) "2.prems" by auto
    with 2 show ?thesis by (intro exI [of _ new]) auto
  next
    case 3
    then show ?thesis using "2.prems" by (intro exI [of _ "[key]"]) (auto simp: list_all_iff)
  next
    case 4
    then obtain new where new: "claim_scan batch_size used required rows (ready @ [key]) = (ready @ [key]) @ new"
      "distinct ((ready @ [key]) @ new)" "set new \<subseteq> fst ` set rows - used"
      "\<forall>k\<in>set new. \<exists>row. (k, row) \<in> set rows \<and> (\<forall>f\<in>set required. f \<in> fst ` set row)"
      using "2.IH"(3) "2.prems" by auto
    with 4 show ?thesis by (intro exI [of _ "key # new"]) (auto simp: list_all_iff)
  qed
qed

lemma claim_scan_bound:
  "int (length ready) < batch_size \<Longrightarrow>
     int (length (claim_scan batch_size used required rows ready)) \<le> batch_size"
  by (induction batch_size used required rows ready rule: claim_scan.induct) auto

lemma claim_scan_keeps: "k \<in> set ready \<Longrightarrow> k \<in> set (claim_scan batch_size used required rows ready)"
  by (induction batch_size used required rows ready rule: claim_scan.induct) auto

lemma claim_scan_complete:
  "int (length (claim_scan batch_size used required rows ready)) < batch_size \<Longrightarrow>
     (k, row) \<in> set rows \<Longrightarrow> k \<notin> used \<Longrightarrow> list_all (\<lambda>f. f \<in> fst ` set row) required \<Longrightarrow>
     k \<in> set (claim_scan batch_size used required rows ready)"
proof (induction batch_size used required rows ready rule: claim_scan.induct)
  case (2 batch_size used required key row' rows ready)
  then show ?case
    using claim_scan_keeps [of key "ready @ [key]" batch_size used required rows]
    by (auto split: if_splits)
qed simp

lemma part_inv_claim:
  assumes "part_inv rec" and "pt_consumed rec t = Some used"
  shows "part_inv (rec\<lparr>pt_consumed := (pt_consumed rec)(t \<mapsto> used \<union> set (claim_scan b used req (pt_rows rec) []))\<rparr>)"
proof -
  obtain new where "claim_scan b used req (pt_rows rec) [] = [] @ new" "set new \<subseteq> fst ` set (pt_rows rec) - used"
    using claim_scan_spec [of "[]" "pt_rows rec" used b req] assms(1) by (auto simp: part_inv_def)
  then show ?thesis using assms by (auto simp: part_inv_def)
qed

lemma put_rows_keys:
  "distinct (map fst rows) \<Longrightarrow> distinct (map fst (fst (put_rows i columns sids rows)))
     \<and> fst ` set rows \<subseteq> fst ` set (fst (put_rows i columns sids rows))"
proof (induction i columns sids rows rule: put_rows.induct)
  case (2 i columns sid sids rows)
  show ?case
  proof (cases "write_fields i columns (get_default rows sid [])")
    case (Pair row e)
    show ?thesis
    proof (cases e)
      case None
      have "distinct (map fst (dict_set sid row rows))" using 2(2) by (rule distinct_dict_set)
      from 2(1) [OF Pair [symmetric] None this] show ?thesis using Pair None by simp
    next
      case (Some err)
      then show ?thesis using Pair distinct_dict_set [OF 2(2)] by auto
    qed
  qed
qed simp

lemma part_inv_put:
  "part_inv rec \<Longrightarrow> part_inv (rec\<lparr>pt_rows := fst (put_rows i columns sids (pt_rows rec))\<rparr>)"
  using put_rows_keys [of "pt_rows rec" i columns sids] by (fastforce simp: part_inv_def)

lemma part_inv_tags [simp]: "part_inv (rec\<lparr>pt_tags := ts\<rparr>) = part_inv rec"
  by (simp add: part_inv_def)

lemma part_inv_clear: "part_inv rec \<Longrightarrow> part_inv (foldl (\<lambda>r sid. clear_one sid r) rec ids)"
proof (induction ids arbitrary: rec)
  case (Cons sid ids)
  then have "part_inv (clear_one sid rec)"
    by (fastforce simp: part_inv_def clear_one_def intro: distinct_dict_pop)
  with Cons show ?case by simp
qed simp

section \<open>Sequences of client calls\<close>

datatype ('v, 't) dp_op =
    Register string "string list" int "string list" "int option" "string list dict option"
  | Put "string list" string "'v leaf dict option" "'t dict list option"
  | Claim string string "string list" int
  | Clear "string list option" string
  | Close

text \<open>One call: the new client and the metadata it returned, if it returned any.\<close>

fun dp_step ::
  "('t \<Rightarrow> nat) \<Rightarrow> ('v, 't) dp_op \<Rightarrow> ('v, 't) client \<Rightarrow> ('v, 't) client \<times> 't kv_meta result option" where
  "dp_step tag_int (Register p fs n tasks g e) c = (register_partition c p fs n tasks g e, None)"
| "dp_step tag_int (Put ids p fs ts) c = (let (c', r) = put_samples c ids p fs ts in (c', Some r))"
| "dp_step tag_int (Claim p t req b) c = (let (c', r) = claim_meta tag_int c p t req b in (c', Some r))"
| "dp_step tag_int (Clear ids p) c = (clear_samples c ids p, None)"
| "dp_step tag_int Close c = (dp_close c, None)"

inductive dp_reachable :: "('t \<Rightarrow> nat) \<Rightarrow> ('v, 't) client \<Rightarrow> bool" for tag_int where
  reach_init: "dp_reachable tag_int dp_init"
| reach_step: "dp_reachable tag_int c \<Longrightarrow> dp_step tag_int op c = (c', out) \<Longrightarrow> dp_reachable tag_int c'"

lemma put_samples_inv: "client_inv c \<Longrightarrow> client_inv (fst (put_samples c ids p columns tags))"
proof -
  assume inv: "client_inv c"
  show ?thesis
  proof (cases "dc_partitions c p")
    case (Some rec)
    then have rec: "part_inv rec" using inv by (simp add: client_inv_def)
    have self: "rec\<lparr>pt_rows := pt_rows rec\<rparr> = rec" by simp
    show ?thesis
      using Some rec part_inv_put [OF rec, of 0 _ ids] inv
      by (auto simp: put_samples_def Let_def split_def client_inv_upd split: option.splits)
  qed (simp add: put_samples_def inv)
qed

lemma claim_meta_inv: "client_inv c \<Longrightarrow> client_inv (fst (claim_meta tag_int c p t req b))"
  unfolding claim_meta_def Let_def
  by (auto split: option.splits intro!: client_inv_upd part_inv_claim simp: client_inv_def)

lemma clear_samples_inv: "client_inv c \<Longrightarrow> client_inv (clear_samples c ids p)"
  by (auto simp: clear_samples_def client_inv_def part_inv_clear split: option.splits)

lemma register_inv: "client_inv c \<Longrightarrow> client_inv (register_partition c p fs n tasks g e)"
  by (simp add: register_partition_def client_inv_def part_inv_def)

lemma dp_close_inv: "client_inv c \<Longrightarrow> client_inv (dp_close c)"
  by (simp add: dp_close_def client_inv_def)

lemma dp_step_inv: "client_inv c \<Longrightarrow> client_inv (fst (dp_step tag_int op c))"
  by (cases op) (simp_all add: register_inv clear_samples_inv Let_def split_def put_samples_inv
      claim_meta_inv dp_close_inv)

lemma reachable_inv: "dp_reachable tag_int c \<Longrightarrow> client_inv c"
proof (induction rule: dp_reachable.induct)
  case reach_init
  then show ?case by (simp add: dp_init_def client_inv_def)
next
  case (reach_step c op c' out)
  then show ?case using dp_step_inv [of c tag_int op] by simp
qed

section \<open>Claims happen once\<close>

fun run_calls :: "('op \<Rightarrow> 's \<Rightarrow> 's \<times> 'k list) \<Rightarrow> 'op list \<Rightarrow> 's \<Rightarrow> 's \<times> 'k list list" where
  "run_calls call [] s = (s, [])"
| "run_calls call (op # ops) s =
     (let (s1, ks) = call op s; (s2, kss) = run_calls call ops s1 in (s2, ks # kss))"

text \<open>
  The interface of a claiming store: while only safe calls are made, a call hands out ids that
  were not handed out before, without repetition, and remembers exactly those.
\<close>

locale claim_cursor =
  fixes call :: "'op \<Rightarrow> 's \<Rightarrow> 's \<times> 'k list" and seen :: "'s \<Rightarrow> 'k set"
    and safe :: "'op \<Rightarrow> bool" and ok :: "'s \<Rightarrow> bool"
  assumes call_fresh:
    "ok s \<Longrightarrow> safe op \<Longrightarrow> call op s = (s', ks) \<Longrightarrow>
       ok s' \<and> distinct ks \<and> set ks \<inter> seen s = {} \<and> seen s' = seen s \<union> set ks"
begin

lemma calls_once:
  assumes "ok s" and "list_all safe ops" and "run_calls call ops s = (s', kss)"
  shows "ok s' \<and> distinct (concat kss) \<and> set (concat kss) \<inter> seen s = {}
    \<and> seen s' = seen s \<union> set (concat kss)"
  using assms
proof (induction ops arbitrary: s kss)
  case (Cons op ops)
  obtain s1 ks where 1: "call op s = (s1, ks)" by fastforce
  obtain s2 kss1 where 2: "run_calls call ops s1 = (s2, kss1)" by fastforce
  have 3: "s' = s2" "kss = ks # kss1" using Cons.prems 1 2 by auto
  note f = call_fresh [OF Cons.prems(1) _ 1]
  with Cons.IH [of s1 kss1] Cons.prems 2 3 show ?case by auto
qed simp

end

text \<open>The ids task \<open>t\<close> of partition \<open>p\<close> is handed by one call.\<close>

definition claimed_by :: "string \<Rightarrow> string \<Rightarrow> ('v, 't) dp_op \<Rightarrow> 't kv_meta result option \<Rightarrow> string list" where
  "claimed_by p t op out =
     (case op of
        Claim q u req b \<Rightarrow>
          (if q = p \<and> u = t then (case out of Some (Inr m) \<Rightarrow> km_sample_ids m | _ \<Rightarrow> []) else [])
      | _ \<Rightarrow> [])"

definition claim_call ::
  "('t \<Rightarrow> nat) \<Rightarrow> string \<Rightarrow> string \<Rightarrow> ('v, 't) dp_op \<Rightarrow> ('v, 't) client \<Rightarrow> ('v, 't) client \<times> string list" where
  "claim_call tag_int p t op c = (let (c', out) = dp_step tag_int op c in (c', claimed_by p t op out))"

definition task_seen :: "string \<Rightarrow> string \<Rightarrow> ('v, 't) client \<Rightarrow> string set" where
  "task_seen p t c =
     (case dc_partitions c p of None \<Rightarrow> {} | Some rec \<Rightarrow> (case pt_consumed rec t of None \<Rightarrow> {} | Some u \<Rightarrow> u))"

text \<open>A call that neither registers, clears nor closes the partition.\<close>

fun keeps_partition :: "string \<Rightarrow> ('v, 't) dp_op \<Rightarrow> bool" where
  "keeps_partition p (Register q fs n tasks g e) = (q \<noteq> p)"
| "keeps_partition p (Put ids q fs ts) = True"
| "keeps_partition p (Claim q t req b) = True"
| "keeps_partition p (Clear ids q) = (q \<noteq> p)"
| "keeps_partition p Close = False"

lemma put_samples_seen: "task_seen p t (fst (put_samples c ids q columns tags)) = task_seen p t c"
  by (auto simp: put_samples_def task_seen_def Let_def split_def split: option.splits)

lemma claim_meta_other:
  "(q, u) \<noteq> (p, t) \<Longrightarrow> task_seen p t (fst (claim_meta tag_int c q u req b)) = task_seen p t c"
  by (auto simp: claim_meta_def task_seen_def Let_def split: option.splits)

lemma claim_meta_fresh:
  assumes "client_inv c" and "claim_meta tag_int c p t req b = (c', r)"
  shows "case r of Inl e \<Rightarrow> c' = c
    | Inr m \<Rightarrow> distinct (km_sample_ids m) \<and> set (km_sample_ids m) \<inter> task_seen p t c = {}
        \<and> task_seen p t c' = task_seen p t c \<union> set (km_sample_ids m)"
proof (cases "dc_partitions c p")
  case (Some rec)
  show ?thesis
  proof (cases "pt_consumed rec t")
    case used: (Some used)
    obtain new where "claim_scan b used req (pt_rows rec) [] = [] @ new" "distinct ([] @ new)"
      "set new \<subseteq> fst ` set (pt_rows rec) - used"
      using claim_scan_spec [of "[]" "pt_rows rec" used b req] assms(1) Some
      by (auto simp: part_inv_def client_inv_def)
    then show ?thesis
      using assms(2) Some used
      by (auto simp: claim_meta_def Let_def task_seen_def kv_meta_init_def meta_aligned_def)
  qed (use assms(2) Some in \<open>auto simp: claim_meta_def\<close>)
qed (use assms(2) in \<open>auto simp: claim_meta_def\<close>)

lemma claim_call_fresh:
  assumes "client_inv c" and "keeps_partition p op" and "claim_call tag_int p t op c = (c', ks)"
  shows "client_inv c' \<and> distinct ks \<and> set ks \<inter> task_seen p t c = {}
    \<and> task_seen p t c' = task_seen p t c \<union> set ks"
proof -
  have c': "c' = fst (dp_step tag_int op c)" and ks: "ks = claimed_by p t op (snd (dp_step tag_int op c))"
    using assms(3) by (auto simp: claim_call_def Let_def split_def)
  have inv: "client_inv c'" unfolding c' using assms(1) by (rule dp_step_inv)
  show ?thesis
  proof (cases op)
    case (Register q fs n tasks g e)
    then show ?thesis using assms(2) c' ks inv
      by (simp add: claimed_by_def task_seen_def register_partition_def)
  next
    case (Put ids q fs ts)
    then show ?thesis using c' ks inv by (simp add: claimed_by_def Let_def split_def put_samples_seen)
  next
    case (Clear ids q)
    then show ?thesis using assms(2) c' ks inv
      by (auto simp: claimed_by_def task_seen_def clear_samples_def split: option.splits)
  next
    case Close
    then show ?thesis using assms(2) by simp
  next
    case (Claim q u req b)
    obtain c1 r where 1: "claim_meta tag_int c q u req b = (c1, r)" by fastforce
    show ?thesis
    proof (cases "(q, u) = (p, t)")
      case True
      with claim_meta_fresh [OF assms(1), of tag_int p t req b c1 r] 1 Claim inv c' ks
      show ?thesis by (auto simp: claimed_by_def split: sum.splits)
    next
      case False
      then have "task_seen p t c1 = task_seen p t c" using claim_meta_other 1 by (metis fst_conv)
      moreover have "ks = []" using ks Claim False by (auto simp: claimed_by_def)
      moreover have "c' = c1" using c' Claim 1 by simp
      ultimately show ?thesis using inv by simp
    qed
  qed
qed

interpretation once: claim_cursor "claim_call tag_int p t" "task_seen p t" "keeps_partition p" client_inv
  for tag_int p t
  by unfold_locales (rule claim_call_fresh)

section \<open>Reading back what was put\<close>

lemma write_fields_ok:
  assumes "distinct (map fst columns)" and "\<forall>(f, v)\<in>set columns. \<exists>vs. v = Tensor vs \<and> i < length vs"
  shows "\<exists>row'. write_fields i columns row = (row', None)
    \<and> (\<forall>f. map_of row' f = (case map_of columns f of Some (Tensor vs) \<Rightarrow> Some (vs ! i) | _ \<Rightarrow> map_of row f))"
  using assms
proof (induction columns arbitrary: row)
  case (Cons x columns)
  obtain f v where x: "x = (f, v)" by fastforce
  then obtain vs where v: "v = Tensor vs" "i < length vs" using Cons.prems(2) by auto
  obtain row' where row': "write_fields i columns (dict_set f (vs ! i) row) = (row', None)"
    "\<forall>g. map_of row' g = (case map_of columns g of Some (Tensor vs') \<Rightarrow> Some (vs' ! i)
        | _ \<Rightarrow> map_of (dict_set f (vs ! i) row) g)"
    using Cons.IH [of "dict_set f (vs ! i) row"] Cons.prems by auto
  have "map_of columns f = None" using Cons.prems(1) x by (simp add: map_of_eq_None_iff)
  with row' show ?case unfolding x v
    by (intro exI [of _ row']) (auto simp: v(2) split: option.splits leaf.splits)
qed simp

text \<open>The rows of the written ids hold the new values, all other rows are as before.\<close>

lemma put_rows_ok:
  assumes "distinct (map fst columns)"
    and "\<forall>(f, v)\<in>set columns. \<exists>vs. v = Tensor vs \<and> i + length sids \<le> length vs" and "distinct sids"
  shows "\<exists>rows'. put_rows i columns sids rows = (rows', None)
    \<and> (\<forall>k. k \<notin> set sids \<longrightarrow> map_of rows' k = map_of rows k)
    \<and> (\<forall>j<length sids. \<exists>row'. map_of rows' (sids ! j) = Some row'
        \<and> (\<forall>f. map_of row' f = (case map_of columns f of Some (Tensor vs) \<Rightarrow> Some (vs ! (i + j))
             | _ \<Rightarrow> map_of (get_default rows (sids ! j) []) f)))"
  using assms(2,3)
proof (induction sids arbitrary: i rows)
  case (Cons sid sids)
  obtain row' where w: "write_fields i columns (get_default rows sid []) = (row', None)"
    "\<forall>f. map_of row' f = (case map_of columns f of Some (Tensor vs) \<Rightarrow> Some (vs ! i)
        | _ \<Rightarrow> map_of (get_default rows sid []) f)"
    using write_fields_ok [OF assms(1), of i "get_default rows sid []"] Cons.prems(1) by fastforce
  let ?rows = "dict_set sid row' rows"
  obtain rows' where r: "put_rows (Suc i) columns sids ?rows = (rows', None)"
    "\<forall>k. k \<notin> set sids \<longrightarrow> map_of rows' k = map_of ?rows k"
    "\<forall>j<length sids. \<exists>row'. map_of rows' (sids ! j) = Some row'
        \<and> (\<forall>f. map_of row' f = (case map_of columns f of Some (Tensor vs) \<Rightarrow> Some (vs ! (Suc i + j))
             | _ \<Rightarrow> map_of (get_default ?rows (sids ! j) []) f))"
    using Cons.IH [of "Suc i" ?rows] Cons.prems by auto
  have other: "get_default ?rows (sids ! j) [] = get_default rows (sids ! j) []" if "j < length sids" for j
    using Cons.prems(2) that nth_mem [OF that] by (auto simp: get_default_def)
  show ?case
  proof (intro exI [of _ rows'] conjI allI impI)
    show "put_rows i columns (sid # sids) rows = (rows', None)" using w r(1) by simp
    show "map_of rows' k = map_of rows k" if "k \<notin> set (sid # sids)" for k using r(2) that by auto
    fix j assume j: "j < length (sid # sids)"
    show "\<exists>row'. map_of rows' ((sid # sids) ! j) = Some row'
        \<and> (\<forall>f. map_of row' f = (case map_of columns f of Some (Tensor vs) \<Rightarrow> Some (vs ! (i + j))
             | _ \<Rightarrow> map_of (get_default rows ((sid # sids) ! j) []) f))"
    proof (cases j)
      case 0
      have "map_of rows' sid = Some row'" using r(2) Cons.prems(2) by simp
      with w(2) show ?thesis unfolding 0 nth_Cons_0 add_0_right by blast
    next
      case (Suc k)
      then have k: "k < length sids" using j by simp
      from r(3) k show ?thesis
        unfolding Suc nth_Cons_Suc other [OF k, symmetric] add_Suc_shift [symmetric] by blast
    qed
  qed
qed simp

lemma get_samples_column:
  assumes "dc_partitions c p = Some rec" and "sids \<noteq> []" and "length vs = length sids"
    and "\<And>j. j < length sids \<Longrightarrow> \<exists>row. map_of (pt_rows rec) (sids ! j) = Some row \<and> map_of row f = Some (vs ! j)"
  shows "get_samples c sids p [f] = Inr [(f, vs)]"
proof -
  let ?read = "\<lambda>sid. (case map_of (pt_rows rec) sid of None \<Rightarrow> Inl KeyError
      | Some row \<Rightarrow> map_res (\<lambda>f. case map_of row f of None \<Rightarrow> Inl KeyError | Some v \<Rightarrow> Inr v) [f])"
  have "map_res (?read \<circ> (!) sids) [0..<length sids] = Inr (map (\<lambda>j. [vs ! j]) [0..<length sids])"
    using assms(4) by (intro map_res_Inr) fastforce
  then have "map_res ?read sids = Inr (map (\<lambda>j. [vs ! j]) [0..<length sids])"
    unfolding map_res_map [symmetric] map_nth .
  moreover have "map (\<lambda>j. vs ! j) [0..<length sids] = vs" using assms(3) by (metis map_nth)
  ultimately show ?thesis using assms(1,2) by (simp add: get_samples_def comp_def)
qed

section \<open>Properties\<close>

text \<open>C26: A consumer task is handed every sample at most once: over any sequence of client calls that does
  not register, clear or close the partition, starting from any reachable client, the sample ids that the
  task's claims return are pairwise distinct, none of them was claimed by the task before, and the
  consumption cursor grows by exactly those ids.\<close>

theorem claims_exactly_once:
  assumes "dp_reachable tag_int c" and "list_all (keeps_partition p) ops"
    and "run_calls (claim_call tag_int p t) ops c = (c', claims)"
  shows "distinct (concat claims) \<and> set (concat claims) \<inter> task_seen p t c = {}
    \<and> task_seen p t c' = task_seen p t c \<union> set (concat claims)"
  using once.calls_once [OF reachable_inv [OF assms(1)] assms(2,3)] by blast

definition demo_register :: "(nat, nat) dp_op" where
  "demo_register = Register ''train'' [''x''] 2 [''trainer''] None None"

definition demo_client :: "(nat, nat) client" where
  "demo_client = fst (dp_step (\<lambda>n. n) demo_register dp_init)"

definition demo_calls :: "(nat, nat) dp_op list" where
  "demo_calls = [Put [''a'', ''b''] ''train'' (Some [(''x'', Tensor [10, 20])]) None,
     Claim ''train'' ''trainer'' [''x''] 1, Claim ''train'' ''trainer'' [''x''] 5]"

lemma demo_reachable: "dp_reachable (\<lambda>n. n) demo_client"
  unfolding demo_client_def by (rule reach_step [OF reach_init]) (rule prod.collapse [symmetric])

lemma demo_claims: "snd (run_calls (claim_call (\<lambda>n. n) ''train'' ''trainer'') demo_calls demo_client)
    = [[], [''a''], [''b'']]"
  by (simp add: demo_calls_def demo_client_def demo_register_def dp_init_def claim_call_def
      register_partition_def put_samples_def claim_meta_def Let_def reject_non_tensor_leaves_def
      claimed_by_def get_default_def kv_meta_init_def meta_aligned_def)

theorem claims_exactly_once_witness:
  "distinct (concat [[], [''a''], [''b'']])
    \<and> task_seen ''train'' ''trainer'' (fst (run_calls (claim_call (\<lambda>n. n) ''train'' ''trainer'') demo_calls demo_client))
      = task_seen ''train'' ''trainer'' demo_client \<union> {''a'', ''b''}"
proof -
  let ?run = "run_calls (claim_call (\<lambda>n. n) ''train'' ''trainer'') demo_calls demo_client"
  have run: "?run = (fst ?run, [[], [''a''], [''b'']])" using demo_claims by (metis prod.collapse)
  have "list_all (keeps_partition ''train'') demo_calls" by (simp add: demo_calls_def)
  from claims_exactly_once [OF demo_reachable this run] show ?thesis by auto
qed

text \<open>What one claim returns. For a registered task of a reachable client and a positive batch size, the
  claim succeeds with at most that many ids, each an unclaimed row whose required fields are all
  produced; and when it returns fewer, it has claimed every such row.\<close>
lemma claim_ready_samples:
  assumes "dp_reachable tag_int c" and "dc_partitions c p = Some rec" and "pt_consumed rec t = Some used"
    and "0 < batch_size"
  shows "\<exists>c' m. claim_meta tag_int c p t required batch_size = (c', Inr m)
    \<and> int (km_size m) \<le> batch_size
    \<and> (let ready = {k. k \<notin> used \<and> (\<exists>row. (k, row) \<in> set (pt_rows rec) \<and> (\<forall>f\<in>set required. f \<in> fst ` set row))}
       in set (km_sample_ids m) \<subseteq> ready \<and> (int (km_size m) < batch_size \<longrightarrow> set (km_sample_ids m) = ready))"
proof -
  let ?r = "claim_scan batch_size used required (pt_rows rec) []"
  have "part_inv rec" using reachable_inv [OF assms(1)] assms(2) by (simp add: client_inv_def)
  then obtain new where new: "?r = [] @ new" "set new \<subseteq> fst ` set (pt_rows rec) - used"
    "\<forall>k\<in>set new. \<exists>row. (k, row) \<in> set (pt_rows rec) \<and> (\<forall>f\<in>set required. f \<in> fst ` set row)"
    using claim_scan_spec [of "[]" "pt_rows rec" used batch_size required] by (auto simp: part_inv_def)
  let ?ready = "{k. k \<notin> used \<and> (\<exists>row. (k, row) \<in> set (pt_rows rec) \<and> (\<forall>f\<in>set required. f \<in> fst ` set row))}"
  have sub: "set ?r \<subseteq> ?ready" using new by auto
  have all: "?ready \<subseteq> set ?r" if "int (length ?r) < batch_size"
    using claim_scan_complete [OF that] by (auto simp: list_all_iff)
  have bound: "int (length ?r) \<le> batch_size" using claim_scan_bound [of "[]"] assms(4) by simp
  obtain c' m where m: "claim_meta tag_int c p t required batch_size = (c', Inr m)" "km_sample_ids m = ?r"
    using assms(2,3) by (auto simp: claim_meta_def Let_def kv_meta_init_def meta_aligned_def)
  then show ?thesis using sub all bound by (auto simp: km_size_def Let_def)
qed

lemma claim_ready_samples_witness:
  "\<exists>c' m. claim_meta (\<lambda>n. n) demo_client ''train'' ''trainer'' [''x''] 3 = (c', Inr m) \<and> int (km_size m) \<le> 3"
proof -
  obtain rec where "dc_partitions demo_client ''train'' = Some rec" "pt_consumed rec ''trainer'' = Some {}"
    by (simp add: demo_client_def demo_register_def register_partition_def)
  from claim_ready_samples [OF demo_reachable this, of 3 "[''x'']"] show ?thesis by auto
qed

text \<open>Put, then get. When distinct sample ids are written to a registered partition with tensor columns
  that have a row for each id (and tags, if any, aligned with them), the write succeeds, reading any
  written column for the ids returns exactly the values written, in order, and every other sample of
  the partition keeps its row.\<close>

lemma put_get_roundtrip:
  assumes "dc_partitions c p = Some rec" and "distinct sids" and "sids \<noteq> []"
    and "distinct (map fst columns)"
    and "\<forall>(f, v)\<in>set columns. \<exists>vs. v = Tensor vs \<and> length vs = length sids"
    and "(f, Tensor vs) \<in> set columns"
    and "tags = None \<or> length (the tags) = length sids"
  shows "\<exists>c' m rec'. put_samples c sids p (Some columns) tags = (c', Inr m)
    \<and> get_samples c' sids p [f] = Inr [(f, vs)]
    \<and> dc_partitions c' p = Some rec' \<and> (\<forall>k. k \<notin> set sids \<longrightarrow> map_of (pt_rows rec') k = map_of (pt_rows rec) k)"
proof -
  have ok: "\<forall>(f, v)\<in>set columns. \<exists>vs. v = Tensor vs \<and> 0 + length sids \<le> length vs" using assms(5) by fastforce
  obtain rows' where r: "put_rows 0 columns sids (pt_rows rec) = (rows', None)"
    "\<forall>k. k \<notin> set sids \<longrightarrow> map_of rows' k = map_of (pt_rows rec) k"
    "\<forall>j<length sids. \<exists>row'. map_of rows' (sids ! j) = Some row'
        \<and> (\<forall>f. map_of row' f = (case map_of columns f of Some (Tensor vs) \<Rightarrow> Some (vs ! (0 + j))
             | _ \<Rightarrow> map_of (get_default (pt_rows rec) (sids ! j) []) f))"
    using put_rows_ok [OF assms(4) ok assms(2), of "pt_rows rec"] by blast
  have tensors: "\<not> reject_non_tensor_leaves columns"
    using assms(5) by (fastforce simp: reject_non_tensor_leaves_def list_ex_iff)
  have aligned: "case tags of None \<Rightarrow> True | Some ts \<Rightarrow> length ts = length sids"
    using assms(7) by (auto split: option.splits)
  let ?put = "put_samples c sids p (Some columns) tags"
  obtain c' m rec' where put: "?put = (c', Inr m)" "dc_partitions c' p = Some rec'" "pt_rows rec' = rows'"
    using assms(1) r(1) tensors aligned
    by (auto simp: put_samples_def kv_meta_init_def meta_aligned_def split: option.splits)
  have f: "map_of columns f = Some (Tensor vs)" using assms(4,6) by simp
  have len: "length vs = length sids" using assms(5,6) by fastforce
  have row: "\<exists>row'. map_of rows' (sids ! j) = Some row' \<and> map_of row' f = Some (vs ! j)" if "j < length sids" for j
    using r(3) that f by fastforce
  have "get_samples c' sids p [f] = Inr [(f, vs)]"
    using get_samples_column [OF put(2) assms(3) len] row put(3) by blast
  with put r(2) show ?thesis by blast
qed

lemma put_get_roundtrip_witness:
  "\<exists>c' m. put_samples demo_client [''a'', ''b''] ''train'' (Some [(''x'', Tensor [10, 20])]) None = (c', Inr m)
    \<and> get_samples c' [''a'', ''b''] ''train'' [''x''] = Inr [(''x'', [10, 20])]"
proof -
  obtain rec where rec: "dc_partitions demo_client ''train'' = Some rec"
    by (simp add: demo_client_def demo_register_def register_partition_def)
  show ?thesis
    using put_get_roundtrip [OF rec, of "[''a'', ''b'']" "[(''x'', Tensor [10, 20])]" "''x''" "[10, 20]" None]
    by auto
qed

text \<open>The completion signal is exact on every reachable client: \<open>check_consumption_status\<close> answers True
  exactly when each named task is a registered consumer and has claimed every sample present in the
  partition.\<close>

lemma consumption_status_exact:
  assumes "dp_reachable tag_int c" and "dc_partitions c p = Some rec"
  shows "check_consumption_status c p tasks
    = Inr (\<forall>t\<in>set tasks. pt_consumed rec t = Some (fst ` set (pt_rows rec)))"
proof -
  have inv: "part_inv rec" using reachable_inv [OF assms(1)] assms(2) by (simp add: client_inv_def)
  have card: "card (fst ` set (pt_rows rec)) = length (pt_rows rec)"
    using inv distinct_card by (fastforce simp: part_inv_def)
  have "(\<not> card used < length (pt_rows rec)) = (used = fst ` set (pt_rows rec))"
    if "pt_consumed rec t = Some used" for t used
  proof -
    have sub: "used \<subseteq> fst ` set (pt_rows rec)" using inv that by (simp add: part_inv_def)
    have "card used < card (fst ` set (pt_rows rec)) \<longleftrightarrow> used \<noteq> fst ` set (pt_rows rec)"
      using sub by (metis List.finite_set finite_imageI nless_le psubset_card_mono psubset_eq)
    then show ?thesis using card by simp
  qed
  then have "(case pt_consumed rec t of None \<Rightarrow> False | Some used \<Rightarrow> \<not> card used < length (pt_rows rec))
      = (pt_consumed rec t = Some (fst ` set (pt_rows rec)))" for t
    by (cases "pt_consumed rec t") simp_all
  then show ?thesis using assms(2) by (simp add: check_consumption_status_def list_all_iff)
qed

lemma consumption_status_exact_witness:
  "\<exists>rec :: (nat, nat) part. check_consumption_status demo_client ''train'' [''trainer'', ''eval'']
    = Inr (\<forall>t\<in>set [''trainer'', ''eval'']. pt_consumed rec t = Some (fst ` set (pt_rows rec)))"
proof -
  obtain rec where rec: "dc_partitions demo_client ''train'' = Some rec"
    by (simp add: demo_client_def demo_register_def register_partition_def)
  from consumption_status_exact [OF demo_reachable this] show ?thesis by blast
qed

section \<open>Rank assignment\<close>

lemma meta_skeleton_uniform: "uniform (length seq_lens) (meta_skeleton seq_lens)"
  by (simp add: meta_skeleton_def uniform_def bd_init_def)

lemma meta_idx_rows:
  assumes "bd_data shard = pick_data idx (bd_data (meta_skeleton seq_lens))"
    and "\<forall>i\<in>set idx. i < length seq_lens"
  shows "packable_lengths (\<lambda>x. x) shard ''meta_idx'' = Inr idx"
proof -
  have "map ((!) [0..<length seq_lens]) idx = idx" using assms(2) by (intro map_idI) simp
  then show ?thesis
    using assms(1) by (simp add: packable_lengths_def meta_skeleton_def bd_init_def pick_data_def)
qed

text \<open>Either way of sharding the skeleton selects rows; together they are all rows, once each.\<close>

lemma shard_skeleton_rows:
  assumes "0 < n" and "length seq_lens = n" and "0 < dp" and "0 < chunk" and "n mod chunk = 0" and "chunk mod dp = 0"
    and "chunk = (case bs of None \<Rightarrow> n | Some b \<Rightarrow> b)"
    and "\<forall>args. packing = Some args \<longrightarrow> pa_input_lengths_key args = ''input_lengths''"
  shows "\<exists>r idx. shard_by_batch_size (\<lambda>x. x) (meta_skeleton seq_lens) dp bs False False packing = Inr r
    \<and> map bd_data (shard_of_result r) = map (\<lambda>s. pick_data (idx s) (bd_data (meta_skeleton seq_lens))) [0..<dp]
    \<and> mset (concat (map idx [0..<dp])) = mset [0..<n] \<and> (\<forall>s<dp. length (idx s) = n div dp)"
proof -
  let ?d = "meta_skeleton seq_lens"
  have u: "uniform n ?d" using meta_skeleton_uniform assms(2) by blast
  have dp: "n mod dp = 0" using assms(5,6) by (metis dvd_trans mod_eq_0_iff_dvd)
  have size: "n div chunk * (chunk div dp) = n div dp"
    using assms(5,6) by (metis div_mult_div_if_dvd dvd_div_mult_self mod_eq_0_iff_dvd mult.commute
        div_mult_mult2 assms(4) less_not_refl2)
  show ?thesis
  proof (cases packing)
    case None
    let ?idx = "shard_indices chunk (n div chunk) (chunk div dp)"
    have "chunk = dp * (chunk div dp)" and n: "n = n div chunk * chunk" using assms(5,6) by auto
    from shard_indices_partition [OF this(1), of "n div chunk"]
    have perm: "mset (concat (map ?idx [0..<dp])) = mset [0..<n]" by (simp flip: n)
    show ?thesis
      using shard_plain_even [OF u assms(4,5,3,6,7)] perm None
      by (intro exI [of _ "Plain (map (\<lambda>s. bd_init (pick_data (?idx s) (bd_data ?d))) [0..<dp])"] exI [of _ ?idx])
        (simp add: shard_by_batch_size_def shard_of_result_def length_shard_indices size comp_def bd_init_def)
  next
    case (Some args)
    then have key: "pa_input_lengths_key args = ''input_lengths''" using assms(8) by simp
    have len: "packable_lengths (\<lambda>x. x) ?d (pa_input_lengths_key args) = Inr seq_lens"
      by (simp add: key packable_lengths_def meta_skeleton_def bd_init_def)
    let ?order = "length_order seq_lens"
    let ?ix = "shard_indices n (n div n) (n div dp)"
    let ?idx = "\<lambda>s. map ((!) ?order) (?ix s)"
    have p: "mset ?order = mset [0..<n]" by (simp add: length_order_def assms(2))
    have "concat (map ?idx [0..<dp]) = map ((!) ?order) (concat (map ?ix [0..<dp]))" by (simp add: map_concat comp_def)
    also have "\<dots> = ?order"
      using shard_indices_single [OF assms(1) dp] mset_upt_distinct [OF p] by (metis map_nth)
    finally have perm: "mset (concat (map ?idx [0..<dp])) = mset [0..<n]" using p by simp
    show ?thesis
      using shard_packed_rows [OF u assms(1,3) dp len] perm Some assms(1)
      by (intro exI [of _ "Packed (map (\<lambda>s. (bd_init (pick_data (?idx s) (bd_data ?d)))\<lparr>bd_packing_args := Some args\<rparr>)
            [0..<dp]) (invert_perm n ?order)"] exI [of _ ?idx])
        (simp add: shard_by_batch_size_def shard_of_result_def length_shard_indices comp_def bd_init_def)
  qed
qed

text \<open>C27: Assigning a batch to ranks from metadata only. When the batch has a length per sample and the
  sizes divide, with or without sequence packing, every rank gets n/dp samples with their own lengths,
  the ranks' rows are together every row of the batch once, and reading the rank-ordered ids through the
  returned index list (or as they are, when none is returned) gives back the batch order.\<close>

theorem shard_meta_for_dp_restores:
  assumes "km_sequence_lengths m = Some seq_lens" and "length seq_lens = km_size m" and "0 < km_size m"
    and "0 < dp" and "0 < chunk" and "km_size m mod chunk = 0" and "chunk mod dp = 0"
    and "chunk = (case bs of None \<Rightarrow> km_size m | Some b \<Rightarrow> b)"
    and "\<forall>args. packing = Some args \<longrightarrow> pa_input_lengths_key args = ''input_lengths''"
  shows "\<exists>ranks unsorted idx. shard_meta_for_dp m dp bs packing False = Inr (ranks, unsorted)
    \<and> length idx = dp \<and> (\<forall>i\<in>set idx. length i = km_size m div dp) \<and> mset (concat idx) = mset [0..<km_size m]
    \<and> map km_sample_ids ranks = map (map ((!) (km_sample_ids m))) idx
    \<and> map km_sequence_lengths ranks = map (\<lambda>i. Some (map ((!) seq_lens) i)) idx
    \<and> (case unsorted of None \<Rightarrow> concat (map km_sample_ids ranks) = km_sample_ids m
        | Some order \<Rightarrow> map ((!) (concat (map km_sample_ids ranks))) order = km_sample_ids m)"
proof -
  let ?n = "km_size m" and ?ids = "km_sample_ids m"
  obtain r ix where sh: "shard_by_batch_size (\<lambda>x. x) (meta_skeleton seq_lens) dp bs False False packing = Inr r"
    and data: "map bd_data (shard_of_result r) = map (\<lambda>s. pick_data (ix s) (bd_data (meta_skeleton seq_lens))) [0..<dp]"
    and perm: "mset (concat (map ix [0..<dp])) = mset [0..<?n]" and len: "\<forall>s<dp. length (ix s) = ?n div dp"
    using shard_skeleton_rows [OF assms(3,2,4-9)] by blast
  let ?idx = "map ix [0..<dp]"
  let ?m = "\<lambda>i. m\<lparr>km_sample_ids := map ((!) ?ids) i, km_sequence_lengths := Some (map ((!) seq_lens) i), km_tags := None\<rparr>"
  note p = mset_upt_distinct [OF perm]
  have lens: "length (shard_of_result r) = dp" using data by (metis length_map length_upt minus_nat.diff_0)
  have "packable_lengths (\<lambda>x. x) (shard_of_result r ! s) ''meta_idx'' = Inr (ix s)" if "s < dp" for s
  proof (rule meta_idx_rows)
    show "bd_data (shard_of_result r ! s) = pick_data (ix s) (bd_data (meta_skeleton seq_lens))"
      using arg_cong [OF data, of "\<lambda>xs. xs ! s"] that lens by simp
    have "set (ix s) \<subseteq> set (concat ?idx)" using that by auto
    also have "set (concat ?idx) = {..<length seq_lens}" using p assms(2) by metis
    finally show "\<forall>i\<in>set (ix s). i < length seq_lens" by blast
  qed
  then have rows: "map_res (\<lambda>shard. packable_lengths (\<lambda>x. x) shard ''meta_idx'') (shard_of_result r) = Inr ?idx"
    by (rule map_res_nth [OF lens])
  have metas: "map_res (rank_meta m seq_lens) ?idx = Inr (map ?m ?idx)"
    by (rule map_res_Inr) (simp add: rank_meta_def kv_meta_init_def meta_aligned_def)
  let ?unsorted = "if concat ?idx \<noteq> [0..<?n] then Some (invert_perm ?n (concat ?idx)) else None"
  have res: "shard_meta_for_dp m dp bs packing False = Inr (map ?m ?idx, ?unsorted)"
    using assms(1-3) rows metas by (simp add: shard_meta_for_dp_def km_size_def sh Let_def)
  have cat: "concat (map km_sample_ids (map ?m ?idx)) = map ((!) ?ids) (concat ?idx)"
    by (simp add: map_concat comp_def)
  have "case ?unsorted of None \<Rightarrow> concat (map km_sample_ids (map ?m ?idx)) = ?ids
      | Some order \<Rightarrow> map ((!) (concat (map km_sample_ids (map ?m ?idx)))) order = ?ids"
  proof (cases "concat ?idx = [0..<?n]")
    case True
    then show ?thesis unfolding cat by (simp add: km_size_def map_nth)
  next
    case False
    have "map ((!) (map ((!) ?ids) (concat ?idx))) (invert_perm (length ?ids) (concat ?idx)) = ?ids"
      by (rule invert_perm_restores) (use perm in \<open>simp add: km_size_def\<close>)
    then show ?thesis unfolding cat using False by (simp add: km_size_def)
  qed
  with res len perm show ?thesis
    by (intro exI [of _ "map ?m ?idx"] exI [of _ ?unsorted] exI [of _ ?idx]) simp
qed

definition demo_meta :: "nat kv_meta" where
  "demo_meta = \<lparr>km_partition_id = ''train'', km_task_name = None, km_sample_ids = [''a'', ''b'', ''c'', ''d''],
     km_fields = None, km_sequence_lengths = Some [4, 1, 4, 1], km_extra_info = [], km_tags = None\<rparr>"

theorem shard_meta_for_dp_restores_witness:
  "\<exists>ranks unsorted idx. shard_meta_for_dp demo_meta 2 None (Some \<lparr>pa_max_tokens_per_microbatch = 4,
        pa_input_lengths_key = ''input_lengths'', pa_algorithm = None\<rparr>) False = Inr (ranks, unsorted)
    \<and> length idx = 2 \<and> (\<forall>i\<in>set idx. length i = km_size demo_meta div 2) \<and> mset (concat idx) = mset [0..<km_size demo_meta]
    \<and> map km_sample_ids ranks = map (map ((!) (km_sample_ids demo_meta))) idx
    \<and> map km_sequence_lengths ranks = map (\<lambda>i. Some (map ((!) [4, 1, 4, 1]) i)) idx
    \<and> (case unsorted of None \<Rightarrow> concat (map km_sample_ids ranks) = km_sample_ids demo_meta
        | Some order \<Rightarrow> map ((!) (concat (map km_sample_ids ranks))) order = km_sample_ids demo_meta)"
  by (rule shard_meta_for_dp_restores [where chunk = 4]) (simp_all add: demo_meta_def km_size_def)

end
