(* ===== verification/Trajectory_Collector.thy ===== *)
theory Trajectory_Collector
  imports Replay_Buffer "HOL-Library.Sublist"
begin

text \<open>
  The background rollout producer of asynchronous GRPO,
  \<^verbatim>\<open>algorithms/async_utils/trajectory_collector.py\<close> (class
  \<open>AsyncTrajectoryCollectorImpl\<close>), running against the replay buffer of
  \<open>Replay_Buffer\<close> and a trainer that calls its control methods.

  The collector is a coroutine on an actor event loop: between two awaits it runs alone, and at
  an await any control method may run. Its program counter is a \<open>phase\<close>, one phase per await
  of \<open>start_collection\<close>; an event is either the await of the current phase completing, a
  control method, or the trainer sampling the buffer. \<open>sys_step\<close> is the code from one await to
  the next, and \<open>None\<close> when the event cannot happen in the phase. The rollout engine and the
  teachers are outside: the groups they return and the exceptions they raise are in the events.
  A trajectory group is a value of the replay buffer's type; writing its tensors to the data
  plane is not modelled here.
\<close>

section \<open>State\<close>

record collector =
  num_prompts_per_step :: int
  max_trajectory_age_steps :: int
  max_generation_failures :: int
  has_distillation_teachers :: bool
  weight_version :: int
  next_target :: int
  groups_for_target :: int
  paused :: bool
  refit_requested :: bool
  stopped :: bool
  consecutive_failures :: int
  total_failures :: int
  failures_by_stage :: "int dict"
  failures_by_type :: "int dict"
  last_error :: "(string \<times> string \<times> string) option"
  enqueued_dataloader_state :: "nat option"

definition collector_init :: "int \<Rightarrow> int \<Rightarrow> int \<Rightarrow> bool \<Rightarrow> int \<Rightarrow> collector" where
  "collector_init prompts_per_step age failures teachers start_step =
     \<lparr>num_prompts_per_step = prompts_per_step, max_trajectory_age_steps = age,
      max_generation_failures = failures, has_distillation_teachers = teachers,
      weight_version = start_step, next_target = start_step, groups_for_target = 0,
      paused = False, refit_requested = False, stopped = False,
      consecutive_failures = 0, total_failures = 0, failures_by_stage = [], failures_by_type = [],
      last_error = None, enqueued_dataloader_state = None\<rparr>"

section \<open>Control surface\<close>

definition set_weight_version :: "collector \<Rightarrow> int \<Rightarrow> collector" where
  "set_weight_version c w = c\<lparr>weight_version := w\<rparr>"

definition pause :: "collector \<Rightarrow> collector" where
  "pause c = c\<lparr>paused := True\<rparr>"

definition resume :: "collector \<Rightarrow> collector" where
  "resume c = c\<lparr>paused := False\<rparr>"

text \<open>The part of \<open>prepare_for_refit\<close> before it waits for the generation lock.\<close>

definition prepare_for_refit :: "collector \<Rightarrow> collector" where
  "prepare_for_refit c = c\<lparr>refit_requested := True\<rparr>"

definition resume_after_refit :: "collector \<Rightarrow> collector" where
  "resume_after_refit c = c\<lparr>refit_requested := False\<rparr>"

definition get_dataloader_state :: "collector \<Rightarrow> nat option" where
  "get_dataloader_state c = enqueued_dataloader_state c"

definition stop :: "collector \<Rightarrow> collector" where
  "stop c = c\<lparr>stopped := True\<rparr>"

section \<open>Failure accounting\<close>

definition bump :: "string \<Rightarrow> int dict \<Rightarrow> int dict" where
  "bump k d = dict_set k ((case map_of d k of None \<Rightarrow> 0 | Some n \<Rightarrow> n) + 1) d"

definition record_failure :: "collector \<Rightarrow> string \<Rightarrow> string \<Rightarrow> string \<Rightarrow> collector" where
  "record_failure c stage type_name msg =
     c\<lparr>consecutive_failures := consecutive_failures c + 1,
       total_failures := total_failures c + 1,
       failures_by_stage := bump stage (failures_by_stage c),
       failures_by_type := bump type_name (failures_by_type c),
       last_error := Some (stage, type_name, msg)\<rparr>"

definition record_success :: "collector \<Rightarrow> collector" where
  "record_success c = c\<lparr>consecutive_failures := 0\<rparr>"

definition is_healthy :: "collector \<Rightarrow> bool" where
  "is_healthy c =
     (if max_generation_failures c \<le> 0 then True
      else consecutive_failures c < max_generation_failures c)"

record health_report =
  hr_healthy :: bool
  hr_consecutive_failures :: int
  hr_total_failures :: int
  hr_max_generation_failures :: int
  hr_failures_by_stage :: "int dict"
  hr_failures_by_type :: "int dict"
  hr_last_error :: "(string \<times> string \<times> string) option"

definition check_health :: "collector \<Rightarrow> health_report" where
  "check_health c =
     \<lparr>hr_healthy = is_healthy c, hr_consecutive_failures = consecutive_failures c,
      hr_total_failures = total_failures c, hr_max_generation_failures = max_generation_failures c,
      hr_failures_by_stage = failures_by_stage c, hr_failures_by_type = failures_by_type c,
      hr_last_error = last_error c\<rparr>"

section \<open>The collection loop\<close>

text \<open>
  The awaits of \<open>start_collection\<close>: at the head of the loop (sleeping or about to pull), with a
  prompt batch pulled and the lock not yet taken, generating under the lock, scoring, waiting for
  the buffer with the remaining groups of the batch, and returned.
\<close>

datatype 'v phase =
    Loop_head
  | Pulled
  | Generating int
  | Scoring int "'v trajectory list"
  | Enqueueing int "'v trajectory list"
  | Returned

text \<open>
  The collector with what it touches: the live dataloader position (batches yielded in this epoch
  of \<open>epoch_len\<close> batches), the replay buffer, and two histories that no code reads: every group
  the enqueue loop counted, and every group the buffer accepted.
\<close>

record 'v sys =
  coll :: collector
  phase :: "'v phase"
  epoch_len :: nat
  dl_pos :: nat
  buffer :: "'v replay_buffer"
  refit_granted :: bool
  counted :: "'v entry list"
  stored :: "'v entry list"

definition ahead :: "collector \<Rightarrow> bool" where
  "ahead c \<longleftrightarrow> next_target c > weight_version c + max_trajectory_age_steps c"

definition hold_off :: "collector \<Rightarrow> bool" where
  "hold_off c \<longleftrightarrow> paused c \<or> refit_requested c \<or> ahead c"

text \<open>One turn at the head of the loop: leave, sleep, start a new epoch, or pull a batch.\<close>

definition loop_head :: "'v sys \<Rightarrow> 'v sys" where
  "loop_head s =
     (if stopped (coll s) then s\<lparr>phase := Returned\<rparr>
      else if hold_off (coll s) then s
      else if epoch_len s \<le> dl_pos s then s\<lparr>dl_pos := 0\<rparr>
      else s\<lparr>dl_pos := dl_pos s + 1, phase := Pulled\<rparr>)"

text \<open>The lock is taken: the flags are read again before the rollout starts.\<close>

definition lock_taken :: "'v sys \<Rightarrow> 'v sys" where
  "lock_taken s =
     (if stopped (coll s) \<or> paused (coll s) \<or> refit_requested (coll s)
      then s\<lparr>phase := Loop_head\<rparr>
      else s\<lparr>phase := Generating (weight_version (coll s))\<rparr>)"

text \<open>The \<open>except\<close> branches of generation and scoring.\<close>

definition stage_failed :: "'v sys \<Rightarrow> string \<Rightarrow> string \<Rightarrow> string \<Rightarrow> 'v sys" where
  "stage_failed s stage type_name msg =
     (let c = record_failure (coll s) stage type_name msg
      in if is_healthy c then s\<lparr>coll := c, phase := Loop_head\<rparr>
         else s\<lparr>coll := c\<lparr>stopped := True\<rparr>, phase := Returned\<rparr>)"

text \<open>After \<open>_enqueue_groups\<close> returns: the streak ends and the checkpoint cursor moves.\<close>

definition batch_done :: "'v sys \<Rightarrow> 'v sys" where
  "batch_done s =
     s\<lparr>coll := (record_success (coll s))\<lparr>enqueued_dataloader_state := Some (dl_pos s)\<rparr>,
       phase := Loop_head\<rparr>"

definition start_enqueue :: "'v sys \<Rightarrow> int \<Rightarrow> 'v trajectory list \<Rightarrow> 'v sys" where
  "start_enqueue s gen_version groups =
     (if groups = [] then batch_done s else s\<lparr>phase := Enqueueing gen_version groups\<rparr>)"

definition generated :: "'v sys \<Rightarrow> int \<Rightarrow> 'v trajectory list \<Rightarrow> 'v sys" where
  "generated s gen_version groups =
     (if has_distillation_teachers (coll s) then s\<lparr>phase := Scoring gen_version groups\<rparr>
      else start_enqueue s gen_version groups)"

text \<open>The counting after a group left the retry loop.\<close>

definition count_group :: "collector \<Rightarrow> collector" where
  "count_group c =
     (if num_prompts_per_step c \<le> groups_for_target c + 1
      then c\<lparr>next_target := next_target c + 1, groups_for_target := 0\<rparr>
      else c\<lparr>groups_for_target := groups_for_target c + 1\<rparr>)"

text \<open>One buffer add completing: retry on a full buffer unless stopped, else count and go on.\<close>

definition add_done :: "'v sys \<Rightarrow> int \<Rightarrow> 'v trajectory \<Rightarrow> 'v trajectory list \<Rightarrow> 'v sys" where
  "add_done s gen_version g groups =
     (let target = next_target (coll s);
          (status, b) = rb_add (buffer s) g gen_version target;
          s1 = s\<lparr>buffer := b, stored := stored s @ (if status = Success then [(g, gen_version, target)] else [])\<rparr>
      in if status = Full \<and> \<not> stopped (coll s) then s1
         else
           let c = count_group (coll s);
               s2 = s1\<lparr>coll := c, counted := counted s @ [(g, gen_version, target)]\<rparr>
           in if refit_requested c \<or> ahead c then batch_done s2
              else start_enqueue s2 gen_version groups)"

datatype 'v event =
    Tick
  | Lock
  | Gen_ok "'v trajectory list"
  | Gen_fail string string
  | Score_ok
  | Score_fail string string
  | Add_done
  | Set_weight_version int
  | Pause
  | Resume
  | Prepare_refit
  | Refit_granted
  | Resume_after_refit
  | Stop
  | Trainer_sample int int

definition sys_step :: "'v sys \<Rightarrow> 'v event \<Rightarrow> 'v sys option" where
  "sys_step s ev =
     (case ev of
        Tick \<Rightarrow> (case phase s of Loop_head \<Rightarrow> Some (loop_head s) | _ \<Rightarrow> None)
      | Lock \<Rightarrow> (case phase s of Pulled \<Rightarrow> Some (lock_taken s) | _ \<Rightarrow> None)
      | Gen_ok groups \<Rightarrow> (case phase s of Generating v \<Rightarrow> Some (generated s v groups) | _ \<Rightarrow> None)
      | Gen_fail t msg \<Rightarrow>
          (case phase s of Generating v \<Rightarrow> Some (stage_failed s ''generation'' t msg) | _ \<Rightarrow> None)
      | Score_ok \<Rightarrow> (case phase s of Scoring v groups \<Rightarrow> Some (start_enqueue s v groups) | _ \<Rightarrow> None)
      | Score_fail t msg \<Rightarrow>
          (case phase s of Scoring v groups \<Rightarrow> Some (stage_failed s ''teacher_scoring'' t msg) | _ \<Rightarrow> None)
      | Add_done \<Rightarrow>
          (case phase s of Enqueueing v (g # groups) \<Rightarrow> Some (add_done s v g groups) | _ \<Rightarrow> None)
      | Set_weight_version w \<Rightarrow> Some (s\<lparr>coll := set_weight_version (coll s) w\<rparr>)
      | Pause \<Rightarrow> Some (s\<lparr>coll := pause (coll s)\<rparr>)
      | Resume \<Rightarrow> Some (s\<lparr>coll := resume (coll s)\<rparr>)
      | Prepare_refit \<Rightarrow> Some (s\<lparr>coll := prepare_for_refit (coll s)\<rparr>)
      | Refit_granted \<Rightarrow>
          (case phase s of
             Generating v \<Rightarrow> None
           | _ \<Rightarrow> if refit_requested (coll s) then Some (s\<lparr>refit_granted := True\<rparr>) else None)
      | Resume_after_refit \<Rightarrow>
          Some (s\<lparr>coll := resume_after_refit (coll s), refit_granted := False\<rparr>)
      | Stop \<Rightarrow> Some (s\<lparr>coll := stop (coll s)\<rparr>)
      | Trainer_sample n cur \<Rightarrow>
          (case rb_sample (buffer s) n cur (max_trajectory_age_steps (coll s)) of
             Inl e \<Rightarrow> None
           | Inr (r, b) \<Rightarrow> Some (s\<lparr>buffer := b\<rparr>)))"

fun sys_run :: "'v sys \<Rightarrow> 'v event list \<Rightarrow> 'v sys option" where
  "sys_run s [] = Some s"
| "sys_run s (ev # evs) = (case sys_step s ev of None \<Rightarrow> None | Some s' \<Rightarrow> sys_run s' evs)"

definition sys_init :: "collector \<Rightarrow> nat \<Rightarrow> 'v replay_buffer \<Rightarrow> 'v sys" where
  "sys_init c batches b =
     \<lparr>coll = c, phase = Loop_head, epoch_len = batches, dl_pos = 0, buffer = b,
      refit_granted = False, counted = [], stored = []\<rparr>"

section \<open>Reachable states\<close>

inductive sys_reach :: "('v sys \<Rightarrow> 'v event \<Rightarrow> bool) \<Rightarrow> 'v sys \<Rightarrow> 'v sys \<Rightarrow> bool" for allowed s0 where
  reach_start: "sys_reach allowed s0 s0"
| reach_next: "sys_reach allowed s0 s \<Longrightarrow> allowed s ev \<Longrightarrow> sys_step s ev = Some s' \<Longrightarrow> sys_reach allowed s0 s'"

text \<open>The trainer only moves the weight version forward.\<close>

definition forward :: "'v sys \<Rightarrow> 'v event \<Rightarrow> bool" where
  "forward s ev = (case ev of Set_weight_version w \<Rightarrow> weight_version (coll s) \<le> w | _ \<Rightarrow> True)"

text \<open>The generation version of the batch in hand, once its rollout has started.\<close>

fun in_hand :: "'v phase \<Rightarrow> int option" where
  "in_hand (Generating v) = Some v"
| "in_hand (Scoring v groups) = Some v"
| "in_hand (Enqueueing v groups) = Some v"
| "in_hand _ = None"

text \<open>A weight version is set only while no rolled-out batch is waiting to be enqueued.\<close>

definition quiet :: "'v sys \<Rightarrow> 'v event \<Rightarrow> bool" where
  "quiet s ev \<longleftrightarrow> forward s ev \<and>
     (case ev of Set_weight_version w \<Rightarrow> in_hand (phase s) = None | _ \<Rightarrow> True)"

lemma reach_mono:
  assumes "sys_reach A s0 s" and "\<And>s ev. A s ev \<Longrightarrow> B s ev"
  shows "sys_reach B s0 s"
  using assms(1) by induction (auto intro: sys_reach.intros assms(2))

lemma reach_invariant:
  assumes "sys_reach A s0 s" and "I s0"
    and "\<And>s ev s'. A s ev \<Longrightarrow> sys_step s ev = Some s' \<Longrightarrow> I s \<Longrightarrow> I s'"
  shows "I s"
  using assms(1) by induction (use assms(2,3) in blast)+

lemma sys_run_reach:
  assumes "sys_run s evs = Some s'" and "sys_reach A s0 s" and "list_all (\<lambda>ev. \<forall>s. A s ev) evs"
  shows "sys_reach A s0 s'"
  using assms
proof (induction evs arbitrary: s)
  case (Cons ev evs)
  then obtain s1 where 1: "sys_step s ev = Some s1" "sys_run s1 evs = Some s'"
    by (auto split: option.splits)
  have "sys_reach A s0 s1" using Cons.prems(2,3) 1(1) by (auto intro: reach_next)
  with Cons.IH 1(2) Cons.prems(3) show ?case by simp
qed simp

named_theorems coll_ops "the collector's state updates"

lemmas [coll_ops] = set_weight_version_def pause_def resume_def prepare_for_refit_def
  resume_after_refit_def stop_def record_failure_def record_success_def count_group_def

text \<open>What each kind of step does to the configuration and to the counting.\<close>

definition same_config :: "'v sys \<Rightarrow> 'v sys \<Rightarrow> bool" where
  "same_config s s' \<longleftrightarrow>
     num_prompts_per_step (coll s') = num_prompts_per_step (coll s) \<and>
     max_trajectory_age_steps (coll s') = max_trajectory_age_steps (coll s) \<and>
     max_generation_failures (coll s') = max_generation_failures (coll s)"

definition same_counts :: "'v sys \<Rightarrow> 'v sys \<Rightarrow> bool" where
  "same_counts s s' \<longleftrightarrow>
     next_target (coll s') = next_target (coll s) \<and>
     groups_for_target (coll s') = groups_for_target (coll s) \<and>
     counted s' = counted s \<and> stored s' = stored s"

lemma batch_done_frame [simp]:
  "next_target (coll (batch_done s)) = next_target (coll s)"
  "groups_for_target (coll (batch_done s)) = groups_for_target (coll s)"
  "weight_version (coll (batch_done s)) = weight_version (coll s)"
  "stopped (coll (batch_done s)) = stopped (coll s)"
  "counted (batch_done s) = counted s" "stored (batch_done s) = stored s"
  "buffer (batch_done s) = buffer s" "phase (batch_done s) = Loop_head"
  "num_prompts_per_step (coll (batch_done s)) = num_prompts_per_step (coll s)"
  "max_trajectory_age_steps (coll (batch_done s)) = max_trajectory_age_steps (coll s)"
  "max_generation_failures (coll (batch_done s)) = max_generation_failures (coll s)"
  "refit_granted (batch_done s) = refit_granted s"
  "refit_requested (coll (batch_done s)) = refit_requested (coll s)"
  by (simp_all add: batch_done_def record_success_def)

lemma start_enqueue_frame [simp]:
  "next_target (coll (start_enqueue s v gs)) = next_target (coll s)"
  "groups_for_target (coll (start_enqueue s v gs)) = groups_for_target (coll s)"
  "weight_version (coll (start_enqueue s v gs)) = weight_version (coll s)"
  "stopped (coll (start_enqueue s v gs)) = stopped (coll s)"
  "counted (start_enqueue s v gs) = counted s" "stored (start_enqueue s v gs) = stored s"
  "buffer (start_enqueue s v gs) = buffer s"
  "phase (start_enqueue s v gs) = (if gs = [] then Loop_head else Enqueueing v gs)"
  "num_prompts_per_step (coll (start_enqueue s v gs)) = num_prompts_per_step (coll s)"
  "max_trajectory_age_steps (coll (start_enqueue s v gs)) = max_trajectory_age_steps (coll s)"
  "max_generation_failures (coll (start_enqueue s v gs)) = max_generation_failures (coll s)"
  "refit_granted (start_enqueue s v gs) = refit_granted s"
  "refit_requested (coll (start_enqueue s v gs)) = refit_requested (coll s)"
  by (simp_all add: start_enqueue_def)

lemma count_group_frame [simp]:
  "weight_version (count_group c) = weight_version c" "stopped (count_group c) = stopped c"
  "num_prompts_per_step (count_group c) = num_prompts_per_step c"
  "max_trajectory_age_steps (count_group c) = max_trajectory_age_steps c"
  "max_generation_failures (count_group c) = max_generation_failures c"
  "refit_requested (count_group c) = refit_requested c"
  by (simp_all add: count_group_def)

lemma sys_step_config: "sys_step s ev = Some s' \<Longrightarrow> same_config s s'"
  unfolding sys_step_def same_config_def
  by (cases ev)
    (auto simp: loop_head_def lock_taken_def generated_def stage_failed_def add_done_def Let_def coll_ops
      split: phase.splits if_splits list.splits sum.splits prod.splits)

text \<open>Only a completed add changes the counting, and it appends at most one group.\<close>

lemma sys_step_other_counts: "sys_step s ev = Some s' \<Longrightarrow> ev \<noteq> Add_done \<Longrightarrow> same_counts s s'"
  unfolding sys_step_def same_counts_def
  by (cases ev)
    (auto simp: loop_head_def lock_taken_def generated_def stage_failed_def Let_def coll_ops
      split: phase.splits if_splits list.splits sum.splits prod.splits)

lemma add_done_counts:
  "same_counts s (add_done s v g gs)
     \<or> (counted (add_done s v g gs) = counted s @ [(g, v, next_target (coll s))]
        \<and> stored (add_done s v g gs) \<in> {stored s @ [(g, v, next_target (coll s))], stored s}
        \<and> (stored (add_done s v g gs) = stored s \<longrightarrow> stopped (coll s))
        \<and> next_target (coll (add_done s v g gs)) = next_target (count_group (coll s))
        \<and> groups_for_target (coll (add_done s v g gs)) = groups_for_target (count_group (coll s)))"
  by (auto simp: add_done_def Let_def same_counts_def split: prod.splits)
    (auto simp: rb_add_def split: if_splits)

lemma add_done_stopped [simp]: "stopped (coll (add_done s v g gs)) = stopped (coll s)"
  by (auto simp: add_done_def Let_def split: prod.splits)

lemma sys_step_stopped: "sys_step s ev = Some s' \<Longrightarrow> stopped (coll s) \<Longrightarrow> stopped (coll s')"
  unfolding sys_step_def
  by (cases ev)
    (auto simp: loop_head_def lock_taken_def generated_def stage_failed_def Let_def coll_ops
      split: phase.splits if_splits list.splits sum.splits prod.splits)

section \<open>The counting invariant\<close>

text \<open>The targets of the groups counted so far: \<open>n\<close> for each step before the next target, then
  the ones already counted for it.\<close>

definition target_plan :: "int \<Rightarrow> int \<Rightarrow> int \<Rightarrow> int \<Rightarrow> int list" where
  "target_plan n start next_t k = concat (map (replicate (nat n)) [start..next_t - 1]) @ replicate (nat k) next_t"

lemma target_plan_count:
  assumes "start \<le> t" and "0 \<le> k" and "k < n"
  shows "target_plan n start t k @ [t] =
    (if n \<le> k + 1 then target_plan n start (t + 1) 0 else target_plan n start t (k + 1))"
proof -
  have snoc: "replicate (nat k) t @ [t] = replicate (nat (k + 1)) t"
    using assms(2) by (metis Suc_as_int Suc_nat_eq_nat_zadd1 add.commute replicate_Suc replicate_append_same)
  show ?thesis
  proof (cases "n \<le> k + 1")
    case True
    then have "n = k + 1" using assms(3) by simp
    moreover have "[start..t] = [start..t - 1] @ [t]"
      using assms(1) by (metis upto_rec2)
    ultimately show ?thesis using snoc by (simp add: target_plan_def)
  qed (use snoc in \<open>simp add: target_plan_def\<close>)
qed

definition count_inv :: "int \<Rightarrow> 'v sys \<Rightarrow> bool" where
  "count_inv start s \<longleftrightarrow>
     start \<le> next_target (coll s) \<and> 0 \<le> groups_for_target (coll s)
     \<and> groups_for_target (coll s) < num_prompts_per_step (coll s)
     \<and> map e_target (counted s)
        = target_plan (num_prompts_per_step (coll s)) start (next_target (coll s)) (groups_for_target (coll s))
     \<and> subseq (stored s) (counted s) \<and> (stopped (coll s) \<or> stored s = counted s)"

lemma count_inv_same:
  assumes "count_inv start s" and "same_counts s s'" and "same_config s s'"
    and "stopped (coll s) \<longrightarrow> stopped (coll s')"
  shows "count_inv start s'"
  using assms by (auto simp: count_inv_def same_counts_def same_config_def)

lemma count_inv_add: "count_inv start s \<Longrightarrow> count_inv start (add_done s v g gs)"
proof -
  assume inv: "count_inv start s"
  let ?s = "add_done s v g gs" and ?c = "coll s"
  have cfg: "num_prompts_per_step (coll ?s) = num_prompts_per_step ?c"
    by (auto simp: add_done_def Let_def split: prod.splits)
  have plan: "target_plan (num_prompts_per_step ?c) start (next_target ?c) (groups_for_target ?c) @ [next_target ?c]
      = target_plan (num_prompts_per_step ?c) start (next_target (count_group ?c)) (groups_for_target (count_group ?c))"
    using inv by (subst target_plan_count) (auto simp: count_inv_def count_group_def)
  from add_done_counts [of s v g gs] show ?thesis
  proof
    assume "same_counts s ?s"
    then show ?thesis using inv cfg by (simp add: count_inv_def same_counts_def)
  next
    assume "counted ?s = counted s @ [(g, v, next_target ?c)]
        \<and> stored ?s \<in> {stored s @ [(g, v, next_target ?c)], stored s}
        \<and> (stored ?s = stored s \<longrightarrow> stopped ?c)
        \<and> next_target (coll ?s) = next_target (count_group ?c)
        \<and> groups_for_target (coll ?s) = groups_for_target (count_group ?c)"
    then show ?thesis
      using inv cfg plan
      by (auto simp: count_inv_def count_group_def intro: list_emb_append2 subseq_order.trans
          simp flip: plan)
  qed
qed

lemma sys_step_count_inv:
  assumes "sys_step s ev = Some s'" and "count_inv start s"
  shows "count_inv start s'"
proof (cases "ev = Add_done")
  case True
  then obtain v g gs where "s' = add_done s v g gs"
    using assms(1) by (auto simp: sys_step_def split: phase.splits list.splits)
  then show ?thesis using count_inv_add [OF assms(2)] by simp
next
  case False
  show ?thesis
    using count_inv_same [OF assms(2) sys_step_other_counts [OF assms(1) False] sys_step_config [OF assms(1)]]
      sys_step_stopped [OF assms(1)] by blast
qed

section \<open>The version invariant\<close>

fun batch_in_flight :: "'v phase \<Rightarrow> bool" where
  "batch_in_flight Loop_head = False"
| "batch_in_flight Returned = False"
| "batch_in_flight _ = True"

definition version_inv :: "'v sys \<Rightarrow> bool" where
  "version_inv s \<longleftrightarrow>
     next_target (coll s) \<le> weight_version (coll s) + max_trajectory_age_steps (coll s) + 1
     \<and> (batch_in_flight (phase s) \<longrightarrow> \<not> ahead (coll s))
     \<and> (\<forall>v. in_hand (phase s) = Some v \<longrightarrow> v \<le> weight_version (coll s))
     \<and> (\<forall>e\<in>set (counted s). e_version e \<le> weight_version (coll s)
          \<and> e_target e \<le> weight_version (coll s) + max_trajectory_age_steps (coll s))"

lemma add_done_versions:
  assumes "version_inv s" and "phase s = Enqueueing v (g # gs)"
  shows "version_inv (add_done s v g gs)"
proof -
  have "\<not> ahead (coll s)" "v \<le> weight_version (coll s)" using assms by (auto simp: version_inv_def)
  then show ?thesis
    using assms
    by (auto simp: add_done_def Let_def version_inv_def ahead_def split: prod.splits)
      (auto simp: count_group_def ahead_def split: if_splits)
qed

lemma sys_step_version_inv:
  assumes "sys_step s ev = Some s'" and "forward s ev" and "version_inv s"
  shows "version_inv s'"
proof (cases "ev = Add_done")
  case True
  then obtain v g gs where "s' = add_done s v g gs" "phase s = Enqueueing v (g # gs)"
    using assms(1) by (auto simp: sys_step_def split: phase.splits list.splits)
  then show ?thesis using add_done_versions [OF assms(3)] by simp
next
  case False
  have "counted s' = counted s" using sys_step_other_counts [OF assms(1) False] by (simp add: same_counts_def)
  then show ?thesis
    using assms False
    unfolding sys_step_def version_inv_def forward_def
    by (cases ev)
      (auto simp: loop_head_def hold_off_def lock_taken_def generated_def stage_failed_def Let_def coll_ops ahead_def
        split: phase.splits if_splits list.splits sum.splits prod.splits)
qed

text \<open>Without a version change under a batch in hand, groups are tagged at their own version.\<close>

definition fresh_inv :: "'v sys \<Rightarrow> bool" where
  "fresh_inv s \<longleftrightarrow>
     (\<forall>v. in_hand (phase s) = Some v \<longrightarrow> v = weight_version (coll s))
     \<and> (\<forall>e\<in>set (counted s). e_target e - e_version e \<le> max_trajectory_age_steps (coll s))"

lemma sys_step_fresh_inv:
  assumes "sys_step s ev = Some s'" and "quiet s ev" and "version_inv s" and "fresh_inv s"
  shows "fresh_inv s'"
proof (cases "ev = Add_done")
  case True
  then obtain v g gs where s': "s' = add_done s v g gs" "phase s = Enqueueing v (g # gs)"
    using assms(1) by (auto simp: sys_step_def split: phase.splits list.splits)
  have "\<not> ahead (coll s)" "v = weight_version (coll s)"
    using assms(3,4) s'(2) by (auto simp: version_inv_def fresh_inv_def)
  then show ?thesis
    using assms(4) s' unfolding s'
    by (auto simp: add_done_def Let_def fresh_inv_def ahead_def split: prod.splits if_splits)
next
  case False
  have "counted s' = counted s" using sys_step_other_counts [OF assms(1) False] by (simp add: same_counts_def)
  then show ?thesis
    using assms(1,2,4) False
    unfolding sys_step_def fresh_inv_def quiet_def
    by (cases ev)
      (auto simp: loop_head_def hold_off_def lock_taken_def generated_def stage_failed_def Let_def coll_ops
        split: phase.splits if_splits list.splits sum.splits prod.splits)
qed

section \<open>Refit exclusion and failure accounting\<close>

definition refit_inv :: "'v sys \<Rightarrow> bool" where
  "refit_inv s \<longleftrightarrow> (refit_granted s \<longrightarrow> refit_requested (coll s) \<and> (\<forall>v. phase s \<noteq> Generating v))"

lemma add_done_refit: "refit_inv s \<Longrightarrow> phase s = Enqueueing v (g # gs) \<Longrightarrow> refit_inv (add_done s v g gs)"
  by (auto simp: add_done_def Let_def refit_inv_def split: prod.splits)

lemma sys_step_refit_inv: "sys_step s ev = Some s' \<Longrightarrow> refit_inv s \<Longrightarrow> refit_inv s'"
proof -
  assume st: "sys_step s ev = Some s'" and inv: "refit_inv s"
  show ?thesis
  proof (cases "ev = Add_done")
    case True
    then show ?thesis using st inv add_done_refit by (auto simp: sys_step_def split: phase.splits list.splits)
  next
    case False
    then show ?thesis
      using st inv unfolding sys_step_def refit_inv_def
      by (cases ev)
        (auto simp: loop_head_def lock_taken_def generated_def stage_failed_def Let_def coll_ops
          split: phase.splits if_splits list.splits sum.splits prod.splits)
  qed
qed

definition dict_total :: "int dict \<Rightarrow> int" where
  "dict_total d = sum_list (map snd d)"

lemma dict_total_set:
  "distinct (map fst d) \<Longrightarrow> dict_total (bump k d) = dict_total d + 1 \<and> distinct (map fst (bump k d))"
proof -
  assume d: "distinct (map fst d)"
  have "sum_list (map snd (dict_set k v d)) = sum_list (map snd d) - (case map_of d k of None \<Rightarrow> 0 | Some n \<Rightarrow> n) + v" for v
    using d
  proof (induction d)
    case (Cons x d)
    obtain a b where x: "x = (a, b)" by fastforce
    show ?case
    proof (cases "a = k")
      case True
      then show ?thesis using x by simp
    next
      case False
      then show ?thesis using Cons x by simp
    qed
  qed simp
  then show ?thesis using distinct_dict_set [OF d] by (simp add: bump_def dict_total_def)
qed

definition failure_inv :: "'v sys \<Rightarrow> bool" where
  "failure_inv s \<longleftrightarrow>
     0 \<le> consecutive_failures (coll s) \<and> consecutive_failures (coll s) \<le> total_failures (coll s)
     \<and> dict_total (failures_by_stage (coll s)) = total_failures (coll s)
     \<and> dict_total (failures_by_type (coll s)) = total_failures (coll s)
     \<and> distinct (map fst (failures_by_stage (coll s))) \<and> distinct (map fst (failures_by_type (coll s)))
     \<and> (\<not> is_healthy (coll s) \<longrightarrow> stopped (coll s) \<and> phase s = Returned
          \<and> consecutive_failures (coll s) = max_generation_failures (coll s))"

text \<open>Steps outside the failure branches keep the counters, or end the streak.\<close>

lemma failure_inv_success: "failure_inv s \<Longrightarrow> phase s \<noteq> Returned \<Longrightarrow> failure_inv (batch_done s)"
  by (auto simp: failure_inv_def batch_done_def record_success_def is_healthy_def)

lemma failure_inv_cong:
  assumes "failure_inv s" and "failures_by_stage (coll s') = failures_by_stage (coll s)"
    and "failures_by_type (coll s') = failures_by_type (coll s)"
    and "total_failures (coll s') = total_failures (coll s)"
    and "consecutive_failures (coll s') = consecutive_failures (coll s)"
    and "max_generation_failures (coll s') = max_generation_failures (coll s)"
    and "is_healthy (coll s) \<or> phase s' = phase s \<and> (stopped (coll s) \<longrightarrow> stopped (coll s'))"
  shows "failure_inv s'"
  using assms by (auto simp: failure_inv_def is_healthy_def)

lemma failure_inv_failed:
  assumes "failure_inv s" and "phase s \<noteq> Returned"
  shows "failure_inv (stage_failed s stage t msg)"
proof -
  have "is_healthy (coll s)" using assms by (auto simp: failure_inv_def)
  then show ?thesis
    using assms dict_total_set [of "failures_by_stage (coll s)" stage]
      dict_total_set [of "failures_by_type (coll s)" t]
    by (auto simp: failure_inv_def stage_failed_def record_failure_def is_healthy_def Let_def split: if_splits)
qed

lemma failure_inv_enqueue:
  assumes "failure_inv s" and "phase s \<noteq> Returned"
  shows "failure_inv (start_enqueue s v gs)"
proof (cases "gs = []")
  case True
  then show ?thesis using failure_inv_success [OF assms] by (simp add: start_enqueue_def)
next
  case False
  have "is_healthy (coll s)" using assms by (auto simp: failure_inv_def)
  then show ?thesis using False assms(1) by (intro failure_inv_cong [OF assms(1)]) (simp_all add: start_enqueue_def)
qed

lemma failure_inv_add:
  assumes "failure_inv s" and "phase s \<noteq> Returned"
  shows "failure_inv (add_done s v g gs)"
proof -
  let ?b = "snd (rb_add (buffer s) g v (next_target (coll s)))"
  let ?s1 = "s\<lparr>buffer := ?b, stored := stored s @ (if fst (rb_add (buffer s) g v (next_target (coll s))) = Success
      then [(g, v, next_target (coll s))] else [])\<rparr>"
  let ?s2 = "?s1\<lparr>coll := count_group (coll s), counted := counted s @ [(g, v, next_target (coll s))]\<rparr>"
  have h: "is_healthy (coll s)" using assms by (auto simp: failure_inv_def)
  have 1: "failure_inv (s\<lparr>buffer := b\<rparr>)" for b by (rule failure_inv_cong [OF assms(1)]) (simp_all add: h)
  have 2: "failure_inv ?s2" by (rule failure_inv_cong [OF assms(1)]) (simp_all add: h count_group_def)
  have "phase ?s2 \<noteq> Returned" using assms(2) by simp
  with 1 2 show ?thesis
    using failure_inv_success [of ?s2] failure_inv_enqueue [of ?s2 v gs]
    by (simp add: add_done_def Let_def split_def)
qed

lemma sys_step_failure_inv:
  assumes "sys_step s ev = Some s'" and "failure_inv s"
  shows "failure_inv s'"
proof (cases "phase s = Returned")
  case True
  then show ?thesis
    using assms(1) unfolding sys_step_def
    by (cases ev) (auto simp: coll_ops split: sum.splits prod.splits if_splits intro!: failure_inv_cong [OF assms(2)])
next
  case False
  then have h: "is_healthy (coll s)" using assms(2) by (auto simp: failure_inv_def)
  note ops = failure_inv_failed [OF assms(2) False] failure_inv_enqueue [OF assms(2) False]
    failure_inv_add [OF assms(2) False]
  show ?thesis
    using assms(1) unfolding sys_step_def
    by (cases ev)
      (auto simp: loop_head_def lock_taken_def generated_def h ops
        split: phase.splits list.splits sum.splits prod.splits if_splits,
        (rule failure_inv_cong [OF assms(2)]; simp add: h coll_ops)+)
qed

section \<open>Properties\<close>

lemma init_invs:
  assumes "0 < n" and "0 \<le> age"
  shows "count_inv start (sys_init (collector_init n age mf te start) batches b)"
    and "version_inv (sys_init (collector_init n age mf te start) batches b)"
    and "fresh_inv (sys_init (collector_init n age mf te start) batches b)"
    and "refit_inv (sys_init (collector_init n age mf te start) batches b)"
    and "failure_inv (sys_init (collector_init n age mf te start) batches b)"
  using assms
  by (simp_all add: sys_init_def collector_init_def count_inv_def version_inv_def fresh_inv_def refit_inv_def
      failure_inv_def target_plan_def ahead_def is_healthy_def dict_total_def)

lemma reach_config: "sys_reach A s0 s \<Longrightarrow> same_config s0 s"
  by (induction rule: sys_reach.induct) (auto simp: same_config_def dest!: sys_step_config)

text \<open>C23: The schedule of target steps. Whatever the interleaving of rollouts, failures, pauses, refits, full
  buffers and trainer samples, as long as the weight version only moves forward: the groups the
  collector has counted are tagged start, start+1, ... with exactly num_prompts_per_step groups for every step before the next
  target; the accepted groups are among them, and are all of them unless the
  collector was stopped; and no group's target is more than max_trajectory_age_steps ahead of the current
  weight version.\<close>

theorem collector_target_schedule:
  assumes "0 < n" and "0 \<le> age"
    and "sys_reach forward (sys_init (collector_init n age mf te start) batches b) s"
  shows "map e_target (counted s) = target_plan n start (next_target (coll s)) (groups_for_target (coll s))
    \<and> groups_for_target (coll s) < n
    \<and> subseq (stored s) (counted s) \<and> (stopped (coll s) \<or> stored s = counted s)
    \<and> next_target (coll s) \<le> weight_version (coll s) + age + 1
    \<and> (\<forall>e\<in>set (counted s). e_target e \<le> weight_version (coll s) + age)"
proof -
  have cfg: "num_prompts_per_step (coll s) = n" "max_trajectory_age_steps (coll s) = age"
    using reach_config [OF assms(3)] by (simp_all add: same_config_def sys_init_def collector_init_def)
  have "count_inv start s"
    by (rule reach_invariant [where I = "count_inv start", OF assms(3) init_invs(1) [OF assms(1,2)]]) (rule sys_step_count_inv)
  moreover have "version_inv s"
    by (rule reach_invariant [where I = "version_inv", OF assms(3) init_invs(2) [OF assms(1,2)]]) (rule sys_step_version_inv)
  ultimately show ?thesis by (simp add: count_inv_def version_inv_def cfg)
qed

definition demo_sys :: "nat sys" where
  "demo_sys = sys_init (collector_init 2 1 20 False 0) 5 \<lparr>max_size = 8, trajectories = [], trajectory_versions = [],
     target_weight_versions = [], last_target_weight_already_generated = -1\<rparr>"

lemmas run_simps = sys_step_def loop_head_def hold_off_def ahead_def lock_taken_def generated_def
  start_enqueue_def batch_done_def add_done_def rb_add_def coll_ops Let_def

definition demo_events :: "nat event list" where
  "demo_events = [Tick, Lock, Gen_ok [Map.empty, Map.empty], Add_done]"

definition demo_end :: "nat sys" where
  "demo_end = the (sys_run demo_sys demo_events)"

lemma demo_run: "\<exists>s. sys_run demo_sys demo_events = Some s \<and> map snd (stored s) = [(0, 0)] \<and> counted s = stored s"
  by (simp add: demo_events_def demo_sys_def sys_init_def collector_init_def run_simps)

lemma demo_end_run: "sys_run demo_sys demo_events = Some demo_end"
  using demo_run by (auto simp: demo_end_def)

lemma demo_reach: "sys_reach quiet demo_sys demo_end"
  by (rule sys_run_reach [OF demo_end_run reach_start])
    (simp add: demo_events_def quiet_def forward_def)

lemma demo_reach_forward: "sys_reach forward demo_sys demo_end"
  by (rule reach_mono [OF demo_reach]) (simp add: quiet_def)

theorem collector_target_schedule_witness:
  "map e_target (counted demo_end) = target_plan 2 0 (next_target (coll demo_end)) (groups_for_target (coll demo_end))
    \<and> next_target (coll demo_end) \<le> weight_version (coll demo_end) + 1 + 1"
  using collector_target_schedule [OF _ _ demo_reach_forward [unfolded demo_sys_def]] by simp

text \<open>C24: Staleness. If moreover the weight version is never changed while a rolled-out batch is still being
  scored or enqueued, every accepted group is tagged with a target at most max_trajectory_age_steps
  after the version it was generated with, so that it is inside the buffer's age window at its
  target step.\<close>

theorem collector_bounded_age:
  assumes "0 < n" and "0 \<le> age"
    and "sys_reach quiet (sys_init (collector_init n age mf te start) batches b) s"
  shows "\<forall>e\<in>set (stored s). e_target e - e_version e \<le> age"
proof -
  have cfg: "max_trajectory_age_steps (coll s) = age"
    using reach_config [OF assms(3)] by (simp add: same_config_def sys_init_def collector_init_def)
  have count: "count_inv start s"
    by (rule reach_invariant [where I = "count_inv start", OF assms(3) init_invs(1) [OF assms(1,2)]]) (rule sys_step_count_inv)
  have "version_inv s \<and> fresh_inv s"
  proof (rule reach_invariant [OF assms(3), of "\<lambda>s. version_inv s \<and> fresh_inv s"])
    fix s :: "'a sys" and ev s'
    assume q: "quiet s ev" and st: "sys_step s ev = Some s'" and inv: "version_inv s \<and> fresh_inv s"
    have "forward s ev" using q by (simp add: quiet_def)
    with sys_step_version_inv [OF st] sys_step_fresh_inv [OF st q] inv show "version_inv s' \<and> fresh_inv s'"
      by simp
  qed (simp add: init_invs [OF assms(1,2)])
  moreover have "set (stored s) \<subseteq> set (counted s)"
  proof -
    obtain N where "stored s = nths (counted s) N" using count by (auto simp: count_inv_def subseq_conv_nths)
    then show ?thesis using set_nths_subset by metis
  qed
  ultimately show ?thesis using cfg by (auto simp: fresh_inv_def)
qed

theorem collector_bounded_age_witness:
  "\<exists>e. stored demo_end = [e] \<and> e_target e - e_version e \<le> 1"
proof -
  obtain e where "stored demo_end = [e]"
    using demo_run demo_end_run by auto
  with collector_bounded_age [OF _ _ demo_reach [unfolded demo_sys_def]] show ?thesis by simp
qed

text \<open>C25: Refit exclusion and failure accounting in every reachable state, under any events: once a refit has been
  granted, and until it is over, no rollout is running; the failure counts per stage and per
  exception type add up to the total, which bounds the current streak; and the collector is unhealthy
  exactly after max_generation_failures consecutive failures, when it has stopped and returned.\<close>

theorem collector_refit_and_health:
  assumes "0 < n" and "0 \<le> age"
    and "sys_reach (\<lambda>_ _. True) (sys_init (collector_init n age mf te start) batches b) s"
  shows "(refit_granted s \<longrightarrow> (\<forall>v. phase s \<noteq> Generating v))
    \<and> dict_total (hr_failures_by_stage (check_health (coll s))) = hr_total_failures (check_health (coll s))
    \<and> dict_total (hr_failures_by_type (check_health (coll s))) = hr_total_failures (check_health (coll s))
    \<and> hr_consecutive_failures (check_health (coll s)) \<le> hr_total_failures (check_health (coll s))
    \<and> (\<not> hr_healthy (check_health (coll s)) \<longrightarrow> 0 < mf \<and> hr_consecutive_failures (check_health (coll s)) = mf
         \<and> stopped (coll s) \<and> phase s = Returned)"
proof -
  have cfg: "max_generation_failures (coll s) = mf"
    using reach_config [OF assms(3)] by (simp add: same_config_def sys_init_def collector_init_def)
  have "refit_inv s"
    by (rule reach_invariant [where I = "refit_inv", OF assms(3) init_invs(4) [OF assms(1,2)]]) (rule sys_step_refit_inv)
  moreover have "failure_inv s"
    by (rule reach_invariant [where I = "failure_inv", OF assms(3) init_invs(5) [OF assms(1,2)]]) (rule sys_step_failure_inv)
  ultimately show ?thesis
    by (auto simp: refit_inv_def failure_inv_def check_health_def is_healthy_def cfg split: if_splits)
qed

theorem collector_refit_and_health_witness:
  "hr_consecutive_failures (check_health (coll demo_end)) \<le> hr_total_failures (check_health (coll demo_end))"
proof -
  have "sys_reach (\<lambda>_ _. True) demo_sys demo_end" by (rule reach_mono [OF demo_reach]) simp
  from collector_refit_and_health [OF _ _ this [unfolded demo_sys_def]] show ?thesis by simp
qed

text \<open>Concrete runs: two groups per step and per batch, age bound one, teachers configured.\<close>

definition demo_opd :: "nat sys" where
  "demo_opd = sys_init (collector_init 2 1 20 True 0) 5 \<lparr>max_size = 8, trajectories = [], trajectory_versions = [],
     target_weight_versions = [], last_target_weight_already_generated = -1\<rparr>"

definition two_groups :: "nat trajectory list" where
  "two_groups = [Map.empty, Map.empty]"

definition refit_during_enqueue :: "nat event list" where
  "refit_during_enqueue =
     [Tick, Lock, Gen_ok two_groups, Score_ok, Add_done, Add_done,
      Tick, Lock, Gen_ok two_groups, Score_ok, Trainer_sample 2 0, Prepare_refit, Refit_granted,
      Add_done, Set_weight_version 1, Resume_after_refit]"

definition refit_during_scoring :: "nat event list" where
  "refit_during_scoring =
     [Tick, Lock, Gen_ok two_groups, Score_ok, Add_done, Add_done,
      Tick, Lock, Gen_ok two_groups, Trainer_sample 2 1, Prepare_refit, Refit_granted,
      Set_weight_version 2, Resume_after_refit, Score_ok, Add_done, Add_done, Trainer_sample 2 2]"

lemmas sample_simps = rb_sample_def matching_def in_age_window_def min_valid_version_def pop_desc_def
  pop_at_def py_prefix_def

text \<open>A batch cut short is not regenerated. There is a run without failures, pauses or a stop in which
  a refit is requested while the second of two batches is being enqueued: only the first of its two
  groups reaches the buffer (three groups of the four generated), yet the dataloader position to be
  checkpointed is past both batches, so a resume does not yield the lost prompt again.\<close>

lemma collector_cut_batch_is_lost:
  "case sys_run demo_opd refit_during_enqueue of
     None \<Rightarrow> False
   | Some s \<Rightarrow> get_dataloader_state (coll s) = Some 2 \<and> length (stored s) = 3 \<and> phase s = Loop_head
       \<and> \<not> stopped (coll s) \<and> total_failures (coll s) = 0"
  by (simp add: refit_during_enqueue_def run_simps demo_opd_def sys_init_def collector_init_def two_groups_def
      sample_simps get_dataloader_state_def)

text \<open>A refit while a batch is being scored can make a group too old for its own step. There is a run, with
  the trainer stepping through versions 0, 1, 2 in order, in which a group generated at version 1 is
  tagged for step 3 under an age bound of 1, and the trainer's sample at step 3 raises ValueError.\<close>
lemma collector_refit_makes_stale:
  "case sys_run demo_opd (refit_during_enqueue @ refit_during_scoring) of
     None \<Rightarrow> False
   | Some s \<Rightarrow> map snd (rb_entries (buffer s)) = [(1, 3)] \<and> weight_version (coll s) = 2
       \<and> rb_sample (buffer s) 2 3 (max_trajectory_age_steps (coll s)) = Inl ValueError"
  by (simp add: refit_during_enqueue_def refit_during_scoring_def run_simps demo_opd_def sys_init_def
      collector_init_def two_groups_def sample_simps rb_entries_def)

end
