(* ===== verification/Async_Training.thy ===== *)
theory Async_Training
  imports Trajectory_Collector
begin

text \<open>
  The asynchronous training loop, \<^verbatim>\<open>algorithms/grpo.py\<close> (function \<open>async_grpo_train\<close>), with the
  two actors it starts: the collector of \<open>Trajectory_Collector\<close> and the buffer of \<open>Replay_Buffer\<close>.

  The trainer is a thread of its own. Calls it waits for (\<open>ray.get\<close>) are part of its turn; calls it
  does not wait for (\<open>set_weight_version.remote\<close>, \<open>pause.remote\<close> and so on) are messages that the
  collector handles later, in the order they were sent, at any of its awaits. So a run of the system is
  an interleaving of three kinds of moves: an await of the collector completing, the
  collector handling the next message, and a turn of the trainer between two waits.

  Modelled is what the loop does with the collector and the buffer: the wait for a first step of groups,
  the health check, sampling, the refit hand-shake, the version and step counters, and the pauses
  around validation. The training computation itself, checkpointing and logging in between do not touch
  them. A refit always happens, as this loop refuses colocated inference, and the exit by time-out is left out.
\<close>

section \<open>State\<close>

text \<open>
  \<open>ac_age\<close> is the argument \<open>max_trajectory_age_steps\<close> of the loop; \<open>ac_grpo_age\<close> is the entry of that
  name the collector looks up, directly under the \<open>grpo\<close> section, with default 1.
\<close>

record async_config =
  ac_num_prompts :: int
  ac_age :: int
  ac_grpo_age :: "int option"
  ac_max_failures :: int
  ac_teachers :: bool
  ac_max_num_steps :: int
  ac_val_period :: int
  ac_val_at_start :: bool
  ac_val_at_end :: bool

definition collector_age :: "async_config \<Rightarrow> int" where
  "collector_age cfg = (case ac_grpo_age cfg of None \<Rightarrow> 1 | Some a \<Rightarrow> a)"

datatype trainer_phase = Filling | Sampling | Training | Refit_wait | Finished | Raised py_error

text \<open>\<open>trained\<close> is a history no code reads: the version and the groups of every step trained on.\<close>

record 'v run =
  cfg :: async_config
  world :: "'v sys"
  t_phase :: trainer_phase
  t_step :: int
  t_version :: int
  mailbox :: "'v event list"
  trained :: "(int \<times> 'v trajectory list) list"

definition late_arrival_slack :: int where
  "late_arrival_slack = 2"

definition async_start :: "async_config \<Rightarrow> int \<Rightarrow> nat \<Rightarrow> 'v rb_state option \<Rightarrow> 'v run result" where
  "async_start conf step batches restored =
     bind_res (rb_init (ac_num_prompts conf * ac_age conf * late_arrival_slack)) (\<lambda>empty.
       let b = (case restored of None \<Rightarrow> empty | Some st \<Rightarrow> snd (rb_load_state_dict empty st));
           c = collector_init (ac_num_prompts conf) (collector_age conf) (ac_max_failures conf) (ac_teachers conf) step
       in Inr \<lparr>cfg = conf, world = sys_init c batches b, t_phase = Filling, t_step = step, t_version = step,
               mailbox = Set_weight_version step # (if ac_val_at_start conf \<and> step = 0 then [Pause, Resume] else []),
               trained = []\<rparr>)"

section \<open>The loop\<close>

text \<open>The messages after a refit: the new version, the release, and the pauses around a validation.\<close>

definition validates :: "async_config \<Rightarrow> int \<Rightarrow> bool" where
  "validates conf step \<longleftrightarrow>
     (0 < ac_val_period conf \<and> (step + 1) mod ac_val_period conf = 0)
     \<or> (ac_val_at_end conf \<and> step + 1 = ac_max_num_steps conf)"

definition refit_messages :: "async_config \<Rightarrow> int \<Rightarrow> int \<Rightarrow> 'v event list" where
  "refit_messages conf step version =
     [Set_weight_version version, Resume_after_refit] @ (if validates conf step then [Pause, Resume] else [])"

definition raise_if_collector_unhealthy :: "'v sys \<Rightarrow> unit result" where
  "raise_if_collector_unhealthy s = (if hr_healthy (check_health (coll s)) then Inr () else Inl RuntimeError)"

definition sample_turn :: "'v run \<Rightarrow> 'v run" where
  "sample_turn r =
     (case rb_sample (buffer (world r)) (ac_num_prompts (cfg r)) (t_version r) (ac_age (cfg r)) of
        Inl e \<Rightarrow> r\<lparr>t_phase := Raised e\<rparr>
      | Inr (result, b) \<Rightarrow>
          let r1 = r\<lparr>world := (world r)\<lparr>buffer := b\<rparr>\<rparr> in
          (case result of
             None \<Rightarrow> r1
           | Some (groups, avg) \<Rightarrow>
               if int (length groups) \<noteq> ac_num_prompts (cfg r) then r1
               else r1\<lparr>trained := trained r @ [(t_version r, groups)], t_phase := Training\<rparr>))"

text \<open>One turn of the trainer; \<open>None\<close> while it waits for the collector or after it has ended.\<close>

definition trainer_turn :: "'v run \<Rightarrow> 'v run option" where
  "trainer_turn r =
     (case t_phase r of
        Filling \<Rightarrow>
          if ac_num_prompts (cfg r) \<le> int (rb_size (buffer (world r))) then Some (r\<lparr>t_phase := Sampling\<rparr>)
          else (case raise_if_collector_unhealthy (world r) of
                  Inl e \<Rightarrow> Some (r\<lparr>t_phase := Raised e\<rparr>)
                | Inr u \<Rightarrow> Some r)
      | Sampling \<Rightarrow>
          if \<not> t_step r < ac_max_num_steps (cfg r) then Some (r\<lparr>t_phase := Finished\<rparr>)
          else (case raise_if_collector_unhealthy (world r) of
                  Inl e \<Rightarrow> Some (r\<lparr>t_phase := Raised e\<rparr>)
                | Inr u \<Rightarrow> Some (sample_turn r))
      | Training \<Rightarrow> Some (r\<lparr>mailbox := mailbox r @ [Prepare_refit], t_phase := Refit_wait\<rparr>)
      | Refit_wait \<Rightarrow>
          if mailbox r = [] \<and> refit_granted (world r)
          then Some (r\<lparr>t_version := t_version r + 1,
                       mailbox := refit_messages (cfg r) (t_step r) (t_version r + 1),
                       t_step := t_step r + 1, t_phase := Sampling\<rparr>)
          else None
      | Finished \<Rightarrow> None
      | Raised e \<Rightarrow> None)"

text \<open>The awaits of the collector itself; the other events are calls of the trainer.\<close>

fun own_event :: "'v event \<Rightarrow> bool" where
  "own_event Tick = True"
| "own_event Lock = True"
| "own_event (Gen_ok groups) = True"
| "own_event (Gen_fail t msg) = True"
| "own_event Score_ok = True"
| "own_event (Score_fail t msg) = True"
| "own_event Add_done = True"
| "own_event Refit_granted = True"
| "own_event _ = False"

datatype 'v move = Collector "'v event" | Deliver | Trainer

definition run_step :: "'v run \<Rightarrow> 'v move \<Rightarrow> 'v run option" where
  "run_step r m =
     (case m of
        Collector ev \<Rightarrow>
          if own_event ev then map_option (\<lambda>s. r\<lparr>world := s\<rparr>) (sys_step (world r) ev) else None
      | Deliver \<Rightarrow>
          (case mailbox r of
             [] \<Rightarrow> None
           | ev # rest \<Rightarrow> map_option (\<lambda>s. r\<lparr>world := s, mailbox := rest\<rparr>) (sys_step (world r) ev))
      | Trainer \<Rightarrow> trainer_turn r)"

inductive run_reach :: "('v run \<Rightarrow> 'v move \<Rightarrow> bool) \<Rightarrow> 'v run \<Rightarrow> 'v run \<Rightarrow> bool" for allowed r0 where
  run_start: "run_reach allowed r0 r0"
| run_next: "run_reach allowed r0 r \<Longrightarrow> allowed r m \<Longrightarrow> run_step r m = Some r' \<Longrightarrow> run_reach allowed r0 r'"

fun run_moves :: "'v run \<Rightarrow> 'v move list \<Rightarrow> 'v run option" where
  "run_moves r [] = Some r"
| "run_moves r (m # ms) = (case run_step r m of None \<Rightarrow> None | Some r' \<Rightarrow> run_moves r' ms)"

text \<open>A new version reaches the collector only while it has no rolled-out batch in hand.\<close>

definition calm :: "'v run \<Rightarrow> 'v move \<Rightarrow> bool" where
  "calm r m \<longleftrightarrow>
     (case m of
        Deliver \<Rightarrow>
          (case mailbox r of
             Set_weight_version w # _ \<Rightarrow> w = weight_version (coll (world r)) \<or> in_hand (phase (world r)) = None
           | _ \<Rightarrow> True)
      | _ \<Rightarrow> True)"

section \<open>Counting targets\<close>

lemma filter_concat_replicate_none:
  "(\<And>t. t \<in> set ts \<Longrightarrow> \<not> P t) \<Longrightarrow> filter P (concat (map (replicate m) ts)) = []"
  by (auto simp: filter_empty_conv)

lemma filter_concat_replicate_all:
  "(\<And>t. t \<in> set ts \<Longrightarrow> P t) \<Longrightarrow> filter P (concat (map (replicate m) ts)) = concat (map (replicate m) ts)"
  by (auto simp: filter_id_conv)

lemma target_plan_from:
  assumes "start \<le> a" and "a \<le> next_t"
  shows "filter (\<lambda>t. a \<le> t) (target_plan n start next_t k) = target_plan n a next_t k"
proof -
  have "[start..next_t - 1] = [start..a - 1] @ [a..next_t - 1]"
    using assms by (cases "a = next_t") (simp_all add: upto_split1)
  then show ?thesis
    using assms by (simp add: target_plan_def filter_concat_replicate_none filter_concat_replicate_all)
qed

lemma target_plan_length: "a \<le> next_t \<Longrightarrow> 0 \<le> n \<Longrightarrow> 0 \<le> k \<Longrightarrow> int (length (target_plan n a next_t k)) = n * (next_t - a) + k"
  by (simp add: target_plan_def length_concat comp_def sum_list_triv)

lemma target_plan_at:
  assumes "start \<le> a" and "a < next_t"
  shows "filter (\<lambda>t. t = a) (target_plan n start next_t k) = replicate (nat n) a"
proof -
  have "filter (\<lambda>t. t = a) (target_plan n start next_t k) = filter (\<lambda>t. t = a) (filter (\<lambda>t. a \<le> t) (target_plan n start next_t k))"
    by (simp add: conj_commute cong: conj_cong)
  also have "\<dots> = filter (\<lambda>t. t = a) (target_plan n a next_t k)" using assms by (simp add: target_plan_from)
  also have "[a..next_t - 1] = a # [a + 1..next_t - 1]" using assms by (simp add: upto_rec1)
  then have "filter (\<lambda>t. t = a) (target_plan n a next_t k) = replicate (nat n) a"
    using assms by (simp add: target_plan_def filter_concat_replicate_none)
  finally show ?thesis .
qed

lemma target_plan_bounds: "t \<in> set (target_plan n start next_t k) \<Longrightarrow> start \<le> t \<or> t = next_t"
  by (auto simp: target_plan_def)

lemma target_plan_last: "filter (\<lambda>t. t = next_t) (target_plan n start next_t k) = replicate (nat k) next_t"
  by (simp add: target_plan_def filter_concat_replicate_none)

lemma length_filter_map: "length (filter (\<lambda>x. P (f x)) xs) = length (filter P (map f xs))"
  by (induction xs) simp_all

section \<open>The joint invariant\<close>

lemma sys_step_buffer:
  "sys_step s ev = Some s' \<Longrightarrow> ev \<noteq> Add_done \<Longrightarrow> (\<And>n c. ev \<noteq> Trainer_sample n c) \<Longrightarrow> buffer s' = buffer s"
  unfolding sys_step_def
  by (cases ev)
    (auto simp: loop_head_def lock_taken_def generated_def stage_failed_def Let_def
      split: phase.splits if_splits list.splits)

lemma own_event_version:
  "sys_step s ev = Some s' \<Longrightarrow> own_event ev \<Longrightarrow> weight_version (coll s') = weight_version (coll s)"
  unfolding sys_step_def
  by (cases ev)
    (auto simp: loop_head_def lock_taken_def generated_def stage_failed_def add_done_def Let_def coll_ops
      split: phase.splits if_splits list.splits prod.splits)

text \<open>Nothing the collector touches is older than the version it started with.\<close>

definition origin_inv :: "int \<Rightarrow> 'v sys \<Rightarrow> bool" where
  "origin_inv start s \<longleftrightarrow>
     start \<le> weight_version (coll s) \<and> (\<forall>v. in_hand (phase s) = Some v \<longrightarrow> start \<le> v)
     \<and> (\<forall>e\<in>set (counted s). start \<le> e_version e)"

lemma sys_step_origin_inv:
  assumes "sys_step s ev = Some s'" and "forward s ev" and "origin_inv start s"
  shows "origin_inv start s'"
proof (cases "ev = Add_done")
  case True
  then obtain v g gs where s': "s' = add_done s v g gs" "phase s = Enqueueing v (g # gs)"
    using assms(1) by (auto simp: sys_step_def split: phase.splits list.splits)
  then show ?thesis
    using assms(3) by (auto simp: add_done_def Let_def origin_inv_def split: prod.splits if_splits)
next
  case False
  have "counted s' = counted s" using sys_step_other_counts [OF assms(1) False] by (simp add: same_counts_def)
  then show ?thesis
    using assms False
    unfolding sys_step_def origin_inv_def forward_def
    by (cases ev)
      (auto simp: loop_head_def lock_taken_def generated_def stage_failed_def Let_def coll_ops
        split: phase.splits if_splits list.splits sum.splits prod.splits)
qed

definition world_inv :: "int \<Rightarrow> 'v sys \<Rightarrow> bool" where
  "world_inv start s \<longleftrightarrow>
     count_inv start s \<and> version_inv s \<and> fresh_inv s \<and> failure_inv s \<and> origin_inv start s"

lemma sys_step_world_inv:
  assumes "sys_step s ev = Some s'" and "quiet s ev" and "world_inv start s"
  shows "world_inv start s'"
proof -
  have "forward s ev" using assms(2) by (simp add: quiet_def)
  then show ?thesis
    using assms sys_step_count_inv [OF assms(1)] sys_step_version_inv [OF assms(1)] sys_step_fresh_inv [OF assms(1,2)]
      sys_step_failure_inv [OF assms(1)] sys_step_origin_inv [OF assms(1)]
    by (simp add: world_inv_def)
qed

lemma world_inv_buffer [simp]: "world_inv start (s\<lparr>buffer := b\<rparr>) = world_inv start s"
  by (simp add: world_inv_def count_inv_def version_inv_def fresh_inv_def failure_inv_def origin_inv_def)

text \<open>The trainer's messages and its version counter.\<close>

fun message :: "'v event \<Rightarrow> bool" where
  "message (Set_weight_version w) = True"
| "message Pause = True"
| "message Resume = True"
| "message Prepare_refit = True"
| "message Resume_after_refit = True"
| "message _ = False"

definition mail_inv :: "'v run \<Rightarrow> bool" where
  "mail_inv r \<longleftrightarrow>
     list_all message (mailbox r)
     \<and> (\<forall>w. Set_weight_version w \<in> set (mailbox r) \<longrightarrow> w = t_version r)
     \<and> weight_version (coll (world r)) \<le> t_version r
     \<and> ((\<forall>w. Set_weight_version w \<notin> set (mailbox r)) \<longrightarrow> weight_version (coll (world r)) = t_version r)
     \<and> t_step r = t_version r"

text \<open>The first step whose groups have not been trained on.\<close>

definition consumed_to :: "int \<Rightarrow> 'v run \<Rightarrow> int" where
  "consumed_to start r = start + int (length (trained r))"

definition version_phase_inv :: "int \<Rightarrow> 'v run \<Rightarrow> bool" where
  "version_phase_inv start r \<longleftrightarrow>
     consumed_to start r = (if t_phase r \<in> {Training, Refit_wait} then t_version r + 1 else t_version r)"

definition buffer_inv :: "int \<Rightarrow> 'v run \<Rightarrow> bool" where
  "buffer_inv start r \<longleftrightarrow>
     (let s = world r; n = ac_num_prompts (cfg r) in
       rb_wf (buffer s) \<and> max_size (buffer s) = n * ac_age (cfg r) * late_arrival_slack
       \<and> stored s = counted s
       \<and> rb_entries (buffer s) = filter (\<lambda>e. consumed_to start r \<le> e_target e) (stored s)
       \<and> consumed_to start r \<le> next_target (coll s)
       \<and> (\<forall>e\<in>set (stored s). e_target e < consumed_to start r \<longrightarrow> e_version e \<le> e_target e)
       \<and> trained r = map (\<lambda>t. (t, map fst (filter (\<lambda>e. e_target e = t) (stored s))))
                       [start..consumed_to start r - 1])"

definition config_inv :: "'v run \<Rightarrow> bool" where
  "config_inv r \<longleftrightarrow>
     num_prompts_per_step (coll (world r)) = ac_num_prompts (cfg r)
     \<and> max_trajectory_age_steps (coll (world r)) = collector_age (cfg r)
     \<and> 0 < ac_num_prompts (cfg r) \<and> 0 \<le> collector_age (cfg r) \<and> collector_age (cfg r) \<le> ac_age (cfg r) \<and> 1 \<le> ac_age (cfg r)"

definition raised_inv :: "'v run \<Rightarrow> bool" where
  "raised_inv r \<longleftrightarrow> (\<forall>e. t_phase r = Raised e \<longrightarrow> e = RuntimeError \<and> \<not> is_healthy (coll (world r)))"

definition run_inv :: "int \<Rightarrow> 'v run \<Rightarrow> bool" where
  "run_inv start r \<longleftrightarrow>
     0 \<le> start \<and> world_inv start (world r) \<and> mail_inv r \<and> version_phase_inv start r \<and> buffer_inv start r
     \<and> config_inv r \<and> raised_inv r"

text \<open>The buffer has room whenever the collector adds a group.\<close>

lemma buffer_has_room:
  assumes "run_inv start r" and "\<not> ahead (coll (world r))"
  shows "int (rb_size (buffer (world r))) < max_size (buffer (world r))"
proof -
  let ?s = "world r" and ?c = "coll (world r)" and ?a = "consumed_to start r"
  let ?n = "ac_num_prompts (cfg r)" and ?k = "groups_for_target (coll (world r))"
  have plan: "map e_target (stored ?s) = target_plan ?n start (next_target ?c) ?k" "0 \<le> ?k" "?k < ?n"
    and entries: "rb_entries (buffer ?s) = filter (\<lambda>e. ?a \<le> e_target e) (stored ?s)" "?a \<le> next_target ?c" "start \<le> ?a"
    and wf: "rb_wf (buffer ?s)" "max_size (buffer ?s) = ?n * ac_age (cfg r) * 2"
    and ages: "1 \<le> ac_age (cfg r)" "collector_age (cfg r) \<le> ac_age (cfg r)"
    and lead: "\<not> ahead ?c" "weight_version ?c \<le> t_version r" "t_version r \<le> ?a"
      "max_trajectory_age_steps ?c = collector_age (cfg r)"
    using assms
    by (auto simp: run_inv_def world_inv_def buffer_inv_def count_inv_def version_inv_def config_inv_def mail_inv_def
        version_phase_inv_def consumed_to_def late_arrival_slack_def Let_def split: if_splits)
  have "int (rb_size (buffer ?s)) = int (length (filter (\<lambda>t. ?a \<le> t) (map e_target (stored ?s))))"
    unfolding rb_size_def rb_wf_lengths(3) [OF wf(1), symmetric] entries(1)
    by (simp add: length_filter_map [of "\<lambda>t. ?a \<le> t" e_target])
  also have "\<dots> = ?n * (next_target ?c - ?a) + ?k"
    unfolding plan(1) using plan entries by (simp add: target_plan_from target_plan_length)
  also have "\<dots> < ?n * (next_target ?c - ?a) + ?n" using plan(3) by simp
  also have "\<dots> = ?n * (next_target ?c - ?a + 1)" by (simp add: algebra_simps)
  also have "\<dots> \<le> ?n * (ac_age (cfg r) * 2)"
    using lead ages plan by (intro mult_left_mono) (auto simp: ahead_def)
  finally show ?thesis using wf(2) by simp
qed

section \<open>Every move keeps the invariant\<close>

lemma consumed_to_frame [simp]:
  "consumed_to start (r\<lparr>world := s\<rparr>) = consumed_to start r"
  "consumed_to start (r\<lparr>mailbox := m\<rparr>) = consumed_to start r"
  "consumed_to start (r\<lparr>t_phase := p\<rparr>) = consumed_to start r"
  "consumed_to start (r\<lparr>t_version := v\<rparr>) = consumed_to start r"
  "consumed_to start (r\<lparr>t_step := k\<rparr>) = consumed_to start r"
  by (simp_all add: consumed_to_def)

lemma buffer_inv_same:
  assumes "buffer_inv start r" and "same_counts (world r) s'" and "buffer s' = buffer (world r)"
  shows "buffer_inv start (r\<lparr>world := s'\<rparr>)"
  using assms by (simp add: buffer_inv_def same_counts_def Let_def)

lemma run_inv_mail [simp]:
  "world_inv start (world (r\<lparr>mailbox := m\<rparr>)) = world_inv start (world r)"
  "version_phase_inv start (r\<lparr>mailbox := m\<rparr>) = version_phase_inv start r"
  "buffer_inv start (r\<lparr>mailbox := m\<rparr>) = buffer_inv start r"
  "config_inv (r\<lparr>mailbox := m\<rparr>) = config_inv r" "raised_inv (r\<lparr>mailbox := m\<rparr>) = raised_inv r"
  by (simp_all add: version_phase_inv_def buffer_inv_def config_inv_def raised_inv_def)

lemma unhealthy_stays:
  assumes "sys_step s ev = Some s'" and "failure_inv s" and "\<not> is_healthy (coll s)"
  shows "\<not> is_healthy (coll s')"
proof -
  have "phase s = Returned" using assms(2,3) by (simp add: failure_inv_def)
  then show ?thesis
    using assms(1,3) unfolding sys_step_def
    by (cases ev) (auto simp: is_healthy_def coll_ops split: if_splits sum.splits prod.splits)
qed

lemma step_keeps_raised:
  assumes "run_inv start r" and "sys_step (world r) ev = Some s'"
  shows "raised_inv (r\<lparr>world := s'\<rparr>)"
  using assms unhealthy_stays [OF assms(2)] by (auto simp: run_inv_def raised_inv_def world_inv_def)

lemma step_keeps_config:
  assumes "run_inv start r" and "sys_step (world r) ev = Some s'"
  shows "config_inv (r\<lparr>world := s'\<rparr>)"
  using assms(1) sys_step_config [OF assms(2)] by (auto simp: run_inv_def config_inv_def same_config_def)

lemma quiet_own: "own_event ev \<Longrightarrow> quiet s ev"
  by (cases ev) (simp_all add: quiet_def forward_def)

lemma version_phase_world [simp]: "version_phase_inv start (r\<lparr>world := s\<rparr>) = version_phase_inv start r"
  by (simp add: version_phase_inv_def)

lemma add_keeps_buffer_inv:
  assumes inv: "run_inv start r" and ph: "phase (world r) = Enqueueing v (g # gs)"
  shows "buffer_inv start (r\<lparr>world := add_done (world r) v g gs\<rparr>)"
proof -
  let ?s = "world r" and ?a = "consumed_to start r" and ?t = "next_target (coll (world r))"
  let ?s' = "add_done (world r) v g gs"
  have "\<not> ahead (coll ?s)" using inv ph by (auto simp: run_inv_def world_inv_def version_inv_def)
  then have room: "int (rb_size (buffer ?s)) < max_size (buffer ?s)" by (rule buffer_has_room [OF inv])
  have b: "buffer_inv start r" using inv by (simp add: run_inv_def)
  then have wf: "rb_wf (buffer ?s)" and le: "?a \<le> ?t" by (simp_all add: buffer_inv_def Let_def)
  note add = rb_add_refines [OF wf, of g v ?t]
  have st: "fst (rb_add (buffer ?s) g v ?t) = Success" using add(3) room by simp
  have s': "buffer ?s' = snd (rb_add (buffer ?s) g v ?t)" "stored ?s' = stored ?s @ [(g, v, ?t)]"
      "counted ?s' = counted ?s @ [(g, v, ?t)]" "next_target (coll ?s') = next_target (count_group (coll ?s))"
    using st by (auto simp: add_done_def Let_def split_def)
  have "max_size (snd (rb_add (buffer ?s) g v ?t)) = max_size (buffer ?s)" by (simp add: rb_add_def)
  moreover have "?t \<le> next_target (count_group (coll ?s))" by (simp add: count_group_def)
  moreover have "filter (\<lambda>e. e_target e = t) [(g, v, ?t)] = []" if "t \<in> set [start..?a - 1]" for t
    using that le by auto
  ultimately show ?thesis
    using b le add(1,2) room by (auto simp: buffer_inv_def Let_def s')
qed

lemma collector_keeps_inv:
  assumes inv: "run_inv start r" and own: "own_event ev" and step: "sys_step (world r) ev = Some s'"
  shows "run_inv start (r\<lparr>world := s'\<rparr>)"
proof -
  have w: "world_inv start s'" using sys_step_world_inv [OF step quiet_own [OF own]] inv by (simp add: run_inv_def)
  have m: "mail_inv (r\<lparr>world := s'\<rparr>)"
    using inv own_event_version [OF step own] by (simp add: run_inv_def mail_inv_def)
  have b: "buffer_inv start (r\<lparr>world := s'\<rparr>)"
  proof (cases "ev = Add_done")
    case True
    then obtain v g gs where "s' = add_done (world r) v g gs" "phase (world r) = Enqueueing v (g # gs)"
      using step by (auto simp: sys_step_def split: phase.splits list.splits)
    then show ?thesis using add_keeps_buffer_inv [OF inv] by simp
  next
    case False
    have "buffer s' = buffer (world r)" using sys_step_buffer [OF step False] own by force
    moreover have "buffer_inv start r" using inv by (simp add: run_inv_def)
    ultimately show ?thesis using buffer_inv_same sys_step_other_counts [OF step False] by blast
  qed
  show ?thesis
    using inv w m b step_keeps_config [OF inv step] step_keeps_raised [OF inv step] by (simp add: run_inv_def)
qed

lemma set_same_version: "s\<lparr>coll := set_weight_version (coll s) (weight_version (coll s))\<rparr> = s"
  by (simp add: set_weight_version_def)

lemma message_version:
  assumes "message ev" and "sys_step s ev = Some s'"
  shows "weight_version (coll s') = (case ev of Set_weight_version w \<Rightarrow> w | _ \<Rightarrow> weight_version (coll s))"
  using assms unfolding sys_step_def by (cases ev) (auto simp: coll_ops)

lemma mail_inv_update:
  "mail_inv (r\<lparr>world := s, mailbox := box\<rparr>) \<longleftrightarrow>
     list_all message box \<and> (\<forall>w. Set_weight_version w \<in> set box \<longrightarrow> w = t_version r)
     \<and> weight_version (coll s) \<le> t_version r
     \<and> ((\<forall>w. Set_weight_version w \<notin> set box) \<longrightarrow> weight_version (coll s) = t_version r) \<and> t_step r = t_version r"
  by (simp add: mail_inv_def)

lemma deliver_version:
  assumes inv: "mail_inv r" and box: "mailbox r = ev # rest" and step: "sys_step (world r) ev = Some s'"
  shows "mail_inv (r\<lparr>world := s', mailbox := rest\<rparr>)"
proof -
  have msg: "message ev" "list_all message rest" using inv box by (simp_all add: mail_inv_def)
  have le: "weight_version (coll (world r)) \<le> t_version r" and st: "t_step r = t_version r"
    and set: "Set_weight_version w \<in> set (ev # rest) \<Longrightarrow> w = t_version r" for w
    using inv unfolding mail_inv_def box by blast+
  note v = message_version [OF msg(1) step]
  show ?thesis
  proof (cases "\<exists>w. ev = Set_weight_version w")
    case True
    then obtain w where w: "ev = Set_weight_version w" by blast
    have "w = t_version r" by (rule set) (simp add: w)
    then have "weight_version (coll s') = t_version r" using v w by simp
    then show ?thesis unfolding mail_inv_update using msg(2) st set [OF list.set_intros(2)] by (metis order_refl)
  next
    case False
    then have eq: "weight_version (coll s') = weight_version (coll (world r))" using v by (cases ev) auto
    have "weight_version (coll (world r)) = t_version r" if "\<forall>w. Set_weight_version w \<notin> set rest"
      using inv that False unfolding mail_inv_def box by fastforce
    then show ?thesis unfolding mail_inv_update eq using msg(2) le st set [OF list.set_intros(2)] by blast
  qed
qed

lemma deliver_keeps_inv:
  assumes inv: "run_inv start r" and box: "mailbox r = ev # rest" and calm: "calm r Deliver"
    and step: "sys_step (world r) ev = Some s'"
  shows "run_inv start (r\<lparr>world := s', mailbox := rest\<rparr>)"
proof -
  have msg: "message ev" and ver: "\<And>w. ev = Set_weight_version w \<Longrightarrow> weight_version (coll (world r)) \<le> w"
    using inv box by (auto simp: run_inv_def mail_inv_def)
  have w: "world_inv start s'"
  proof (cases "quiet (world r) ev")
    case True
    then show ?thesis using sys_step_world_inv [OF step] inv by (simp add: run_inv_def)
  next
    case False
    then obtain w where "ev = Set_weight_version w" "w = weight_version (coll (world r))"
      using msg ver calm box by (cases ev) (auto simp: quiet_def forward_def calm_def)
    then have "s' = world r" using step by (simp add: sys_step_def set_same_version)
    then show ?thesis using inv by (simp add: run_inv_def)
  qed
  have "ev \<noteq> Add_done" "\<And>n c. ev \<noteq> Trainer_sample n c" using msg by auto
  then have "same_counts (world r) s'" "buffer s' = buffer (world r)"
    using sys_step_other_counts [OF step] sys_step_buffer [OF step] by blast+
  moreover have "buffer_inv start r" using inv by (simp add: run_inv_def)
  ultimately have b: "buffer_inv start (r\<lparr>world := s'\<rparr>)" using buffer_inv_same by blast
  show ?thesis
    using inv w b deliver_version [OF _ box step] step_keeps_config [OF inv step] step_keeps_raised [OF inv step]
    unfolding run_inv_def
    by (simp add: version_phase_inv_def buffer_inv_def config_inv_def raised_inv_def)
qed

section \<open>Sampling\<close>

lemma drop_first_all:
  assumes "length (filter P xs) \<le> n"
  shows "drop_first n P xs = filter (\<lambda>x. \<not> P x) xs"
proof -
  have "filter P (drop_first n P xs) = []" using assms by (simp add: filter_drop_first)
  then have "filter (\<lambda>x. \<not> P x) (drop_first n P xs) = drop_first n P xs" by (simp add: filter_id_conv filter_empty_conv)
  then show ?thesis by (simp add: filter_not_drop_first)
qed

lemma stored_window:
  assumes "run_inv start r" and "t_phase r = Sampling" and "e \<in> set (stored (world r))" and "consumed_to start r \<le> e_target e"
  shows "min_valid_version (t_version r) (ac_age (cfg r)) \<le> e_version e"
    and "sampleable (t_version r) (ac_age (cfg r)) e \<longleftrightarrow> e_target e = t_version r"
proof -
  have e: "e \<in> set (counted (world r))" using assms(1,3) by (simp add: run_inv_def buffer_inv_def Let_def)
  have "e_target e - e_version e \<le> max_trajectory_age_steps (coll (world r))" "start \<le> e_version e"
    "e_version e \<le> weight_version (coll (world r))"
    using assms(1) e by (auto simp: run_inv_def world_inv_def fresh_inv_def origin_inv_def version_inv_def)
  moreover have "max_trajectory_age_steps (coll (world r)) \<le> ac_age (cfg r)" "0 \<le> start"
    "weight_version (coll (world r)) \<le> t_version r"
    using assms(1) by (auto simp: run_inv_def config_inv_def mail_inv_def)
  moreover have "consumed_to start r = t_version r" using assms(1,2) by (simp add: run_inv_def version_phase_inv_def)
  ultimately show "min_valid_version (t_version r) (ac_age (cfg r)) \<le> e_version e"
    and "sampleable (t_version r) (ac_age (cfg r)) e \<longleftrightarrow> e_target e = t_version r"
    using assms(4) by (auto simp: sampleable_def in_age_window_def min_valid_version_def)
qed

text \<open>At the trainer's step the buffer holds the groups tagged for it, all of them or too few.\<close>

lemma groups_at_step:
  assumes inv: "run_inv start r" and ph: "t_phase r \<notin> {Training, Refit_wait}"
  defines "s \<equiv> world r" and "n \<equiv> ac_num_prompts (cfg r)" and "T \<equiv> t_version r"
  shows "int (length (filter (\<lambda>e. e_target e = T) (stored s)))
      = (if T < next_target (coll s) then n else groups_for_target (coll s))"
    and "groups_for_target (coll s) < n" and "T \<le> next_target (coll s)"
proof -
  have plan: "map e_target (stored s) = target_plan n start (next_target (coll s)) (groups_for_target (coll s))"
      "0 \<le> groups_for_target (coll s)"
    and k: "groups_for_target (coll s) < n"
    and le: "T \<le> next_target (coll s)" "start \<le> T" "0 < n"
    using inv ph
    by (auto simp: run_inv_def world_inv_def buffer_inv_def count_inv_def config_inv_def version_phase_inv_def
        consumed_to_def Let_def s_def n_def T_def)
  have "int (length (filter (\<lambda>e. e_target e = T) (stored s))) = int (length (filter (\<lambda>t. t = T) (map e_target (stored s))))"
    by (simp add: length_filter_map [of "\<lambda>t. t = T" e_target])
  also have "\<dots> = (if T < next_target (coll s) then n else groups_for_target (coll s))"
  proof (cases "T < next_target (coll s)")
    case True
    then show ?thesis unfolding plan(1) using le by (simp add: target_plan_at)
  next
    case False
    then have "T = next_target (coll s)" using le by simp
    then show ?thesis unfolding plan(1) using plan(2) target_plan_last [of T n start] by simp
  qed
  finally show "int (length (filter (\<lambda>e. e_target e = T) (stored s)))
      = (if T < next_target (coll s) then n else groups_for_target (coll s))" .
  show "groups_for_target (coll s) < n" "T \<le> next_target (coll s)" by (fact k, fact le(1))
qed

lemma sample_outcome:
  assumes inv: "run_inv start r" and ph: "t_phase r = Sampling"
  defines "s \<equiv> world r" and "n \<equiv> ac_num_prompts (cfg r)" and "T \<equiv> t_version r"
  shows "if T < next_target (coll s)
    then \<exists>avg b'. rb_sample (buffer s) n T (ac_age (cfg r))
        = Inr (Some (map fst (filter (\<lambda>e. e_target e = T) (stored s)), avg), b')
      \<and> rb_wf b' \<and> max_size b' = max_size (buffer s)
      \<and> rb_entries b' = filter (\<lambda>e. T + 1 \<le> e_target e) (stored s)
    else rb_sample (buffer s) n T (ac_age (cfg r)) = Inr (None, buffer s)"
proof -
  let ?P = "sampleable T (ac_age (cfg r))" and ?F = "filter (\<lambda>e. e_target e = T) (stored s)"
  have wf: "rb_wf (buffer s)" and es: "rb_entries (buffer s) = filter (\<lambda>e. T \<le> e_target e) (stored s)"
    and n: "0 < n" and c: "consumed_to start r = T"
    using inv ph
    by (auto simp: run_inv_def buffer_inv_def config_inv_def version_phase_inv_def Let_def s_def n_def T_def)
  have window: "min_valid_version T (ac_age (cfg r)) \<le> e_version e" "?P e \<longleftrightarrow> e_target e = T"
    if "e \<in> set (stored s)" "T \<le> e_target e" for e
    using stored_window [OF inv ph, of e] that c unfolding s_def T_def by auto
  have fresh: "\<not> (\<exists>e\<in>set (rb_entries (buffer s)). e_version e < min_valid_version T (ac_age (cfg r)))"
    using window(1) by (auto simp: es not_less)
  have F: "filter ?P (rb_entries (buffer s)) = ?F"
    unfolding es filter_filter by (rule filter_cong [OF refl]) (use window(2) in auto)
  have notP: "filter (\<lambda>e. \<not> ?P e) (rb_entries (buffer s)) = filter (\<lambda>e. T + 1 \<le> e_target e) (stored s)"
    unfolding es filter_filter by (rule filter_cong [OF refl]) (use window(2) in auto)
  note len = groups_at_step [OF inv, folded s_def n_def T_def]
  show ?thesis
  proof (cases "T < next_target (coll s)")
    case True
    have lenF: "length ?F = nat n" using len(1) ph True n by simp
    have "drop_first (nat n) ?P (rb_entries (buffer s)) = filter (\<lambda>e. T + 1 \<le> e_target e) (stored s)"
      using drop_first_all [of ?P "rb_entries (buffer s)" "nat n"] F notP lenF by simp
    moreover have "rb_sample (buffer s) n T (ac_age (cfg r)) \<noteq> Inr (None, buffer s)"
      using rb_sample_result [OF wf n fresh] F lenF by simp
    ultimately show ?thesis
      using True lenF fresh F
      by (cases rule: rb_sample_cases [OF wf n, of T "ac_age (cfg r)"]) (auto simp: sample_entries_def)
  next
    case False
    then have "length ?F < nat n" using len(1,2) ph by simp
    then show ?thesis using rb_sample_None [OF wf n fresh] F False by simp
  qed
qed

section \<open>The trainer keeps the invariant\<close>

lemma trainer_frame [simp]:
  "buffer_inv start (r\<lparr>t_phase := p\<rparr>) = buffer_inv start r"
  "buffer_inv start (r\<lparr>t_version := v\<rparr>) = buffer_inv start r"
  "buffer_inv start (r\<lparr>t_step := k\<rparr>) = buffer_inv start r"
  "config_inv (r\<lparr>t_phase := p\<rparr>) = config_inv r"
  "config_inv (r\<lparr>t_version := v\<rparr>) = config_inv r"
  "config_inv (r\<lparr>t_step := k\<rparr>) = config_inv r"
  by (simp_all add: buffer_inv_def config_inv_def)

lemma run_inv_phase:
  assumes "run_inv start r" and "t_phase r \<notin> {Training, Refit_wait}" and "p \<notin> {Training, Refit_wait}"
    and "\<And>e. p = Raised e \<Longrightarrow> e = RuntimeError \<and> \<not> is_healthy (coll (world r))"
  shows "run_inv start (r\<lparr>t_phase := p\<rparr>)"
  using assms by (simp add: run_inv_def mail_inv_def version_phase_inv_def raised_inv_def)

lemma sample_keeps_inv:
  assumes inv: "run_inv start r" and ph: "t_phase r = Sampling"
  shows "run_inv start (sample_turn r)"
proof (cases "t_version r < next_target (coll (world r))")
  case False
  then have "sample_turn r = r"
    using sample_outcome [OF inv ph] by (simp add: sample_turn_def Let_def)
  then show ?thesis using inv by simp
next
  case True
  let ?T = "t_version r" and ?s = "world r" and ?n = "ac_num_prompts (cfg r)"
  let ?F = "filter (\<lambda>e. e_target e = t_version r) (stored (world r))"
  obtain avg b' where b': "rb_sample (buffer ?s) ?n ?T (ac_age (cfg r)) = Inr (Some (map fst ?F, avg), b')"
      "rb_wf b'" "max_size b' = max_size (buffer ?s)" "rb_entries b' = filter (\<lambda>e. ?T + 1 \<le> e_target e) (stored ?s)"
    using sample_outcome [OF inv ph] True by auto
  have len: "int (length ?F) = ?n" using groups_at_step(1) [OF inv] ph True by simp
  let ?r = "r\<lparr>world := ?s\<lparr>buffer := b'\<rparr>, trained := trained r @ [(?T, map fst ?F)], t_phase := Training\<rparr>"
  have turn: "sample_turn r = ?r" using b'(1) len by (simp add: sample_turn_def Let_def)
  have c: "consumed_to start r = ?T" using inv ph by (simp add: run_inv_def version_phase_inv_def)
  have c': "consumed_to start ?r = ?T + 1" using c by (simp add: consumed_to_def)
  have b: "buffer_inv start r" using inv by (simp add: run_inv_def)
  have "start \<le> ?T" using c by (simp add: consumed_to_def)
  then have upto: "[start..?T] = [start..?T - 1] @ [?T]" using upto_rec2 by blast
  have old: "e_version e \<le> e_target e" if "e \<in> set (stored ?s)" "e_target e < ?T + 1" for e
  proof (cases "e_target e < ?T")
    case True
    then show ?thesis using b that(1) c by (simp add: buffer_inv_def Let_def)
  next
    case False
    then have "e_target e = ?T" using that(2) by simp
    then show ?thesis using stored_window(2) [OF inv ph that(1)] c by (simp add: sampleable_def in_age_window_def)
  qed
  have "buffer_inv start ?r"
    using b b' True old c unfolding buffer_inv_def Let_def c' by (simp add: upto)
  then show ?thesis
    unfolding turn using inv c'
    by (simp add: run_inv_def mail_inv_def version_phase_inv_def config_inv_def raised_inv_def)
qed

lemma unhealthy_raise: "raise_if_collector_unhealthy s = Inl e \<Longrightarrow> e = RuntimeError \<and> \<not> is_healthy (coll s)"
  by (simp add: raise_if_collector_unhealthy_def check_health_def split: if_splits)

lemma trainer_keeps_inv:
  assumes inv: "run_inv start r" and step: "trainer_turn r = Some r'"
  shows "run_inv start r'"
proof (cases "t_phase r")
  case Filling
  then show ?thesis
    using step inv run_inv_phase [OF inv, of Sampling] run_inv_phase [OF inv] unhealthy_raise
    by (auto simp: trainer_turn_def split: if_splits sum.splits)
next
  case Sampling
  then show ?thesis
    using step sample_keeps_inv [OF inv] run_inv_phase [OF inv] unhealthy_raise
    by (auto simp: trainer_turn_def split: if_splits sum.splits)
next
  case Training
  then have r': "r' = r\<lparr>mailbox := mailbox r @ [Prepare_refit], t_phase := Refit_wait\<rparr>"
    using step by (simp add: trainer_turn_def)
  have "mail_inv r'" using inv by (simp add: run_inv_def mail_inv_def r')
  then show ?thesis
    using inv Training by (simp add: run_inv_def version_phase_inv_def raised_inv_def r')
next
  case Refit_wait
  then have box: "mailbox r = []" and r': "r' = r\<lparr>t_version := t_version r + 1,
      mailbox := refit_messages (cfg r) (t_step r) (t_version r + 1), t_step := t_step r + 1, t_phase := Sampling\<rparr>"
    using step by (simp_all add: trainer_turn_def split: if_splits)
  have "mail_inv r'" using inv box by (simp add: run_inv_def mail_inv_def refit_messages_def r')
  then show ?thesis
    using inv Refit_wait by (simp add: run_inv_def version_phase_inv_def raised_inv_def r')
qed (use step in \<open>simp_all add: trainer_turn_def\<close>)

lemma run_step_keeps_inv:
  assumes "run_inv start r" and "calm r m" and "run_step r m = Some r'"
  shows "run_inv start r'"
proof (cases m)
  case (Collector ev)
  then show ?thesis
    using assms(3) collector_keeps_inv [OF assms(1)] by (auto simp: run_step_def split: if_splits)
next
  case Deliver
  then obtain ev rest s' where "mailbox r = ev # rest" "sys_step (world r) ev = Some s'"
      "r' = r\<lparr>world := s', mailbox := rest\<rparr>"
    using assms(3) by (auto simp: run_step_def split: list.splits)
  then show ?thesis using deliver_keeps_inv [OF assms(1) _ _] assms(2) Deliver by simp
next
  case Trainer
  then show ?thesis using assms(3) trainer_keeps_inv [OF assms(1)] by (simp add: run_step_def)
qed

lemma run_reach_inv:
  assumes "run_reach calm r0 r" and "run_inv start r0"
  shows "run_inv start r"
  using assms by (induction rule: run_reach.induct) (auto intro: run_step_keeps_inv)

lemma sys_init_simps [simp]:
  "coll (sys_init c batches b) = c" "phase (sys_init c batches b) = Loop_head" "buffer (sys_init c batches b) = b"
  "counted (sys_init c batches b) = []" "stored (sys_init c batches b) = []" "refit_granted (sys_init c batches b) = False"
  by (simp_all add: sys_init_def)

lemma collector_init_simps [simp]:
  "num_prompts_per_step (collector_init n age mf te start) = n"
  "max_trajectory_age_steps (collector_init n age mf te start) = age"
  "weight_version (collector_init n age mf te start) = start" "next_target (collector_init n age mf te start) = start"
  "paused (collector_init n age mf te start) = False" "refit_requested (collector_init n age mf te start) = False"
  "stopped (collector_init n age mf te start) = False"
  by (simp_all add: collector_init_def)

lemma async_start_inv:
  fixes r0 :: "'v run"
  assumes st: "async_start conf step batches None = Inr r0" and n: "0 < ac_num_prompts conf"
    and age: "0 \<le> collector_age conf" "collector_age conf \<le> ac_age conf" and step: "0 \<le> step"
  shows "run_inv step r0"
proof -
  obtain b :: "'v replay_buffer" where b: "rb_init (ac_num_prompts conf * ac_age conf * late_arrival_slack) = Inr b"
    using st by (cases "rb_init (ac_num_prompts conf * ac_age conf * late_arrival_slack) :: 'v replay_buffer result")
      (auto simp: async_start_def)
  have max: "max_size b = ac_num_prompts conf * ac_age conf * late_arrival_slack"
    "0 < ac_num_prompts conf * ac_age conf * late_arrival_slack"
    using b by (auto simp: rb_init_def split: if_splits)
  have a: "1 \<le> ac_age conf" using max(2) n by (simp add: late_arrival_slack_def zero_less_mult_iff)
  note wf = rb_init_wf [OF b]
  let ?c = "collector_init (ac_num_prompts conf) (collector_age conf) (ac_max_failures conf) (ac_teachers conf) step"
  have r0: "r0 = \<lparr>cfg = conf, world = sys_init ?c batches b, t_phase = Filling, t_step = step, t_version = step,
      mailbox = Set_weight_version step # (if ac_val_at_start conf \<and> step = 0 then [Pause, Resume] else []), trained = []\<rparr>"
    using st b by (simp add: async_start_def Let_def)
  have "world_inv step (sys_init ?c batches b)"
    unfolding world_inv_def by (intro conjI init_invs [OF n age(1)]) (simp add: origin_inv_def)
  then show ?thesis
    using wf max a n age step
    by (simp add: run_inv_def r0 mail_inv_def version_phase_inv_def buffer_inv_def config_inv_def raised_inv_def
        consumed_to_def)
qed

section \<open>Concrete runs\<close>

lemma run_reach_trans: "run_reach A r1 r2 \<Longrightarrow> run_reach A r0 r1 \<Longrightarrow> run_reach A r0 r2"
  by (induction rule: run_reach.induct) (auto intro: run_reach.intros)

fun calm_moves :: "'v run \<Rightarrow> 'v move list \<Rightarrow> bool" where
  "calm_moves r [] = True"
| "calm_moves r (m # ms) \<longleftrightarrow> calm r m \<and> (case run_step r m of None \<Rightarrow> True | Some r' \<Rightarrow> calm_moves r' ms)"

lemma run_moves_reach: "run_moves r ms = Some r' \<Longrightarrow> calm_moves r ms \<Longrightarrow> run_reach calm r r'"
proof (induction ms arbitrary: r)
  case Nil
  then show ?case by (simp add: run_start)
next
  case (Cons m ms)
  then obtain r1 where r1: "run_step r m = Some r1" "run_reach calm r1 r'" by (auto split: option.splits)
  have "run_reach calm r r1" by (rule run_next [OF run_start _ r1(1)]) (use Cons.prems(2) in simp)
  with r1(2) show ?case by (rule run_reach_trans)
qed

definition demo_conf :: async_config where
  "demo_conf = \<lparr>ac_num_prompts = 1, ac_age = 1, ac_grpo_age = None, ac_max_failures = 20, ac_teachers = False,
     ac_max_num_steps = 10, ac_val_period = 0, ac_val_at_start = False, ac_val_at_end = False\<rparr>"

definition produce :: "nat move list" where
  "produce = [Collector Tick, Collector Lock, Collector (Gen_ok [Map.empty]), Collector Add_done]"

definition refit :: "nat move list" where
  "refit = [Trainer, Deliver, Collector Refit_granted, Trainer]"

text \<open>Two groups are produced, for steps 0 and 1, and the first step is trained.\<close>

definition first_step :: "nat move list" where
  "first_step = Deliver # produce @ produce @ [Trainer, Trainer] @ refit"

text \<open>After a restart at step 1: one group each for steps 1 and 2, and the trainer goes on to step 3.\<close>

definition after_restart :: "nat move list" where
  "after_restart = Deliver # produce @ [Trainer, Trainer] @ refit @ [Deliver, Deliver] @ produce @ [Trainer] @ refit
     @ [Deliver, Deliver, Trainer]"

definition demo_run :: "nat run option" where
  "demo_run = (case async_start demo_conf 0 5 None of Inl e \<Rightarrow> None | Inr r \<Rightarrow> run_moves r first_step)"

lemmas async_simps = run_step_def trainer_turn_def sample_turn_def raise_if_collector_unhealthy_def check_health_def
  is_healthy_def refit_messages_def validates_def calm_def

lemma demo_run_value:
  "\<exists>r0 r. async_start demo_conf 0 5 None = Inr r0 \<and> demo_run = Some r \<and> run_moves r0 first_step = Some r \<and> calm_moves r0 first_step
     \<and> map fst (trained r) = [0] \<and> t_step r = 1 \<and> t_phase r = Sampling \<and> \<not> stopped (coll (world r)) \<and> cfg r = demo_conf"
  by (simp add: demo_run_def async_start_def rb_init_def demo_conf_def late_arrival_slack_def collector_age_def sys_init_def
      collector_init_def first_step_def produce_def refit_def async_simps run_simps sample_simps rb_size_def)

section \<open>Properties\<close>

text \<open>C2: Asynchronous training consumes exactly what was produced for each step. Starting with an empty
  buffer, in every interleaving of collector, messages and trainer in which no new version reaches the collector under
  a rolled-out batch: the trainer has trained on the consecutive versions from the start step on, and
  on each version T on exactly the num_prompts_per_step groups the collector tagged with T, all generated with a version
  between T minus the collector's age bound and T; no group is refused by
  the buffer; and the trainer never raises, except the RuntimeError for a collector that really is unhealthy.\<close>

theorem async_training_exact:
  assumes "async_start conf step batches None = Inr r0" and "0 < ac_num_prompts conf"
    and "0 \<le> collector_age conf" and "collector_age conf \<le> ac_age conf" and "0 \<le> step"
    and "run_reach calm r0 r"
  shows "map fst (trained r) = [step..step + int (length (trained r)) - 1]
    \<and> (\<forall>(T, groups)\<in>set (trained r).
         groups = map fst (filter (\<lambda>e. e_target e = T) (stored (world r)))
         \<and> int (length groups) = ac_num_prompts conf
         \<and> (\<forall>e\<in>set (stored (world r)). e_target e = T \<longrightarrow> T - collector_age conf \<le> e_version e \<and> e_version e \<le> T))
    \<and> stored (world r) = counted (world r)
    \<and> (\<forall>e. t_phase r = Raised e \<longrightarrow> e = RuntimeError \<and> \<not> is_healthy (coll (world r)))"
proof -
  let ?s = "world r" and ?a = "consumed_to step r"
  have inv: "run_inv step r" using run_reach_inv [OF assms(6)] async_start_inv [OF assms(1-5)] by blast
  have cfg: "cfg r = conf"
    using assms(6)
  proof (induction rule: run_reach.induct)
    case run_start
    then show ?case using assms(1) by (auto simp: async_start_def Let_def bind_res_eq_Inr)
  next
    case (run_next r m r')
    then show ?case
      by (auto simp: run_step_def trainer_turn_def sample_turn_def Let_def
          split: move.splits if_splits list.splits trainer_phase.splits sum.splits prod.splits option.splits)
  qed
  have c: "num_prompts_per_step (coll ?s) = ac_num_prompts conf" "max_trajectory_age_steps (coll ?s) = collector_age conf"
    using inv cfg by (simp_all add: run_inv_def config_inv_def)
  have b: "buffer_inv step r" and w: "count_inv step ?s" "fresh_inv ?s" using inv by (simp_all add: run_inv_def world_inv_def)
  have trained: "trained r = map (\<lambda>t. (t, map fst (filter (\<lambda>e. e_target e = t) (stored ?s)))) [step..?a - 1]"
    and st: "stored ?s = counted ?s" and next_t: "?a \<le> next_target (coll ?s)"
    and old: "\<forall>e\<in>set (stored ?s). e_target e < ?a \<longrightarrow> e_version e \<le> e_target e"
    using b by (simp_all add: buffer_inv_def Let_def)
  have plan: "map e_target (stored ?s) = target_plan (ac_num_prompts conf) step (next_target (coll ?s)) (groups_for_target (coll ?s))"
    using w(1) c st by (simp add: count_inv_def)
  have group: "int (length (filter (\<lambda>e. e_target e = t) (stored ?s))) = ac_num_prompts conf" if "step \<le> t" "t < ?a" for t
    using length_filter_map [of "\<lambda>x. x = t" e_target "stored ?s"] that next_t assms(2)
    unfolding plan by (simp add: target_plan_at)
  have fresh: "t - collector_age conf \<le> e_version e \<and> e_version e \<le> t"
    if "t < ?a" "e \<in> set (stored ?s)" "e_target e = t" for t e
    using w(2) that c(2) st old by (auto simp: fresh_inv_def)
  have "\<forall>(T, groups)\<in>set (trained r). groups = map fst (filter (\<lambda>e. e_target e = T) (stored ?s))
       \<and> int (length groups) = ac_num_prompts conf
       \<and> (\<forall>e\<in>set (stored ?s). e_target e = T \<longrightarrow> T - collector_age conf \<le> e_version e \<and> e_version e \<le> T)"
    unfolding trained using group fresh by auto
  moreover have "map fst (trained r) = [step..step + int (length (trained r)) - 1]"
  proof -
    have "map fst (trained r) = [step..?a - 1]" unfolding trained by (simp add: comp_def)
    then show ?thesis by (simp add: consumed_to_def)
  qed
  moreover have "\<forall>e. t_phase r = Raised e \<longrightarrow> e = RuntimeError \<and> \<not> is_healthy (coll ?s)"
    using inv by (simp add: run_inv_def raised_inv_def)
  ultimately show ?thesis using st by blast
qed


theorem async_training_exact_witness:
  "\<exists>r. demo_run = Some r \<and> map fst (trained r) = [0] \<and> length (snd (hd (trained r))) = 1 \<and> stored (world r) = counted (world r)"
proof -
  obtain r0 r where r: "async_start demo_conf 0 5 None = Inr r0" "demo_run = Some r" "run_reach calm r0 r" "map fst (trained r) = [0]"
    using demo_run_value by (metis run_moves_reach)
  have conf: "ac_num_prompts demo_conf = 1" "collector_age demo_conf = 1" "ac_age demo_conf = 1"
    by (simp_all add: demo_conf_def collector_age_def)
  obtain T gs where "trained r = [(T, gs)]" using r(4) by auto
  then show ?thesis
    using async_training_exact [OF r(1) _ _ _ _ r(3)] conf r(2,4) by auto
qed

end
