(* ===== verification/Async_Progress.thy ===== *)
theory Async_Progress
  imports Async_Training
begin

text \<open>
  Progress of the asynchronous training loop of \<open>Async_Training\<close>, and what a restart with a restored buffer does.
  From every reachable state in which the collector is running, a continuation is built that completes the
  trainer's step: the collector finishes the batch in hand, handles its messages, produces the
  groups missing for the step, and the trainer samples, trains and refits.
\<close>

section \<open>Progress\<close>

text \<open>What the flags will be once the messages in the mailbox have been handled.\<close>

fun settle :: "'v event list \<Rightarrow> bool \<times> bool \<Rightarrow> bool \<times> bool" where
  "settle [] f = f"
| "settle (Pause # box) f = settle box (True, snd f)"
| "settle (Resume # box) f = settle box (False, snd f)"
| "settle (Prepare_refit # box) f = settle box (fst f, True)"
| "settle (Resume_after_refit # box) f = settle box (fst f, False)"
| "settle (_ # box) f = settle box f"

lemma settle_prepare: "settle (box @ [Prepare_refit]) f = (fst (settle box f), True)"
  by (induction box f rule: settle.induct) simp_all

definition flags :: "collector \<Rightarrow> bool \<times> bool" where
  "flags c = (paused c, refit_requested c)"

definition flag_inv :: "'v run \<Rightarrow> bool" where
  "flag_inv r \<longleftrightarrow> settle (mailbox r) (flags (coll (world r))) = (False, t_phase r = Refit_wait)"

definition phase_inv :: "'v sys \<Rightarrow> bool" where
  "phase_inv s \<longleftrightarrow> (phase s = Returned \<longrightarrow> stopped (coll s)) \<and> (\<forall>v. phase s \<noteq> Enqueueing v []) \<and> 0 < epoch_len s"

lemma own_event_flags: "sys_step s ev = Some s' \<Longrightarrow> own_event ev \<Longrightarrow> flags (coll s') = flags (coll s)"
  unfolding sys_step_def flags_def
  by (cases ev)
    (auto simp: loop_head_def lock_taken_def generated_def stage_failed_def add_done_def start_enqueue_def batch_done_def
      Let_def coll_ops split: phase.splits if_splits list.splits prod.splits)

lemma message_flags:
  "sys_step s ev = Some s' \<Longrightarrow> message ev \<Longrightarrow> settle box (flags (coll s')) = settle (ev # box) (flags (coll s))"
  unfolding sys_step_def flags_def by (cases ev) (auto simp: coll_ops)

lemma sys_step_phase_inv:
  assumes "sys_step s ev = Some s'" and "phase_inv s"
  shows "phase_inv s'"
  using assms unfolding sys_step_def phase_inv_def
  by (cases ev)
    (auto simp: loop_head_def lock_taken_def generated_def stage_failed_def add_done_def start_enqueue_def batch_done_def
      Let_def coll_ops split: phase.splits if_splits list.splits sum.splits prod.splits)

text \<open>A state from which the trainer can go on: the invariants, and the collector has not stopped.\<close>

definition live :: "int \<Rightarrow> 'v run \<Rightarrow> bool" where
  "live start r \<longleftrightarrow> run_inv start r \<and> flag_inv r \<and> phase_inv (world r)"

lemma trainer_keeps_flags:
  assumes "flag_inv r" and "trainer_turn r = Some r'"
  shows "flag_inv r'"
  using assms
  by (cases "t_phase r")
    (auto simp: trainer_turn_def flag_inv_def settle_prepare sample_turn_def refit_messages_def Let_def
      split: if_splits sum.splits prod.splits option.splits)

lemma trainer_keeps_phase_inv:
  "phase_inv (world r) \<Longrightarrow> trainer_turn r = Some r' \<Longrightarrow> phase_inv (world r')"
  by (cases "t_phase r")
    (auto simp: trainer_turn_def phase_inv_def sample_turn_def Let_def split: if_splits sum.splits prod.splits option.splits)

lemma run_step_live:
  assumes "live start r" and "calm r m" and "run_step r m = Some r'"
  shows "live start r'"
proof -
  have inv: "run_inv start r'" using assms run_step_keeps_inv by (auto simp: live_def)
  moreover have "flag_inv r' \<and> phase_inv (world r')"
  proof (cases m)
    case (Collector ev)
    then obtain s' where "own_event ev" "sys_step (world r) ev = Some s'" "r' = r\<lparr>world := s'\<rparr>"
      using assms(3) by (auto simp: run_step_def split: if_splits)
    then show ?thesis
      using assms(1) own_event_flags sys_step_phase_inv by (fastforce simp: live_def flag_inv_def)
  next
    case Deliver
    then obtain ev rest s' where ev: "mailbox r = ev # rest" "sys_step (world r) ev = Some s'"
        "r' = r\<lparr>world := s', mailbox := rest\<rparr>"
      using assms(3) by (auto simp: run_step_def split: list.splits)
    have "message ev" using assms(1) ev(1) by (simp add: live_def run_inv_def mail_inv_def)
    then show ?thesis
      using assms(1) ev message_flags [OF ev(2), of rest] sys_step_phase_inv [OF ev(2)] by (simp add: live_def flag_inv_def)
  next
    case Trainer
    then show ?thesis
      using assms(1,3) trainer_keeps_flags trainer_keeps_phase_inv by (auto simp: live_def run_step_def)
  qed
  ultimately show ?thesis by (simp add: live_def)
qed

lemma async_start_live:
  assumes "async_start conf step batches None = Inr r0" and "0 < ac_num_prompts conf"
    and "0 \<le> collector_age conf" and "collector_age conf \<le> ac_age conf" and "0 \<le> step" and "0 < batches"
  shows "live step r0"
proof -
  have "flag_inv r0 \<and> phase_inv (world r0)"
    using assms(1,6) by (auto simp: async_start_def Let_def bind_res_eq_Inr flag_inv_def flags_def phase_inv_def sys_init_def)
  then show ?thesis using async_start_inv [OF assms(1-5)] by (simp add: live_def)
qed

lemma run_reach_live: "run_reach calm r0 r \<Longrightarrow> live start r0 \<Longrightarrow> live start r"
  by (induction rule: run_reach.induct) (auto intro: run_step_live)

text \<open>Finishing the batch in hand takes the collector back to the head of its loop.\<close>

fun prank :: "'v phase \<Rightarrow> nat" where
  "prank Loop_head = 0"
| "prank Pulled = 3"
| "prank (Generating v) = 2"
| "prank (Scoring v gs) = length gs + 1"
| "prank (Enqueueing v gs) = length gs"
| "prank Returned = 0"

definition same_trainer :: "'v run \<Rightarrow> 'v run \<Rightarrow> bool" where
  "same_trainer r r' \<longleftrightarrow>
     cfg r' = cfg r \<and> t_phase r' = t_phase r \<and> t_step r' = t_step r \<and> t_version r' = t_version r"

lemma same_trainer_trans: "same_trainer r r1 \<Longrightarrow> same_trainer r1 r2 \<Longrightarrow> same_trainer r r2"
  by (simp add: same_trainer_def)

lemma own_move:
  assumes "own_event ev" and "sys_step (world r) ev = Some s'"
  shows "run_reach calm r (r\<lparr>world := s'\<rparr>)"
  by (rule run_next [OF run_start, of _ _ "Collector ev"]) (use assms in \<open>simp_all add: calm_def run_step_def\<close>)

lemma own_run:
  assumes "sys_run (world r) evs = Some s'" and "list_all own_event evs"
  shows "run_reach calm r (r\<lparr>world := s'\<rparr>)"
  using assms
proof (induction evs arbitrary: r)
  case Nil
  then have "r\<lparr>world := s'\<rparr> = r" by auto
  then show ?case using run_start [of calm r] by simp
next
  case (Cons ev evs)
  then obtain s1 where s1: "sys_step (world r) ev = Some s1" "sys_run s1 evs = Some s'"
    by (auto split: option.splits)
  have "run_reach calm (r\<lparr>world := s1\<rparr>) (r\<lparr>world := s'\<rparr>)"
    using Cons.IH [of "r\<lparr>world := s1\<rparr>"] s1(2) Cons.prems(2) by simp
  then show ?case by (rule run_reach_trans) (rule own_move [OF _ s1(1)], use Cons.prems(2) in simp)
qed

lemma add_done_shrinks:
  assumes "run_inv start r" and "phase (world r) = Enqueueing v (g # gs)" and "\<not> stopped (coll (world r))"
  shows "prank (phase (add_done (world r) v g gs)) \<le> length gs"
proof -
  let ?s = "world r" and ?t = "next_target (coll (world r))"
  have "\<not> ahead (coll ?s)" using assms(1,2) by (auto simp: run_inv_def world_inv_def version_inv_def)
  then have "int (rb_size (buffer ?s)) < max_size (buffer ?s)" by (rule buffer_has_room [OF assms(1)])
  then have "fst (rb_add (buffer ?s) g v ?t) = Success" by (simp add: rb_add_def rb_size_def)
  then show ?thesis by (auto simp: add_done_def Let_def split_def)
qed

lemma finish_batch_step:
  assumes live: "live start r" and "\<not> stopped (coll (world r))" and "phase (world r) \<noteq> Loop_head"
  shows "\<exists>ev s'. own_event ev \<and> sys_step (world r) ev = Some s' \<and> \<not> stopped (coll s')
    \<and> prank (phase s') < prank (phase (world r))"
proof -
  let ?s = "world r"
  have ph: "phase_inv ?s" and inv: "run_inv start r" using live by (simp_all add: live_def)
  show ?thesis
  proof (cases "phase ?s")
    case Pulled
    then show ?thesis
      using assms(2) by (intro exI [of _ Lock]) (auto simp: sys_step_def lock_taken_def)
  next
    case (Generating v)
    then show ?thesis
      using assms(2) by (intro exI [of _ "Gen_ok []"]) (auto simp: sys_step_def generated_def)
  next
    case (Scoring v gs)
    then show ?thesis
      using assms(2) by (intro exI [of _ Score_ok]) (auto simp: sys_step_def)
  next
    case (Enqueueing v gs)
    then obtain g gs' where gs: "gs = g # gs'" using ph by (cases gs) (auto simp: phase_inv_def)
    then show ?thesis
      using assms(2) Enqueueing add_done_shrinks [OF inv, of v g gs']
      by (intro exI [of _ Add_done]) (auto simp: sys_step_def)
  qed (use assms ph in \<open>simp_all add: phase_inv_def\<close>)
qed

lemma finish_batch:
  assumes "live start r" and "\<not> stopped (coll (world r))"
  shows "\<exists>s'. run_reach calm r (r\<lparr>world := s'\<rparr>) \<and> \<not> stopped (coll s') \<and> phase s' = Loop_head"
  using assms
proof (induction "prank (phase (world r))" arbitrary: r rule: less_induct)
  case less
  show ?case
  proof (cases "phase (world r) = Loop_head")
    case True
    then show ?thesis using less.prems run_start [of calm r] by (intro exI [of _ "world r"]) simp
  next
    case False
    then obtain ev s1 where s1: "own_event ev" "sys_step (world r) ev = Some s1" "\<not> stopped (coll s1)"
        "prank (phase s1) < prank (phase (world r))"
      using finish_batch_step [OF less.prems] by blast
    let ?r1 = "r\<lparr>world := s1\<rparr>"
    have reach: "run_reach calm r ?r1" by (rule own_move [OF s1(1,2)])
    obtain s' where "run_reach calm ?r1 (?r1\<lparr>world := s'\<rparr>)" "\<not> stopped (coll s')" "phase s' = Loop_head"
      using less.hyps [of ?r1] s1(3,4) run_reach_live [OF reach less.prems(1)] by auto
    then show ?thesis using run_reach_trans [OF _ reach] by auto
  qed
qed

text \<open>At the head of the loop every message can be handled.\<close>

lemma message_step:
  assumes "message ev"
  shows "\<exists>s'. sys_step s ev = Some s' \<and> stopped (coll s') = stopped (coll s) \<and> phase s' = phase s"
  using assms by (cases ev) (auto simp: sys_step_def coll_ops)

lemma empty_mailbox:
  assumes "live start r" and "\<not> stopped (coll (world r))" and "phase (world r) = Loop_head"
  shows "\<exists>s'. run_reach calm r (r\<lparr>world := s', mailbox := []\<rparr>) \<and> \<not> stopped (coll s') \<and> phase s' = Loop_head"
  using assms
proof (induction "mailbox r" arbitrary: r)
  case Nil
  have "r\<lparr>world := world r, mailbox := []\<rparr> = r" using Nil.hyps by simp
  then show ?case using Nil.prems run_start [of calm r] by metis
next
  case (Cons ev rest)
  have msg: "message ev" using Cons.prems(1) Cons.hyps(2) [symmetric] by (simp add: live_def run_inv_def mail_inv_def)
  obtain s1 where s1: "sys_step (world r) ev = Some s1" "\<not> stopped (coll s1)" "phase s1 = Loop_head"
    using message_step [OF msg, of "world r"] Cons.prems(2,3) by auto
  let ?r1 = "r\<lparr>world := s1, mailbox := rest\<rparr>"
  have reach: "run_reach calm r ?r1"
    by (rule run_next [OF run_start, of _ _ Deliver])
      (use Cons.hyps(2) [symmetric] Cons.prems(3) s1(1) in \<open>auto simp: calm_def run_step_def split: event.splits\<close>)
  obtain s' where "run_reach calm ?r1 (?r1\<lparr>world := s', mailbox := []\<rparr>)" "\<not> stopped (coll s')" "phase s' = Loop_head"
    using Cons.hyps(1) [of ?r1] s1(2,3) run_reach_live [OF reach Cons.prems(1)] by auto
  then show ?case using run_reach_trans [OF _ reach] by auto
qed

text \<open>One more group for the current step, from the head of the loop.\<close>

lemma produce_group:
  fixes s :: "'v sys"
  assumes "phase s = Loop_head" and "\<not> stopped (coll s)" and "\<not> hold_off (coll s)" and "0 < epoch_len s"
    and room: "int (rb_size (buffer s)) < max_size (buffer s)"
  shows "\<exists>evs s'. list_all own_event evs \<and> sys_run s evs = Some s' \<and> phase s' = Loop_head \<and> \<not> stopped (coll s')
    \<and> next_target (coll s') = next_target (count_group (coll s))
    \<and> groups_for_target (coll s') = groups_for_target (count_group (coll s))"
proof -
  define g :: "'v trajectory" where "g = Map.empty"
  define s1 where "s1 = (if epoch_len s \<le> dl_pos s then s\<lparr>dl_pos := 0\<rparr> else s)"
  have 1: "sys_run s (if epoch_len s \<le> dl_pos s then [Tick] else []) = Some s1"
    using assms by (simp add: s1_def sys_step_def loop_head_def)
  define s2 where "s2 = s1\<lparr>dl_pos := dl_pos s1 + 1, phase := Enqueueing (weight_version (coll s)) [g]\<rparr>"
  have c: "coll s1 = coll s" "dl_pos s1 < epoch_len s1" "phase s1 = Loop_head" "buffer s1 = buffer s"
    using assms by (auto simp: s1_def)
  have flags: "\<not> paused (coll s)" "\<not> refit_requested (coll s)" using assms(3) by (auto simp: hold_off_def)
  have 2: "sys_run s1 ([Tick, Lock, Gen_ok [g]] @ (if has_distillation_teachers (coll s) then [Score_ok] else [])) = Some s2"
    using assms c flags by (simp add: sys_step_def loop_head_def lock_taken_def generated_def start_enqueue_def s2_def)
  have st: "fst (rb_add (buffer s) g (weight_version (coll s)) (next_target (coll s))) = Success"
    using room by (simp add: rb_add_def rb_size_def)
  let ?s3 = "add_done s2 (weight_version (coll s)) g []"
  have 3: "sys_run s2 [Add_done] = Some ?s3" by (simp add: sys_step_def s2_def)
  have s3: "phase ?s3 = Loop_head" "\<not> stopped (coll ?s3)" "next_target (coll ?s3) = next_target (count_group (coll s))"
    "groups_for_target (coll ?s3) = groups_for_target (count_group (coll s))"
    using st assms(2) c by (auto simp: add_done_def Let_def split_def s2_def)
  have app: "sys_run a xs = Some b \<Longrightarrow> sys_run b ys = Some d \<Longrightarrow> sys_run a (xs @ ys) = Some d" for a b d :: "'v sys" and xs ys
    by (induction xs arbitrary: a) (auto split: option.splits)
  let ?evs = "(if epoch_len s \<le> dl_pos s then [Tick] else []) @ ([Tick, Lock, Gen_ok [g]]
      @ (if has_distillation_teachers (coll s) then [Score_ok] else [])) @ [Add_done]"
  have "sys_run s ?evs = Some ?s3" using app [OF 1 app [OF 2 3]] by simp
  moreover have "list_all own_event ?evs" by simp
  ultimately show ?thesis using s3 by blast
qed

lemma live_idle:
  assumes "live start r" and "mailbox r = []" and "t_phase r \<noteq> Refit_wait"
  shows "\<not> paused (coll (world r))" and "\<not> refit_requested (coll (world r))"
    and "weight_version (coll (world r)) = t_version r"
  using assms by (auto simp: live_def flag_inv_def flags_def run_inv_def mail_inv_def)

text \<open>The collector can always complete the groups of the step the trainer waits for.\<close>

lemma complete_groups:
  assumes "live start r" and "\<not> stopped (coll (world r))" and "phase (world r) = Loop_head" and "mailbox r = []"
    and "t_phase r \<in> {Filling, Sampling}"
  shows "\<exists>s'. run_reach calm r (r\<lparr>world := s'\<rparr>) \<and> \<not> stopped (coll s') \<and> phase s' = Loop_head
    \<and> t_version r < next_target (coll s')"
  using assms
proof (induction "nat (ac_num_prompts (cfg r) - groups_for_target (coll (world r)))" arbitrary: r rule: less_induct)
  case less
  let ?s = "world r" and ?c = "coll (world r)"
  show ?case
  proof (cases "t_version r < next_target ?c")
    case True
    then show ?thesis using less.prems run_start [of calm r] by (intro exI [of _ ?s]) simp
  next
    case False
    have inv: "run_inv start r" using less.prems(1) by (simp add: live_def)
    have T: "next_target ?c = t_version r" "groups_for_target ?c < ac_num_prompts (cfg r)"
      using False groups_at_step(2,3) [OF inv] less.prems(5) by auto
    have idle: "\<not> paused ?c" "\<not> refit_requested ?c" "weight_version ?c = t_version r"
      using live_idle [OF less.prems(1,4)] less.prems(5) by auto
    have "\<not> ahead ?c" "num_prompts_per_step ?c = ac_num_prompts (cfg r)"
      using inv idle T by (auto simp: ahead_def run_inv_def config_inv_def)
    then obtain evs s1 where s1: "list_all own_event evs" "sys_run ?s evs = Some s1" "phase s1 = Loop_head" "\<not> stopped (coll s1)"
        "next_target (coll s1) = next_target (count_group ?c)" "groups_for_target (coll s1) = groups_for_target (count_group ?c)"
      using produce_group [of ?s] less.prems(1-3) idle buffer_has_room [OF inv]
      by (auto simp: hold_off_def live_def phase_inv_def)
    let ?r1 = "r\<lparr>world := s1\<rparr>"
    have reach: "run_reach calm r ?r1" by (rule own_run [OF s1(2,1)])
    show ?thesis
    proof (cases "t_version r < next_target (coll s1)")
      case True
      then show ?thesis using reach s1(3,4) by blast
    next
      case False
      then have "groups_for_target (coll s1) = groups_for_target ?c + 1"
        using s1(5,6) T by (auto simp: count_group_def split: if_splits)
      then obtain s' where "run_reach calm ?r1 (?r1\<lparr>world := s'\<rparr>)" "\<not> stopped (coll s')" "phase s' = Loop_head"
          "t_version r < next_target (coll s')"
        using less.hyps [of ?r1] run_reach_live [OF reach less.prems(1)] s1(3,4) less.prems(4,5) T(2) by auto
      then show ?thesis using run_reach_trans [OF _ reach] by auto
    qed
  qed
qed

lemma trainer_move: "trainer_turn r = Some r' \<Longrightarrow> run_reach calm r r'"
  by (rule run_next [OF run_start, of _ _ Trainer]) (simp_all add: calm_def run_step_def)

text \<open>From a quiet collector the trainer completes the step it is in.\<close>

lemma settle_down:
  assumes "live start r" and "\<not> stopped (coll (world r))"
  shows "\<exists>s'. run_reach calm r (r\<lparr>world := s', mailbox := []\<rparr>) \<and> \<not> stopped (coll s') \<and> phase s' = Loop_head"
proof -
  obtain s1 where s1: "run_reach calm r (r\<lparr>world := s1\<rparr>)" "\<not> stopped (coll s1)" "phase s1 = Loop_head"
    using finish_batch [OF assms] by blast
  then show ?thesis
    using empty_mailbox [OF run_reach_live [OF s1(1) assms(1)]] run_reach_trans [OF _ s1(1)] by force
qed

lemma finish_refit:
  assumes "live start r" and "\<not> stopped (coll (world r))" and "t_phase r = Refit_wait"
  shows "\<exists>r'. run_reach calm r r' \<and> t_step r' = t_step r + 1"
proof -
  obtain s1 where s1: "run_reach calm r (r\<lparr>world := s1, mailbox := []\<rparr>)" "\<not> stopped (coll s1)" "phase s1 = Loop_head"
    using settle_down [OF assms(1,2)] by blast
  let ?r1 = "r\<lparr>world := s1, mailbox := []\<rparr>"
  have "refit_requested (coll s1)"
    using run_reach_live [OF s1(1) assms(1)] assms(3) by (simp add: live_def flag_inv_def flags_def)
  then have "sys_step (world ?r1) Refit_granted = Some (s1\<lparr>refit_granted := True\<rparr>)"
    using s1(3) by (simp add: sys_step_def)
  then have 2: "run_reach calm ?r1 (?r1\<lparr>world := s1\<lparr>refit_granted := True\<rparr>\<rparr>)" by (intro own_move) simp_all
  let ?r2 = "?r1\<lparr>world := s1\<lparr>refit_granted := True\<rparr>\<rparr>"
  obtain r' where "trainer_turn ?r2 = Some r'" "t_step r' = t_step r + 1"
    using assms(3) by (simp add: trainer_turn_def)
  then show ?thesis using run_reach_trans [OF trainer_move run_reach_trans [OF 2 s1(1)]] by blast
qed

lemma finish_training:
  assumes "live start r" and "\<not> stopped (coll (world r))" and "t_phase r = Training"
  shows "\<exists>r'. run_reach calm r r' \<and> t_step r' = t_step r + 1"
proof -
  let ?r1 = "r\<lparr>mailbox := mailbox r @ [Prepare_refit], t_phase := Refit_wait\<rparr>"
  have 1: "run_reach calm r ?r1" using assms(3) by (intro trainer_move) (simp add: trainer_turn_def)
  then show ?thesis
    using finish_refit [OF run_reach_live [OF 1 assms(1)]] assms(2) run_reach_trans [OF _ 1] by force
qed

lemma live_healthy: "live start r \<Longrightarrow> \<not> stopped (coll (world r)) \<Longrightarrow> raise_if_collector_unhealthy (world r) = Inr ()"
  by (auto simp: live_def run_inv_def world_inv_def failure_inv_def raise_if_collector_unhealthy_def check_health_def)

lemma finish_sampling:
  assumes "live start r" and "\<not> stopped (coll (world r))" and "t_phase r = Sampling"
    and "t_step r < ac_max_num_steps (cfg r)" and next_t: "t_version r < next_target (coll (world r))"
  shows "\<exists>r'. run_reach calm r r' \<and> t_step r' = t_step r + 1"
proof -
  have inv: "run_inv start r" using assms(1) by (simp add: live_def)
  obtain avg b' where "rb_sample (buffer (world r)) (ac_num_prompts (cfg r)) (t_version r) (ac_age (cfg r))
      = Inr (Some (map fst (filter (\<lambda>e. e_target e = t_version r) (stored (world r))), avg), b')"
    using sample_outcome [OF inv assms(3)] next_t by auto
  moreover have "int (length (filter (\<lambda>e. e_target e = t_version r) (stored (world r)))) = ac_num_prompts (cfg r)"
    using groups_at_step(1) [OF inv] assms(3) next_t by simp
  ultimately have turn: "t_phase (sample_turn r) = Training" "t_step (sample_turn r) = t_step r"
      "stopped (coll (world (sample_turn r))) = stopped (coll (world r))"
    by (simp_all add: sample_turn_def Let_def)
  have "trainer_turn r = Some (sample_turn r)"
    using assms(3,4) live_healthy [OF assms(1,2)] by (simp add: trainer_turn_def)
  then have 1: "run_reach calm r (sample_turn r)" by (rule trainer_move)
  show ?thesis
    using finish_training [OF run_reach_live [OF 1 assms(1)]] turn assms(2) run_reach_trans [OF _ 1] by force
qed

lemma finish_waiting:
  assumes "live start r" and "\<not> stopped (coll (world r))" and "t_phase r \<in> {Filling, Sampling}"
    and "t_step r < ac_max_num_steps (cfg r)"
  shows "\<exists>r'. run_reach calm r r' \<and> t_step r' = t_step r + 1"
proof -
  obtain s1 where s1: "run_reach calm r (r\<lparr>world := s1, mailbox := []\<rparr>)" "\<not> stopped (coll s1)" "phase s1 = Loop_head"
    using settle_down [OF assms(1,2)] by blast
  let ?r1 = "r\<lparr>world := s1, mailbox := []\<rparr>"
  have live1: "live start ?r1" by (rule run_reach_live [OF s1(1) assms(1)])
  obtain s2 where s2: "run_reach calm ?r1 (?r1\<lparr>world := s2\<rparr>)" "\<not> stopped (coll s2)" "t_version r < next_target (coll s2)"
    using complete_groups [OF live1] s1(2,3) assms(3) by auto
  let ?r2 = "?r1\<lparr>world := s2\<rparr>"
  have 2: "run_reach calm r ?r2" by (rule run_reach_trans [OF s2(1) s1(1)])
  have live2: "live start ?r2" by (rule run_reach_live [OF 2 assms(1)])
  show ?thesis
  proof (cases "t_phase r = Sampling")
    case True
    then show ?thesis using finish_sampling [OF live2] s2(2,3) assms(4) run_reach_trans [OF _ 2] by force
  next
    case False
    then have ph: "t_phase ?r2 = Filling" using assms(3) by simp
    have inv: "run_inv start ?r2" using live2 by (simp add: live_def)
    have wf: "rb_wf (buffer s2)" and es: "rb_entries (buffer s2) = filter (\<lambda>e. t_version r \<le> e_target e) (stored s2)"
      using inv ph by (auto simp: run_inv_def buffer_inv_def version_phase_inv_def Let_def)
    have "filter (\<lambda>e. e_target e = t_version r) (stored s2)
        = filter (\<lambda>e. e_target e = t_version r) (filter (\<lambda>e. t_version r \<le> e_target e) (stored s2))"
      by (simp add: filter_filter) (rule filter_cong, auto)
    then have "length (filter (\<lambda>e. e_target e = t_version r) (stored s2)) \<le> rb_size (buffer s2)"
      using rb_wf_lengths(3) [OF wf] es length_filter_le by (metis rb_size_def)
    moreover have "int (length (filter (\<lambda>e. e_target e = t_version r) (stored s2))) = ac_num_prompts (cfg r)"
      using groups_at_step(1) [OF inv] ph s2(3) by simp
    ultimately have "ac_num_prompts (cfg r) \<le> int (rb_size (buffer s2))" by linarith
    then have 3: "run_reach calm ?r2 (?r2\<lparr>t_phase := Sampling\<rparr>)"
      using ph by (intro trainer_move) (simp add: trainer_turn_def)
    have 4: "run_reach calm r (?r2\<lparr>t_phase := Sampling\<rparr>)" by (rule run_reach_trans [OF 3 2])
    show ?thesis
      using finish_sampling [OF run_reach_live [OF 4 assms(1)]] s2(2,3) assms(4) run_reach_trans [OF _ 4] by force
  qed
qed

section \<open>Properties\<close>

text \<open>C3: Asynchronous training never deadlocks. From every state reachable as above, as long as the collector has not
  stopped and steps are left, the system can go on so that the trainer completes the step it is in: whatever the
  collector, the mailbox and the buffer look like, some continuation (without failures) raises the step counter by one.\<close>

theorem async_training_progress:
  assumes "async_start conf step batches None = Inr r0" and "0 < ac_num_prompts conf"
    and "0 \<le> collector_age conf" and "collector_age conf \<le> ac_age conf" and "0 \<le> step" and "0 < batches"
    and "run_reach calm r0 r" and "\<not> stopped (coll (world r))"
    and "t_phase r \<noteq> Finished" and "t_step r < ac_max_num_steps (cfg r)"
  shows "\<exists>r'. run_reach calm r r' \<and> t_step r' = t_step r + 1"
proof -
  have live: "live step r" using run_reach_live [OF assms(7)] async_start_live [OF assms(1-6)] by blast
  have "t_phase r \<noteq> Raised e" for e
    using live assms(8) by (auto simp: live_def run_inv_def raised_inv_def world_inv_def failure_inv_def)
  then consider "t_phase r \<in> {Filling, Sampling}" | "t_phase r = Training" | "t_phase r = Refit_wait"
    using assms(9) by (cases "t_phase r") auto
  then show ?thesis
    using finish_waiting [OF live assms(8)] finish_training [OF live assms(8)] finish_refit [OF live assms(8)] assms(10)
    by cases blast+
qed

theorem async_training_progress_witness:
  "\<exists>r r'. demo_run = Some r \<and> run_reach calm r r' \<and> t_step r' = 2"
proof -
  obtain r0 r where r: "async_start demo_conf 0 5 None = Inr r0" "demo_run = Some r" "run_reach calm r0 r"
      "t_step r = 1" "t_phase r = Sampling" "\<not> stopped (coll (world r))" "cfg r = demo_conf"
    using demo_run_value by (metis run_moves_reach)
  have conf: "ac_num_prompts demo_conf = 1" "collector_age demo_conf = 1" "ac_age demo_conf = 1" "ac_max_num_steps demo_conf = 10"
    by (simp_all add: demo_conf_def collector_age_def)
  show ?thesis
    using async_training_progress [OF r(1) _ _ _ _ _ r(3,6)] conf r(2,4,5,7) by auto
qed


end
