(* ===== verification/Checkpointing.thy ===== *)
theory Checkpointing
  imports Prelude "HOL-Library.Product_Lexorder"
begin

text \<open>
  The checkpoint manager, \<^verbatim>\<open>utils/checkpoint.py\<close> (class \<open>CheckpointManager\<close>): saving through
  a temporary directory, retention of the best \<open>k\<close> checkpoints and the latest one, selection of
  the best and the latest, and the paths a resume loads.

  The checkpoint directory is an association list of its entries in the order \<open>glob\<close> returns
  them, which is arbitrary. A directory name is a constructor per form the code writes
  (\<open>tmp_step_N\<close>, \<open>step_N\<close>, \<open>old_step_N\<close>) plus any other name. A directory's contents are
  its parsed \<open>training_info.json\<close> (numeric entries, as rationals; \<open>None\<close> when the file is
  missing), whether it has \<open>policy/optimizer\<close>, and the names of its other files. Renaming onto an existing
  directory raises, since none of these directories is empty.
\<close>

section \<open>State\<close>

datatype ckpt_name = Tmp_step nat | Step nat | Old_step nat | Other_dir string

record ckpt_dir =
  cd_info :: "rat dict option"
  cd_optimizer :: bool
  cd_files :: "string list"

type_synonym ckpt_fs = "(ckpt_name \<times> ckpt_dir) list"

record ckpt_config =
  metric_name :: "string option"
  higher_is_better :: bool
  keep_top_k :: "int option"

type_synonym history_entry = "nat \<times> ckpt_name \<times> rat dict"

section \<open>Reading the directory\<close>

fun history_entry_of :: "ckpt_name \<times> ckpt_dir \<Rightarrow> history_entry list" where
  "history_entry_of (Step n, d) = (case cd_info d of None \<Rightarrow> [] | Some info \<Rightarrow> [(n, Step n, info)])"
| "history_entry_of (_, d) = []"

definition load_checkpoint_history :: "ckpt_fs \<Rightarrow> history_entry list" where
  "load_checkpoint_history fs = concat (map history_entry_of fs)"

text \<open>
  A missing metric counts as minus infinity when higher is better and as plus infinity otherwise:
  the first component orders it below, respectively above, every value.
\<close>

definition metric_key :: "bool \<Rightarrow> string \<Rightarrow> rat dict \<Rightarrow> bool \<times> rat" where
  "metric_key higher name info =
     (case map_of info name of
        None \<Rightarrow> (\<not> higher, 0)
      | Some v \<Rightarrow> (higher, v))"

text \<open>\<open>list.sort(key=..., reverse=True)\<close> keeps equal elements in their order.\<close>

definition sort_desc :: "('a \<Rightarrow> 'k::linorder) \<Rightarrow> 'a list \<Rightarrow> 'a list" where
  "sort_desc key xs = rev (sort_key key (rev xs))"

definition sort_checkpoints_best_first ::
  "string option \<Rightarrow> bool \<Rightarrow> history_entry list \<Rightarrow> history_entry list" where
  "sort_checkpoints_best_first metric higher history =
     (case metric of
        None \<Rightarrow> sort_desc (\<lambda>(step, path, info). step) history
      | Some name \<Rightarrow>
          if higher then sort_desc (\<lambda>(step, path, info). (metric_key True name info, step)) history
          else sort_key (\<lambda>(step, path, info). (metric_key False name info, - int step)) history)"

fun step_of :: "ckpt_name \<Rightarrow> nat option" where
  "step_of (Step n) = Some n"
| "step_of _ = None"

definition step_dirs :: "ckpt_fs \<Rightarrow> nat list" where
  "step_dirs fs = List.map_filter (\<lambda>(name, d). step_of name) fs"

definition get_latest_checkpoint_path :: "ckpt_fs \<Rightarrow> ckpt_name option" where
  "get_latest_checkpoint_path fs =
     (if step_dirs fs = [] then None else Some (Step (last (sort (step_dirs fs)))))"

definition get_best_checkpoint_path :: "ckpt_config \<Rightarrow> ckpt_fs \<Rightarrow> ckpt_name option" where
  "get_best_checkpoint_path cfg fs =
     (let history = load_checkpoint_history fs in
      if history = [] then None
      else case metric_name cfg of
        None \<Rightarrow> get_latest_checkpoint_path fs
      | Some key \<Rightarrow>
          let valid = filter (\<lambda>(step, path, info). map_of info key \<noteq> None) history in
          if valid = [] then get_latest_checkpoint_path fs
          else Some (fst (snd (hd (sort_checkpoints_best_first (Some key) (higher_is_better cfg) valid)))))"

definition load_training_info :: "ckpt_fs \<Rightarrow> ckpt_name option \<Rightarrow> rat dict option result" where
  "load_training_info fs path =
     (case path of
        None \<Rightarrow> Inr None
      | Some p \<Rightarrow>
          (case map_of fs p of
             None \<Rightarrow> Inl OSError
           | Some d \<Rightarrow> (case cd_info d of None \<Rightarrow> Inl OSError | Some info \<Rightarrow> Inr (Some info))))"

text \<open>The paths are the checkpoint directory with the subdirectory below it.\<close>

definition has_optimizer :: "ckpt_fs \<Rightarrow> ckpt_name \<Rightarrow> bool" where
  "has_optimizer fs p = (case map_of fs p of None \<Rightarrow> False | Some d \<Rightarrow> cd_optimizer d)"

definition get_resume_paths ::
  "ckpt_fs \<Rightarrow> ckpt_name option \<Rightarrow> (ckpt_name \<times> string) option \<times> (ckpt_name \<times> string) option" where
  "get_resume_paths fs last_checkpoint_path =
     (case last_checkpoint_path of
        None \<Rightarrow> (None, None)
      | Some p \<Rightarrow>
          (Some (p, ''policy/weights''),
           if has_optimizer fs p then Some (p, ''policy/optimizer'') else None))"

definition get_pretrained_paths ::
  "ckpt_fs \<Rightarrow> ckpt_name \<Rightarrow> bool option \<Rightarrow> (ckpt_name \<times> string) option \<times> (ckpt_name \<times> string) option" where
  "get_pretrained_paths fs p restore_optimizer =
     (Some (p, ''policy/weights''),
      if \<not> (case restore_optimizer of None \<Rightarrow> True | Some r \<Rightarrow> r) then None
      else if \<not> has_optimizer fs p then None
      else Some (p, ''policy/optimizer''))"

section \<open>Writing the directory\<close>

definition rmtree :: "ckpt_name \<Rightarrow> ckpt_fs \<Rightarrow> ckpt_fs" where
  "rmtree p fs = dict_pop p fs"

definition rename_dir :: "ckpt_name \<Rightarrow> ckpt_name \<Rightarrow> ckpt_fs \<Rightarrow> ckpt_fs result" where
  "rename_dir p q fs =
     (case map_of fs p of
        None \<Rightarrow> Inl OSError
      | Some d \<Rightarrow> if map_of fs q \<noteq> None then Inl OSError else Inr (dict_set q d (dict_pop p fs)))"

definition init_tmp_checkpoint :: "ckpt_fs \<Rightarrow> nat \<Rightarrow> rat dict \<Rightarrow> bool \<Rightarrow> ckpt_name \<times> ckpt_fs" where
  "init_tmp_checkpoint fs step training_info has_run_config =
     (let save_dir = Tmp_step step;
          fs1 = (if map_of fs save_dir \<noteq> None then rmtree save_dir fs else fs)
      in (save_dir,
          dict_set save_dir
            \<lparr>cd_info = Some training_info, cd_optimizer = False,
             cd_files = (if has_run_config then [''config.yaml''] else [])\<rparr> fs1))"

definition remove_old_checkpoints :: "ckpt_config \<Rightarrow> bool \<Rightarrow> ckpt_fs \<Rightarrow> ckpt_fs" where
  "remove_old_checkpoints cfg exclude_latest fs =
     (case keep_top_k cfg of
        None \<Rightarrow> fs
      | Some k \<Rightarrow>
          let history = load_checkpoint_history fs;
              latest_step = (if history = [] then None else Some (Max (set (map fst history))));
              ranked = sort_checkpoints_best_first (metric_name cfg) (higher_is_better cfg) history
          in foldl (\<lambda>acc (step, path, info).
                 if exclude_latest \<and> Some step = latest_step then acc else rmtree path acc)
               fs (py_suffix k ranked))"

text \<open>
  \<open>finalize_checkpoint\<close> on \<open>tmp_step_N\<close>. The states it passes through are returned too: a crash can
  leave any of them behind.
\<close>

definition finalize_rename :: "ckpt_fs \<Rightarrow> nat \<Rightarrow> ckpt_fs list result" where
  "finalize_rename fs n =
     (if map_of fs (Step n) \<noteq> None then
        bind_res (rename_dir (Step n) (Old_step n) fs) (\<lambda>fs1.
        bind_res (rename_dir (Tmp_step n) (Step n) fs1) (\<lambda>fs2.
          Inr [fs, fs1, fs2, if map_of fs2 (Old_step n) \<noteq> None then rmtree (Old_step n) fs2 else fs2]))
      else bind_res (rename_dir (Tmp_step n) (Step n) fs) (\<lambda>fs1. Inr [fs, fs1]))"

definition finalize_checkpoint :: "ckpt_config \<Rightarrow> ckpt_fs \<Rightarrow> nat \<Rightarrow> ckpt_fs result" where
  "finalize_checkpoint cfg fs n =
     bind_res (finalize_rename fs n) (\<lambda>states. Inr (remove_old_checkpoints cfg True (last states)))"

section \<open>The history and its order\<close>

definition fs_wf :: "ckpt_fs \<Rightarrow> bool" where
  "fs_wf fs = distinct (map fst fs)"

lemma history_iff:
  "(n, p, info) \<in> set (load_checkpoint_history fs)
    \<longleftrightarrow> p = Step n \<and> (\<exists>d. (Step n, d) \<in> set fs \<and> cd_info d = Some info)"
proof (induction fs)
  case (Cons x fs)
  obtain name d where x: "x = (name, d)" by fastforce
  have "load_checkpoint_history (x # fs) = history_entry_of x @ load_checkpoint_history fs"
    by (simp add: load_checkpoint_history_def)
  moreover have "(n, p, info) \<in> set (history_entry_of x)
      \<longleftrightarrow> p = Step n \<and> name = Step n \<and> cd_info d = Some info"
    by (cases name) (auto simp: x split: option.splits)
  ultimately show ?case using Cons x by auto
qed (simp add: load_checkpoint_history_def)

lemma history_steps_distinct: "fs_wf fs \<Longrightarrow> distinct (map fst (load_checkpoint_history fs))"
proof (induction fs)
  case (Cons x fs)
  obtain name d where x: "x = (name, d)" by fastforce
  have eq: "load_checkpoint_history (x # fs) = history_entry_of x @ load_checkpoint_history fs"
    by (simp add: load_checkpoint_history_def)
  have IH: "distinct (map fst (load_checkpoint_history fs))" using Cons by (simp add: fs_wf_def)
  show ?case
  proof (cases "history_entry_of x")
    case Nil
    then show ?thesis using eq IH by simp
  next
    case (Cons e es)
    then obtain n info where n: "name = Step n" "history_entry_of x = [(n, Step n, info)]"
      using x by (cases name) (auto split: option.splits)
    have "n \<notin> fst ` set (load_checkpoint_history fs)"
    proof
      assume "n \<in> fst ` set (load_checkpoint_history fs)"
      then obtain d' where "(Step n, d') \<in> set fs" by (force simp: history_iff)
      with \<open>fs_wf (x # fs)\<close> x n(1) show False by (force simp: fs_wf_def)
    qed
    then show ?thesis using eq n IH by simp
  qed
qed (simp add: load_checkpoint_history_def)

text \<open>\<open>ranks cfg x y\<close>: checkpoint \<open>x\<close> is at least as good as \<open>y\<close>.\<close>

definition ranks :: "string option \<Rightarrow> bool \<Rightarrow> history_entry \<Rightarrow> history_entry \<Rightarrow> bool" where
  "ranks metric higher x y =
     (case metric of
        None \<Rightarrow> fst y \<le> fst x
      | Some name \<Rightarrow>
          if higher then (metric_key True name (snd (snd y)), fst y) \<le> (metric_key True name (snd (snd x)), fst x)
          else (metric_key False name (snd (snd x)), - int (fst x)) \<le> (metric_key False name (snd (snd y)), - int (fst y)))"

lemma sort_desc_sorted: "sorted_wrt (\<lambda>x y. key y \<le> key x) (sort_desc key xs)"
proof -
  have "sorted_wrt (\<lambda>x y. key x \<le> key y) (sort_key key (rev xs))"
    using sorted_sort_key [of key "rev xs"] by (simp add: sorted_map)
  then show ?thesis unfolding sort_desc_def by (simp add: sorted_wrt_rev)
qed

lemma best_first_sorted: "sorted_wrt (ranks metric higher) (sort_checkpoints_best_first metric higher xs)"
proof (cases metric)
  case None
  have "ranks None higher = (\<lambda>x y. fst y \<le> fst x)" by (intro ext) (simp add: ranks_def)
  then show ?thesis
    using sort_desc_sorted [of fst xs] None by (simp add: sort_checkpoints_best_first_def split_def)
next
  case (Some name)
  let ?up = "\<lambda>x :: history_entry. (metric_key True name (snd (snd x)), fst x)"
  let ?down = "\<lambda>x :: history_entry. (metric_key False name (snd (snd x)), - int (fst x))"
  have "ranks (Some name) True = (\<lambda>x y. ?up y \<le> ?up x)" "ranks (Some name) False = (\<lambda>x y. ?down x \<le> ?down y)"
    by (intro ext, simp add: ranks_def)+
  then show ?thesis
    using sort_desc_sorted [of ?up xs] sorted_sort_key [of ?down xs] Some
    by (cases higher) (simp_all only: sort_checkpoints_best_first_def split_def option.case if_True if_False sorted_map)
qed

lemma mset_best_first [simp]: "mset (sort_checkpoints_best_first metric higher xs) = mset xs"
  by (auto simp: sort_checkpoints_best_first_def sort_desc_def split: option.splits)

lemma set_best_first [simp]: "set (sort_checkpoints_best_first metric higher xs) = set xs"
  by (metis mset_best_first set_mset_mset)

lemma best_first_Nil [simp]: "sort_checkpoints_best_first metric higher xs = [] \<longleftrightarrow> xs = []"
  by (metis mset_best_first mset_zero_iff)

lemma ranks_antisym: "ranks metric higher x y \<Longrightarrow> ranks metric higher y x \<Longrightarrow> fst x = fst y"
  by (auto simp: ranks_def split: option.splits if_splits)

lemma ranks_refl: "ranks metric higher x x"
  by (auto simp: ranks_def split: option.splits)

lemma hd_best_ranks:
  assumes "y \<in> set xs"
  shows "ranks metric higher (hd (sort_checkpoints_best_first metric higher xs)) y"
proof -
  let ?s = "sort_checkpoints_best_first metric higher xs"
  have y: "y \<in> set ?s" using assms by simp
  then obtain z zs where z: "?s = z # zs" by (cases ?s) auto
  then show ?thesis using best_first_sorted [of metric higher xs] y ranks_refl [of metric higher z] by auto
qed

lemma best_first_hd:
  assumes "distinct (map fst xs)" and "x \<in> set xs" and "\<forall>y\<in>set xs. ranks metric higher x y"
  shows "hd (sort_checkpoints_best_first metric higher xs) = x"
proof -
  let ?h = "hd (sort_checkpoints_best_first metric higher xs)"
  have h: "?h \<in> set xs" using assms(2) by (metis best_first_Nil hd_in_set length_greater_0_conv length_pos_if_in_set set_best_first)
  have "fst ?h = fst x" using hd_best_ranks [OF assms(2)] assms(3) h ranks_antisym by metis
  then show ?thesis using assms(1,2) h by (meson eq_key_imp_eq_value distinct_map inj_onD)
qed

lemma valid_ranks_missing:
  assumes "map_of (snd (snd x)) name \<noteq> None" and "map_of (snd (snd y)) name = None"
  shows "\<not> ranks (Some name) higher y x"
  using assms by (auto simp: ranks_def metric_key_def split: option.splits)

section \<open>What retention removes\<close>

lemma foldl_rmtree:
  "foldl (\<lambda>acc (step, path, info). if P step then acc else rmtree path acc) fs xs
     = filter (\<lambda>(name, d). name \<notin> {path. \<exists>step info. (step, path, info) \<in> set xs \<and> \<not> P step}) fs"
proof (induction xs arbitrary: fs)
  case (Cons x xs)
  obtain step path info where x: "x = (step, path, info)" by (cases x) auto
  show ?case
    unfolding foldl_Cons Cons.IH x
    by (auto simp: rmtree_def dict_pop_def intro!: filter_cong)
qed simp

lemma history_filter:
  "load_checkpoint_history (filter (\<lambda>(name, d). Q name) fs) = filter (\<lambda>(n, p, info). Q p) (load_checkpoint_history fs)"
proof (induction fs)
  case (Cons x fs)
  obtain name d where x: "x = (name, d)" by fastforce
  have "filter (\<lambda>(n, p, info). Q p) (history_entry_of x) = (if Q name then history_entry_of x else [])"
    by (cases name) (auto simp: x split: option.splits)
  then show ?case using Cons x by (auto simp: load_checkpoint_history_def)
qed (simp add: load_checkpoint_history_def)

lemma sorted_le_last: "sorted xs \<Longrightarrow> x \<in> set xs \<Longrightarrow> x \<le> last xs"
  by (induction xs) auto

lemma sort_Nil_iff: "sort xs = [] \<longleftrightarrow> xs = []"
  by (metis mset_sort mset_zero_iff)

lemma latest_Max:
  "get_latest_checkpoint_path fs = (if step_dirs fs = [] then None else Some (Step (Max (set (step_dirs fs)))))"
proof (cases "step_dirs fs = []")
  case False
  then have "last (sort (step_dirs fs)) = Max (set (sort (step_dirs fs)))"
    using last_in_set [of "sort (step_dirs fs)"]
    by (intro Max_eqI [symmetric]) (simp_all add: sorted_le_last sort_Nil_iff)
  then show ?thesis using False by (simp add: get_latest_checkpoint_path_def)
qed (simp add: get_latest_checkpoint_path_def)

lemma step_dirs_iff: "n \<in> set (step_dirs fs) \<longleftrightarrow> Step n \<in> fst ` set fs"
proof -
  have "step_of name = Some n \<longleftrightarrow> name = Step n" for name by (cases name) auto
  then show ?thesis by (force simp: step_dirs_def map_filter_def)
qed

text \<open>The checkpoints that survive: the first \<open>k\<close> of the ranking, and the latest one.\<close>

definition survivors :: "ckpt_config \<Rightarrow> nat \<Rightarrow> ckpt_fs \<Rightarrow> history_entry set" where
  "survivors cfg k fs =
     (let history = load_checkpoint_history fs
      in set (take k (sort_checkpoints_best_first (metric_name cfg) (higher_is_better cfg) history))
         \<union> {e \<in> set history. fst e = Max (fst ` set history)})"

lemma remove_old_filter:
  assumes wf: "fs_wf fs" and k: "keep_top_k cfg = Some (int k)"
  shows "\<exists>Q. remove_old_checkpoints cfg True fs = filter (\<lambda>(name, d). Q name) fs
    \<and> (\<forall>name. \<not> Q name \<longrightarrow> (\<exists>n info. (n, name, info) \<in> set (load_checkpoint_history fs)))
    \<and> {e \<in> set (load_checkpoint_history fs). Q (fst (snd e))} = survivors cfg k fs"
proof -
  let ?h = "load_checkpoint_history fs"
  let ?r = "sort_checkpoints_best_first (metric_name cfg) (higher_is_better cfg) ?h"
  let ?latest = "if ?h = [] then None else Some (Max (set (map fst ?h)))"
  let ?gone = "{path. \<exists>step info. (step, path, info) \<in> set (drop k ?r) \<and> \<not> (True \<and> Some step = ?latest)}"
  have fs': "remove_old_checkpoints cfg True fs = filter (\<lambda>(name, d). name \<notin> ?gone) fs"
    unfolding remove_old_checkpoints_def k option.case Let_def
    by (subst foldl_rmtree) (simp add: py_suffix_def)
  have gone: "p \<in> ?gone \<Longrightarrow> \<exists>n info. (n, p, info) \<in> set ?h" for p
    using set_drop_subset [of k ?r] by fastforce
  have dr: "distinct (map fst ?r)"
    by (metis distinct_map history_steps_distinct [OF wf] mset_best_first mset_eq_imp_distinct_iff mset_map)
  have "fst (snd e) \<notin> ?gone \<longleftrightarrow> e \<in> survivors cfg k fs" if e: "e \<in> set ?h" for e
  proof -
    obtain n info where en: "e = (n, Step n, info)" using e by (metis history_iff prod_cases3)
    have latest: "?latest = Some (Max (fst ` set ?h))" using e by auto
    have uniq: "x = e" if "x \<in> set ?h" "fst x = n" for x
      using that e en history_steps_distinct [OF wf] by (metis distinct_map fst_conv inj_onD)
    have "Step n \<in> ?gone \<longleftrightarrow> e \<in> set (drop k ?r) \<and> n \<noteq> Max (fst ` set ?h)"
    proof
      assume "Step n \<in> ?gone"
      then obtain m i where m: "(m, Step n, i) \<in> set (drop k ?r)" "m \<noteq> Max (fst ` set ?h)" using latest by auto
      then have "(m, Step n, i) \<in> set ?h" using set_drop_subset [of k ?r] by auto
      then have "m = n" by (simp add: history_iff)
      with m uniq \<open>(m, Step n, i) \<in> set ?h\<close> show "e \<in> set (drop k ?r) \<and> n \<noteq> Max (fst ` set ?h)" by force
    qed (use en latest in auto)
    moreover have "e \<in> set (drop k ?r) \<longleftrightarrow> e \<notin> set (take k ?r)"
    proof -
      have "e \<in> set ?r" using e by simp
      moreover have "distinct ?r" using dr by (simp add: distinct_map)
      ultimately show ?thesis
        by (metis Un_iff append_take_drop_id disjoint_iff distinct_append set_append)
    qed
    ultimately show ?thesis using e en by (auto simp: survivors_def Let_def)
  qed
  moreover have "survivors cfg k fs \<subseteq> set ?h"
    using set_take_subset [of k ?r] by (auto simp: survivors_def Let_def)
  ultimately have "{e \<in> set ?h. fst (snd e) \<notin> ?gone} = survivors cfg k fs" by blast
  with fs' gone show ?thesis by (intro exI [of _ "\<lambda>name. name \<notin> ?gone"]) auto
qed

lemma survivors_card: "fs_wf fs \<Longrightarrow> card (survivors cfg k fs) \<le> k + 1"
proof -
  assume wf: "fs_wf fs"
  let ?h = "load_checkpoint_history fs"
  let ?r = "sort_checkpoints_best_first (metric_name cfg) (higher_is_better cfg) ?h"
  let ?L = "{e \<in> set ?h. fst e = Max (fst ` set ?h)}"
  have "card ?L \<le> 1"
  proof -
    have "inj_on fst (set ?h)" using history_steps_distinct [OF wf] by (simp add: distinct_map)
    then have "card ?L = card (fst ` ?L)" by (intro card_image [symmetric]) (auto simp: inj_on_def)
    also have "\<dots> \<le> card {Max (fst ` set ?h)}" by (rule card_mono) auto
    finally show ?thesis by simp
  qed
  moreover have "card (set (take k ?r)) \<le> k" using card_length [of "take k ?r"] by simp
  ultimately show ?thesis
    using card_Un_le [of "set (take k ?r)" ?L] by (simp add: survivors_def Let_def)
qed

lemma latest_kept:
  assumes wf: "fs_wf fs" and Q: "fs' = filter (\<lambda>(name, d). Q name) fs"
    and gone: "\<forall>name. \<not> Q name \<longrightarrow> (\<exists>n info. (n, name, info) \<in> set (load_checkpoint_history fs))"
    and surv: "{e \<in> set (load_checkpoint_history fs). Q (fst (snd e))} = survivors cfg k fs"
  shows "get_latest_checkpoint_path fs' = get_latest_checkpoint_path fs"
proof (cases "step_dirs fs = []")
  case True
  then have "step_dirs fs' = []" unfolding Q by (induction fs) (auto simp: step_dirs_def map_filter_def split: if_splits)
  with True show ?thesis by (simp add: latest_Max)
next
  case False
  let ?h = "load_checkpoint_history fs" and ?m = "Max (set (step_dirs fs))"
  have m: "?m \<in> set (step_dirs fs)" using False by simp
  have steps: "fst ` set ?h \<subseteq> set (step_dirs fs)" by (force simp: history_iff step_dirs_iff)
  have "Q (Step ?m)"
  proof (rule ccontr)
    assume no: "\<not> Q (Step ?m)"
    then obtain info where e: "(?m, Step ?m, info) \<in> set ?h" using gone by (metis ckpt_name.inject(2) history_iff)
    then have "?m = Max (fst ` set ?h)"
      using steps by (intro Max_eqI [symmetric]) (auto intro: rev_image_eqI)
    with e have "(?m, Step ?m, info) \<in> survivors cfg k fs" by (simp add: survivors_def Let_def)
    then have "Q (fst (snd (?m, Step ?m, info)))" unfolding surv [symmetric] by blast
    with no show False by simp
  qed
  then have m': "?m \<in> set (step_dirs fs')" using m unfolding Q step_dirs_iff by force
  have "set (step_dirs fs') \<subseteq> set (step_dirs fs)" unfolding Q by (auto simp: step_dirs_iff)
  with m' have "Max (set (step_dirs fs')) = ?m" by (intro Max_eqI) auto
  with m' False show ?thesis by (auto simp: latest_Max)
qed

text \<open>The best checkpoint of a history, when some checkpoint carries the metric, is the first of the
  whole ranking; it survives, and stays the best of whatever else survives.\<close>

lemma best_is_first:
  assumes "fs_wf fs" and "metric_name cfg = Some key"
    and "\<exists>e\<in>set (load_checkpoint_history fs). map_of (snd (snd e)) key \<noteq> None"
  shows "get_best_checkpoint_path cfg fs = Some (fst (snd (hd
    (sort_checkpoints_best_first (Some key) (higher_is_better cfg) (load_checkpoint_history fs)))))
   \<and> map_of (snd (snd (hd (sort_checkpoints_best_first (Some key) (higher_is_better cfg) (load_checkpoint_history fs))))) key \<noteq> None"
proof -
  let ?h = "load_checkpoint_history fs"
  let ?valid = "filter (\<lambda>(step, path, info). map_of info key \<noteq> None) ?h"
  let ?b = "hd (sort_checkpoints_best_first (Some key) (higher_is_better cfg) ?h)"
  obtain e where e: "e \<in> set ?h" "map_of (snd (snd e)) key \<noteq> None" using assms(3) by blast
  have b: "?b \<in> set ?h" using e(1) by (metis best_first_Nil empty_iff empty_set hd_in_set set_best_first)
  have bk: "map_of (snd (snd ?b)) key \<noteq> None"
    using hd_best_ranks [OF e(1), of "Some key"] valid_ranks_missing [OF e(2)] by blast
  have ne: "?valid \<noteq> []" "?h \<noteq> []" using e by (auto simp: filter_empty_conv split_def)
  have "hd (sort_checkpoints_best_first (Some key) (higher_is_better cfg) ?valid) = ?b"
  proof (rule best_first_hd)
    show "distinct (map fst ?valid)" using history_steps_distinct [OF assms(1)] by (rule distinct_map_filter)
    show "?b \<in> set ?valid" using b bk by (simp add: split_def)
    show "\<forall>y\<in>set ?valid. ranks (Some key) (higher_is_better cfg) ?b y" using hd_best_ranks by auto
  qed
  then show ?thesis using ne assms(2) bk by (simp add: get_best_checkpoint_path_def Let_def)
qed

lemma best_kept:
  assumes wf: "fs_wf fs" and wf': "fs_wf fs'" and pos: "0 < k"
    and surv: "set (load_checkpoint_history fs') = survivors cfg k fs"
    and latest: "get_latest_checkpoint_path fs' = get_latest_checkpoint_path fs"
  shows "get_best_checkpoint_path cfg fs' = get_best_checkpoint_path cfg fs"
proof -
  let ?h = "load_checkpoint_history fs" and ?h' = "load_checkpoint_history fs'"
  let ?r = "sort_checkpoints_best_first (metric_name cfg) (higher_is_better cfg) ?h"
  have first: "hd ?r \<in> set ?h'" if "?h \<noteq> []"
  proof -
    have "?r \<noteq> []" using that by simp
    then have "hd ?r \<in> set (take k ?r)" using pos by (cases ?r; cases k) auto
    then show ?thesis unfolding surv by (simp add: survivors_def Let_def)
  qed
  have sub: "set ?h' \<subseteq> set ?h" unfolding surv using set_take_subset [of k ?r] by (auto simp: survivors_def Let_def)
  have empty: "?h' = [] \<longleftrightarrow> ?h = []" using first sub by fastforce
  show ?thesis
  proof (cases "metric_name cfg")
    case None
    then show ?thesis using empty latest by (simp add: get_best_checkpoint_path_def Let_def)
  next
    case (Some key)
    show ?thesis
    proof (cases "\<exists>e\<in>set ?h. map_of (snd (snd e)) key \<noteq> None")
      case True
      note b = best_is_first [OF wf Some True]
      have ne: "?h \<noteq> []" using True by auto
      have b': "hd ?r \<in> set ?h'" by (rule first [OF ne])
      have ex: "\<exists>e\<in>set ?h'. map_of (snd (snd e)) key \<noteq> None" using b b' Some by auto
      have "hd (sort_checkpoints_best_first (Some key) (higher_is_better cfg) ?h') = hd ?r"
        by (rule best_first_hd [OF history_steps_distinct [OF wf'] b'])
          (use sub Some hd_best_ranks in auto)
      with best_is_first [OF wf' Some ex] b Some show ?thesis by simp
    next
      case False
      then have "filter (\<lambda>(step, path, info). map_of info key \<noteq> None) ?h = []"
        "filter (\<lambda>(step, path, info). map_of info key \<noteq> None) ?h' = []"
        using sub by (fastforce simp: filter_empty_conv)+
      then show ?thesis using Some empty latest by (simp add: get_best_checkpoint_path_def Let_def)
    qed
  qed
qed

section \<open>Properties\<close>

text \<open>C31: Retention and selection agree. With a positive keep_top_k, retention keeps exactly the k best
  checkpoints and the latest one (at most k + 1), deletes no other kind of directory, leaves the contents
  of what it keeps untouched, and afterwards both the best and the latest checkpoint are
  the same as before.\<close>

theorem retention_keeps_best_and_latest:
  assumes wf: "fs_wf fs" and k: "keep_top_k cfg = Some (int k)" and pos: "0 < k"
  shows "let fs' = remove_old_checkpoints cfg True fs in
      set (load_checkpoint_history fs') = survivors cfg k fs
    \<and> length (load_checkpoint_history fs') \<le> k + 1
    \<and> (\<forall>name d. (name, d) \<in> set fs' \<longrightarrow> (name, d) \<in> set fs)
    \<and> (\<forall>name d. (name, d) \<in> set fs \<and> (name, d) \<notin> set fs' \<longrightarrow> step_of name \<noteq> None \<and> cd_info d \<noteq> None)
    \<and> get_latest_checkpoint_path fs' = get_latest_checkpoint_path fs
    \<and> get_best_checkpoint_path cfg fs' = get_best_checkpoint_path cfg fs"
proof -
  let ?fs = "remove_old_checkpoints cfg True fs" and ?h = "load_checkpoint_history fs"
  obtain Q where Q: "?fs = filter (\<lambda>(name, d). Q name) fs"
    and gone: "\<forall>name. \<not> Q name \<longrightarrow> (\<exists>n info. (n, name, info) \<in> set ?h)"
    and surv: "{e \<in> set ?h. Q (fst (snd e))} = survivors cfg k fs"
    using remove_old_filter [OF wf k] by blast
  have h': "load_checkpoint_history ?fs = filter (\<lambda>(n, p, info). Q p) ?h" unfolding Q by (rule history_filter)
  have set': "set (load_checkpoint_history ?fs) = survivors cfg k fs" unfolding h' surv [symmetric] by (simp only: set_filter split_def)
  have wf': "fs_wf ?fs" using wf unfolding Q fs_wf_def by (induction fs) auto
  have len: "length (load_checkpoint_history ?fs) \<le> k + 1"
  proof -
    have "distinct (load_checkpoint_history ?fs)" using history_steps_distinct [OF wf'] by (simp add: distinct_map)
    then have "length (load_checkpoint_history ?fs) = card (survivors cfg k fs)" using set' distinct_card by metis
    then show ?thesis using survivors_card [OF wf] by simp
  qed
  have sub: "\<forall>name d. (name, d) \<in> set ?fs \<longrightarrow> (name, d) \<in> set fs" unfolding Q by auto
  have del: "\<forall>name d. (name, d) \<in> set fs \<and> (name, d) \<notin> set ?fs \<longrightarrow> step_of name \<noteq> None \<and> cd_info d \<noteq> None"
  proof (intro allI impI)
    fix name d assume "(name, d) \<in> set fs \<and> (name, d) \<notin> set ?fs"
    then have d: "(name, d) \<in> set fs" and "\<not> Q name" unfolding Q by auto
    then obtain n info where "(n, name, info) \<in> set ?h" using gone by blast
    then obtain d' where "name = Step n" "(name, d') \<in> set fs" "cd_info d' = Some info" by (auto simp: history_iff)
    moreover have "d' = d" using calculation(2) d wf by (meson eq_key_imp_eq_value fs_wf_def)
    ultimately show "step_of name \<noteq> None \<and> cd_info d \<noteq> None" by simp
  qed
  have latest: "get_latest_checkpoint_path ?fs = get_latest_checkpoint_path fs"
    using latest_kept [OF wf Q gone surv] .
  have best: "get_best_checkpoint_path cfg ?fs = get_best_checkpoint_path cfg fs"
    using best_kept [OF wf wf' pos set' latest] .
  show ?thesis unfolding Let_def using set' len sub del latest best by blast
qed

definition demo_fs :: ckpt_fs where
  "demo_fs = [(Step 30, \<lparr>cd_info = Some [(''val:acc'', 1)], cd_optimizer = True, cd_files = []\<rparr>),
     (Step 10, \<lparr>cd_info = Some [(''val:acc'', 3)], cd_optimizer = True, cd_files = []\<rparr>),
     (Tmp_step 40, \<lparr>cd_info = None, cd_optimizer = False, cd_files = []\<rparr>),
     (Step 20, \<lparr>cd_info = Some [], cd_optimizer = True, cd_files = []\<rparr>)]"

definition demo_cfg :: ckpt_config where
  "demo_cfg = \<lparr>metric_name = Some ''val:acc'', higher_is_better = True, keep_top_k = Some 1\<rparr>"

theorem retention_keeps_best_and_latest_witness:
  "get_best_checkpoint_path demo_cfg (remove_old_checkpoints demo_cfg True demo_fs) = Some (Step 10)
    \<and> get_latest_checkpoint_path (remove_old_checkpoints demo_cfg True demo_fs) = Some (Step 30)"
proof -
  have wf: "fs_wf demo_fs" and k: "keep_top_k demo_cfg = Some (int 1)"
    by (simp_all add: fs_wf_def demo_fs_def demo_cfg_def)
  have "get_best_checkpoint_path demo_cfg demo_fs = Some (Step 10)" by code_simp
  moreover have "get_latest_checkpoint_path demo_fs = Some (Step 30)" by code_simp
  ultimately show ?thesis
    using retention_keeps_best_and_latest [OF wf k] by (simp add: Let_def)
qed

text \<open>C32: A save through the temporary directory is atomic for the reader and never loses the step. Finalizing
  \<open>tmp_step_N\<close>, when no leftover \<open>old_step_N\<close> exists, succeeds; at the end \<open>step_N\<close> holds the new contents and
  neither the temporary nor the old directory remains; at every intermediate point, where a crash may
  leave the directory, \<open>step_N\<close> is absent or complete (the previous or the new contents), one
  of \<open>step_N\<close> and \<open>tmp_step_N\<close> holds the new contents, the previous contents of the step are
  lost only once the new ones are in place, and no other directory changes.\<close>

theorem finalize_pseudo_atomic:
  assumes "fs_wf fs" and "map_of fs (Tmp_step n) = Some new" and "map_of fs (Old_step n) = None"
  shows "\<exists>states. finalize_rename fs n = Inr states \<and> states \<noteq> []
    \<and> map_of (last states) = (map_of fs)(Tmp_step n := None, Step n \<mapsto> new)
    \<and> list_all (\<lambda>st. map_of st (Step n) \<in> {None, map_of fs (Step n), Some new}
         \<and> (map_of st (Step n) = Some new \<or> map_of st (Tmp_step n) = Some new)
         \<and> (map_of st (Step n) = Some new \<or> map_of fs (Step n) \<in> {map_of st (Step n), map_of st (Old_step n)})
         \<and> (\<forall>p. p \<notin> {Step n, Tmp_step n, Old_step n} \<longrightarrow> map_of st p = map_of fs p)) states"
proof (cases "map_of fs (Step n)")
  case None
  then show ?thesis
    using assms by (auto simp: finalize_rename_def rename_dir_def)
next
  case (Some prev)
  then show ?thesis
    using assms by (auto simp: finalize_rename_def rename_dir_def rmtree_def fun_upd_twist)
qed

theorem finalize_pseudo_atomic_witness:
  "\<exists>states. finalize_rename ((Tmp_step 30, \<lparr>cd_info = Some [], cd_optimizer = True, cd_files = []\<rparr>) # demo_fs) 30 = Inr states
    \<and> states \<noteq> []"
proof -
  have "fs_wf ((Tmp_step 30, \<lparr>cd_info = Some [], cd_optimizer = True, cd_files = []\<rparr>) # demo_fs)"
    by (simp add: fs_wf_def demo_fs_def)
  moreover have "map_of ((Tmp_step 30, \<lparr>cd_info = Some [], cd_optimizer = True, cd_files = []\<rparr>) # demo_fs) (Old_step 30) = None"
    by (simp add: demo_fs_def)
  ultimately show ?thesis
    using finalize_pseudo_atomic [of "(Tmp_step 30, \<lparr>cd_info = Some [], cd_optimizer = True, cd_files = []\<rparr>) # demo_fs" 30]
    by fastforce
qed

text \<open>A leftover blocks the step. If a crash left \<open>old_step_N\<close> behind, finalizing that step again raises as
  soon as \<open>step_N\<close> exists: the rename of \<open>step_N\<close> onto the leftover fails, and no code removes it.\<close>

lemma finalize_blocked_by_leftover:
  "if map_of fs (Old_step n) \<noteq> None \<and> map_of fs (Step n) \<noteq> None
   then finalize_checkpoint cfg fs n = Inl OSError else True"
  by (auto simp: finalize_checkpoint_def finalize_rename_def rename_dir_def)

end
