(* ===== verification/Group_Rewards.thy ===== *)
theory Group_Rewards
  imports Prelude
begin

text \<open>
  From raw rewards to advantages: the per-prompt baseline and standard deviation of
  \<^verbatim>\<open>algorithms/utils.py\<close>, the GRPO advantage of \<^verbatim>\<open>algorithms/advantage_estimator.py\<close>, the
  dynamic-sampling filter and reward scaling of \<^verbatim>\<open>algorithms/grpo.py\<close>, reward shaping of
  \<^verbatim>\<open>algorithms/reward_functions.py\<close> and the effort reward of
  \<^verbatim>\<open>algorithms/effort_reward.py\<close>.

  A float tensor is a list of exact rationals. The float functions that leave the rationals are
  parameters: \<open>sqrt_fn\<close> is \<open>sqrt\<close> followed by \<open>nan_to_num(0)\<close>, \<open>pw\<close> is the power. Division by
  zero appears only where the source multiplies the quotient by zero variance or leaves it to
  the configuration; HOL's \<open>x / 0 = 0\<close> agrees with \<open>nan_to_num(0)\<close> in the first case.
\<close>

section \<open>Baseline and standard deviation per prompt\<close>

definition prompt_rows :: "'p list \<Rightarrow> 'p \<Rightarrow> nat list" where
  "prompt_rows prompts u = filter (\<lambda>j. prompts ! j = u) [0..<length prompts]"

text \<open>One row of \<open>torch.matmul(mask_matrix, values * valid_mask)\<close>; the matrix is all ones, with a
  zero diagonal for the leave-one-out baseline.\<close>

definition masked_sum :: "bool \<Rightarrow> rat list \<Rightarrow> rat list \<Rightarrow> nat list \<Rightarrow> nat \<Rightarrow> rat" where
  "masked_sum loo values valid rows i =
     sum_list (map (\<lambda>j. (if loo \<and> j = i then 0 else 1) * (values ! j * valid ! j)) rows)"

definition group_stats ::
  "(rat \<Rightarrow> rat) \<Rightarrow> bool \<Rightarrow> rat list \<Rightarrow> rat list \<Rightarrow> rat list \<Rightarrow> nat list \<Rightarrow> nat \<Rightarrow> rat \<times> rat" where
  "group_stats sqrt_fn loo rewards std_rewards valid rows i =
     (let n = sum_list (map ((!) valid) rows) in
      if n \<le> 1 then (rewards ! i, 0)
      else
        let num_valid = n - (if loo then 1 else 0);
            prompt_baseline = masked_sum loo rewards valid rows i / num_valid;
            std_baseline = masked_sum loo std_rewards valid rows i / num_valid;
            std_sq = masked_sum loo (map (\<lambda>x. x ^ 2) std_rewards) valid rows i / num_valid
        in (prompt_baseline, sqrt_fn ((std_sq - std_baseline ^ 2) * (num_valid / (num_valid - 1)))))"

text \<open>\<open>t[rows] = values\<close>\<close>

definition scatter :: "nat list \<Rightarrow> (nat \<Rightarrow> 'a) \<Rightarrow> 'a list \<Rightarrow> 'a list" where
  "scatter rows f t = foldl (\<lambda>acc i. acc[i := f i]) t rows"

text \<open>The loop over the distinct prompts; the groups are disjoint, so their order does not matter.\<close>

definition baseline_and_std ::
  "(rat \<Rightarrow> rat) \<Rightarrow> 'p list \<Rightarrow> rat list \<Rightarrow> rat list \<Rightarrow> bool \<Rightarrow> rat list option \<Rightarrow> rat list \<times> rat list" where
  "baseline_and_std sqrt_fn prompts rewards valid loo std_rewards =
     (let sr = (case std_rewards of None \<Rightarrow> rewards | Some s \<Rightarrow> s);
          zeros = replicate (length rewards) 0
      in foldl (\<lambda>(baseline, std) u.
           let rows = prompt_rows prompts u;
               stats = group_stats sqrt_fn loo rewards sr valid rows
           in (scatter rows (\<lambda>i. fst (stats i)) baseline, scatter rows (\<lambda>i. snd (stats i)) std))
         (zeros, zeros) (remdups prompts))"

section \<open>Advantages\<close>

definition ones :: "'a list \<Rightarrow> rat list" where
  "ones xs = map (\<lambda>_. 1) xs"

definition grpo_epsilon :: rat where
  "grpo_epsilon = 1 / 1000000"

text \<open>The per-sample advantage; the source repeats it over the token dimension.\<close>

definition compute_advantage ::
  "(rat \<Rightarrow> rat) \<Rightarrow> bool \<Rightarrow> bool \<Rightarrow> 'p list \<Rightarrow> rat list \<Rightarrow> rat list" where
  "compute_advantage sqrt_fn loo normalize_rewards prompt_ids rewards =
     (let (baseline, std) = baseline_and_std sqrt_fn prompt_ids rewards (ones rewards) loo None;
          advantages = map2 (-) rewards baseline
      in if normalize_rewards
         then map2 (\<lambda>a s. if s > 0 then a / (s + grpo_epsilon) else a) advantages std
         else advantages)"

section \<open>Dynamic sampling\<close>

text \<open>The rows kept by the variance gate, before the cache and the budget.\<close>

definition keep_prompt_indices :: "rat list \<Rightarrow> nat list" where
  "keep_prompt_indices std = filter (\<lambda>i. std ! i \<noteq> 0) [0..<length std]"

text \<open>What \<open>dynamic_sampling\<close> decides from the sizes: the batch is complete, another generation
  batch is needed, or the limit is reached. \<open>cached\<close> is the number of rows in the cache.\<close>

datatype sampling_outcome = Complete nat | Incomplete

definition dynamic_sampling_size ::
  "nat \<Rightarrow> nat \<Rightarrow> nat \<Rightarrow> int \<Rightarrow> int \<Rightarrow> sampling_outcome result" where
  "dynamic_sampling_size cached kept train_prompts_size num_gen_batches max_gen_batches =
     (let filtered_size = (if 0 < kept then cached + kept else kept) in
      if filtered_size < train_prompts_size then
        if \<not> 0 < max_gen_batches then Inl AssertionError
        else if num_gen_batches \<le> max_gen_batches then Inr Incomplete
        else Inl ValueError
      else Inr (Complete (filtered_size - train_prompts_size)))"

section \<open>Reward scaling and shaping\<close>

definition scale_reward :: "rat \<Rightarrow> rat \<Rightarrow> rat \<Rightarrow> rat \<Rightarrow> rat \<Rightarrow> rat" where
  "scale_reward source_min source_max target_min target_max r =
     (let c = min (max r source_min) source_max
      in target_min + (c - source_min) / (source_max - source_min) * (target_max - target_min))"

record shaping_config =
  sh_enabled :: bool
  sh_overlong_buffer_length :: "int option"
  sh_overlong_buffer_penalty :: "rat option"
  sh_max_response_length :: "int option"
  sh_stop_properly_penalty_coef :: "rat option"

text \<open>A message is its role and token count.\<close>

type_synonym message = "string \<times> int"

definition first_response_length :: "message list \<Rightarrow> int option" where
  "first_response_length message_log = map_option snd (find (\<lambda>m. fst m = ''assistant'') message_log)"

definition overlong_penalty :: "int \<Rightarrow> rat \<Rightarrow> int \<Rightarrow> int \<Rightarrow> rat" where
  "overlong_penalty buffer_length penalty max_length response_length =
     (let exceed_length = response_length - (max_length - buffer_length)
      in min (- of_int exceed_length / of_int buffer_length * penalty) 0)"

definition shape_overlong ::
  "int \<Rightarrow> rat \<Rightarrow> int \<Rightarrow> rat list \<Rightarrow> message list list \<Rightarrow> rat list result" where
  "shape_overlong buffer_length penalty max_length rewards message_logs =
     map_res (\<lambda>(r, log). case first_response_length log of
         None \<Rightarrow> Inl AssertionError
       | Some len \<Rightarrow>
           if buffer_length = 0 then Inl ZeroDivisionError
           else Inr (r + overlong_penalty buffer_length penalty max_length len))
       (zip rewards message_logs)"

definition apply_reward_shaping ::
  "shaping_config \<Rightarrow> rat list \<Rightarrow> bool list option \<Rightarrow> message list list \<Rightarrow> rat list result" where
  "apply_reward_shaping cfg rewards truncated message_logs =
     (if \<not> sh_enabled cfg then Inr rewards
      else case sh_stop_properly_penalty_coef cfg of
        Some coef \<Rightarrow>
          if \<not> (0 \<le> coef \<and> coef \<le> 1) then Inl AssertionError
          else (case truncated of
                  None \<Rightarrow> Inl AssertionError
                | Some ts \<Rightarrow> Inr (map2 (\<lambda>t r. if t then r * coef else r) ts rewards))
      | None \<Rightarrow>
          (case (sh_overlong_buffer_length cfg, sh_overlong_buffer_penalty cfg, sh_max_response_length cfg) of
             (Some buffer_length, Some penalty, Some max_length) \<Rightarrow>
               if \<not> 0 \<le> penalty then Inl AssertionError
               else if length message_logs \<noteq> length rewards then Inl AssertionError
               else shape_overlong buffer_length penalty max_length rewards message_logs
           | _ \<Rightarrow> Inl ValueError))"

section \<open>Effort reward\<close>

record effort_config =
  ef_enabled :: bool
  ef_coefficient :: "rat option"
  ef_difficulty_exponent :: "rat option"
  ef_difficulty_floor :: "rat option"
  ef_max_response_tokens :: "int option"

definition opt :: "'a option \<Rightarrow> 'a \<Rightarrow> 'a" where
  "opt v dflt = (case v of None \<Rightarrow> dflt | Some x \<Rightarrow> x)"

definition validate_effort_reward_config ::
  "effort_config option \<Rightarrow> string \<Rightarrow> string \<Rightarrow> unit result" where
  "validate_effort_reward_config cfg estimator_name trainer =
     (case cfg of
        None \<Rightarrow> Inr ()
      | Some c \<Rightarrow>
          if \<not> ef_enabled c then Inr ()
          else if \<not> (0 \<le> opt (ef_coefficient c) 0 \<and> opt (ef_coefficient c) 0 < 1) then Inl ValueError
          else if opt (ef_max_response_tokens c) 0 \<le> 0 then Inl ValueError
          else if opt (ef_difficulty_exponent c) 1 < 0 then Inl ValueError
          else if \<not> (0 \<le> opt (ef_difficulty_floor c) 0 \<and> opt (ef_difficulty_floor c) 0 \<le> 1) then Inl ValueError
          else if estimator_name \<noteq> ''grpo'' then Inl ValueError
          else if trainer \<noteq> ''sync'' then Inl ValueError
          else Inr ())"

text \<open>Generated tokens of a sample: all assistant turns.\<close>

definition response_token_count :: "message list \<Rightarrow> int" where
  "response_token_count message_log =
     sum_list (map snd (filter (\<lambda>m. fst m = ''assistant'') message_log))"

definition clamp :: "rat \<Rightarrow> rat \<Rightarrow> rat \<Rightarrow> rat" where
  "clamp lo hi x = min (max x lo) hi"

definition normalize_effort_cost :: "int \<Rightarrow> int \<Rightarrow> rat result" where
  "normalize_effort_cost token_count max_response_tokens =
     (if max_response_tokens \<le> 0 then Inl ValueError
      else Inr (clamp 0 1 (of_int token_count / of_int max_response_tokens)))"

definition group_pass_rate :: "(rat \<Rightarrow> rat) \<Rightarrow> 'p list \<Rightarrow> rat list \<Rightarrow> rat list" where
  "group_pass_rate sqrt_fn prompt_ids correctness =
     fst (baseline_and_std sqrt_fn prompt_ids correctness (ones correctness) False None)"

definition effective_coefficient :: "(rat \<Rightarrow> rat \<Rightarrow> rat) \<Rightarrow> effort_config \<Rightarrow> rat \<Rightarrow> rat" where
  "effective_coefficient pw cfg pass_rate =
     opt (ef_coefficient cfg) 0
       * pw (clamp (opt (ef_difficulty_floor cfg) 0) 1 pass_rate) (opt (ef_difficulty_exponent cfg) 1)"

text \<open>The new rewards; the batch also gets the costs and pass rates, which are intermediate values here.
  \<open>unshaped\<close> is the correctness column when reward shaping has left one. Minimum and maximum of an empty batch
  raise.\<close>

definition apply_effort_reward ::
  "(rat \<Rightarrow> rat) \<Rightarrow> (rat \<Rightarrow> rat \<Rightarrow> rat) \<Rightarrow> effort_config option \<Rightarrow> 'p list \<Rightarrow> rat list \<Rightarrow> rat list option
     \<Rightarrow> message list list \<Rightarrow> rat list result" where
  "apply_effort_reward sqrt_fn pw cfg prompt_ids rewards unshaped message_logs =
     (case cfg of
        None \<Rightarrow> Inr rewards
      | Some c \<Rightarrow>
          if \<not> ef_enabled c then Inr rewards
          else
            let correctness = opt unshaped rewards in
            if correctness = [] then Inl RuntimeError
            else if \<not> list_all (\<lambda>x. 0 \<le> x \<and> x \<le> 1) correctness then Inl ValueError
            else if length message_logs \<noteq> length rewards then Inl ValueError
            else
              bind_res (map_res (\<lambda>log. normalize_effort_cost (response_token_count log)
                           (opt (ef_max_response_tokens c) 0)) message_logs) (\<lambda>cost.
              let lam_eff = map (effective_coefficient pw c) (group_pass_rate sqrt_fn prompt_ids correctness)
              in Inr (map (\<lambda>(r, x, l, k). r - x * l * k)
                        (zip rewards (zip correctness (zip lam_eff cost))))))"

section \<open>Reading the statistics of a row\<close>

lemma length_scatter [simp]: "length (scatter rows f t) = length t"
  unfolding scatter_def by (induction rows arbitrary: t) simp_all

lemma scatter_nth: "i < length t \<Longrightarrow> scatter rows f t ! i = (if i \<in> set rows then f i else t ! i)"
  unfolding scatter_def by (induction rows arbitrary: t) (auto simp: nth_list_update)

lemma set_prompt_rows: "set (prompt_rows prompts u) = {j. j < length prompts \<and> prompts ! j = u}"
  by (auto simp: prompt_rows_def)

lemma distinct_prompt_rows: "distinct (prompt_rows prompts u)"
  by (simp add: prompt_rows_def)

text \<open>Folding disjoint scatters: every row has the value of its own group.\<close>

lemma fold_scatter:
  assumes "i < length b" and "i < length s" and "i < length prompts"
  shows "(let (b', s') = foldl (\<lambda>(b, s) u. (scatter (prompt_rows prompts u) (f u) b, scatter (prompt_rows prompts u) (g u) s)) (b, s) us
    in b' ! i = (if prompts ! i \<in> set us then f (prompts ! i) i else b ! i)
     \<and> s' ! i = (if prompts ! i \<in> set us then g (prompts ! i) i else s ! i)
     \<and> length b' = length b \<and> length s' = length s)"
  using assms
proof (induction us arbitrary: b s)
  case (Cons u us)
  from Cons.IH [of "scatter (prompt_rows prompts u) (f u) b" "scatter (prompt_rows prompts u) (g u) s"] Cons.prems
  show ?case by (auto simp: Let_def split_def scatter_nth set_prompt_rows)
qed simp

lemma baseline_and_std_row:
  assumes "length prompts = length rewards" and "i < length rewards"
  shows "fst (baseline_and_std sqrt_fn prompts rewards valid loo sr) ! i
      = fst (group_stats sqrt_fn loo rewards (opt sr rewards) valid (prompt_rows prompts (prompts ! i)) i)"
    and "snd (baseline_and_std sqrt_fn prompts rewards valid loo sr) ! i
      = snd (group_stats sqrt_fn loo rewards (opt sr rewards) valid (prompt_rows prompts (prompts ! i)) i)"
    and "length (fst (baseline_and_std sqrt_fn prompts rewards valid loo sr)) = length rewards"
    and "length (snd (baseline_and_std sqrt_fn prompts rewards valid loo sr)) = length rewards"
proof -
  let ?st = "\<lambda>u. group_stats sqrt_fn loo rewards (opt sr rewards) valid (prompt_rows prompts u)"
  have "prompts ! i \<in> set prompts" using assms by simp
  note fold = fold_scatter [of i "replicate (length rewards) 0" "replicate (length rewards) 0" prompts
      "\<lambda>u i. fst (?st u i)" "\<lambda>u i. snd (?st u i)" "remdups prompts"]
  show "fst (baseline_and_std sqrt_fn prompts rewards valid loo sr) ! i = fst (?st (prompts ! i) i)"
    "snd (baseline_and_std sqrt_fn prompts rewards valid loo sr) ! i = snd (?st (prompts ! i) i)"
    "length (fst (baseline_and_std sqrt_fn prompts rewards valid loo sr)) = length rewards"
    "length (snd (baseline_and_std sqrt_fn prompts rewards valid loo sr)) = length rewards"
    using fold assms \<open>prompts ! i \<in> set prompts\<close>
    by (simp_all add: baseline_and_std_def Let_def split_def opt_def)
qed

lemma masked_sum_ones:
  assumes "distinct rows" and "\<forall>j\<in>set rows. j < length xs" and "i \<in> set rows"
  shows "masked_sum loo values (ones xs) rows i
    = sum_list (map ((!) values) rows) - (if loo then values ! i else 0)"
proof -
  have "masked_sum loo values (ones xs) rows i
      = sum_list (map (\<lambda>j. values ! j - (if j = i then (if loo then values ! i else 0) else 0)) rows)"
    unfolding masked_sum_def ones_def using assms(2) by (intro arg_cong [of _ _ sum_list] map_cong) auto
  also have "\<dots> = sum_list (map ((!) values) rows)
      - sum_list (map (\<lambda>j. if j = i then (if loo then values ! i else 0) else 0) rows)"
    by (simp add: sum_list_subtractf)
  also have "sum_list (map (\<lambda>j. if j = i then (if loo then values ! i else 0) else 0) rows) = (if loo then values ! i else 0)"
    using assms(1,3) by (simp add: sum_list_distinct_conv_sum_set)
  finally show ?thesis .
qed

lemma sum_ones: "\<forall>j\<in>set rows. j < length xs \<Longrightarrow> sum_list (map ((!) (ones xs)) rows) = of_nat (length rows)"
  by (induction rows) (simp_all add: ones_def)

text \<open>The rows that share the prompt of a row, and their number.\<close>

definition group_of :: "'p list \<Rightarrow> nat \<Rightarrow> nat list" where
  "group_of prompts i = prompt_rows prompts (prompts ! i)"

lemma group_of_facts:
  assumes "i < length prompts"
  shows "i \<in> set (group_of prompts i)" and "distinct (group_of prompts i)"
    and "\<forall>j\<in>set (group_of prompts i). j < length prompts"
  using assms by (auto simp: group_of_def set_prompt_rows distinct_prompt_rows)

lemma baseline_ones:
  assumes "length prompts = length rewards" and "i < length rewards"
  shows "fst (baseline_and_std sqrt_fn prompts rewards (ones rewards) loo sr) ! i =
    (let n = length (group_of prompts i) in
     if n \<le> 1 then rewards ! i
     else (sum_list (map ((!) rewards) (group_of prompts i)) - (if loo then rewards ! i else 0))
            / of_nat (if loo then n - 1 else n))"
proof -
  let ?g = "group_of prompts i"
  have g: "\<forall>j\<in>set ?g. j < length rewards" using group_of_facts(3) assms by metis
  have n: "sum_list (map ((!) (ones rewards)) ?g) = of_nat (length ?g)" by (rule sum_ones [OF g])
  have "masked_sum loo rewards (ones rewards) ?g i
      = sum_list (map ((!) rewards) ?g) - (if loo then rewards ! i else 0)"
    using group_of_facts [of i prompts] g assms by (intro masked_sum_ones) auto
  then show ?thesis
    unfolding baseline_and_std_row(1) [OF assms]
    using n by (auto simp: group_stats_def Let_def of_nat_diff simp flip: group_of_def)
qed

lemma sum_list_square_dev:
  "sum_list (map (\<lambda>j. (f j - m) ^ 2) xs)
     = sum_list (map (\<lambda>j. (f j) ^ 2) xs) - 2 * m * sum_list (map f xs) + of_nat (length xs) * (m :: rat) ^ 2"
  by (induction xs) (simp_all add: power2_eq_square algebra_simps)

lemma filter_not_other: "i \<notin> set xs \<Longrightarrow> filter (\<lambda>j. j \<noteq> i) xs = xs"
  by (induction xs) auto

lemma sum_list_take_out:
  "distinct xs \<Longrightarrow> i \<in> set xs \<Longrightarrow> sum_list (map f xs) = f i + sum_list (map f (filter (\<lambda>j. j \<noteq> i) xs))"
  for f :: "'a \<Rightarrow> rat"
  by (induction xs) (auto simp: filter_not_other)

lemma length_take_out: "distinct xs \<Longrightarrow> i \<in> set xs \<Longrightarrow> length xs = Suc (length (filter (\<lambda>j. j \<noteq> i) xs))"
  by (induction xs) (auto simp: filter_not_other)

lemma sum_list_loo:
  "sum_list (map (\<lambda>j. (c - (if loo then f j else 0)) / d) xs)
     = (of_nat (length xs) * c - (if loo then sum_list (map f xs) else 0)) / (d :: rat)"
  by (cases loo; induction xs) (simp_all add: algebra_simps add_divide_distrib diff_divide_distrib)

lemma mean_square_dev: "n \<noteq> 0 \<Longrightarrow> t = n * m \<Longrightarrow> (a - 2 * m * t + n * m ^ 2) / n = a / n - (m :: rat) ^ 2"
  by (simp add: field_simps power2_eq_square)

lemma std_ones:
  assumes "length prompts = length rewards" and "i < length rewards" and "length (group_of prompts i) \<ge> 2"
  shows "snd (baseline_and_std sqrt_fn prompts rewards (ones rewards) False None) ! i =
    (let g = group_of prompts i; n = of_nat (length g);
         m = sum_list (map ((!) rewards) g) / n
     in sqrt_fn ((sum_list (map (\<lambda>j. (rewards ! j - m) ^ 2) g) / n) * (n / (n - 1))))"
proof -
  let ?g = "group_of prompts i" and ?n = "of_nat (length (group_of prompts i)) :: rat"
  let ?m = "sum_list (map ((!) rewards) ?g) / ?n"
  have g: "\<forall>j\<in>set ?g. j < length rewards" using group_of_facts(3) assms by metis
  have n: "sum_list (map ((!) (ones rewards)) ?g) = ?n" by (rule sum_ones [OF g])
  have pos: "?n \<noteq> 0" "\<not> ?n \<le> 1" using assms(3) by auto
  note ms = masked_sum_ones [of ?g rewards i False]
  have m1: "masked_sum False rewards (ones rewards) ?g i = sum_list (map ((!) rewards) ?g)"
    using ms [of rewards] group_of_facts [of i prompts] g assms by auto
  have "masked_sum False (map (\<lambda>x. x ^ 2) rewards) (ones rewards) ?g i = sum_list (map ((!) (map (\<lambda>x. x ^ 2) rewards)) ?g)"
    using ms group_of_facts [of i prompts] g assms by auto
  also have "\<dots> = sum_list (map (\<lambda>j. (rewards ! j) ^ 2) ?g)"
    using g by (intro arg_cong [of _ _ sum_list] map_cong) auto
  finally have m2: "masked_sum False (map (\<lambda>x. x ^ 2) rewards) (ones rewards) ?g i = \<dots>" .
  have S: "sum_list (map ((!) rewards) ?g) = ?n * ?m" using pos(1) by simp
  have "sum_list (map (\<lambda>j. (rewards ! j - ?m) ^ 2) ?g)
      = sum_list (map (\<lambda>j. (rewards ! j) ^ 2) ?g) - 2 * ?m * sum_list (map ((!) rewards) ?g) + ?n * ?m ^ 2"
    by (rule sum_list_square_dev)
  then have dev: "sum_list (map (\<lambda>j. (rewards ! j - ?m) ^ 2) ?g) / ?n
      = sum_list (map (\<lambda>j. (rewards ! j) ^ 2) ?g) / ?n - ?m ^ 2"
    using mean_square_dev [OF pos(1) S] by (simp only:)
  show ?thesis
    unfolding baseline_and_std_row(2) [OF assms(1,2)] Let_def dev
    using n pos(2) by (simp add: group_stats_def opt_def m1 m2 Let_def flip: group_of_def)
qed

lemma sum_list_square_zero: "sum_list (map (\<lambda>j. (f j :: rat) ^ 2) xs) = 0 \<longleftrightarrow> (\<forall>j\<in>set xs. f j = 0)"
proof -
  have "0 \<le> sum_list (map (\<lambda>j. (f j) ^ 2) xs)" for xs by (induction xs) simp_all
  then show ?thesis by (induction xs) (auto simp: add_nonneg_eq_0_iff)
qed

lemma sum_list_square_nonneg: "0 \<le> sum_list (map (\<lambda>j. (f j :: rat) ^ 2) xs)"
  by (induction xs) simp_all

lemma map_eq_const: "\<forall>k\<in>set xs. f k = c \<Longrightarrow> map f xs = replicate (length xs) c"
  by (induction xs) auto

lemma all_mean_iff_equal:
  assumes "xs \<noteq> []"
  shows "(\<forall>j\<in>set xs. f j = sum_list (map f xs) / of_nat (length xs)) \<longleftrightarrow> (\<forall>j\<in>set xs. \<forall>k\<in>set xs. f j = (f k :: rat))"
proof
  assume eq: "\<forall>j\<in>set xs. \<forall>k\<in>set xs. f j = f k"
  show "\<forall>j\<in>set xs. f j = sum_list (map f xs) / of_nat (length xs)"
  proof
    fix j assume j: "j \<in> set xs"
    then have "\<forall>k\<in>set xs. f k = f j" using eq by blast
    from map_eq_const [OF this] have "map f xs = replicate (length xs) (f j)" .
    then have "sum_list (map f xs) = of_nat (length xs) * f j" by (simp add: sum_list_replicate)
    then show "f j = sum_list (map f xs) / of_nat (length xs)" using assms by simp
  qed
qed auto

lemma effective_coefficient_bound:
  assumes "0 \<le> opt (ef_coefficient c) 0" and "opt (ef_coefficient c) 0 < 1" and "0 \<le> opt (ef_difficulty_exponent c) 1"
    and "0 \<le> opt (ef_difficulty_floor c) 0" and "opt (ef_difficulty_floor c) 0 \<le> 1"
    and "\<And>x e. 0 \<le> x \<Longrightarrow> x \<le> 1 \<Longrightarrow> 0 \<le> e \<Longrightarrow> 0 \<le> pw x e \<and> pw x e \<le> 1"
  shows "0 \<le> effective_coefficient pw c p \<and> effective_coefficient pw c p < 1"
proof -
  let ?x = "clamp (opt (ef_difficulty_floor c) 0) 1 p" and ?e = "opt (ef_difficulty_exponent c) 1"
  have "0 \<le> ?x" "?x \<le> 1" using assms(4) by (auto simp: clamp_def)
  then have pw: "0 \<le> pw ?x ?e" "pw ?x ?e \<le> 1" using assms(3,6) by blast+
  have "opt (ef_coefficient c) 0 * pw ?x ?e \<le> opt (ef_coefficient c) 0" using assms(1) pw by (simp add: mult_left_le)
  then show ?thesis using assms(1,2) pw(1) by (simp add: effective_coefficient_def)
qed

section \<open>Properties\<close>

text \<open>The leave-one-out baseline of a sample is the mean reward of the other samples of its prompt, and so does
  not depend on the sample's own reward: replacing that reward by any value leaves the sample's baseline unchanged.
  A sample alone in its group has its own reward as baseline.\<close>

lemma loo_baseline_unbiased:
  assumes "length prompts = length rewards" and "i < length rewards"
  shows "let b = (\<lambda>rs. fst (baseline_and_std sqrt_fn prompts rs (ones rs) True sr) ! i);
             others = filter (\<lambda>j. j \<noteq> i) (group_of prompts i)
         in if others = [] then b rewards = rewards ! i
            else b rewards = sum_list (map ((!) rewards) others) / of_nat (length others)
                 \<and> b (rewards[i := x]) = b rewards"
proof -
  let ?g = "group_of prompts i" and ?o = "filter (\<lambda>j. j \<noteq> i) (group_of prompts i)"
  have i: "i < length prompts" using assms by simp
  have split: "sum_list (map f ?g) = f i + sum_list (map f ?o)" "length ?g = Suc (length ?o)" for f :: "nat \<Rightarrow> rat"
    using sum_list_take_out [OF group_of_facts(2,1) [OF i]] length_take_out [OF group_of_facts(2,1) [OF i]] by auto
  have base: "fst (baseline_and_std sqrt_fn prompts rs (ones rs) True sr) ! i
      = (if ?o = [] then rs ! i else sum_list (map ((!) rs) ?o) / of_nat (length ?o))"
    if "length prompts = length rs" for rs
    using baseline_ones [of prompts rs i sqrt_fn True sr] that i split(1) [of "(!) rs"] split(2)
    by (simp add: Let_def)
  have same: "map ((!) (rewards[i := x])) ?o = map ((!) rewards) ?o" by (rule map_cong) auto
  show ?thesis
    using base [of rewards] base [of "rewards[i := x]", unfolded same] assms(1) by (simp add: Let_def)
qed

lemma loo_baseline_unbiased_witness:
  "fst (baseline_and_std (\<lambda>x. x) [7 :: nat, 7, 9] [1, 0, 1] (ones [1, 0, 1 :: rat]) True None) ! 0 = 0"
  using loo_baseline_unbiased [of "[7 :: nat, 7, 9]" "[1, 0, 1]" 0 "\<lambda>x. x" None 5]
  by (simp add: Let_def group_of_def prompt_rows_def upt_rec)

text \<open>Group-relative advantages cancel: without normalisation the advantages of the samples of one prompt add
  up to zero, with the leave-one-out baseline as with the plain mean.\<close>

lemma advantages_sum_to_zero:
  assumes "length prompts = length rewards" and "i < length rewards"
  shows "sum_list (map ((!) (compute_advantage sqrt_fn loo False prompts rewards)) (group_of prompts i)) = 0"
proof -
  let ?g = "group_of prompts i" and ?S = "sum_list (map ((!) rewards) (group_of prompts i))"
  let ?b = "fst (baseline_and_std sqrt_fn prompts rewards (ones rewards) loo None)"
  let ?n = "length ?g"
  have i: "i < length prompts" using assms by simp
  have g: "j < length rewards \<and> group_of prompts j = ?g" if "j \<in> set ?g" for j
    using that assms(1) by (simp add: group_of_def set_prompt_rows)
  have adv: "compute_advantage sqrt_fn loo False prompts rewards ! j = rewards ! j - ?b ! j" if "j \<in> set ?g" for j
    using g [OF that] baseline_and_std_row(3) [OF assms(1), of j sqrt_fn "ones rewards" loo None]
    by (simp add: compute_advantage_def Let_def split_def)
  have b: "?b ! j = (if ?n \<le> 1 then rewards ! j else (?S - (if loo then rewards ! j else 0)) / of_nat (if loo then ?n - 1 else ?n))"
    if "j \<in> set ?g" for j
    using baseline_ones [OF assms(1), of j sqrt_fn loo None] g [OF that] by (simp add: Let_def)
  have "sum_list (map ((!) (compute_advantage sqrt_fn loo False prompts rewards)) ?g)
      = sum_list (map (\<lambda>j. rewards ! j - ?b ! j) ?g)"
    using adv by (intro arg_cong [of _ _ sum_list] map_cong) auto
  also have "\<dots> = ?S - sum_list (map (\<lambda>j. ?b ! j) ?g)" by (simp add: sum_list_subtractf)
  also have "sum_list (map (\<lambda>j. ?b ! j) ?g) = ?S"
  proof (cases "?n \<le> 1")
    case True
    then show ?thesis using b by (intro arg_cong [of _ _ sum_list] map_cong) auto
  next
    case False
    have "sum_list (map (\<lambda>j. ?b ! j) ?g)
        = sum_list (map (\<lambda>j. (?S - (if loo then rewards ! j else 0)) / of_nat (if loo then ?n - 1 else ?n)) ?g)"
      using b False by (intro arg_cong [of _ _ sum_list] map_cong) auto
    also have "\<dots> = (of_nat ?n * ?S - (if loo then ?S else 0)) / of_nat (if loo then ?n - 1 else ?n)"
      by (rule sum_list_loo)
    also have "\<dots> = ?S"
    proof -
      have "(of_nat ?n :: rat) - 1 \<noteq> 0" "(of_nat ?n :: rat) \<noteq> 0" using False by auto
      moreover have "of_nat (?n - 1) = (of_nat ?n :: rat) - 1" using False by (simp add: of_nat_diff)
      moreover have "of_nat ?n * ?S - ?S = (of_nat ?n - 1) * ?S" by (simp add: algebra_simps)
      ultimately show ?thesis by simp
    qed
    finally show ?thesis .
  qed
  finally show ?thesis by simp
qed

lemma advantages_sum_to_zero_witness:
  "sum_list (map ((!) (compute_advantage (\<lambda>x. x) True False [7 :: nat, 9, 7] [1, 1, 0])) (group_of [7 :: nat, 9, 7] 0)) = 0"
  using advantages_sum_to_zero [of "[7 :: nat, 9, 7]" "[1, 1, 0]" 0 "\<lambda>x. x" True] by simp

text \<open>In exact arithmetic, with the plain mean baseline, the variance gate of dynamic sampling is exact per prompt: a row is dropped
  if and only if all samples of its prompt have the same reward.\<close>
lemma variance_gate_exact:
  assumes "length prompts = length rewards" and "\<And>x. 0 \<le> x \<Longrightarrow> (sqrt_fn x = 0 \<longleftrightarrow> x = 0)"
  shows "set (keep_prompt_indices (snd (baseline_and_std sqrt_fn prompts rewards (ones rewards) False None)))
    = {i. i < length rewards \<and> (\<exists>j\<in>set (group_of prompts i). \<exists>k\<in>set (group_of prompts i). rewards ! j \<noteq> rewards ! k)}"
proof -
  let ?std = "snd (baseline_and_std sqrt_fn prompts rewards (ones rewards) False None)"
  have "?std ! i \<noteq> 0 \<longleftrightarrow> (\<exists>j\<in>set (group_of prompts i). \<exists>k\<in>set (group_of prompts i). rewards ! j \<noteq> rewards ! k)"
    if i: "i < length rewards" for i
  proof (cases "length (group_of prompts i) \<ge> 2")
    case True
    let ?g = "group_of prompts i" and ?n = "of_nat (length (group_of prompts i)) :: rat"
    let ?m = "sum_list (map ((!) rewards) ?g) / ?n"
    let ?v = "sum_list (map (\<lambda>j. (rewards ! j - ?m) ^ 2) ?g)"
    have n: "1 < ?n" using True by simp
    have "0 \<le> ?v / ?n * (?n / (?n - 1))" using n sum_list_square_nonneg by (intro mult_nonneg_nonneg divide_nonneg_nonneg) auto
    then have "?std ! i = 0 \<longleftrightarrow> ?v / ?n * (?n / (?n - 1)) = 0"
      using std_ones [OF assms(1) i True, of sqrt_fn] assms(2) by (simp only: Let_def)
    also have "\<dots> \<longleftrightarrow> ?v = 0" using n by auto
    also have "\<dots> \<longleftrightarrow> (\<forall>j\<in>set ?g. rewards ! j = ?m)" unfolding sum_list_square_zero by auto
    also have "\<dots> \<longleftrightarrow> (\<forall>j\<in>set ?g. \<forall>k\<in>set ?g. rewards ! j = rewards ! k)"
      using True by (intro all_mean_iff_equal) auto
    finally show ?thesis by blast
  next
    case False
    have mem: "i \<in> set (group_of prompts i)" using group_of_facts(1) i assms(1) by metis
    then have "length (group_of prompts i) \<noteq> 0" by auto
    with False have "length (group_of prompts i) = 1" by linarith
    then have one: "group_of prompts i = [i]" using mem by (cases "group_of prompts i") auto
    have "?std ! i = 0"
      unfolding baseline_and_std_row(2) [OF assms(1) i] group_of_def [symmetric] one
      using i by (simp add: group_stats_def ones_def Let_def)
    then show ?thesis using one by simp
  qed
  moreover have "length ?std = length rewards" if "i < length rewards" for i
    using baseline_and_std_row(4) [OF assms(1) that] .
  ultimately show ?thesis
    using baseline_and_std_row(4) [OF assms(1), of 0 sqrt_fn "ones rewards" False None]
    by (cases "rewards = []") (use assms(1) in \<open>auto simp: keep_prompt_indices_def baseline_and_std_def\<close>)
qed

lemma variance_gate_exact_witness:
  "set (keep_prompt_indices (snd (baseline_and_std (\<lambda>x. x) [7 :: nat, 9, 7] [1, 1, 0] (ones [1, 1, 0 :: rat]) False None)))
    = {i. i < length [1, 1, 0 :: rat] \<and> (\<exists>j\<in>set (group_of [7 :: nat, 9, 7] i). \<exists>k\<in>set (group_of [7 :: nat, 9, 7] i).
         [1, 1, 0 :: rat] ! j \<noteq> [1, 1, 0] ! k)}"
  by (rule variance_gate_exact) simp_all

text \<open>With the leave-one-out baseline the gate is applied to the spread of the other samples, row by row: in a
  group of four with a single success, the successful row is the one that is dropped, and its three failures are kept.
  In a group of two every row is dropped, whatever the two rewards.\<close>

lemma loo_gate_drops_lone_success:
  "(if sqrt_fn 0 = 0 \<and> sqrt_fn (1 / 3) \<noteq> 0
    then keep_prompt_indices (snd (baseline_and_std sqrt_fn [p, p, p, p] [1, 0, 0, 0] (ones [1, 0, 0, 0 :: rat]) True None)) = [1, 2, 3]
    else True)
   \<and> (if sqrt_fn 0 = 0
      then keep_prompt_indices (snd (baseline_and_std sqrt_fn [p, p] [a, b] (ones [a, b]) True None)) = []
      else True)"
  by (auto simp: keep_prompt_indices_def baseline_and_std_def group_stats_def masked_sum_def ones_def prompt_rows_def
      scatter_def Let_def upt_rec numeral_eq_Suc power2_eq_square)

text \<open>The effort term never ranks a failure above a success. For a validated configuration, binary correctness and
  rewards not modified upstream, the term applies, and every correct sample ends with a strictly positive reward, at
  most 1, while every failed sample keeps exactly 0.\<close>

lemma effort_reward_ranks_success:
  assumes "validate_effort_reward_config (Some c) est tr = Inr ()" and "ef_enabled c"
    and "list_all (\<lambda>x. x = 0 \<or> x = 1) rewards" and "rewards \<noteq> []"
    and "length prompts = length rewards" and "length message_logs = length rewards"
    and "\<And>x e. 0 \<le> x \<Longrightarrow> x \<le> 1 \<Longrightarrow> 0 \<le> e \<Longrightarrow> 0 \<le> pw x e \<and> pw x e \<le> 1"
    and "unshaped = None \<or> unshaped = Some rewards"
  shows "\<exists>shaped. apply_effort_reward sqrt_fn pw (Some c) prompts rewards unshaped message_logs = Inr shaped
    \<and> length shaped = length rewards
    \<and> (\<forall>i<length rewards. if rewards ! i = 1 then 0 < shaped ! i \<and> shaped ! i \<le> 1 else shaped ! i = 0)"
proof -
  let ?mt = "opt (ef_max_response_tokens c) 0"
  have cfg: "0 \<le> opt (ef_coefficient c) 0" "opt (ef_coefficient c) 0 < 1" "0 < ?mt"
    "0 \<le> opt (ef_difficulty_exponent c) 1" "0 \<le> opt (ef_difficulty_floor c) 0" "opt (ef_difficulty_floor c) 0 \<le> 1"
    using assms(1,2) by (auto simp: validate_effort_reward_config_def split: if_splits)
  have cor: "opt unshaped rewards = rewards" using assms(8) by (auto simp: opt_def)
  have range: "list_all (\<lambda>x. 0 \<le> x \<and> x \<le> 1) rewards" using assms(3) by (auto simp: list_all_iff)
  let ?cost = "\<lambda>log. clamp 0 1 (of_int (response_token_count log) / of_int ?mt)"
  have cost: "map_res (\<lambda>log. normalize_effort_cost (response_token_count log) ?mt) message_logs = Inr (map ?cost message_logs)"
    by (rule map_res_Inr) (use cfg(3) in \<open>simp add: normalize_effort_cost_def\<close>)
  let ?lam = "map (effective_coefficient pw c) (group_pass_rate sqrt_fn prompts rewards)"
  let ?shaped = "map (\<lambda>(r, x, l, k). r - x * l * k) (zip rewards (zip rewards (zip ?lam (map ?cost message_logs))))"
  have res: "apply_effort_reward sqrt_fn pw (Some c) prompts rewards unshaped message_logs = Inr ?shaped"
    using assms(2,4,6) range by (simp add: apply_effort_reward_def cor cost)
  have len: "length ?lam = length rewards"
    using baseline_and_std_row(3) [OF assms(5), of 0] assms(4) by (simp add: group_pass_rate_def)
  have "if rewards ! i = 1 then 0 < ?shaped ! i \<and> ?shaped ! i \<le> 1 else ?shaped ! i = 0" if i: "i < length rewards" for i
  proof -
    let ?l = "?lam ! i" and ?k = "?cost (message_logs ! i)"
    have sh: "?shaped ! i = rewards ! i - rewards ! i * ?l * ?k" using i len assms(6) by simp
    have k: "0 \<le> ?k" "?k \<le> 1" by (auto simp: clamp_def)
    have l: "0 \<le> ?l \<and> ?l < 1"
      using effective_coefficient_bound [OF cfg(1,2,4-6) assms(7)] i len by simp
    have "0 \<le> ?l * ?k" "?l * ?k < 1" using k l mult_left_le [of ?k ?l] by auto
    moreover have "rewards ! i = 0 \<or> rewards ! i = 1" using assms(3) i by (auto simp: list_all_length)
    ultimately show ?thesis unfolding sh by auto
  qed
  then have "\<forall>i<length rewards. if rewards ! i = 1 then 0 < ?shaped ! i \<and> ?shaped ! i \<le> 1 else ?shaped ! i = 0" by blast
  moreover have "length ?shaped = length rewards" using len assms(6) by simp
  ultimately show ?thesis using res by blast
qed

definition demo_effort :: effort_config where
  "demo_effort = \<lparr>ef_enabled = True, ef_coefficient = Some (1 / 2), ef_difficulty_exponent = None,
     ef_difficulty_floor = None, ef_max_response_tokens = Some 10\<rparr>"

lemma effort_reward_ranks_success_witness:
  "\<exists>shaped. apply_effort_reward (\<lambda>x. x) (\<lambda>x e. x) (Some demo_effort) [7 :: nat, 7] [1, 0] None
      [[(''assistant'', 5)], [(''user'', 3), (''assistant'', 20)]] = Inr shaped
    \<and> 0 < shaped ! 0 \<and> shaped ! 1 = 0"
proof -
  have "validate_effort_reward_config (Some demo_effort) ''grpo'' ''sync'' = Inr ()" "ef_enabled demo_effort"
    by (simp_all add: validate_effort_reward_config_def demo_effort_def opt_def)
  from effort_reward_ranks_success [OF this, of "[1, 0]" "[7 :: nat, 7]"
      "[[(''assistant'', 5)], [(''user'', 3), (''assistant'', 20)]]" "\<lambda>x e. x" None "\<lambda>x. x"]
  show ?thesis by force
qed

text \<open>The overlong penalty has no ceiling. With a positive buffer and a non-negative penalty it is zero up to the expected length, falls linearly to
  minus the configured penalty at the maximum response length, and goes on falling beyond
  it without bound: at maximum length plus m buffers it is minus (m + 1) times the configured penalty.\<close>

lemma overlong_penalty_unbounded:
  assumes "0 < buffer_length" and "0 \<le> penalty"
  shows "(if len \<le> max_length - buffer_length then overlong_penalty buffer_length penalty max_length len = 0
          else overlong_penalty buffer_length penalty max_length len
                 = - (of_int (len - (max_length - buffer_length)) / of_int buffer_length) * penalty)
    \<and> overlong_penalty buffer_length penalty max_length (max_length + int m * buffer_length) = - of_nat (m + 1) * penalty"
proof -
  have b: "0 < (of_int buffer_length :: rat)" using assms(1) by simp
  have pen: "overlong_penalty buffer_length penalty max_length l = (if l \<le> max_length - buffer_length then 0
      else - (of_int (l - (max_length - buffer_length)) / of_int buffer_length) * penalty)" for l
  proof -
    let ?x = "of_int (l - (max_length - buffer_length)) / of_int buffer_length :: rat"
    have "overlong_penalty buffer_length penalty max_length l = min (- ?x * penalty) 0"
      by (simp add: overlong_penalty_def Let_def)
    moreover have "?x \<le> 0 \<longleftrightarrow> l \<le> max_length - buffer_length"
      using b by (simp add: divide_le_0_iff del: of_int_diff)
    moreover have "min (- y * penalty) 0 = (if y \<le> 0 then 0 else - y * penalty)" for y :: rat
      using assms(2) mult_nonneg_nonneg [of "- y" penalty] mult_nonneg_nonneg [of y penalty] by (auto simp: min_def)
    ultimately show ?thesis by (simp only:)
  qed
  have "max_length + int m * buffer_length - (max_length - buffer_length) = int (m + 1) * buffer_length"
    by (simp add: algebra_simps)
  then have "of_int (max_length + int m * buffer_length - (max_length - buffer_length)) / of_int buffer_length = (of_nat (m + 1) :: rat)"
    using b by (metis nonzero_mult_div_cancel_right of_int_mult of_int_of_nat_eq less_irrefl)
  moreover have "\<not> max_length + int m * buffer_length \<le> max_length - buffer_length"
  proof -
    have "0 \<le> int m * buffer_length" using assms(1) by simp
    then show ?thesis using assms(1) by linarith
  qed
  ultimately show ?thesis using pen by simp
qed

lemma overlong_penalty_unbounded_witness:
  "overlong_penalty 10 1 100 (100 + int 4 * 10) = - of_nat (4 + 1) * 1"
  using overlong_penalty_unbounded [of 10 1 0 100 4] by simp

end
