(* ===== verification/Named_Sharding.thy ===== *)
theory Named_Sharding
  imports Prelude
begin

text \<open>
  The rank layout with named axes, \<^verbatim>\<open>distributed/named_sharding.py\<close> (class \<open>NamedSharding\<close>).
  A NumPy array is its shape and its elements in row-major order; the constructor's rejection
  of ragged and non-integer layouts is NumPy's and is outside the model, the rest of its checks are here. Keyword arguments
  are an association list with distinct keys.
\<close>

section \<open>Row-major arrays\<close>

fun unravel :: "nat list \<Rightarrow> nat \<Rightarrow> nat list" where
  "unravel [] k = []"
| "unravel (d # ds) k = k div prod_list ds # unravel ds (k mod prod_list ds)"

fun ravel :: "nat list \<Rightarrow> nat list \<Rightarrow> nat" where
  "ravel (d # ds) (i # idx) = i * prod_list ds + ravel ds idx"
| "ravel _ _ = 0"

section \<open>The class\<close>

record sharding =
  ns_dims :: "nat list"
  ns_data :: "int list"
  ns_names :: "string list"

definition replicated_axes :: "string list" where
  "replicated_axes = [''tensor_parallel'', ''context_parallel'', ''pipeline_parallel'']"

definition ns_init :: "nat list \<Rightarrow> int list \<Rightarrow> string list \<Rightarrow> sharding result" where
  "ns_init dims data names =
     (if length dims \<noteq> length names then Inl ValueError
      else if \<not> distinct data then Inl ValueError
      else Inr \<lparr>ns_dims = dims, ns_data = data, ns_names = names\<rparr>)"

text \<open>Dicts built from the names: a repeated name keeps its last axis.\<close>

definition name_to_axis :: "sharding \<Rightarrow> string \<rightharpoonup> nat" where
  "name_to_axis s = map_of (rev (zip (ns_names s) [0..<length (ns_names s)]))"

definition ns_shape :: "sharding \<Rightarrow> string \<rightharpoonup> nat" where
  "ns_shape s = map_of (rev (zip (ns_names s) (ns_dims s)))"

definition ns_ndim :: "sharding \<Rightarrow> nat" where
  "ns_ndim s = length (ns_dims s)"

definition ns_size :: "sharding \<Rightarrow> nat" where
  "ns_size s = length (ns_data s)"

definition get_worker_coords :: "sharding \<Rightarrow> int \<Rightarrow> nat dict result" where
  "get_worker_coords s worker_id =
     (case filter (\<lambda>k. ns_data s ! k = worker_id) [0..<length (ns_data s)] of
        [] \<Rightarrow> Inl ValueError
      | k # _ \<Rightarrow> Inr (zip (ns_names s) (unravel (ns_dims s) k)))"

definition is_axis_zero :: "nat dict \<Rightarrow> string list \<Rightarrow> bool" where
  "is_axis_zero coords axes =
     list_all (\<lambda>ax. (case map_of coords ax of None \<Rightarrow> 0 | Some c \<Rightarrow> c) = 0) axes"

text \<open>The index expression built from the keyword arguments: for each axis, \<open>None\<close> is \<open>slice(None)\<close>.\<close>

fun build_slicing ::
  "sharding \<Rightarrow> (string \<times> int) list \<Rightarrow> nat option list \<Rightarrow> (nat option list option) result" where
  "build_slicing s [] slicing = Inr (Some slicing)"
| "build_slicing s ((name, index) # coords) slicing =
     (case name_to_axis s name of
        None \<Rightarrow> Inl ValueError
      | Some axis \<Rightarrow>
          if \<not> (0 \<le> index \<and> index < int (the (ns_shape s name))) then Inr None
          else build_slicing s coords (slicing[axis := Some (nat index)]))"

definition matches :: "nat option list \<Rightarrow> nat list \<Rightarrow> bool" where
  "matches slicing idx = list_all2 (\<lambda>s i. case s of None \<Rightarrow> True | Some j \<Rightarrow> i = j) slicing idx"

definition matching_positions :: "sharding \<Rightarrow> nat option list \<Rightarrow> nat list" where
  "matching_positions s slicing =
     filter (\<lambda>k. matches slicing (unravel (ns_dims s) k)) [0..<length (ns_data s)]"

definition get_ranks_by_coord :: "sharding \<Rightarrow> (string \<times> int) list \<Rightarrow> int list result" where
  "get_ranks_by_coord s coords =
     bind_res (build_slicing s coords (replicate (ns_ndim s) None)) (\<lambda>sl.
       case sl of
         None \<Rightarrow> Inr []
       | Some slicing \<Rightarrow> Inr (sort (remdups (map ((!) (ns_data s)) (matching_positions s slicing)))))"

datatype ranks_result = Rank int | Sub sharding

definition get_ranks :: "sharding \<Rightarrow> (string \<times> int) list \<Rightarrow> ranks_result result" where
  "get_ranks s coords =
     bind_res (build_slicing s coords (replicate (ns_ndim s) None)) (\<lambda>sl.
       case sl of
         None \<Rightarrow> Inl IndexError
       | Some slicing \<Rightarrow>
           let subset = map ((!) (ns_data s)) (matching_positions s slicing);
               free = filter (\<lambda>i. slicing ! i = None) [0..<length (ns_names s)]
           in if free = [] then Inr (Rank (hd subset))
              else bind_res (ns_init (map ((!) (ns_dims s)) free) subset (map ((!) (ns_names s)) free))
                     (\<lambda>sub. Inr (Sub sub)))"

definition get_axis_index :: "sharding \<Rightarrow> string \<Rightarrow> nat result" where
  "get_axis_index s name = (case name_to_axis s name of None \<Rightarrow> Inl ValueError | Some i \<Rightarrow> Inr i)"

definition get_axis_size :: "sharding \<Rightarrow> string \<Rightarrow> nat result" where
  "get_axis_size s name = (case ns_shape s name of None \<Rightarrow> Inl KeyError | Some n \<Rightarrow> Inr n)"

section \<open>Positions and coordinates\<close>

definition ns_wf :: "sharding \<Rightarrow> bool" where
  "ns_wf s \<longleftrightarrow> length (ns_dims s) = length (ns_names s) \<and> distinct (ns_data s)
     \<and> length (ns_data s) = prod_list (ns_dims s) \<and> distinct (ns_names s)"

lemma length_unravel [simp]: "length (unravel ds k) = length ds"
  by (induction ds k rule: unravel.induct) simp_all

lemma unravel_bound: "k < prod_list ds \<Longrightarrow> list_all2 (<) (unravel ds k) ds"
proof (induction ds k rule: unravel.induct)
  case (2 d ds k)
  have "0 < prod_list ds" using 2(2) by (cases "prod_list ds = 0") auto
  then have "k div prod_list ds < d" "k mod prod_list ds < prod_list ds"
    using 2(2) by (auto simp: less_mult_imp_div_less mult.commute)
  with 2(1) show ?case by simp
qed simp

lemma ravel_unravel: "k < prod_list ds \<Longrightarrow> ravel ds (unravel ds k) = k"
proof (induction ds k rule: unravel.induct)
  case (2 d ds k)
  have "0 < prod_list ds" using 2(2) by (cases "prod_list ds = 0") auto
  with 2(1) show ?case by simp
qed simp

lemma unravel_inj:
  assumes "j < prod_list ds" and "k < prod_list ds" and "unravel ds j = unravel ds k"
  shows "j = k"
  by (metis assms ravel_unravel)

lemma map_of_rev_zip_nth:
  assumes "distinct xs" and "length ys = length xs" and "i < length xs"
  shows "map_of (rev (zip xs ys)) (xs ! i) = Some (ys ! i)"
proof -
  have "distinct (map fst (rev (zip xs ys)))" using assms(1,2) by (simp add: rev_map [symmetric])
  moreover have "(xs ! i, ys ! i) \<in> set (rev (zip xs ys))" using assms(2,3) by (auto simp: in_set_zip)
  ultimately show ?thesis by (simp only: map_of_eq_Some_iff)
qed

lemma axis_lookup:
  assumes "ns_wf s" and "i < length (ns_names s)"
  shows "name_to_axis s (ns_names s ! i) = Some i" and "ns_shape s (ns_names s ! i) = Some (ns_dims s ! i)"
  using assms map_of_rev_zip_nth [of "ns_names s" "[0..<length (ns_names s)]" i]
    map_of_rev_zip_nth [of "ns_names s" "ns_dims s" i]
  by (simp_all add: name_to_axis_def ns_shape_def ns_wf_def)

lemma build_slicing_full:
  assumes wf: "ns_wf s" and u: "list_all2 (<) u (ns_dims s)" and "i \<le> length u" and "length sl = length u"
  shows "build_slicing s (map (\<lambda>(n, c). (n, int c)) (zip (drop i (ns_names s)) (drop i u))) sl
    = Inr (Some (take i sl @ map Some (drop i u)))"
  using assms(3,4)
proof (induction "length u - i" arbitrary: i sl)
  case 0
  then show ?case by simp
next
  case (Suc m)
  have len: "length (ns_names s) = length u" "length (ns_dims s) = length u"
    using u wf list_all2_lengthD by (fastforce simp: ns_wf_def)+
  have i: "i < length u" using Suc(2) by simp
  have bound: "u ! i < ns_dims s ! i" using u i by (simp add: list_all2_conv_all_nth)
  have drops: "drop i (ns_names s) = ns_names s ! i # drop (Suc i) (ns_names s)" "drop i u = u ! i # drop (Suc i) u"
    using i len by (simp_all add: Cons_nth_drop_Suc)
  have IH: "build_slicing s (map (\<lambda>(n, c). (n, int c)) (zip (drop (Suc i) (ns_names s)) (drop (Suc i) u))) (sl[i := Some (u ! i)])
      = Inr (Some (take (Suc i) (sl[i := Some (u ! i)]) @ map Some (drop (Suc i) u)))"
    using Suc i by simp
  have "take (Suc i) (sl[i := Some (u ! i)]) = take i sl @ [Some (u ! i)]"
    using i Suc.prems(2) by (simp add: take_Suc_conv_app_nth)
  then show ?case
    unfolding drops using axis_lookup [OF wf, of i] i len bound IH by simp
qed

lemma matches_full: "length u = length v \<Longrightarrow> matches (map Some u) v \<longleftrightarrow> u = v"
  by (auto simp: matches_def list_all2_conv_all_nth intro: nth_equalityI)

lemma filter_unique: "distinct xs \<Longrightarrow> x \<in> set xs \<Longrightarrow> \<forall>y\<in>set xs. P y \<longleftrightarrow> y = x \<Longrightarrow> filter P xs = [x]"
proof (induction xs)
  case (Cons a xs)
  show ?case
  proof (cases "a = x")
    case True
    then have "filter P xs = []" using Cons.prems by (auto simp: filter_empty_conv)
    then show ?thesis using True Cons.prems by simp
  qed (use Cons in auto)
qed simp

lemma build_slicing_one:
  assumes "ns_wf s" and "i < length (ns_names s)" and "c < ns_dims s ! i"
  shows "build_slicing s [(ns_names s ! i, int c)] sl = Inr (Some (sl[i := Some c]))"
  using axis_lookup [OF assms(1,2)] assms(3) by simp

lemma matches_one:
  assumes "i < length v"
  shows "matches ((replicate (length v) None)[i := Some c]) v \<longleftrightarrow> v ! i = c"
  using assms by (auto simp: matches_def list_all2_conv_all_nth nth_list_update split: option.splits)

lemma mset_filter_classes:
  assumes "\<forall>x\<in>set xs. f x < (d :: nat)"
  shows "mset (concat (map (\<lambda>c. filter (\<lambda>x. f x = c) xs) [0..<d])) = mset xs"
  using assms
proof (induction xs)
  case (Cons x xs)
  have fx: "f x < d" using Cons.prems by simp
  have "mset (concat (map (\<lambda>c. filter (\<lambda>y. f y = c) (x # xs)) [0..<d]))
      = mset (concat (map (\<lambda>c. if f x = c then [x] else []) [0..<d])) + mset (concat (map (\<lambda>c. filter (\<lambda>y. f y = c) xs) [0..<d]))"
    by (induction d) simp_all
  also have "mset (concat (map (\<lambda>c. if f x = c then [x] else []) [0..<d])) = {#x#}"
    using fx by (induction d) (auto simp: less_Suc_eq)
  finally show ?case using Cons by simp
qed simp

section \<open>Properties\<close>

text \<open>Ranks and coordinates correspond. For a layout with distinct ranks and axis names, the coordinates of every
  rank lead back to exactly that rank, both as a filter and as a full index; and for every axis the
  ranks selected by its coordinates are together all ranks, each once.\<close>

lemma coordinates_identify_ranks:
  assumes wf: "ns_wf s" and r: "r \<in> set (ns_data s)" and i: "i < length (ns_names s)"
  shows "\<exists>coords rs. get_worker_coords s r = Inr coords
    \<and> get_ranks_by_coord s (map (\<lambda>(n, c). (n, int c)) coords) = Inr [r]
    \<and> get_ranks s (map (\<lambda>(n, c). (n, int c)) coords) = Inr (Rank r)
    \<and> map_res (\<lambda>c. get_ranks_by_coord s [(ns_names s ! i, int c)]) [0..<ns_dims s ! i] = Inr rs
    \<and> mset (concat rs) = mset (ns_data s)"
proof -
  let ?n = "length (ns_data s)" and ?u = "\<lambda>k. unravel (ns_dims s) k"
  have n: "?n = prod_list (ns_dims s)" and names: "length (ns_names s) = length (ns_dims s)"
    using wf by (auto simp: ns_wf_def)
  obtain k where k: "k < ?n" "ns_data s ! k = r" using r by (metis in_set_conv_nth)
  have uk: "list_all2 (<) (?u k) (ns_dims s)" using unravel_bound k n by metis
  have "filter (\<lambda>j. ns_data s ! j = r) [0..<?n] = [k]"
    using k wf by (intro filter_unique) (auto simp: ns_wf_def nth_eq_iff_index_eq)
  then have c: "get_worker_coords s r = Inr (zip (ns_names s) (?u k))" by (simp add: get_worker_coords_def)
  let ?cs = "map (\<lambda>(n, c). (n, int c)) (zip (ns_names s) (?u k))"
  have sl: "build_slicing s ?cs (replicate (ns_ndim s) None) = Inr (Some (map Some (?u k)))"
    using build_slicing_full [OF wf uk, of 0 "replicate (ns_ndim s) None"] by (simp add: ns_ndim_def)
  have pos: "matching_positions s (map Some (?u k)) = [k]"
    unfolding matching_positions_def
  proof (rule filter_unique)
    show "\<forall>j\<in>set [0..<?n]. matches (map Some (?u k)) (?u j) \<longleftrightarrow> j = k"
    proof
      fix j assume "j \<in> set [0..<?n]"
      then have "j < prod_list (ns_dims s)" using n by simp
      then have "?u k = ?u j \<longleftrightarrow> j = k" using unravel_inj k(1) n by metis
      then show "matches (map Some (?u k)) (?u j) \<longleftrightarrow> j = k" by (simp add: matches_full)
    qed
  qed (use k in auto)
  have 1: "get_ranks_by_coord s ?cs = Inr [r]" using sl pos k by (simp add: get_ranks_by_coord_def)
  have "filter (\<lambda>j. map Some (?u k) ! j = None) [0..<length (ns_names s)] = []"
    using names by (auto simp: filter_empty_conv)
  then have 2: "get_ranks s ?cs = Inr (Rank r)" using sl pos k by (simp add: get_ranks_def)
  let ?rs = "map (\<lambda>c. sort (map ((!) (ns_data s)) (filter (\<lambda>j. ?u j ! i = c) [0..<?n]))) [0..<ns_dims s ! i]"
  have 3: "map_res (\<lambda>c. get_ranks_by_coord s [(ns_names s ! i, int c)]) [0..<ns_dims s ! i] = Inr ?rs"
  proof (rule map_res_Inr)
    fix c assume "c \<in> set [0..<ns_dims s ! i]"
    then have sl: "build_slicing s [(ns_names s ! i, int c)] (replicate (ns_ndim s) None)
        = Inr (Some ((replicate (ns_ndim s) None)[i := Some c]))"
      using build_slicing_one [OF wf i] by simp
    have "matching_positions s ((replicate (ns_ndim s) None)[i := Some c]) = filter (\<lambda>j. ?u j ! i = c) [0..<?n]"
      unfolding matching_positions_def
      by (rule filter_cong [OF refl]) (use matches_one [of i "?u _" c] i names in \<open>simp add: ns_ndim_def\<close>)
    moreover have "distinct (map ((!) (ns_data s)) (filter (\<lambda>j. ?u j ! i = c) [0..<?n]))"
      using wf by (auto simp: distinct_map ns_wf_def inj_on_def nth_eq_iff_index_eq)
    ultimately show "get_ranks_by_coord s [(ns_names s ! i, int c)]
        = Inr (sort (map ((!) (ns_data s)) (filter (\<lambda>j. ?u j ! i = c) [0..<?n])))"
      using sl by (simp add: get_ranks_by_coord_def distinct_remdups_id)
  qed
  have "mset (concat ?rs) = mset (map ((!) (ns_data s)) (concat (map (\<lambda>c. filter (\<lambda>j. ?u j ! i = c) [0..<?n]) [0..<ns_dims s ! i])))"
    by (induction "ns_dims s ! i") (simp_all add: mset_concat comp_def map_concat)
  also have "\<dots> = image_mset ((!) (ns_data s)) (mset [0..<?n])"
    unfolding mset_map
    by (subst mset_filter_classes) (use unravel_bound [of _ "ns_dims s"] n i names in \<open>auto simp: list_all2_conv_all_nth\<close>)
  also have "\<dots> = mset (ns_data s)" by (metis map_nth mset_map)
  finally show ?thesis using c 1 2 3 by blast
qed

definition demo_layout :: sharding where
  "demo_layout = \<lparr>ns_dims = [1, 2, 2], ns_data = [0, 1, 2, 3], ns_names = [''dp'', ''pp'', ''tp'']\<rparr>"

lemma coordinates_identify_ranks_witness:
  "\<exists>coords. get_worker_coords demo_layout 2 = Inr coords
    \<and> get_ranks demo_layout (map (\<lambda>(n, c). (n, int c)) coords) = Inr (Rank 2)"
proof -
  have "ns_wf demo_layout" "2 \<in> set (ns_data demo_layout)" "0 < length (ns_names demo_layout)"
    by (simp_all add: demo_layout_def ns_wf_def)
  from coordinates_identify_ranks [OF this] show ?thesis by blast
qed

end
