(* ===== verification/Placement.thy ===== *)
theory Placement
  imports Prelude
begin

text \<open>
  Fleets and placement: the pre-flight computations of \<^verbatim>\<open>cluster/placement.py\<close> and the fleet
  specification of \<^verbatim>\<open>cluster/fleet.py\<close>. Both are pure; creating Ray placement groups is outside.
  Python's integers are \<open>int\<close>; \<open>//\<close> and \<open>%\<close> are \<open>div\<close> and \<open>mod\<close>, which round the same way, and a zero divisor raises.
  \<open>[x] * n\<close> is \<open>replicate (nat n) x\<close>, empty for a negative \<open>n\<close>.
\<close>

section \<open>Parallelism\<close>

record parallelism =
  tensor_parallel_size :: int
  pipeline_parallel_size :: int
  data_parallel_size :: int
  expert_parallel_size :: int

definition model_parallel_size :: "parallelism \<Rightarrow> int" where
  "model_parallel_size spec = tensor_parallel_size spec * pipeline_parallel_size spec"

definition total_gpus :: "parallelism \<Rightarrow> int" where
  "total_gpus spec = model_parallel_size spec * data_parallel_size spec"

definition validate_for_trainer :: "parallelism \<Rightarrow> int \<Rightarrow> int \<Rightarrow> unit result" where
  "validate_for_trainer spec num_nodes gpus_per_node =
     (if total_gpus spec > num_nodes * gpus_per_node then Inl PlacementConfigError
      else if gpus_per_node = 0 then Inl ZeroDivisionError
      else if total_gpus spec mod gpus_per_node \<noteq> 0 then Inl PlacementConfigError
      else Inr ())"

definition validate_for_inference :: "parallelism \<Rightarrow> int \<Rightarrow> int \<Rightarrow> unit result" where
  "validate_for_inference spec num_nodes gpus_per_node =
     (if total_gpus spec > num_nodes * gpus_per_node then Inl PlacementConfigError
      else if expert_parallel_size spec > 1 then
        if tensor_parallel_size spec = 0 then Inl ZeroDivisionError
        else if expert_parallel_size spec mod tensor_parallel_size spec \<noteq> 0 then Inl PlacementConfigError
        else Inr ()
      else Inr ())"

definition trainer_bundle_ct_per_node :: "parallelism \<Rightarrow> int \<Rightarrow> int \<Rightarrow> int list result" where
  "trainer_bundle_ct_per_node spec num_nodes gpus_per_node =
     bind_res (validate_for_trainer spec num_nodes gpus_per_node) (\<lambda>_.
       Inr (replicate (nat (total_gpus spec div gpus_per_node)) gpus_per_node))"

definition inference_bundle_ct_per_node :: "parallelism \<Rightarrow> int \<Rightarrow> int \<Rightarrow> int list result" where
  "inference_bundle_ct_per_node spec num_nodes gpus_per_node =
     bind_res (validate_for_inference spec num_nodes gpus_per_node) (\<lambda>_.
       if gpus_per_node = 0 then Inl ZeroDivisionError
       else Inr (replicate (nat (total_gpus spec div gpus_per_node)) gpus_per_node))"

definition requires_unified_placement_group :: "parallelism \<Rightarrow> int \<Rightarrow> bool" where
  "requires_unified_placement_group spec gpus_per_node \<longleftrightarrow> tensor_parallel_size spec > gpus_per_node"

section \<open>The weight-sync communicator\<close>

definition nccl_sync_world_size :: "parallelism \<Rightarrow> parallelism \<Rightarrow> int" where
  "nccl_sync_world_size trainer_spec inference_spec =
     data_parallel_size trainer_spec + data_parallel_size inference_spec"

definition trainer_sync_ranks :: "parallelism \<Rightarrow> int list" where
  "trainer_sync_ranks trainer_spec = [0..data_parallel_size trainer_spec - 1]"

definition inference_sync_ranks :: "parallelism \<Rightarrow> parallelism \<Rightarrow> int list" where
  "inference_sync_ranks trainer_spec inference_spec =
     (let offset = data_parallel_size trainer_spec
      in [offset..offset + data_parallel_size inference_spec - 1])"

section \<open>Fleet specification\<close>

record fleet_spec =
  fs_role :: string
  fs_num_nodes :: int
  fs_gpus_per_node :: int
  fs_placement_strategy :: string
  fs_max_colocated_worker_groups :: int
  fs_name :: string
  fs_segment_size :: "int option"

text \<open>The dataclass with its \<open>__post_init__\<close>: the checks in order, then the default name.\<close>

definition fleet_spec_init :: "fleet_spec \<Rightarrow> fleet_spec result" where
  "fleet_spec_init f =
     (if fs_role f \<notin> {''trainer'', ''inference'', ''sandbox''} then Inl ValueError
      else if fs_num_nodes f < 1 then Inl ValueError
      else if fs_gpus_per_node f < 0 then Inl ValueError
      else if (case fs_segment_size f of
                 None \<Rightarrow> False
               | Some seg \<Rightarrow> seg < 1 \<or> fs_role f = ''sandbox'' \<or> fs_num_nodes f mod seg \<noteq> 0)
      then Inl ValueError
      else if fs_role f = ''sandbox'' \<and> fs_gpus_per_node f \<noteq> 0 then Inl ValueError
      else if fs_role f \<noteq> ''sandbox'' \<and> fs_gpus_per_node f = 0 then Inl ValueError
      else Inr (if fs_name f = [] then f\<lparr>fs_name := ''dockyard-'' @ fs_role f\<rparr> else f))"

record cluster_args =
  ca_bundle_ct_per_node_list :: "int list"
  ca_use_gpus :: bool
  ca_num_gpus_per_node :: int

text \<open>The resources \<open>build_cluster\<close> asks for, by role.\<close>

definition build_cluster :: "fleet_spec \<Rightarrow> cluster_args result" where
  "build_cluster f =
     (if fs_role f = ''trainer'' \<or> fs_role f = ''inference'' then
        Inr \<lparr>ca_bundle_ct_per_node_list = replicate (nat (fs_num_nodes f)) (fs_gpus_per_node f),
             ca_use_gpus = True, ca_num_gpus_per_node = fs_gpus_per_node f\<rparr>
      else if fs_role f = ''sandbox'' then
        Inr \<lparr>ca_bundle_ct_per_node_list = [fs_num_nodes f], ca_use_gpus = False, ca_num_gpus_per_node = 0\<rparr>
      else Inl KeyError)"

section \<open>Properties\<close>

lemma sum_list_replicate_int: "0 \<le> k \<Longrightarrow> sum_list (replicate (nat k) (x :: int)) = k * x"
  by (simp add: sum_list_replicate)

text \<open>A trainer layout that passes the check gives every rank a GPU and fits the fleet: the per-node bundle
  counts add up to exactly TP x PP x DP, use no more nodes than the fleet has, and fill each node they use. The weight-sync communicator numbers the
  trainer and inference leaders 0, 1, ... without gap or overlap.\<close>

lemma trainer_layout_exact:
  assumes "0 < gpus_per_node" and "0 \<le> total_gpus spec" and "validate_for_trainer spec num_nodes gpus_per_node = Inr ()"
    and "0 \<le> data_parallel_size spec" and "0 \<le> data_parallel_size inf_spec"
  shows "\<exists>bundles. trainer_bundle_ct_per_node spec num_nodes gpus_per_node = Inr bundles
    \<and> sum_list bundles = total_gpus spec \<and> int (length bundles) \<le> num_nodes
    \<and> set bundles \<subseteq> {gpus_per_node}
    \<and> trainer_sync_ranks spec @ inference_sync_ranks spec inf_spec = [0..nccl_sync_world_size spec inf_spec - 1]"
proof -
  let ?t = "total_gpus spec" and ?g = gpus_per_node
  have v: "?t \<le> num_nodes * ?g" "?t mod ?g = 0"
    using assms(3) by (auto simp: validate_for_trainer_def split: if_splits)
  have nonneg: "0 \<le> ?t div ?g" using assms(1,2) by (simp add: pos_imp_zdiv_nonneg_iff)
  have total: "sum_list (replicate (nat (?t div ?g)) ?g) = ?t"
    using sum_list_replicate_int [OF nonneg, of ?g] v(2) by auto
  have "?t div ?g \<le> num_nodes * ?g div ?g" using v(1) assms(1) by (rule zdiv_mono1)
  then have "?t div ?g \<le> num_nodes" using assms(1) by simp
  then have len: "int (length (replicate (nat (?t div ?g)) ?g)) \<le> num_nodes" using nonneg by simp
  have "[0..data_parallel_size spec - 1] @ [data_parallel_size spec..data_parallel_size spec + data_parallel_size inf_spec - 1]
      = [0..data_parallel_size spec + data_parallel_size inf_spec - 1]"
    using assms(4,5) upto_split1 [of 0 "data_parallel_size spec" "data_parallel_size spec + data_parallel_size inf_spec - 1"]
    by (cases "data_parallel_size inf_spec = 0") auto
  then show ?thesis
    using total len assms(1,3)
    by (simp add: trainer_bundle_ct_per_node_def trainer_sync_ranks_def inference_sync_ranks_def nccl_sync_world_size_def
        set_replicate_conv_if Let_def)
qed

lemma trainer_layout_exact_witness:
  "\<exists>bundles. trainer_bundle_ct_per_node \<lparr>tensor_parallel_size = 4, pipeline_parallel_size = 2,
       data_parallel_size = 2, expert_parallel_size = 1\<rparr> 3 8 = Inr bundles \<and> sum_list bundles = 16"
proof -
  let ?s = "\<lparr>tensor_parallel_size = 4, pipeline_parallel_size = 2, data_parallel_size = 2, expert_parallel_size = 1\<rparr>"
  have "total_gpus ?s = 16" by (simp add: total_gpus_def model_parallel_size_def)
  then show ?thesis using trainer_layout_exact [of 8 ?s 3 ?s] by (auto simp: validate_for_trainer_def)
qed

text \<open>The inference layout is short of GPUs when the total is not a multiple of the node size. The inference check
  has no divisibility condition, and the bundle list drops the remainder: it offers exactly the remainder
  fewer GPUs than the replicas need, and none at all when everything would fit on part of one node.\<close>

lemma inference_layout_short:
  assumes "0 < gpus_per_node" and "0 \<le> total_gpus spec" and "validate_for_inference spec num_nodes gpus_per_node = Inr ()"
  shows "\<exists>bundles. inference_bundle_ct_per_node spec num_nodes gpus_per_node = Inr bundles
    \<and> sum_list bundles = total_gpus spec - total_gpus spec mod gpus_per_node
    \<and> (total_gpus spec < gpus_per_node \<longrightarrow> bundles = [])"
proof -
  have nonneg: "0 \<le> total_gpus spec div gpus_per_node" using assms(1,2) by (simp add: pos_imp_zdiv_nonneg_iff)
  have "sum_list (replicate (nat (total_gpus spec div gpus_per_node)) gpus_per_node)
      = total_gpus spec - total_gpus spec mod gpus_per_node"
    using sum_list_replicate_int [OF nonneg, of gpus_per_node] minus_mod_eq_div_mult [of "total_gpus spec" gpus_per_node] by simp
  then show ?thesis
    using assms by (simp add: inference_bundle_ct_per_node_def)
qed

lemma inference_layout_short_witness:
  "\<exists>bundles. inference_bundle_ct_per_node \<lparr>tensor_parallel_size = 4, pipeline_parallel_size = 1,
       data_parallel_size = 3, expert_parallel_size = 1\<rparr> 2 8 = Inr bundles \<and> sum_list bundles = 8"
proof -
  let ?s = "\<lparr>tensor_parallel_size = 4, pipeline_parallel_size = 1, data_parallel_size = 3, expert_parallel_size = 1\<rparr>"
  have "total_gpus ?s = 12" by (simp add: total_gpus_def model_parallel_size_def)
  then show ?thesis using inference_layout_short [of 8 ?s 2] by (auto simp: validate_for_inference_def)
qed

end
