(* ===== verification/Py_Strings.thy ===== *)
theory Py_Strings
  imports Prelude
begin

text \<open>
  Python text as lists of Unicode code points, with the string methods the components use: search, \<open>startswith\<close>,
  \<open>count\<close> and \<open>replace\<close>, and the facts on the first occurrence of a pattern that parsers rest on.
\<close>

type_synonym ustring = "nat list"

definition u :: "string \<Rightarrow> ustring" where
  "u s = map of_char s"

text \<open>\<open>str.lower\<close> on the ASCII letters.\<close>

definition lower :: "ustring \<Rightarrow> ustring" where
  "lower s = map (\<lambda>c. if 65 \<le> c \<and> c \<le> 90 then c + 32 else c) s"

text \<open>The text before and after the first occurrence of a pattern.\<close>

fun find_sub :: "'a list \<Rightarrow> 'a list \<Rightarrow> ('a list \<times> 'a list) option" where
  "find_sub pat [] = (if pat = [] then Some ([], []) else None)"
| "find_sub pat (c # s) =
     (if take (length pat) (c # s) = pat then Some ([], drop (length pat) (c # s))
      else map_option (\<lambda>(a, b). (c # a, b)) (find_sub pat s))"

lemma find_sub_sound: "find_sub pat s = Some (a, b) \<Longrightarrow> s = a @ pat @ b"
  by (induction pat s arbitrary: a rule: find_sub.induct)
    (auto split: if_splits, metis append_Cons append_take_drop_id length_Cons)

lemma find_sub_first:
  assumes "pat = c # p" and "c \<notin> set p" and "find_sub pat b = None"
  shows "find_sub pat (b @ pat @ r) = Some (b, r)"
  using assms(3)
proof (induction b)
  case Nil
  then show ?case using assms(1) by simp
next
  case (Cons x b)
  have none: "find_sub pat b = None" and not: "take (length pat) (x # b) \<noteq> pat"
    using Cons.prems by (auto split: if_splits)
  have "take (length pat) (x # b @ pat @ r) \<noteq> pat"
  proof
    assume eq: "take (length pat) (x # b @ pat @ r) = pat"
    let ?k = "length (x # b)"
    show False
    proof (cases "length pat \<le> ?k")
      case True
      then show False using eq not by (metis append_Cons append_Nil2 diff_is_0_eq take_0 take_append)
    next
      case False
      have "pat ! ?k = (x # b @ pat @ r) ! ?k" using False by (metis eq not_le nth_take)
      also have "\<dots> = pat ! 0" using False assms(1) by (simp add: nth_append)
      finally have "p ! (?k - 1) = c" using assms(1) by simp
      moreover have "?k - 1 < length p" using False assms(1) by simp
      ultimately show False using assms(2) nth_mem by blast
    qed
  qed
  then show ?case using Cons.IH [OF none] by simp
qed

lemma find_sub_occurs: "find_sub pat (a @ pat @ b) \<noteq> None"
proof (induction a)
  case Nil
  show ?case by (cases "pat @ b") (auto dest: sym)
qed auto

lemma find_sub_skip:
  "c \<notin> set a \<Longrightarrow> find_sub (c # p) (a @ s) = map_option (\<lambda>(x, y). (a @ x, y)) (find_sub (c # p) s)"
  by (induction a) (cases "find_sub (c # p) s"; auto)+

lemma find_sub_absent: "c \<notin> set a \<Longrightarrow> find_sub (c # p) a = None"
  using find_sub_skip [of c a p "[]"] by simp

definition starts_with :: "ustring \<Rightarrow> ustring \<Rightarrow> bool" where
  "starts_with s p \<longleftrightarrow> take (length p) s = p"

lemma starts_with_first: "starts_with (c # s) (d # p) \<Longrightarrow> c = d"
  by (simp add: starts_with_def)

definition hex_digit :: "nat \<Rightarrow> nat option" where
  "hex_digit c =
     (if 48 \<le> c \<and> c \<le> 57 then Some (c - 48)
      else if 97 \<le> c \<and> c \<le> 102 then Some (c - 87)
      else if 65 \<le> c \<and> c \<le> 70 then Some (c - 55)
      else None)"

text \<open>\<open>str.count\<close> and \<open>str.replace\<close>: occurrences from the left, without overlap.\<close>

function str_count :: "ustring \<Rightarrow> ustring \<Rightarrow> nat" where
  "str_count sub s =
     (if sub = [] then length s + 1
      else case find_sub sub s of None \<Rightarrow> 0 | Some (_, r) \<Rightarrow> Suc (str_count sub r))"
  by pat_completeness auto

termination
  by (relation "measure (length \<circ> snd)") (auto dest!: find_sub_sound)

function str_replace :: "ustring \<Rightarrow> ustring \<Rightarrow> ustring \<Rightarrow> ustring" where
  "str_replace sub new s =
     (if sub = [] then new @ concat (map (\<lambda>c. c # new) s)
      else case find_sub sub s of None \<Rightarrow> s | Some (a, r) \<Rightarrow> a @ new @ str_replace sub new r)"
  by pat_completeness auto

termination
  by (relation "measure (\<lambda>(sub, new, s). length s)") (auto dest!: find_sub_sound)

declare str_count.simps [simp del] str_replace.simps [simp del]

end
