(* ===== verification/Json.thy ===== *)
theory Json
  imports Py_Strings
begin

text \<open>
  JSON values as the standard library's \<open>json\<close> module produces them, with the decoder \<open>json.loads\<close> and
  the encoder \<open>json.dumps(..., ensure_ascii=False)\<close>, as far as the tool-call code relies on them.

  Text is a list of Unicode code points, so that escapes beyond Latin-1 have a value. A decimal literal with a
  fraction or an exponent is its exact rational value. The decoder is the one of CPython: one look-ahead
  character decides the kind of value, duplicate keys keep the position of the first and the value of the last, the constants
  \<open>NaN\<close>, \<open>Infinity\<close> and \<open>-Infinity\<close> are accepted, and an integer of more than 4300 digits raises \<open>ValueError\<close>.
  The recursion limit of the interpreter is not modelled: the decoder takes fuel, and \<open>loads\<close> gives it
  enough, as \<open>parse_fuel\<close> shows.
\<close>

section \<open>Values\<close>

datatype py_float = Fin rat | Infinity_float | Minus_infinity_float | Nan

datatype json =
    JNull
  | JBool bool
  | JInt int
  | JFloat py_float
  | JStr ustring
  | JList "json list"
  | JObj "(ustring \<times> json) list"

section \<open>Decoding\<close>

definition is_ws :: "nat \<Rightarrow> bool" where
  "is_ws c \<longleftrightarrow> c = 32 \<or> c = 9 \<or> c = 10 \<or> c = 13"

definition skip_ws :: "ustring \<Rightarrow> ustring" where
  "skip_ws s = dropWhile is_ws s"

fun hex4 :: "ustring \<Rightarrow> (nat \<times> ustring) option" where
  "hex4 (a # b # c # d # s) =
     (case (hex_digit a, hex_digit b, hex_digit c, hex_digit d) of
        (Some w, Some x, Some y, Some z) \<Rightarrow> Some (4096 * w + 256 * x + 16 * y + z, s)
      | _ \<Rightarrow> None)"
| "hex4 _ = None"

definition simple_escape :: "nat \<Rightarrow> nat option" where
  "simple_escape c =
     (if c = 34 \<or> c = 92 \<or> c = 47 then Some c
      else if c = 98 then Some 8 else if c = 102 then Some 12
      else if c = 110 then Some 10 else if c = 114 then Some 13 else if c = 116 then Some 9
      else None)"

definition high_surrogate :: "nat \<Rightarrow> bool" where
  "high_surrogate c \<longleftrightarrow> 55296 \<le> c \<and> c \<le> 56319"

definition low_surrogate :: "nat \<Rightarrow> bool" where
  "low_surrogate c \<longleftrightarrow> 56320 \<le> c \<and> c \<le> 57343"

text \<open>One escape after the backslash: the code point it stands for and the rest. A high surrogate
  followed by an escaped low one is one code point.\<close>

fun scan_escape :: "ustring \<Rightarrow> (nat \<times> ustring) option" where
  "scan_escape [] = None"
| "scan_escape (c # s) =
     (if c \<noteq> 117 then map_option (\<lambda>x. (x, s)) (simple_escape c)
      else case hex4 s of
        None \<Rightarrow> None
      | Some (x, s1) \<Rightarrow>
          if high_surrogate x \<and> take 2 s1 = [92, 117] then
            (case hex4 (drop 2 s1) of
               None \<Rightarrow> None
             | Some (y, s2) \<Rightarrow>
                 if low_surrogate y then Some (65536 + (x - 55296) * 1024 + (y - 56320), s2) else Some (x, s1))
          else Some (x, s1))"

lemma hex4_length: "hex4 s = Some (x, r) \<Longrightarrow> length s = length r + 4"
  by (induction s rule: hex4.induct) (auto split: option.splits)

lemma scan_escape_length: "scan_escape s = Some (x, r) \<Longrightarrow> length r < length s"
  by (cases s) (auto split: if_splits option.splits dest!: hex4_length)

text \<open>The characters of a string up to its closing quote, and the rest.\<close>

function scan_string :: "ustring \<Rightarrow> (ustring \<times> ustring) result" where
  "scan_string s =
     (case s of
        [] \<Rightarrow> Inl JSONDecodeError
      | c # r \<Rightarrow>
          if c = 34 then Inr ([], r)
          else if c = 92 then
            (case scan_escape r of
               None \<Rightarrow> Inl JSONDecodeError
             | Some (x, r1) \<Rightarrow> bind_res (scan_string r1) (\<lambda>(cs, rest). Inr (x # cs, rest)))
          else if c < 32 then Inl JSONDecodeError
          else bind_res (scan_string r) (\<lambda>(cs, rest). Inr (c # cs, rest)))"
  by pat_completeness auto

termination
  by (relation "measure length") (auto dest: scan_escape_length)

declare scan_string.simps [simp del]

definition is_digit :: "nat \<Rightarrow> bool" where
  "is_digit c \<longleftrightarrow> 48 \<le> c \<and> c \<le> 57"

definition digits_val :: "ustring \<Rightarrow> nat" where
  "digits_val ds = foldl (\<lambda>a d. 10 * a + (d - 48)) 0 ds"

definition int_max_str_digits :: nat where
  "int_max_str_digits = 4300"

text \<open>The integer part, the optional fraction and the optional exponent of a number.\<close>

definition scan_int :: "ustring \<Rightarrow> (ustring \<times> ustring) option" where
  "scan_int s =
     (case s of
        [] \<Rightarrow> None
      | c # r \<Rightarrow>
          if c = 48 then Some ([48], r)
          else if is_digit c then Some (takeWhile is_digit s, dropWhile is_digit s)
          else None)"

definition scan_frac :: "ustring \<Rightarrow> (ustring \<times> ustring) option" where
  "scan_frac s =
     (case s of
        [] \<Rightarrow> None
      | c # r \<Rightarrow> if c = 46 \<and> takeWhile is_digit r \<noteq> [] then Some (takeWhile is_digit r, dropWhile is_digit r) else None)"

definition scan_exp :: "ustring \<Rightarrow> (int \<times> ustring) option" where
  "scan_exp s =
     (case s of
        [] \<Rightarrow> None
      | c # r \<Rightarrow>
          if c \<noteq> 101 \<and> c \<noteq> 69 then None
          else
            let (neg, t) = (case r of [] \<Rightarrow> (False, r) | d # r' \<Rightarrow> if d = 45 then (True, r') else if d = 43 then (False, r') else (False, r));
                ds = takeWhile is_digit t
            in if ds = [] then None
               else Some (if neg then - int (digits_val ds) else int (digits_val ds), dropWhile is_digit t))"

definition float_value :: "bool \<Rightarrow> ustring \<Rightarrow> ustring \<Rightarrow> int \<Rightarrow> rat" where
  "float_value neg ds fs e =
     (let m = (of_nat (digits_val ds) + of_nat (digits_val fs) / 10 ^ length fs :: rat);
          x = (if 0 \<le> e then m * 10 ^ nat e else m / 10 ^ nat (- e))
      in if neg then - x else x)"

definition scan_number :: "ustring \<Rightarrow> (json \<times> ustring) result" where
  "scan_number s =
     (let neg = (s \<noteq> [] \<and> hd s = 45); s1 = (if neg then tl s else s) in
      case scan_int s1 of
        None \<Rightarrow> Inl JSONDecodeError
      | Some (ds, s2) \<Rightarrow>
          (case (scan_frac s2, scan_exp (case scan_frac s2 of None \<Rightarrow> s2 | Some (fs, s3) \<Rightarrow> s3)) of
             (None, None) \<Rightarrow>
               if int_max_str_digits < length ds then Inl ValueError
               else Inr (JInt (if neg then - int (digits_val ds) else int (digits_val ds)), s2)
           | (Some (fs, s3), None) \<Rightarrow> Inr (JFloat (Fin (float_value neg ds fs 0)), s3)
           | (None, Some (e, s4)) \<Rightarrow> Inr (JFloat (Fin (float_value neg ds [] e)), s4)
           | (Some (fs, s3), Some (e, s4)) \<Rightarrow> Inr (JFloat (Fin (float_value neg ds fs e)), s4)))"

text \<open>The literal at the front of the text, if there is one.\<close>

definition literals :: "(ustring \<times> json) list" where
  "literals = [(u ''null'', JNull), (u ''true'', JBool True), (u ''false'', JBool False), (u ''NaN'', JFloat Nan),
     (u ''Infinity'', JFloat Infinity_float), (u ''-Infinity'', JFloat Minus_infinity_float)]"

definition scan_literal :: "ustring \<Rightarrow> (json \<times> ustring) option" where
  "scan_literal s =
     (case filter (\<lambda>(w, v). take (length w) s = w) literals of
        [] \<Rightarrow> None
      | (w, v) # _ \<Rightarrow> Some (v, drop (length w) s))"

text \<open>Values, the members of an object and the elements of an array.\<close>

fun parse_value :: "nat \<Rightarrow> ustring \<Rightarrow> (json \<times> ustring) result"
  and parse_members :: "nat \<Rightarrow> (ustring \<times> json) list \<Rightarrow> ustring \<Rightarrow> (json \<times> ustring) result"
  and parse_elements :: "nat \<Rightarrow> json list \<Rightarrow> ustring \<Rightarrow> (json \<times> ustring) result" where
  "parse_value 0 s = Inl RuntimeError"
| "parse_value (Suc n) s =
     (case s of
        [] \<Rightarrow> Inl JSONDecodeError
      | c # r \<Rightarrow>
          if c = 34 then bind_res (scan_string r) (\<lambda>(cs, rest). Inr (JStr cs, rest))
          else if c = 123 then
            (if skip_ws r \<noteq> [] \<and> hd (skip_ws r) = 125 then Inr (JObj [], tl (skip_ws r))
             else parse_members n [] (skip_ws r))
          else if c = 91 then
            (if skip_ws r \<noteq> [] \<and> hd (skip_ws r) = 93 then Inr (JList [], tl (skip_ws r))
             else parse_elements n [] (skip_ws r))
          else (case scan_literal s of Some vr \<Rightarrow> Inr vr | None \<Rightarrow> scan_number s))"
| "parse_members 0 acc s = Inl RuntimeError"
| "parse_members (Suc n) acc s =
     (case s of
        [] \<Rightarrow> Inl JSONDecodeError
      | c # r \<Rightarrow>
          if c \<noteq> 34 then Inl JSONDecodeError
          else bind_res (scan_string r) (\<lambda>(key, r1).
            case skip_ws r1 of
              [] \<Rightarrow> Inl JSONDecodeError
            | d # r2 \<Rightarrow>
                if d \<noteq> 58 then Inl JSONDecodeError
                else bind_res (parse_value n (skip_ws r2)) (\<lambda>(v, r3).
                  case skip_ws r3 of
                    [] \<Rightarrow> Inl JSONDecodeError
                  | e # r4 \<Rightarrow>
                      if e = 125 then Inr (JObj (dict_set key v acc), r4)
                      else if e = 44 then parse_members n (dict_set key v acc) (skip_ws r4)
                      else Inl JSONDecodeError)))"
| "parse_elements 0 acc s = Inl RuntimeError"
| "parse_elements (Suc n) acc s =
     bind_res (parse_value n s) (\<lambda>(v, r).
       case skip_ws r of
         [] \<Rightarrow> Inl JSONDecodeError
       | e # r1 \<Rightarrow>
           if e = 93 then Inr (JList (acc @ [v]), r1)
           else if e = 44 then parse_elements n (acc @ [v]) (skip_ws r1)
           else Inl JSONDecodeError)"

definition loads :: "ustring \<Rightarrow> json result" where
  "loads s =
     bind_res (parse_value (2 * length s + 2) (skip_ws s)) (\<lambda>(v, rest).
       if skip_ws rest = [] then Inr v else Inl JSONDecodeError)"

section \<open>Encoding\<close>

definition hex_char :: "nat \<Rightarrow> nat" where
  "hex_char d = (if d < 10 then 48 + d else 87 + d)"

definition escape_char :: "nat \<Rightarrow> ustring" where
  "escape_char c =
     (if c = 34 then [92, 34] else if c = 92 then [92, 92]
      else if c = 10 then [92, 110] else if c = 13 then [92, 114] else if c = 9 then [92, 116]
      else if c = 12 then [92, 102] else if c = 8 then [92, 98]
      else if c < 32 then [92, 117, 48, 48, hex_char (c div 16), hex_char (c mod 16)]
      else [c])"

definition quoted :: "ustring \<Rightarrow> ustring" where
  "quoted s = [34] @ concat (map escape_char s) @ [34]"

fun show_nat :: "nat \<Rightarrow> ustring" where
  "show_nat n = (if n < 10 then [48 + n] else show_nat (n div 10) @ [48 + n mod 10])"

declare show_nat.simps [simp del]

definition show_int :: "int \<Rightarrow> ustring" where
  "show_int i = (if i < 0 then 45 # show_nat (nat (- i)) else show_nat (nat i))"

fun join :: "'a list \<Rightarrow> 'a list list \<Rightarrow> 'a list" where
  "join sep [] = []"
| "join sep [x] = x"
| "join sep (x # y # ys) = x @ sep @ join sep (y # ys)"

text \<open>\<open>float_repr\<close> is the shortest representation \<open>repr\<close> gives for a finite float.\<close>

fun dumps :: "(rat \<Rightarrow> ustring) \<Rightarrow> json \<Rightarrow> ustring" where
  "dumps float_repr JNull = u ''null''"
| "dumps float_repr (JBool b) = (if b then u ''true'' else u ''false'')"
| "dumps float_repr (JInt i) = show_int i"
| "dumps float_repr (JFloat (Fin q)) = float_repr q"
| "dumps float_repr (JFloat Infinity_float) = u ''Infinity''"
| "dumps float_repr (JFloat Minus_infinity_float) = u ''-Infinity''"
| "dumps float_repr (JFloat Nan) = u ''NaN''"
| "dumps float_repr (JStr s) = quoted s"
| "dumps float_repr (JList vs) = [91] @ join [44, 32] (map (dumps float_repr) vs) @ [93]"
| "dumps float_repr (JObj ms) = [123] @ join [44, 32] (map (\<lambda>(k, v). quoted k @ [58, 32] @ dumps float_repr v) ms) @ [125]"

section \<open>The decoder consumes its input and has enough fuel\<close>

lemma skip_ws_length [simp]: "length (skip_ws s) \<le> length s"
  by (simp add: skip_ws_def length_dropWhile_le)

lemma skip_ws_ConsD: "skip_ws s = c # r \<Longrightarrow> length r < length s"
  by (metis Suc_le_lessD length_Cons skip_ws_length)

lemma scan_string_length: "scan_string s = Inr (cs, r) \<Longrightarrow> length r < length s"
proof (induction s arbitrary: cs rule: scan_string.induct)
  case (1 s)
  show ?case
  proof (cases s)
    case (Cons c t)
    have "scan_string (c # t) = Inr (cs, r)" using "1.prems" Cons by simp
    then consider "c = 34" "r = t"
      | x t1 cs1 where "scan_escape t = Some (x, t1)" "scan_string t1 = Inr (cs1, r)" "c = 92"
      | cs1 where "scan_string t = Inr (cs1, r)" "\<not> c = 34" "c \<noteq> 92" "\<not> c < 32"
      by (subst (asm) scan_string.simps) (auto simp: bind_res_eq_Inr split: if_splits option.splits)
    then show ?thesis
    proof cases
      case 2
      then show ?thesis using "1.IH"(1) [OF Cons] scan_escape_length [OF 2(1)] Cons by force
    next
      case 3
      then show ?thesis using "1.IH"(2) [OF Cons] Cons by force
    qed (use Cons in simp)
  qed (use "1.prems" in \<open>simp add: scan_string.simps\<close>)
qed

lemma scan_string_errors: "scan_string s = Inl e \<Longrightarrow> e = JSONDecodeError"
proof (induction s rule: scan_string.induct)
  case (1 s)
  show ?case
    using "1.prems" "1.IH"
    by (subst (asm) scan_string.simps) (auto simp: bind_res_eq_Inl split: list.splits if_splits option.splits)
qed

lemma scan_int_length: "scan_int s = Some (ds, r) \<Longrightarrow> length r < length s"
  by (auto simp: scan_int_def length_dropWhile_le less_Suc_eq_le split: list.splits if_splits)

lemma scan_frac_length: "scan_frac s = Some (ds, r) \<Longrightarrow> length r \<le> length s"
  by (auto simp: scan_frac_def length_dropWhile_le le_SucI split: list.splits if_splits)

lemma scan_exp_length: "scan_exp s = Some (e, r) \<Longrightarrow> length r \<le> length s"
  by (auto simp: scan_exp_def Let_def intro: le_trans [OF length_dropWhile_le] split: list.splits if_splits)

lemma scan_number_length: "scan_number s = Inr (v, r) \<Longrightarrow> length r < length s"
  by (auto simp: scan_number_def Let_def split: option.splits if_splits
      dest!: scan_int_length scan_frac_length scan_exp_length) arith+

lemma scan_number_errors: "scan_number s = Inl e \<Longrightarrow> e \<in> {JSONDecodeError, ValueError}"
  by (auto simp: scan_number_def Let_def split: option.splits if_splits)

lemma scan_literal_length: "scan_literal s = Some (v, r) \<Longrightarrow> length r < length s"
proof -
  assume "scan_literal s = Some (v, r)"
  then obtain w ws where f: "filter (\<lambda>(w, v). take (length w) s = w) literals = (w, v) # ws" "r = drop (length w) s"
    by (auto simp: scan_literal_def split: list.splits)
  have "(w, v) \<in> set (filter (\<lambda>(w, v). take (length w) s = w) literals)" unfolding f(1) by simp
  then have "take (length w) s = w" "(w, v) \<in> set literals" by auto
  moreover have "\<forall>(w, v)\<in>set literals. w \<noteq> []" by (simp add: literals_def u_def)
  ultimately have "w \<noteq> []" "length w \<le> length s" using take_all_iff by (auto, metis length_take min.cobounded1)
  then show ?thesis using f(2) by (cases w) auto
qed

text \<open>With fuel for its input, a parser raises only what the decoder raises, and consumes a character.\<close>

definition parse_ok :: "ustring \<Rightarrow> (json \<times> ustring) result \<Rightarrow> bool" where
  "parse_ok s res \<longleftrightarrow>
     (case res of Inl e \<Rightarrow> e \<in> {JSONDecodeError, ValueError} | Inr (v, r) \<Rightarrow> length r < length s)"

lemma parse_ok_mono: "parse_ok s res \<Longrightarrow> length s \<le> length t \<Longrightarrow> parse_ok t res"
  by (auto simp: parse_ok_def split: sum.splits)

lemma parse_ok_bind:
  assumes "parse_ok s res" and "\<And>v r. res = Inr (v, r) \<Longrightarrow> length r < length s \<Longrightarrow> parse_ok t (f v r)"
  shows "parse_ok t (bind_res res (\<lambda>(v, r). f v r))"
proof (cases res)
  case (Inr vr)
  then show ?thesis using assms by (cases vr) (simp add: parse_ok_def)
qed (use assms(1) in \<open>simp add: parse_ok_def\<close>)

lemma parse_ok_string:
  assumes "\<And>cs r1. scan_string r = Inr (cs, r1) \<Longrightarrow> length r1 < length r \<Longrightarrow> parse_ok t (f cs r1)"
  shows "parse_ok t (bind_res (scan_string r) (\<lambda>(cs, r1). f cs r1))"
proof (cases "scan_string r")
  case (Inl e)
  then show ?thesis using scan_string_errors by (auto simp: parse_ok_def)
next
  case (Inr p)
  then show ?thesis using assms scan_string_length by (cases p) auto
qed

lemma parse_fuel:
  "2 * length s + 1 \<le> f \<Longrightarrow> parse_ok s (parse_value f s)"
  "2 * length s + 2 \<le> f \<Longrightarrow> parse_ok s (parse_members f ms s)"
  "2 * length s + 2 \<le> f \<Longrightarrow> parse_ok s (parse_elements f vs s)"
proof (induction f s and f ms s and f vs s rule: parse_value_parse_members_parse_elements.induct)
  case (2 n s)
  show ?case
  proof (cases s)
    case (Cons c r)
    have len: "2 * length (skip_ws r) + 2 \<le> n"
      using "2.prems" Cons skip_ws_length [of r] by (simp del: skip_ws_length)
    have "parse_ok s (bind_res (scan_string r) (\<lambda>(cs, rest). Inr (JStr cs, rest)))"
      by (rule parse_ok_string) (use Cons in \<open>simp add: parse_ok_def\<close>)
    moreover have "parse_ok s (parse_members n [] (skip_ws r))"
      if "\<not> c = 34" "c = 123" "\<not> (skip_ws r \<noteq> [] \<and> hd (skip_ws r) = 125)"
      using "2.IH"(1) [OF Cons that len] by (rule parse_ok_mono) (use Cons in \<open>simp add: le_SucI\<close>)
    moreover have "parse_ok s (parse_elements n [] (skip_ws r))"
      if "\<not> c = 34" "\<not> c = 123" "c = 91" "\<not> (skip_ws r \<noteq> [] \<and> hd (skip_ws r) = 93)"
      using "2.IH"(2) [OF Cons that len] by (rule parse_ok_mono) (use Cons in \<open>simp add: le_SucI\<close>)
    moreover have "parse_ok s (Inr (v, tl (skip_ws r)))" for v
      using Cons skip_ws_length [of r] by (simp add: parse_ok_def less_Suc_eq_le le_trans [OF diff_le_self])
    moreover have "parse_ok s (Inr vr)" if "scan_literal s = Some vr" for vr
      using that scan_literal_length by (cases vr) (auto simp: parse_ok_def)
    moreover have "parse_ok s (scan_number s)"
      using scan_number_length scan_number_errors by (auto simp: parse_ok_def split: sum.splits)
    ultimately show ?thesis using Cons by (auto split: option.splits)
  qed (simp add: parse_ok_def)
next
  case (4 n acc s)
  show ?case
  proof (cases s)
    case (Cons c r)
    define B where "B key r1 = (case skip_ws r1 of
              [] \<Rightarrow> Inl JSONDecodeError
            | d # r2 \<Rightarrow>
                if d \<noteq> 58 then Inl JSONDecodeError
                else bind_res (parse_value n (skip_ws r2)) (\<lambda>(v, r3).
                  case skip_ws r3 of
                    [] \<Rightarrow> Inl JSONDecodeError
                  | e # r4 \<Rightarrow>
                      if e = 125 then Inr (JObj (dict_set key v acc), r4)
                      else if e = 44 then parse_members n (dict_set key v acc) (skip_ws r4)
                      else Inl JSONDecodeError))" for key r1
    have B: "parse_ok s (B key r1)"
      if c: "\<not> c \<noteq> 34" and key: "scan_string r = Inr (key, r1)" and r1: "length r1 < length r" for key r1
    proof (cases "skip_ws r1")
      case Nil
      then show ?thesis by (simp add: B_def parse_ok_def)
    next
      case r2: (Cons d r2)
      have l2: "length (skip_ws r2) < length r1" using skip_ws_ConsD [OF r2] skip_ws_length [of r2] by linarith
      have v: "parse_ok (skip_ws r2) (parse_value n (skip_ws r2))" if "\<not> d \<noteq> 58"
        using "4.IH"(1) [OF Cons c r2 that] "4.prems" l2 r1 Cons by simp
      have C: "parse_ok s (case skip_ws r3 of
                    [] \<Rightarrow> Inl JSONDecodeError
                  | e # r4 \<Rightarrow>
                      if e = 125 then Inr (JObj (dict_set key v acc), r4)
                      else if e = 44 then parse_members n (dict_set key v acc) (skip_ws r4)
                      else Inl JSONDecodeError)"
        if d: "\<not> d \<noteq> 58" and pv: "parse_value n (skip_ws r2) = Inr (v, r3)" and r3: "length r3 < length (skip_ws r2)" for v r3
      proof (cases "skip_ws r3")
        case Nil
        then show ?thesis by (simp add: parse_ok_def)
      next
        case r4: (Cons e r4)
        have l4: "length (skip_ws r4) < length r" "length r4 < length r"
          using skip_ws_ConsD [OF r4] skip_ws_length [of r4] r3 l2 r1 by linarith+
        have "parse_ok s (parse_members n (dict_set key v acc) (skip_ws r4))" if "e \<noteq> 125" "e = 44"
          using "4.IH"(2) [OF Cons c r2 d r4 that] "4.prems" l4 Cons
          by (intro parse_ok_mono [of "skip_ws r4" _ s]) simp_all
        then show ?thesis using r4 l4 Cons by (simp add: parse_ok_def)
      qed
      have "parse_ok s (bind_res (parse_value n (skip_ws r2)) (\<lambda>(v, r3).
                  case skip_ws r3 of
                    [] \<Rightarrow> Inl JSONDecodeError
                  | e # r4 \<Rightarrow>
                      if e = 125 then Inr (JObj (dict_set key v acc), r4)
                      else if e = 44 then parse_members n (dict_set key v acc) (skip_ws r4)
                      else Inl JSONDecodeError))" if "\<not> d \<noteq> 58"
        by (rule parse_ok_bind [OF v [OF that]]) (rule C [OF that])
      then show ?thesis unfolding B_def r2 by (simp add: parse_ok_def)
    qed
    show ?thesis
    proof (cases "c = 34")
      case True
      then have "parse_members (Suc n) acc s = bind_res (scan_string r) (\<lambda>(key, r1). B key r1)"
        by (simp add: Cons B_def)
      moreover have "parse_ok s (bind_res (scan_string r) (\<lambda>(key, r1). B key r1))"
        using True by (intro parse_ok_string B) simp_all
      ultimately show ?thesis by (simp only:)
    qed (simp add: Cons parse_ok_def)
  qed (simp add: parse_ok_def)
next
  case (6 n acc s)
  have v: "parse_ok s (parse_value n s)" using "6.IH"(1) "6.prems" by simp
  show ?case
    unfolding parse_elements.simps
  proof (rule parse_ok_bind [OF v])
    fix v r
    assume pv: "parse_value n s = Inr (v, r)" and r: "length r < length s"
    show "parse_ok s (case skip_ws r of
         [] \<Rightarrow> Inl JSONDecodeError
       | e # r1 \<Rightarrow>
           if e = 93 then Inr (JList (acc @ [v]), r1)
           else if e = 44 then parse_elements n (acc @ [v]) (skip_ws r1)
           else Inl JSONDecodeError)"
    proof (cases "skip_ws r")
      case Nil
      then show ?thesis by (simp add: parse_ok_def)
    next
      case r1: (Cons e r1)
      have l: "length (skip_ws r1) < length s" "length r1 < length s"
        using skip_ws_ConsD [OF r1] skip_ws_length [of r1] r by linarith+
      have "parse_ok s (parse_elements n (acc @ [v]) (skip_ws r1))" if "e \<noteq> 93" "e = 44"
        using "6.IH"(2) [OF r1 that] "6.prems" l by (intro parse_ok_mono [of "skip_ws r1" _ s]) simp_all
      then show ?thesis using r1 l by (simp add: parse_ok_def)
    qed
  qed
qed simp_all

lemma loads_errors: "loads s = Inl e \<Longrightarrow> e \<in> {JSONDecodeError, ValueError}"
proof -
  assume l: "loads s = Inl e"
  have "parse_ok (skip_ws s) (parse_value (2 * length s + 2) (skip_ws s))"
    using skip_ws_length [of s] by (intro parse_fuel(1)) linarith
  then show ?thesis using l by (auto simp: loads_def parse_ok_def bind_res_def split: sum.splits if_splits)
qed

section \<open>Decoding what was encoded\<close>

lemma scan_string_Cons:
  "scan_string (c # r) =
     (if c = 34 then Inr ([], r)
      else if c = 92 then
        (case scan_escape r of
           None \<Rightarrow> Inl JSONDecodeError
         | Some (x, r1) \<Rightarrow> bind_res (scan_string r1) (\<lambda>(cs, rest). Inr (x # cs, rest)))
      else if c < 32 then Inl JSONDecodeError
      else bind_res (scan_string r) (\<lambda>(cs, rest). Inr (c # cs, rest)))"
  by (subst scan_string.simps) simp

lemma hex_digit_char: "d < 16 \<Longrightarrow> hex_digit (hex_char d) = Some d"
  by (auto simp: hex_digit_def hex_char_def)

lemma scan_escape_char:
  "scan_string (escape_char c @ t) = bind_res (scan_string t) (\<lambda>(cs, rest). Inr (c # cs, rest))"
proof (cases "c < 32 \<and> c \<notin> {8, 9, 10, 12, 13}")
  case True
  then have esc: "escape_char c = [92, 117, 48, 48, hex_char (c div 16), hex_char (c mod 16)]"
    by (auto simp: escape_char_def)
  have "hex_digit 48 = Some 0" by (simp add: hex_digit_def)
  moreover have "c div 16 < 16" using True by auto
  ultimately have "hex4 ([48, 48, hex_char (c div 16), hex_char (c mod 16)] @ t) = Some (16 * (c div 16) + c mod 16, t)"
    by (simp add: hex_digit_char)
  moreover have "16 * (c div 16) + c mod 16 = c" by simp
  moreover have "\<not> high_surrogate c" using True by (simp add: high_surrogate_def)
  ultimately have "scan_escape (117 # [48, 48, hex_char (c div 16), hex_char (c mod 16)] @ t) = Some (c, t)"
    by (simp del: hex4.simps append_Cons)
  then show ?thesis by (simp add: esc scan_string_Cons)
next
  case False
  then show ?thesis
    by (auto simp: escape_char_def scan_string_Cons simple_escape_def)
qed

lemma scan_quoted: "scan_string (concat (map escape_char s) @ 34 # rest) = Inr (s, rest)"
  by (induction s) (simp_all add: scan_escape_char, simp add: scan_string_Cons)

lemma show_nat_digits: "show_nat n \<noteq> [] \<and> list_all is_digit (show_nat n) \<and> (hd (show_nat n) = 48 \<longrightarrow> n = 0)"
proof (induction n rule: show_nat.induct)
  case (1 n)
  show ?case
  proof (cases "n < 10")
    case True
    then show ?thesis by (subst (1 2 3) show_nat.simps) (simp add: is_digit_def)
  next
    case False
    have "n div 10 \<noteq> 0" "is_digit (48 + n mod 10)" using False by (auto simp: is_digit_def)
    then show ?thesis using 1 [OF False] False by (subst (1 2 3) show_nat.simps) auto
  qed
qed

lemma digits_val_show_nat: "digits_val (show_nat n) = n"
proof (induction n rule: show_nat.induct)
  case (1 n)
  show ?case
  proof (cases "n < 10")
    case True
    then show ?thesis by (subst show_nat.simps) (simp add: digits_val_def)
  next
    case False
    then show ?thesis using 1 [OF False] by (subst show_nat.simps) (simp add: digits_val_def)
  qed
qed

text \<open>A number ends where none of its characters can follow.\<close>

definition number_end :: "ustring \<Rightarrow> bool" where
  "number_end rest \<longleftrightarrow> (case rest of [] \<Rightarrow> True | c # _ \<Rightarrow> \<not> is_digit c \<and> c \<noteq> 46 \<and> c \<noteq> 101 \<and> c \<noteq> 69)"

lemma takeWhile_digits:
  assumes "list_all is_digit ds" and "number_end rest"
  shows "takeWhile is_digit (ds @ rest) = ds" and "dropWhile is_digit (ds @ rest) = rest"
proof -
  have "takeWhile is_digit rest = []" "dropWhile is_digit rest = rest"
    using assms(2) by (auto simp: number_end_def split: list.splits)
  then show "takeWhile is_digit (ds @ rest) = ds" "dropWhile is_digit (ds @ rest) = rest"
    using assms(1) by (auto simp: list_all_iff)
qed

lemma scan_int_show_nat:
  assumes "number_end rest"
  shows "scan_int (show_nat n @ rest) = Some (show_nat n, rest)"
proof (cases "n = 0")
  case True
  then show ?thesis by (simp add: show_nat.simps scan_int_def)
next
  case False
  obtain c ds where ds: "show_nat n = c # ds" "is_digit c" "c \<noteq> 48"
    using show_nat_digits [of n] False by (cases "show_nat n") auto
  then show ?thesis
    using takeWhile_digits [OF _ assms, of "show_nat n"] show_nat_digits [of n] by (simp add: scan_int_def)
qed

lemma scan_number_show_int:
  assumes "number_end rest" and "length (show_nat (nat \<bar>i\<bar>)) \<le> int_max_str_digits"
  shows "scan_number (show_int i @ rest) = Inr (JInt i, rest)"
proof -
  have none: "scan_frac rest = None" "scan_exp rest = None"
    using assms(1) by (auto simp: scan_frac_def scan_exp_def number_end_def split: list.splits)
  obtain c ds where c: "show_nat (nat \<bar>i\<bar>) = c # ds" "is_digit c"
    using show_nat_digits [of "nat \<bar>i\<bar>"] by (cases "show_nat (nat \<bar>i\<bar>)") auto
  have len: "\<not> int_max_str_digits < length (show_nat (nat \<bar>i\<bar>))" using assms(2) by simp
  note scan = scan_int_show_nat [OF assms(1), of "nat \<bar>i\<bar>"]
  show ?thesis
  proof (cases "i < 0")
    case True
    then have "show_int i = 45 # show_nat (nat \<bar>i\<bar>)" by (simp add: show_int_def)
    then show ?thesis
      using True scan none len by (simp add: scan_number_def digits_val_show_nat)
  next
    case False
    then have i: "show_int i = show_nat (nat \<bar>i\<bar>)" by (simp add: show_int_def)
    have "hd (show_int i @ rest) \<noteq> 45" using c i by (auto simp: is_digit_def)
    then show ?thesis
      using False scan none len by (simp add: scan_number_def i digits_val_show_nat)
  qed
qed

lemma scan_literal_other:
  assumes "s = c # r" and "c \<notin> {110, 116, 102, 78, 73, 45} \<or> c = 45 \<and> r \<noteq> [] \<and> hd r \<noteq> 73"
  shows "scan_literal s = None"
proof -
  have "take (length w) s \<noteq> w" if "(w, v) \<in> set literals" for w v
    using that assms by (cases r) (auto simp: literals_def u_def)
  then have "filter (\<lambda>(w, v). take (length w) s = w) literals = []" by (auto simp: filter_empty_conv)
  then show ?thesis by (simp add: scan_literal_def)
qed

lemma scan_literal_show_int: "scan_literal (show_int i @ rest) = None"
proof -
  obtain c ds where c: "show_nat (nat \<bar>i\<bar>) = c # ds" "is_digit c"
    using show_nat_digits [of "nat \<bar>i\<bar>"] by (cases "show_nat (nat \<bar>i\<bar>)") auto
  show ?thesis
  proof (cases "i < 0")
    case True
    then have "show_int i @ rest = 45 # (c # ds @ rest)" using c by (simp add: show_int_def)
    then show ?thesis by (rule scan_literal_other) (use c(2) in \<open>auto simp: is_digit_def\<close>)
  next
    case False
    then have "show_int i @ rest = c # (ds @ rest)" using c by (simp add: show_int_def)
    then show ?thesis by (rule scan_literal_other) (use c(2) in \<open>auto simp: is_digit_def\<close>)
  qed
qed

text \<open>Values the encoder writes exactly: no finite floats, distinct keys, integers within the digit limit.\<close>

fun json_wf :: "json \<Rightarrow> bool" where
  "json_wf (JInt i) \<longleftrightarrow> length (show_nat (nat \<bar>i\<bar>)) \<le> int_max_str_digits"
| "json_wf (JFloat x) \<longleftrightarrow> (case x of Fin q \<Rightarrow> False | _ \<Rightarrow> True)"
| "json_wf (JList vs) \<longleftrightarrow> list_all json_wf vs"
| "json_wf (JObj ms) \<longleftrightarrow> distinct (map fst ms) \<and> list_all (\<lambda>(k, v). json_wf v) ms"
| "json_wf _ \<longleftrightarrow> True"

definition plain_start :: "ustring \<Rightarrow> bool" where
  "plain_start s \<longleftrightarrow> s \<noteq> [] \<and> \<not> is_ws (hd s) \<and> hd s \<noteq> 93 \<and> hd s \<noteq> 125"

lemma skip_ws_plain [simp]: "plain_start s \<Longrightarrow> skip_ws (s @ t) = s @ t"
  by (cases s) (auto simp: plain_start_def skip_ws_def)

lemma skip_ws_Cons: "skip_ws (c # s) = (if is_ws c then skip_ws s else c # s)"
  by (simp add: skip_ws_def)

lemma quoted_start: "plain_start (quoted k @ t)"
  by (simp add: quoted_def plain_start_def is_ws_def)

lemma dumps_start: "json_wf v \<Longrightarrow> plain_start (dumps fr v)"
proof (cases v)
  case (JInt i)
  obtain c ds where "show_nat (nat \<bar>i\<bar>) = c # ds" "is_digit c"
    using show_nat_digits [of "nat \<bar>i\<bar>"] by (cases "show_nat (nat \<bar>i\<bar>)") auto
  then show ?thesis using JInt by (auto simp: show_int_def plain_start_def is_ws_def is_digit_def)
next
  case (JStr s)
  then show ?thesis using quoted_start [of s "[]"] by simp
next
  case (JFloat x)
  then show "json_wf v \<Longrightarrow> plain_start (dumps fr v)"
    by (cases x) (auto simp: plain_start_def is_ws_def u_def)
qed (auto simp: plain_start_def is_ws_def u_def)

lemma join_Cons: "join sep (x # xs) = x @ (if xs = [] then [] else sep @ join sep xs)"
  by (cases xs) simp_all

lemma join_start: "xs \<noteq> [] \<Longrightarrow> plain_start (hd xs) \<Longrightarrow> plain_start (join sep xs)"
  by (cases xs) (auto simp: join_Cons plain_start_def)

lemma parse_literal:
  assumes "w \<in> {u ''null'', u ''true'', u ''false'', u ''NaN'', u ''Infinity'', u ''-Infinity''}"
  shows "scan_literal (w @ rest) = Some (the (map_of literals w), rest)"
  using assms by (auto simp: scan_literal_def literals_def u_def)

lemma parse_elements_dumps:
  assumes "vs \<noteq> []" and "list_all json_wf vs"
    and "\<And>v f rest. v \<in> set vs \<Longrightarrow> number_end rest \<Longrightarrow> 2 * length (dumps fr v) + 1 \<le> f
      \<Longrightarrow> parse_value f (dumps fr v @ rest) = Inr (v, rest)"
    and "2 * length (join [44, 32] (map (dumps fr) vs)) + 2 \<le> f"
  shows "parse_elements f acc (join [44, 32] (map (dumps fr) vs) @ 93 # rest) = Inr (JList (acc @ vs), rest)"
  using assms
proof (induction vs arbitrary: acc f)
  case (Cons v vs)
  obtain n where f: "f = Suc n" using Cons.prems(4) by (cases f) auto
  have val: "parse_value n (dumps fr v @ t) = Inr (v, t)" if "number_end t" for t
    using Cons.prems(3) [of v] Cons.prems(4) f that by (simp add: join_Cons)
  show ?case
  proof (cases "vs = []")
    case True
    then show ?thesis using val [of "93 # rest"] by (simp add: f number_end_def is_digit_def skip_ws_Cons is_ws_def)
  next
    case False
    let ?j = "join [44, 32] (map (dumps fr) vs)"
    have start: "plain_start ?j" using False Cons.prems(2) dumps_start by (intro join_start) (auto simp: hd_map list_all_iff)
    have IH: "parse_elements n (acc @ [v]) (?j @ 93 # rest) = Inr (JList ((acc @ [v]) @ vs), rest)"
      using Cons.prems False f by (intro Cons.IH) (auto simp: join_Cons)
    have shape: "join [44, 32] (map (dumps fr) (v # vs)) @ 93 # rest = dumps fr v @ 44 # 32 # ?j @ 93 # rest"
      using False by (simp add: join_Cons)
    show ?thesis
      unfolding shape f using val [of "44 # 32 # ?j @ 93 # rest"] IH start
      by (simp add: number_end_def is_digit_def skip_ws_Cons is_ws_def)
  qed
qed simp

lemma parse_members_dumps:
  assumes "ms \<noteq> []" and "list_all (\<lambda>(k, v). json_wf v) ms" and "distinct (map fst (acc @ ms))"
    and "\<And>k v f rest. (k, v) \<in> set ms \<Longrightarrow> number_end rest \<Longrightarrow> 2 * length (dumps fr v) + 1 \<le> f
      \<Longrightarrow> parse_value f (dumps fr v @ rest) = Inr (v, rest)"
    and "2 * length (join [44, 32] (map (\<lambda>(k, v). quoted k @ [58, 32] @ dumps fr v) ms)) + 2 \<le> f"
  shows "parse_members f acc (join [44, 32] (map (\<lambda>(k, v). quoted k @ [58, 32] @ dumps fr v) ms) @ 125 # rest)
    = Inr (JObj (acc @ ms), rest)"
  using assms
proof (induction ms arbitrary: acc f)
  case (Cons m ms)
  obtain k v where m: "m = (k, v)" by fastforce
  let ?item = "\<lambda>(k, v). quoted k @ [58, 32] @ dumps fr v"
  obtain n where f: "f = Suc n" using Cons.prems(5) by (cases f) auto
  have val: "parse_value n (dumps fr v @ t) = Inr (v, t)" if "number_end t" for t
    using Cons.prems(4) [of k v] Cons.prems(5) f m that by (simp add: join_Cons)
  have set: "dict_set k v acc = acc @ [(k, v)]"
  proof -
    have "k \<notin> fst ` set acc" using Cons.prems(3) m by auto
    then show ?thesis by (induction acc) auto
  qed
  have key: "scan_string (concat (map escape_char k) @ 34 # t) = Inr (k, t)" for t by (rule scan_quoted)
  have start: "plain_start (dumps fr v)" using Cons.prems(2) m by (intro dumps_start) simp
  show ?case
  proof (cases "ms = []")
    case True
    then show ?thesis
      using val [of "125 # rest"] key start set
      by (simp add: f m quoted_def number_end_def is_digit_def skip_ws_Cons is_ws_def)
  next
    case False
    let ?j = "join [44, 32] (map ?item ms)"
    have startj: "plain_start ?j"
      using False quoted_start by (intro join_start) (auto simp: hd_map split: prod.splits)
    have IH: "parse_members n (acc @ [(k, v)]) (?j @ 125 # rest) = Inr (JObj ((acc @ [(k, v)]) @ ms), rest)"
      using Cons.prems False f m by (intro Cons.IH) (auto simp: join_Cons)
    have shape: "join [44, 32] (map ?item (m # ms)) @ 125 # rest
        = 34 # concat (map escape_char k) @ 34 # 58 # 32 # dumps fr v @ 44 # 32 # ?j @ 125 # rest"
      using False by (simp add: join_Cons m quoted_def)
    show ?thesis
      unfolding shape f using val [of "44 # 32 # ?j @ 125 # rest"] key IH start startj set
      by (simp add: number_end_def is_digit_def skip_ws_Cons is_ws_def m)
  qed
qed simp

lemma parse_dumps:
  "json_wf v \<Longrightarrow> number_end rest \<Longrightarrow> 2 * length (dumps fr v) + 1 \<le> f
    \<Longrightarrow> parse_value f (dumps fr v @ rest) = Inr (v, rest)"
proof (induction v arbitrary: f rest)
  case JNull
  then obtain n where "f = Suc n" by (cases f) auto
  then show ?case using parse_literal [of "u ''null''" rest] by (simp add: literals_def u_def)
next
  case (JBool b)
  then obtain n where "f = Suc n" by (cases f) auto
  then show ?case
    using parse_literal [of "u ''true''" rest] parse_literal [of "u ''false''" rest]
    by (cases b) (simp_all add: literals_def u_def)
next
  case (JInt i)
  then obtain n where f: "f = Suc n" by (cases f) auto
  obtain c r where c: "show_int i @ rest = c # r" "c \<notin> {34, 123, 91}"
  proof -
    obtain d ds where "show_nat (nat \<bar>i\<bar>) = d # ds" "is_digit d"
      using show_nat_digits [of "nat \<bar>i\<bar>"] by (cases "show_nat (nat \<bar>i\<bar>)") auto
    then show ?thesis
      using that [of "if i < 0 then 45 else d" "if i < 0 then d # ds @ rest else ds @ rest"]
      by (cases "i < 0") (simp_all add: show_int_def is_digit_def)
  qed
  then show ?case
    using scan_number_show_int [of rest i] scan_literal_show_int [of i rest] JInt f by simp
next
  case (JFloat x)
  then obtain n where "f = Suc n" by (cases f) auto
  then show ?case
    using JFloat parse_literal [of "u ''NaN''" rest] parse_literal [of "u ''Infinity''" rest] parse_literal [of "u ''-Infinity''" rest]
    by (cases x) (simp_all add: literals_def u_def)
next
  case (JStr s)
  then obtain n where "f = Suc n" by (cases f) auto
  then show ?case by (simp add: quoted_def scan_quoted)
next
  case (JList vs)
  then obtain n where f: "f = Suc n" by (cases f) auto
  show ?case
  proof (cases "vs = []")
    case True
    then show ?thesis using f by (simp add: skip_ws_Cons is_ws_def)
  next
    case False
    let ?j = "join [44, 32] (map (dumps fr) vs)"
    have start: "plain_start ?j" using False JList.prems(1) dumps_start by (intro join_start) (auto simp: hd_map list_all_iff)
    have "parse_elements n [] (?j @ 93 # rest) = Inr (JList ([] @ vs), rest)"
      using JList False f by (intro parse_elements_dumps) (auto simp: list_all_iff)
    moreover have "hd (?j @ 93 # rest) \<noteq> 93" using start by (auto simp: plain_start_def)
    ultimately show ?thesis using start f by (simp add: plain_start_def)
  qed
next
  case (JObj ms)
  then obtain n where f: "f = Suc n" by (cases f) auto
  show ?case
  proof (cases "ms = []")
    case True
    then show ?thesis using f by (simp add: skip_ws_Cons is_ws_def)
  next
    case False
    let ?j = "join [44, 32] (map (\<lambda>(k, v). quoted k @ [58, 32] @ dumps fr v) ms)"
    have start: "plain_start ?j" using False quoted_start by (intro join_start) (auto simp: hd_map split: prod.splits)
    have "parse_members n [] (?j @ 125 # rest) = Inr (JObj ([] @ ms), rest)"
      using JObj False f by (intro parse_members_dumps) (auto simp: list_all_iff)
    moreover have "hd (?j @ 125 # rest) \<noteq> 125" using start by (auto simp: plain_start_def)
    ultimately show ?thesis using start f by (simp add: plain_start_def)
  qed
qed

text \<open>The encoded text contains no control characters, and decodes to the value even between blanks.\<close>

lemma loads_dumps:
  assumes "json_wf v" and "list_all is_ws pre" and "list_all is_ws post"
  shows "loads (pre @ dumps fr v @ post) = Inr v"
proof -
  have pre: "skip_ws (pre @ dumps fr v @ post) = dumps fr v @ post"
    using assms(2) dumps_start [OF assms(1), of fr]
    by (induction pre) (auto simp: skip_ws_Cons)
  have post: "skip_ws post = []" using assms(3) by (induction post) (auto simp: skip_ws_def)
  have "number_end post"
    using assms(3) by (auto simp: number_end_def is_ws_def is_digit_def split: list.splits)
  then have "parse_value (2 * length (pre @ dumps fr v @ post) + 2) (dumps fr v @ post) = Inr (v, post)"
    using assms(1) by (intro parse_dumps) auto
  then show ?thesis unfolding loads_def pre using post by simp
qed

end
