(* ===== verification/Tool_Protocol.thy ===== *)
theory Tool_Protocol
  imports Json
begin

text \<open>
  The structured tool-use protocol, \<^verbatim>\<open>tool_protocol/schema.py\<close>, \<^verbatim>\<open>tool_protocol/registry.py\<close>,
  \<^verbatim>\<open>tool_protocol/hermes.py\<close> and \<^verbatim>\<open>tool_protocol/protocol.py\<close>: extraction of Hermes tool calls from an
  assistant turn, validation of their arguments against the tool's JSON schema, the registry of an
  environment's tools and the verdict on a turn.

  A schema is the member list of a Python dict, as the code passes it. Validation errors are values of
  \<open>schema_problem\<close>; the texts of error messages (\<open>repr\<close> of a value, \<open>str\<close> of an exception) are the
  functions of a \<open>formatting\<close> record. A raise is a value of \<open>py_error\<close>.
\<close>

section \<open>Python equality of JSON values\<close>

definition number_value :: "json \<Rightarrow> py_float option" where
  "number_value v = (case v of JBool b \<Rightarrow> Some (Fin (if b then 1 else 0)) | JInt i \<Rightarrow> Some (Fin (of_int i)) | JFloat x \<Rightarrow> Some x | _ \<Rightarrow> None)"

lemma list_all2_fundef [fundef_cong]:
  "xs = xs' \<Longrightarrow> ys = ys' \<Longrightarrow> (\<And>x y. x \<in> set xs' \<Longrightarrow> y \<in> set ys' \<Longrightarrow> P x y = Q x y)
    \<Longrightarrow> list_all2 P xs ys = list_all2 Q xs' ys'"
  by (simp add: list_all2_iff) (metis (no_types, lifting) case_prodI2 set_zip_leftD set_zip_rightD split_conv)

lemma size_member: "(k, v) \<in> set ms \<Longrightarrow> size v < size (JObj ms)"
  by (induction ms) auto

text \<open>Booleans, integers and floats compare as numbers; \<open>NaN\<close> equals nothing; objects ignore the order of their members.\<close>

function (sequential) py_eq :: "json \<Rightarrow> json \<Rightarrow> bool" where
  "py_eq JNull JNull = True"
| "py_eq (JStr s) (JStr t) = (s = t)"
| "py_eq (JList xs) (JList ys) = list_all2 py_eq xs ys"
| "py_eq (JObj ms) (JObj ns) =
     (length ms = length ns
      \<and> list_all (\<lambda>(k, v). case map_of ns k of None \<Rightarrow> False | Some w \<Rightarrow> py_eq v w) ms)"
| "py_eq v w =
     (case (number_value v, number_value w) of
        (Some x, Some y) \<Rightarrow> x = y \<and> x \<noteq> Nan
      | _ \<Rightarrow> False)"
  by pat_completeness auto

termination
  by (relation "measure (\<lambda>(v, w). size v)")
    (auto simp: less_Suc_eq_le size_list_estimation' dest: size_member)

section \<open>Schema validation\<close>

datatype path_step = Key ustring | Index nat

datatype schema_problem =
    Wrong_type "path_step list" ustring string
  | Not_in_enum "path_step list" json "json list"
  | Missing_property "path_step list" json
  | Not_object_arguments string

definition is_obj :: "json \<Rightarrow> bool" where
  "is_obj v = (case v of JObj ms \<Rightarrow> True | _ \<Rightarrow> False)"

definition is_list :: "json \<Rightarrow> bool" where
  "is_list v = (case v of JList vs \<Rightarrow> True | _ \<Rightarrow> False)"

definition pytype_name :: "json \<Rightarrow> string" where
  "pytype_name v =
     (case v of JBool b \<Rightarrow> ''boolean'' | JObj ms \<Rightarrow> ''object'' | JList vs \<Rightarrow> ''array'' | JNull \<Rightarrow> ''null''
      | JStr s \<Rightarrow> ''string'' | JInt i \<Rightarrow> ''integer'' | JFloat x \<Rightarrow> ''number'')"

definition type_matches :: "json \<Rightarrow> ustring \<Rightarrow> bool result" where
  "type_matches v t =
     (if t = u ''object'' then Inr (is_obj v)
      else if t = u ''array'' then Inr (is_list v)
      else if t = u ''string'' then Inr (case v of JStr s \<Rightarrow> True | _ \<Rightarrow> False)
      else if t = u ''boolean'' then Inr (case v of JBool b \<Rightarrow> True | _ \<Rightarrow> False)
      else if t = u ''null'' then Inr (v = JNull)
      else if t = u ''integer'' then Inr (case v of JInt i \<Rightarrow> True | _ \<Rightarrow> False)
      else if t = u ''number'' then Inr (case v of JInt i \<Rightarrow> True | JFloat x \<Rightarrow> True | _ \<Rightarrow> False)
      else Inl SchemaError)"

text \<open>\<open>schema.get("type")\<close>: absent and \<open>None\<close> are the same, anything but a string is a schema error.\<close>

definition schema_type :: "(ustring \<times> json) list \<Rightarrow> ustring option result" where
  "schema_type schema =
     (case map_of schema (u ''type'') of
        None \<Rightarrow> Inr None
      | Some JNull \<Rightarrow> Inr None
      | Some (JStr t) \<Rightarrow> Inr (Some t)
      | Some _ \<Rightarrow> Inl SchemaError)"

definition enum_problems ::
  "json \<Rightarrow> (ustring \<times> json) list \<Rightarrow> path_step list \<Rightarrow> schema_problem list result" where
  "enum_problems v schema path =
     (case map_of schema (u ''enum'') of
        None \<Rightarrow> Inr []
      | Some (JList allowed) \<Rightarrow>
          Inr (if list_ex (py_eq v) allowed then [] else [Not_in_enum path v allowed])
      | Some _ \<Rightarrow> Inl SchemaError)"

text \<open>\<open>key not in value\<close> for a key of the \<open>required\<close> list: an unhashable key raises.\<close>

definition required_problems ::
  "(ustring \<times> json) list \<Rightarrow> (ustring \<times> json) list \<Rightarrow> path_step list \<Rightarrow> schema_problem list result" where
  "required_problems ms schema path =
     (case map_of schema (u ''required'') of
        None \<Rightarrow> Inr []
      | Some (JList keys) \<Rightarrow>
          bind_res (map_res (\<lambda>key.
            case key of
              JStr k \<Rightarrow> Inr (if map_of ms k = None then [Missing_property path key] else [])
            | JList vs \<Rightarrow> Inl TypeError
            | JObj ns \<Rightarrow> Inl TypeError
            | _ \<Rightarrow> Inr [Missing_property path key]) keys) (\<lambda>pss. Inr (concat pss))
      | Some _ \<Rightarrow> Inl SchemaError)"

definition schema_properties :: "(ustring \<times> json) list \<Rightarrow> (ustring \<times> json) list result" where
  "schema_properties schema =
     (case map_of schema (u ''properties'') of
        None \<Rightarrow> Inr []
      | Some (JObj ps) \<Rightarrow> Inr ps
      | Some _ \<Rightarrow> Inl SchemaError)"

text \<open>\<open>schema.get("items")\<close>: absent and \<open>None\<close> leave the elements unconstrained.\<close>

definition items_schema :: "(ustring \<times> json) list \<Rightarrow> (ustring \<times> json) list option result" where
  "items_schema schema =
     (case map_of schema (u ''items'') of
        None \<Rightarrow> Inr None
      | Some JNull \<Rightarrow> Inr None
      | Some (JObj s) \<Rightarrow> Inr (Some s)
      | Some _ \<Rightarrow> Inl SchemaError)"

lemma bind_res_fundef [fundef_cong]:
  "r = r' \<Longrightarrow> (\<And>x. r' = Inr x \<Longrightarrow> f x = g x) \<Longrightarrow> bind_res r f = bind_res r' g"
  by (cases r') simp_all

lemma map_res_fundef [fundef_cong]:
  "xs = ys \<Longrightarrow> (\<And>x. x \<in> set ys \<Longrightarrow> f x = g x) \<Longrightarrow> map_res f xs = map_res g ys"
proof -
  assume "xs = ys" "\<And>x. x \<in> set ys \<Longrightarrow> f x = g x"
  moreover have "(\<And>x. x \<in> set ys \<Longrightarrow> f x = g x) \<Longrightarrow> map_res f ys = map_res g ys" by (induction ys) auto
  ultimately show ?thesis by simp
qed

lemma schema_part_size:
  "schema_properties schema = Inr ps \<Longrightarrow> (k, JObj s) \<in> set ps \<Longrightarrow> size (JObj s) < size (JObj schema)"
  "items_schema schema = Inr (Some s) \<Longrightarrow> size (JObj s) < size (JObj schema)"
proof -
  assume "schema_properties schema = Inr ps" and m: "(k, JObj s) \<in> set ps"
  then have "map_of schema (u ''properties'') = Some (JObj ps) \<or> ps = []"
    by (auto simp: schema_properties_def split: option.splits json.splits)
  then have "size (JObj ps) < size (JObj schema)" using size_member [OF map_of_SomeD] m by fastforce
  then show "size (JObj s) < size (JObj schema)" using size_member [OF m] by simp
next
  assume "items_schema schema = Inr (Some s)"
  then have "map_of schema (u ''items'') = Some (JObj s)"
    by (auto simp: items_schema_def split: option.splits json.splits)
  then show "size (JObj s) < size (JObj schema)" using size_member [OF map_of_SomeD] by blast
qed

function validate_against_schema ::
    "json \<Rightarrow> (ustring \<times> json) list \<Rightarrow> path_step list \<Rightarrow> schema_problem list result"
  and validate_object :: "json \<Rightarrow> (ustring \<times> json) list \<Rightarrow> path_step list \<Rightarrow> schema_problem list result"
  and validate_array :: "json \<Rightarrow> (ustring \<times> json) list \<Rightarrow> path_step list \<Rightarrow> schema_problem list result" where
  "validate_against_schema v schema path =
     bind_res (schema_type schema) (\<lambda>json_type.
     bind_res (case json_type of None \<Rightarrow> Inr True | Some t \<Rightarrow> type_matches v t) (\<lambda>ok.
       if \<not> ok then Inr [Wrong_type path (the json_type) (pytype_name v)]
       else
         bind_res (enum_problems v schema path) (\<lambda>e1.
         bind_res (if json_type = Some (u ''object'') \<or> json_type = None \<and> is_obj v
                   then validate_object v schema path else Inr []) (\<lambda>e2.
         bind_res (if json_type = Some (u ''array'') \<or> json_type = None \<and> is_list v
                   then validate_array v schema path else Inr []) (\<lambda>e3.
           Inr (e1 @ e2 @ e3))))))"
| "validate_object v schema path =
     (case v of
        JObj ms \<Rightarrow>
          bind_res (required_problems ms schema path) (\<lambda>e1.
          bind_res (schema_properties schema) (\<lambda>ps.
          bind_res (map_res (\<lambda>(key, sub).
              case map_of ms key of
                None \<Rightarrow> Inr []
              | Some w \<Rightarrow> (case sub of JObj s \<Rightarrow> validate_against_schema w s (path @ [Key key]) | _ \<Rightarrow> Inl AttributeError)) ps)
            (\<lambda>ess. Inr (e1 @ concat ess))))
      | _ \<Rightarrow> Inr [])"
| "validate_array v schema path =
     (case v of
        JList vs \<Rightarrow>
          bind_res (items_schema schema) (\<lambda>items.
            case items of
              None \<Rightarrow> Inr []
            | Some s \<Rightarrow>
                bind_res (map_res (\<lambda>(i, w). validate_against_schema w s (path @ [Index i])) (enumerate 0 vs))
                  (\<lambda>ess. Inr (concat ess)))
      | _ \<Rightarrow> Inr [])"
  by pat_completeness auto

termination
  by (relation "measures [\<lambda>x. case x of Inl (v, s, p) \<Rightarrow> size (JObj s) | Inr (Inl (v, s, p)) \<Rightarrow> size (JObj s) | Inr (Inr (v, s, p)) \<Rightarrow> size (JObj s),
      \<lambda>x. case x of Inl y \<Rightarrow> 1 | Inr y \<Rightarrow> 0]")
    (auto simp del: json.size dest: schema_part_size)

declare validate_against_schema.simps [simp del]

definition validate_arguments :: "json \<Rightarrow> (ustring \<times> json) list \<Rightarrow> schema_problem list result" where
  "validate_arguments arguments parameters_schema =
     (if \<not> is_obj arguments then Inr [Not_object_arguments (pytype_name arguments)]
      else validate_against_schema arguments parameters_schema [])"

section \<open>Hermes extraction\<close>

definition hermes_start :: ustring where
  "hermes_start = u ''<tool_call>''"

definition hermes_end :: ustring where
  "hermes_end = u ''</tool_call>''"

text \<open>\<open>findall\<close> of the tool-call regex: the closed region, or the unterminated trailing one, of every match.\<close>

function tool_regions :: "ustring \<Rightarrow> (ustring \<times> ustring) list" where
  "tool_regions s =
     (case find_sub hermes_start s of
        None \<Rightarrow> []
      | Some (_, r) \<Rightarrow>
          (case find_sub hermes_end r of
             Some (region, rest) \<Rightarrow> (region, []) # tool_regions rest
           | None \<Rightarrow> [([], r)]))"
  by pat_completeness auto

termination
  by (relation "measure length") (auto dest!: find_sub_sound simp: hermes_start_def u_def)

declare tool_regions.simps [simp del]

record parsed_tool_call =
  tc_name :: json
  tc_arguments :: json
  tc_arguments_json :: ustring

record hermes_extraction =
  tools_called :: bool
  tool_calls :: "parsed_tool_call list"
  content :: "ustring option"
  extraction_error :: "ustring option"

definition extraction_attempted :: "hermes_extraction \<Rightarrow> bool" where
  "extraction_attempted ext \<longleftrightarrow> tools_called ext \<or> extraction_error ext \<noteq> None"

text \<open>Texts the code interpolates into messages: \<open>str\<close> of the exception raised for a turn, \<open>repr\<close> of a value
  and of a float, and the message of a schema problem.\<close>

record formatting =
  exc_str :: "py_error \<Rightarrow> ustring \<Rightarrow> ustring"
  py_repr :: "json \<Rightarrow> ustring"
  float_repr :: "rat \<Rightarrow> ustring"
  problem_text :: "schema_problem \<Rightarrow> ustring"

text \<open>\<open>call["name"]\<close> on a decoded value.\<close>

definition subscript :: "json \<Rightarrow> ustring \<Rightarrow> json result" where
  "subscript v k =
     (case v of
        JObj ms \<Rightarrow> (case map_of ms k of None \<Rightarrow> Inl KeyError | Some w \<Rightarrow> Inr w)
      | _ \<Rightarrow> Inl TypeError)"

definition make_call :: "formatting \<Rightarrow> json \<Rightarrow> parsed_tool_call result" where
  "make_call fmt call =
     bind_res (subscript call (u ''name'')) (\<lambda>name.
     bind_res (subscript call (u ''arguments'')) (\<lambda>arguments.
       Inr \<lparr>tc_name = name, tc_arguments = arguments, tc_arguments_json = dumps (float_repr fmt) arguments\<rparr>))"

definition parse_calls :: "formatting \<Rightarrow> ustring \<Rightarrow> parsed_tool_call list result" where
  "parse_calls fmt s =
     bind_res (map_res (\<lambda>(closed, trailing). loads (if closed \<noteq> [] then closed else trailing)) (tool_regions s)) (\<lambda>raw_calls.
       map_res (make_call fmt) raw_calls)"

definition parse_hermes_tool_calls :: "formatting \<Rightarrow> ustring \<Rightarrow> hermes_extraction result" where
  "parse_hermes_tool_calls fmt s =
     (case find_sub hermes_start s of
        None \<Rightarrow> Inr \<lparr>tools_called = False, tool_calls = [], content = Some s, extraction_error = None\<rparr>
      | Some (leading, _) \<Rightarrow>
          (case parse_calls fmt s of
             Inl e \<Rightarrow>
               if e = JSONDecodeError then
                 Inr \<lparr>tools_called = False, tool_calls = [], content = Some s,
                      extraction_error = Some (u ''tool-call JSON decode error: '' @ exc_str fmt e s)\<rparr>
               else if e = KeyError \<or> e = TypeError then
                 Inr \<lparr>tools_called = False, tool_calls = [], content = Some s,
                      extraction_error = Some (u ''tool-call missing/invalid name or arguments: '' @ exc_str fmt e s)\<rparr>
               else Inl e
           | Inr calls \<Rightarrow>
               Inr \<lparr>tools_called = True, tool_calls = calls,
                    content = (if leading \<noteq> [] then Some leading else None), extraction_error = None\<rparr>))"

section \<open>The registry\<close>

text \<open>A tool specification, \<open>make_tool\<close>: its name, its description and its parameter schema.\<close>

record tool =
  tool_name :: ustring
  tool_description :: ustring
  tool_parameters :: "(ustring \<times> json) list"

definition make_tool :: "tool \<Rightarrow> json" where
  "make_tool t =
     JObj [(u ''type'', JStr (u ''function'')),
           (u ''function'', JObj [(u ''name'', JStr (tool_name t)), (u ''description'', JStr (tool_description t)),
              (u ''parameters'', JObj (tool_parameters t))])]"

type_synonym tool_registry = "tool list"

definition registry_init :: "tool list \<Rightarrow> tool_registry result" where
  "registry_init tools = (if distinct (map tool_name tools) then Inr tools else Inl ValueError)"

definition registry_names :: "tool_registry \<Rightarrow> ustring list" where
  "registry_names reg = map tool_name reg"

definition registry_contains :: "tool_registry \<Rightarrow> json \<Rightarrow> bool" where
  "registry_contains reg name = list_ex (\<lambda>t. py_eq (JStr (tool_name t)) name) reg"

fun registry_get :: "tool_registry \<Rightarrow> json \<Rightarrow> tool option" where
  "registry_get [] name = None"
| "registry_get (t # reg) name = (if py_eq (JStr (tool_name t)) name then Some t else registry_get reg name)"

definition registry_parameters :: "tool_registry \<Rightarrow> json \<Rightarrow> (ustring \<times> json) list option" where
  "registry_parameters reg name = map_option tool_parameters (registry_get reg name)"

definition chat_template_tools :: "tool_registry \<Rightarrow> json list" where
  "chat_template_tools reg = map make_tool reg"

section \<open>The verdict on a turn\<close>

record tool_use_assessment =
  attempted :: bool
  valid_calls :: "parsed_tool_call list"
  malformed :: bool
  reason :: "ustring option"

definition has_valid_call :: "tool_use_assessment \<Rightarrow> bool" where
  "has_valid_call a \<longleftrightarrow> valid_calls a \<noteq> []"

text \<open>The verdict on one call: accepted, or the reason against it.\<close>

definition assess_call :: "formatting \<Rightarrow> tool_registry \<Rightarrow> parsed_tool_call \<Rightarrow> ustring option result" where
  "assess_call fmt reg call =
     (if \<not> registry_contains reg (tc_name call) then Inr (Some (u ''unknown tool '' @ py_repr fmt (tc_name call)))
      else
        let schema = (case registry_parameters reg (tc_name call) of None \<Rightarrow> [] | Some ps \<Rightarrow> ps);
            name = (case tc_name call of JStr n \<Rightarrow> n | _ \<Rightarrow> [])
        in bind_res (validate_arguments (tc_arguments call) schema) (\<lambda>errs.
             Inr (if errs \<noteq> [] then Some (name @ u '': '' @ join (u ''; '') (map (problem_text fmt) errs)) else None)))"

definition assess_tool_calls :: "formatting \<Rightarrow> ustring \<Rightarrow> tool_registry \<Rightarrow> tool_use_assessment result" where
  "assess_tool_calls fmt s reg =
     bind_res (parse_hermes_tool_calls fmt s) (\<lambda>ext.
       if \<not> extraction_attempted ext then
         Inr \<lparr>attempted = False, valid_calls = [], malformed = False, reason = None\<rparr>
       else if extraction_error ext \<noteq> None then
         Inr \<lparr>attempted = True, valid_calls = [], malformed = True, reason = extraction_error ext\<rparr>
       else
         bind_res (map_res (assess_call fmt reg) (tool_calls ext)) (\<lambda>verdicts.
           let reasons = List.map_filter id verdicts;
               valid = map fst (filter (\<lambda>(call, verdict). verdict = None) (zip (tool_calls ext) verdicts))
           in Inr \<lparr>attempted = True, valid_calls = valid, malformed = reasons \<noteq> [],
                   reason = (if reasons \<noteq> [] then Some (join (u ''; '') reasons) else None)\<rparr>))"

section \<open>The frozen tool sets\<close>

definition str_schema :: "ustring \<Rightarrow> json" where
  "str_schema description = JObj [(u ''type'', JStr (u ''string'')), (u ''description'', JStr description)]"

definition object_schema :: "(string \<times> string) list \<Rightarrow> string list \<Rightarrow> (ustring \<times> json) list" where
  "object_schema props req =
     [(u ''type'', JStr (u ''object'')), (u ''properties'', JObj (map (\<lambda>(k, d). (u k, str_schema (u d))) props))]
     @ (if req = [] then [] else [(u ''required'', JList (map (\<lambda>k. JStr (u k)) req))])"

definition session_tools :: "tool list" where
  "session_tools =
     [\<lparr>tool_name = u ''run_shell'',
       tool_description = u ''Run a single shell command in the session container and return its output.'',
       tool_parameters = object_schema [(''command'', ''The shell command to execute.'')] [''command'']\<rparr>,
      \<lparr>tool_name = u ''read_file'',
       tool_description = u ''Read a file from the session container and return its contents.'',
       tool_parameters = object_schema [(''path'', ''Absolute or workspace-relative path.'')] [''path'']\<rparr>,
      \<lparr>tool_name = u ''write_file'',
       tool_description = u ''Write content to a file in the session container, creating parent dirs.'',
       tool_parameters = object_schema [(''path'', ''Destination path.''), (''content'', ''Full file content to write.'')]
         [''path'', ''content'']\<rparr>,
      \<lparr>tool_name = u ''task_complete'',
       tool_description = u ''Signal that the task is finished; the episode is then graded.'',
       tool_parameters = object_schema [] []\<rparr>]"

definition code_tools :: "tool list" where
  "code_tools =
     [\<lparr>tool_name = u ''submit_patch'',
       tool_description = u ''Submit the unified-diff patch that solves the task.'',
       tool_parameters = object_schema [(''patch'', ''A unified diff (git format).'')] [''patch'']\<rparr>]"

section \<open>The protocol configuration\<close>

record structured_tool_use_config =
  st_enabled :: bool
  st_backend :: "string option"
  st_thinking_style :: "string option"
  st_decode_skip :: "bool option"
  st_constrained_tools :: "string list option"

definition thinking_styles :: "string list" where
  "thinking_styles = [''paired'', ''closing_only'']"

definition resolve_structured_tool_use ::
  "structured_tool_use_config option \<Rightarrow> structured_tool_use_config option result" where
  "resolve_structured_tool_use block =
     (case block of
        None \<Rightarrow> Inr None
      | Some c \<Rightarrow>
          if \<not> st_enabled c then Inr None
          else
            let style = (case st_thinking_style c of None \<Rightarrow> ''paired'' | Some x \<Rightarrow> x) in
            if style \<notin> set thinking_styles then Inl ValueError
            else if (case st_backend c of None \<Rightarrow> ''vllm'' | Some b \<Rightarrow> b) \<noteq> ''vllm'' then Inl ValueError
            else Inr (Some c))"

end
