(* ===== verification/Tool_Validation.thy ===== *)
theory Tool_Validation
  imports Tool_Protocol
begin

text \<open>
  Properties of the tool protocol of \<^verbatim>\<open>Tool_Protocol\<close>. The datatype \<open>schema\<close> and the predicate \<open>conforms\<close> give
  the meaning of the supported schema dialect; \<open>describes\<close> relates the Python dict of a tool to it. The
  section on calls gives the text a model emits for a list of calls and shows that extraction inverts
  it, and \<open>acceptable\<close> says when a call is well formed for a registry.
\<close>

section \<open>What a schema means\<close>

datatype jtype = T_object | T_array | T_string | T_boolean | T_null | T_integer | T_number

fun type_text :: "jtype \<Rightarrow> ustring" where
  "type_text T_object = u ''object''"
| "type_text T_array = u ''array''"
| "type_text T_string = u ''string''"
| "type_text T_boolean = u ''boolean''"
| "type_text T_null = u ''null''"
| "type_text T_integer = u ''integer''"
| "type_text T_number = u ''number''"

fun has_type :: "json \<Rightarrow> jtype \<Rightarrow> bool" where
  "has_type (JObj ms) t \<longleftrightarrow> t = T_object"
| "has_type (JList vs) t \<longleftrightarrow> t = T_array"
| "has_type (JStr s) t \<longleftrightarrow> t = T_string"
| "has_type (JBool b) t \<longleftrightarrow> t = T_boolean"
| "has_type JNull t \<longleftrightarrow> t = T_null"
| "has_type (JInt i) t \<longleftrightarrow> t = T_integer \<or> t = T_number"
| "has_type (JFloat x) t \<longleftrightarrow> t = T_number"

datatype schema =
  Schema "jtype option" "json list option" "ustring list" "(ustring \<times> schema) list" "schema option"

lemma schema_size [termination_simp]:
  "(k, s) \<in> set ps \<Longrightarrow> size s < Suc (size_list (size_prod (\<lambda>x. 0) size) ps)"
  by (induction ps) auto

fun conforms :: "schema \<Rightarrow> json \<Rightarrow> bool" where
  "conforms (Schema ty en req props items) v \<longleftrightarrow>
     (case ty of None \<Rightarrow> True | Some t \<Rightarrow> has_type v t)
     \<and> (case en of None \<Rightarrow> True | Some allowed \<Rightarrow> list_ex (py_eq v) allowed)
     \<and> (case v of
          JObj ms \<Rightarrow>
            list_all (\<lambda>k. map_of ms k \<noteq> None) req
            \<and> list_all (\<lambda>(k, s). case map_of ms k of None \<Rightarrow> True | Some w \<Rightarrow> conforms s w) props
        | JList vs \<Rightarrow> (case items of None \<Rightarrow> True | Some s \<Rightarrow> list_all (conforms s) vs)
        | _ \<Rightarrow> True)"

lemma schema_size_snd: "q \<in> set ps \<Longrightarrow> size (snd q) < Suc (size_list (size_prod (\<lambda>x. 0) size) ps)"
  using schema_size [of "fst q" "snd q" ps] by simp

text \<open>A Python dict that spells a schema, with whatever further keywords.\<close>

function describes :: "(ustring \<times> json) list \<Rightarrow> schema \<Rightarrow> bool" where
  "describes d (Schema ty en req props items) \<longleftrightarrow>
     schema_type d = Inr (map_option type_text ty)
     \<and> map_of d (u ''enum'') = map_option JList en
     \<and> (map_of d (u ''required'') = Some (JList (map JStr req)) \<or> req = [] \<and> map_of d (u ''required'') = None)
     \<and> (case schema_properties d of
          Inl e \<Rightarrow> False
        | Inr ps \<Rightarrow> list_all2 (\<lambda>p q. fst p = fst q \<and> (case snd p of JObj d' \<Rightarrow> describes d' (snd q) | _ \<Rightarrow> False)) ps props)
     \<and> (case items_schema d of
          Inl e \<Rightarrow> False
        | Inr None \<Rightarrow> items = None
        | Inr (Some d') \<Rightarrow> (case items of None \<Rightarrow> False | Some s \<Rightarrow> describes d' s))"

  by pat_completeness auto

termination
  by (relation "measure (\<lambda>(d, s). size s)") (auto dest!: schema_size_snd)

lemma u_inject [simp]: "u s = u t \<longleftrightarrow> s = t"
proof -
  have "inj (of_char :: char \<Rightarrow> nat)" by (rule injI) simp
  then show ?thesis by (simp add: u_def inj_map_eq_map)
qed

lemma type_matches_text: "type_matches v (type_text t) = Inr (has_type v t)"
  by (cases t; cases v) (simp_all add: type_matches_def is_obj_def is_list_def)

text \<open>Mapping a validator: every element has its problems, and there are none exactly when all are fine.\<close>

lemma map_res_concat:
  assumes "\<And>x. x \<in> set xs \<Longrightarrow> \<exists>y. f x = Inr y \<and> (y = [] \<longleftrightarrow> P x)"
  shows "\<exists>ys. map_res f xs = Inr ys \<and> (concat ys = [] \<longleftrightarrow> (\<forall>x\<in>set xs. P x))"
  using assms
proof (induction xs)
  case (Cons x xs)
  then obtain ys where ys: "map_res f xs = Inr ys" "concat ys = [] \<longleftrightarrow> (\<forall>x\<in>set xs. P x)" by auto
  obtain y where "f x = Inr y" "y = [] \<longleftrightarrow> P x" using Cons.prems [of x] by auto
  then show ?case using ys by auto
qed simp

lemma required_problems_iff:
  assumes "map_of d (u ''required'') = Some (JList (map JStr req)) \<or> req = [] \<and> map_of d (u ''required'') = None"
  shows "\<exists>es. required_problems ms d path = Inr es \<and> (es = [] \<longleftrightarrow> list_all (\<lambda>k. map_of ms k \<noteq> None) req)"
proof (cases "map_of d (u ''required'')")
  case None
  then show ?thesis using assms by (simp add: required_problems_def)
next
  case (Some j)
  then have j: "j = JList (map JStr req)" using assms by auto
  let ?f = "\<lambda>key. case key of
              JStr k \<Rightarrow> Inr (if map_of ms k = None then [Missing_property path key] else [])
            | JList vs \<Rightarrow> Inl TypeError
            | JObj ns \<Rightarrow> Inl TypeError
            | _ \<Rightarrow> Inr [Missing_property path key]"
  have "\<exists>ys. map_res ?f (map JStr req) = Inr ys \<and> (concat ys = [] \<longleftrightarrow> (\<forall>x\<in>set (map JStr req). case x of JStr k \<Rightarrow> map_of ms k \<noteq> None | _ \<Rightarrow> True))"
    by (rule map_res_concat) auto
  then show ?thesis
    using Some j by (auto simp: required_problems_def list_all_iff)
qed

lemma enum_problems_iff:
  assumes "map_of d (u ''enum'') = map_option JList en"
  shows "\<exists>es. enum_problems v d path = Inr es \<and> (es = [] \<longleftrightarrow> (case en of None \<Rightarrow> True | Some allowed \<Rightarrow> list_ex (py_eq v) allowed))"
  using assms by (cases en) (auto simp: enum_problems_def)

lemma validate_object_iff:
  assumes "map_of d (u ''required'') = Some (JList (map JStr req)) \<or> req = [] \<and> map_of d (u ''required'') = None"
    and ps: "schema_properties d = Inr ps"
    and sub: "list_all2 (\<lambda>p q. fst p = fst q \<and> (case snd p of JObj d' \<Rightarrow> describes d' (snd q) | _ \<Rightarrow> False)) ps props"
    and IH: "\<And>p q d' w path. p \<in> set ps \<Longrightarrow> q \<in> set props \<Longrightarrow> snd p = JObj d' \<Longrightarrow> describes d' (snd q)
      \<Longrightarrow> \<exists>es. validate_against_schema w d' path = Inr es \<and> (es = [] \<longleftrightarrow> conforms (snd q) w)"
  shows "\<exists>es. validate_object (JObj ms) d path = Inr es \<and> (es = [] \<longleftrightarrow>
    list_all (\<lambda>k. map_of ms k \<noteq> None) req
    \<and> list_all (\<lambda>(k, s). case map_of ms k of None \<Rightarrow> True | Some w \<Rightarrow> conforms s w) props)"
proof -
  let ?f = "\<lambda>(key, sub). case map_of ms key of
                None \<Rightarrow> Inr []
              | Some w \<Rightarrow> (case sub of JObj s \<Rightarrow> validate_against_schema w s (path @ [Key key]) | _ \<Rightarrow> Inl AttributeError)"
  have "\<exists>ys. map_res ?f ps = Inr ys \<and> (concat ys = [] \<longleftrightarrow>
      list_all (\<lambda>(k, s). case map_of ms k of None \<Rightarrow> True | Some w \<Rightarrow> conforms s w) props)"
    using sub IH
  proof (induction rule: list_all2_induct)
    case (Cons p ps q props)
    have "\<exists>ys. map_res ?f ps = Inr ys \<and> (concat ys = [] \<longleftrightarrow>
        list_all (\<lambda>(k, s). case map_of ms k of None \<Rightarrow> True | Some w \<Rightarrow> conforms s w) props)"
      by (rule Cons.IH) (rule Cons.prems, simp_all)
    then obtain ys where ys: "map_res ?f ps = Inr ys" "concat ys = [] \<longleftrightarrow>
        list_all (\<lambda>(k, s). case map_of ms k of None \<Rightarrow> True | Some w \<Rightarrow> conforms s w) props" by blast
    obtain k d' s where pq: "p = (k, JObj d')" "q = (k, s)" "describes d' s"
      using Cons.hyps(1) by (cases p; cases q) (auto split: json.splits)
    have "\<exists>es. ?f p = Inr es \<and> (es = [] \<longleftrightarrow> (case map_of ms k of None \<Rightarrow> True | Some w \<Rightarrow> conforms s w))"
      using Cons.prems [of p q d'] pq by (auto split: option.splits)
    then show ?case using ys pq by auto
  qed simp
  moreover obtain e1 where "required_problems ms d path = Inr e1" "e1 = [] \<longleftrightarrow> list_all (\<lambda>k. map_of ms k \<noteq> None) req"
    using required_problems_iff [OF assms(1)] by blast
  ultimately show ?thesis using ps by auto
qed

lemma validate_array_iff:
  assumes "items_schema d = Inr it" and "(case it of None \<Rightarrow> items = None | Some d' \<Rightarrow> (case items of None \<Rightarrow> False | Some s \<Rightarrow> describes d' s))"
    and IH: "\<And>d' s w path. it = Some d' \<Longrightarrow> items = Some s \<Longrightarrow> describes d' s
      \<Longrightarrow> \<exists>es. validate_against_schema w d' path = Inr es \<and> (es = [] \<longleftrightarrow> conforms s w)"
  shows "\<exists>es. validate_array (JList vs) d path = Inr es \<and> (es = [] \<longleftrightarrow> (case items of None \<Rightarrow> True | Some s \<Rightarrow> list_all (conforms s) vs))"
proof (cases it)
  case None
  then show ?thesis using assms(1,2) by simp
next
  case (Some d')
  then obtain s where s: "items = Some s" "describes d' s" using assms(2) by (auto split: option.splits)
  let ?f = "\<lambda>(i, w). validate_against_schema w d' (path @ [Index i])"
  have "\<exists>ys. map_res ?f (enumerate 0 vs) = Inr ys \<and> (concat ys = [] \<longleftrightarrow> (\<forall>x\<in>set (enumerate 0 vs). conforms s (snd x)))"
    using IH [OF Some s] by (intro map_res_concat) (auto split: prod.splits)
  moreover have "(\<forall>x\<in>set (enumerate 0 vs). conforms s (snd x)) \<longleftrightarrow> list_all (conforms s) vs"
    by (metis (no_types, lifting) image_iff list.set_map list_all_iff map_snd_enumerate)
  ultimately show ?thesis using Some s assms(1) by auto
qed

lemma validate_iff_conforms:
  "describes d s \<Longrightarrow> \<exists>es. validate_against_schema v d path = Inr es \<and> (es = [] \<longleftrightarrow> conforms s v)"
proof (induction d s arbitrary: v path rule: describes.induct)
  case (1 d ty en req props items)
  let ?jt = "map_option type_text ty"
  have ty: "schema_type d = Inr ?jt" and en: "map_of d (u ''enum'') = map_option JList en"
    and req: "map_of d (u ''required'') = Some (JList (map JStr req)) \<or> req = [] \<and> map_of d (u ''required'') = None"
    using "1.prems" by auto
  obtain ps where ps: "schema_properties d = Inr ps"
      "list_all2 (\<lambda>p q. fst p = fst q \<and> (case snd p of JObj d' \<Rightarrow> describes d' (snd q) | _ \<Rightarrow> False)) ps props"
    using "1.prems" by (auto split: sum.splits)
  obtain it where it: "items_schema d = Inr it"
      "(case it of None \<Rightarrow> items = None | Some d' \<Rightarrow> (case items of None \<Rightarrow> False | Some s \<Rightarrow> describes d' s))"
    using "1.prems" by (auto split: sum.splits option.splits)
  have okv: "(case ?jt of None \<Rightarrow> Inr True | Some t \<Rightarrow> type_matches v t) = Inr (case ty of None \<Rightarrow> True | Some t \<Rightarrow> has_type v t)"
    by (cases ty) (simp_all add: type_matches_text)
  show ?case
  proof (cases "case ty of None \<Rightarrow> True | Some t \<Rightarrow> has_type v t")
    case False
    have "validate_against_schema v d path = Inr [Wrong_type path (the ?jt) (pytype_name v)]"
      by (subst validate_against_schema.simps) (simp only: ty okv bind_res_simps False not_False_eq_True if_True)
    then show ?thesis using False by simp
  next
    case True
    obtain e1 where e1: "enum_problems v d path = Inr e1"
        "e1 = [] \<longleftrightarrow> (case en of None \<Rightarrow> True | Some allowed \<Rightarrow> list_ex (py_eq v) allowed)"
      using enum_problems_iff [OF en] by blast
    let ?o = "?jt = Some (u ''object'') \<or> ?jt = None \<and> is_obj v" and ?a = "?jt = Some (u ''array'') \<or> ?jt = None \<and> is_list v"
    have o: "?o \<longleftrightarrow> is_obj v" "?a \<longleftrightarrow> is_list v"
      using True by (cases ty; cases v; auto simp: is_obj_def is_list_def elim!: type_text.elims)+
    have val: "validate_against_schema v d path = bind_res (if is_obj v then validate_object v d path else Inr []) (\<lambda>e2.
        bind_res (if is_list v then validate_array v d path else Inr []) (\<lambda>e3. Inr (e1 @ e2 @ e3)))"
      by (subst validate_against_schema.simps) (simp only: ty okv bind_res_simps True e1(1) o if_False not_True_eq_False)
    show ?thesis
    proof (cases v)
      case (JObj ms)
      have "\<exists>es. validate_object (JObj ms) d path = Inr es \<and> (es = [] \<longleftrightarrow>
          list_all (\<lambda>k. map_of ms k \<noteq> None) req
          \<and> list_all (\<lambda>(k, s). case map_of ms k of None \<Rightarrow> True | Some w \<Rightarrow> conforms s w) props)"
        using "1.IH"(1) [OF ps(1)] by (intro validate_object_iff [OF req ps]) blast
      then show ?thesis
        unfolding val using True e1(2) JObj by (auto simp: is_obj_def is_list_def)
    next
      case (JList vs)
      have "\<exists>es. validate_array (JList vs) d path = Inr es \<and> (es = [] \<longleftrightarrow> (case items of None \<Rightarrow> True | Some s \<Rightarrow> list_all (conforms s) vs))"
        using "1.IH"(2) [OF it(1)] by (intro validate_array_iff [OF it]) blast
      then show ?thesis
        unfolding val using True e1(2) JList by (auto simp: is_obj_def is_list_def)
    qed (use True e1(2) val in \<open>auto simp: is_obj_def is_list_def\<close>)
  qed
qed

section \<open>Finding regions\<close>

lemma hermes_patterns:
  "\<exists>c p. hermes_start = c # p \<and> c \<notin> set p" "\<exists>c p. hermes_end = c # p \<and> c \<notin> set p"
  by (simp_all add: hermes_start_def hermes_end_def u_def)

lemma find_hermes_start: "find_sub hermes_start b = None \<Longrightarrow> find_sub hermes_start (b @ hermes_start @ r) = Some (b, r)"
proof -
  assume none: "find_sub hermes_start b = None"
  obtain c p where p: "hermes_start = c # p" "c \<notin> set p" using hermes_patterns(1) by blast
  show ?thesis by (rule find_sub_first [OF p none])
qed

lemma find_hermes_end: "find_sub hermes_end b = None \<Longrightarrow> find_sub hermes_end (b @ hermes_end @ r) = Some (b, r)"
proof -
  assume none: "find_sub hermes_end b = None"
  obtain c p where p: "hermes_end = c # p" "c \<notin> set p" using hermes_patterns(2) by blast
  show ?thesis by (rule find_sub_first [OF p none])
qed

text \<open>A call as the chat template writes it: the JSON object on a line of its own between the tags.\<close>

definition call_body :: "formatting \<Rightarrow> ustring \<times> json \<Rightarrow> ustring" where
  "call_body fmt call = [10] @ dumps (float_repr fmt) (JObj [(u ''name'', JStr (fst call)), (u ''arguments'', snd call)]) @ [10]"

definition render_calls :: "formatting \<Rightarrow> (ustring \<times> json) list \<Rightarrow> ustring" where
  "render_calls fmt calls = concat (map (\<lambda>call. hermes_start @ call_body fmt call @ hermes_end @ [10]) calls)"

lemma no_start_newline: "find_sub hermes_start [10] = None" "find_sub hermes_start [] = None"
  by (simp_all add: hermes_start_def u_def)

lemma tool_regions_render:
  assumes "find_sub hermes_start pre = None" and "list_all (\<lambda>call. find_sub hermes_end (call_body fmt call) = None) calls"
  shows "tool_regions (pre @ render_calls fmt calls) = map (\<lambda>call. (call_body fmt call, [])) calls"
  using assms
proof (induction calls arbitrary: pre)
  case Nil
  then show ?case by (subst tool_regions.simps) (simp add: render_calls_def)
next
  case (Cons call calls)
  let ?rest = "[10] @ render_calls fmt calls"
  have shape: "pre @ render_calls fmt (call # calls) = pre @ hermes_start @ (call_body fmt call @ hermes_end @ ?rest)"
    by (simp add: render_calls_def)
  have "tool_regions ?rest = map (\<lambda>call. (call_body fmt call, [])) calls"
    using Cons.IH [OF no_start_newline(1)] Cons.prems(2) by simp
  moreover have "find_sub hermes_end (call_body fmt call @ hermes_end @ ?rest) = Some (call_body fmt call, ?rest)"
    using Cons.prems(2) by (intro find_hermes_end) simp
  ultimately show ?case
    unfolding shape using find_hermes_start [OF Cons.prems(1)] by (subst tool_regions.simps) simp
qed

lemma loads_call_body:
  assumes "json_wf (snd call)"
  shows "loads (call_body fmt call) = Inr (JObj [(u ''name'', JStr (fst call)), (u ''arguments'', snd call)])"
  unfolding call_body_def by (rule loads_dumps) (use assms in \<open>simp_all add: is_ws_def\<close>)

lemma parse_calls_render:
  assumes "find_sub hermes_start pre = None" and "list_all (\<lambda>call. find_sub hermes_end (call_body fmt call) = None) calls"
    and "list_all (\<lambda>call. json_wf (snd call)) calls"
  shows "parse_calls fmt (pre @ render_calls fmt calls)
    = Inr (map (\<lambda>(n, a). \<lparr>tc_name = JStr n, tc_arguments = a, tc_arguments_json = dumps (float_repr fmt) a\<rparr>) calls)"
proof -
  let ?obj = "\<lambda>call :: ustring \<times> json. JObj [(u ''name'', JStr (fst call)), (u ''arguments'', snd call)]"
  have ne: "call_body fmt call \<noteq> []" for call by (simp add: call_body_def)
  have "map_res (\<lambda>(closed, trailing). loads (if closed \<noteq> [] then closed else trailing)) (map (\<lambda>call. (call_body fmt call, [])) calls)
      = Inr (map ?obj calls)"
    unfolding map_res_map by (rule map_res_Inr) (use assms(3) ne loads_call_body in \<open>auto simp: list_all_iff\<close>)
  moreover have "map_res (make_call fmt) (map ?obj calls)
      = Inr (map (\<lambda>(n, a). \<lparr>tc_name = JStr n, tc_arguments = a, tc_arguments_json = dumps (float_repr fmt) a\<rparr>) calls)"
    unfolding map_res_map by (rule map_res_Inr) (simp add: make_call_def subscript_def split_def)
  ultimately show ?thesis unfolding parse_calls_def tool_regions_render [OF assms(1,2)] by simp
qed



section \<open>Verdicts\<close>

lemma py_eq_str: "py_eq (JStr n) v \<longleftrightarrow> v = JStr n"
  by (cases v) (auto simp: number_value_def)

lemma zip_tools_unique:
  "distinct (map tool_name reg) \<Longrightarrow> (t, s) \<in> set (zip reg schemas) \<Longrightarrow> (t', s') \<in> set (zip reg schemas)
    \<Longrightarrow> tool_name t' = tool_name t \<Longrightarrow> s' = s"
proof (induction reg arbitrary: schemas)
  case (Cons r reg)
  show ?case
  proof (cases schemas)
    case sc: (Cons s1 schemas')
    have "tool_name r \<notin> tool_name ` set reg" using Cons.prems(1) by simp
    then have "tool_name x \<noteq> tool_name r" if "(x, y) \<in> set (zip reg schemas')" for x y
      using imageI [OF set_zip_leftD [OF that], of tool_name] by auto
    then show ?thesis using Cons.IH [of schemas'] Cons.prems sc by (auto, metis)
  qed (use Cons.prems in simp)
qed simp

lemma registry_get_zip:
  assumes "list_all2 (\<lambda>t s. describes (tool_parameters t) s) reg schemas" and "distinct (map tool_name reg)"
  shows "(registry_contains reg name \<longleftrightarrow> (\<exists>t s. (t, s) \<in> set (zip reg schemas) \<and> name = JStr (tool_name t)))
    \<and> (\<forall>t s. (t, s) \<in> set (zip reg schemas) \<and> name = JStr (tool_name t) \<longrightarrow>
         registry_parameters reg name = Some (tool_parameters t) \<and> describes (tool_parameters t) s)"
  using assms
proof (induction rule: list_all2_induct)
  case (Cons t reg s schemas)
  have "tool_name t' \<noteq> tool_name t" "tool_name t \<noteq> tool_name t'" if "(t', s') \<in> set (zip reg schemas)" for t' s'
  proof -
    have "tool_name t \<notin> tool_name ` set reg" using Cons.prems by simp
    then show "tool_name t' \<noteq> tool_name t" "tool_name t \<noteq> tool_name t'"
      using imageI [OF set_zip_leftD [OF that], of tool_name] by auto
  qed
  then show ?case
    using Cons by (auto simp: registry_contains_def registry_parameters_def py_eq_str)
qed (simp add: registry_contains_def)

definition acceptable :: "tool_registry \<Rightarrow> schema list \<Rightarrow> parsed_tool_call \<Rightarrow> bool" where
  "acceptable reg schemas call \<longleftrightarrow>
     list_ex (\<lambda>(t, s). tc_name call = JStr (tool_name t) \<and> is_obj (tc_arguments call) \<and> conforms s (tc_arguments call))
       (zip reg schemas)"

lemma assess_call_iff:
  assumes "list_all2 (\<lambda>t s. describes (tool_parameters t) s) reg schemas" and "distinct (map tool_name reg)"
  shows "\<exists>verdict. assess_call fmt reg call = Inr verdict \<and> (verdict = None \<longleftrightarrow> acceptable reg schemas call)"
proof (cases "registry_contains reg (tc_name call)")
  case False
  then show ?thesis
    using registry_get_zip [OF assms, of "tc_name call"]
    by (auto simp: assess_call_def acceptable_def list_ex_iff)
next
  case True
  then obtain t s where t: "(t, s) \<in> set (zip reg schemas)" "tc_name call = JStr (tool_name t)"
    and ps: "registry_parameters reg (tc_name call) = Some (tool_parameters t)" "describes (tool_parameters t) s"
    using registry_get_zip [OF assms, of "tc_name call"] by blast
  have acc: "acceptable reg schemas call \<longleftrightarrow> is_obj (tc_arguments call) \<and> conforms s (tc_arguments call)"
  proof
    assume "acceptable reg schemas call"
    then obtain t' s' where t': "(t', s') \<in> set (zip reg schemas)" "tc_name call = JStr (tool_name t')"
        "is_obj (tc_arguments call)" "conforms s' (tc_arguments call)"
      by (auto simp: acceptable_def list_ex_iff)
    moreover have "s' = s" using zip_tools_unique [OF assms(2) t(1) t'(1)] t(2) t'(2) by simp
    ultimately show "is_obj (tc_arguments call) \<and> conforms s (tc_arguments call)" by simp
  next
    assume "is_obj (tc_arguments call) \<and> conforms s (tc_arguments call)"
    then show "acceptable reg schemas call"
      unfolding acceptable_def list_ex_iff by (intro bexI [OF _ t(1)]) (simp add: t(2))
  qed
  have "\<exists>es. validate_arguments (tc_arguments call) (tool_parameters t) = Inr es
      \<and> (es = [] \<longleftrightarrow> is_obj (tc_arguments call) \<and> conforms s (tc_arguments call))"
    using validate_iff_conforms [OF ps(2)] by (auto simp: validate_arguments_def)
  then show ?thesis using True ps(1) acc by (auto simp: assess_call_def Let_def)
qed

section \<open>Properties\<close>

text \<open>C33: The schema validator decides conformance. For every dict that spells a schema of the supported subset, whatever
  other keywords it has, and every JSON value, validation returns without raising, and it returns no
  errors exactly when the value conforms: right type (booleans are not integers), listed in the enum, required
  properties present, and present properties and array elements conforming in turn.\<close>

theorem schema_validation_exact:
  assumes "describes d s"
  shows "\<exists>es. validate_against_schema v d path = Inr es \<and> (es = [] \<longleftrightarrow> conforms s v)"
  by (rule validate_iff_conforms [OF assms])

definition write_file_schema :: schema where
  "write_file_schema = Schema (Some T_object) None [u ''path'', u ''content'']
     [(u ''path'', Schema (Some T_string) None [] [] None), (u ''content'', Schema (Some T_string) None [] [] None)] None"

lemma write_file_describes:
  "describes (object_schema [(''path'', ''Destination path.''), (''content'', ''Full file content to write.'')] [''path'', ''content''])
     write_file_schema"
  by (simp add: write_file_schema_def object_schema_def str_schema_def schema_type_def schema_properties_def items_schema_def)

theorem schema_validation_exact_witness:
  "\<exists>es. validate_against_schema (JObj [(u ''path'', JStr [120]), (u ''content'', JInt 3)])
      (object_schema [(''path'', ''Destination path.''), (''content'', ''Full file content to write.'')] [''path'', ''content'']) [] = Inr es
    \<and> es \<noteq> []"
  using schema_validation_exact [OF write_file_describes, of "JObj [(u ''path'', JStr [120]), (u ''content'', JInt 3)]" "[]"]
  by (auto simp: write_file_schema_def)


definition demo_fmt :: formatting where
  "demo_fmt = \<lparr>exc_str = (\<lambda>e s. []), py_repr = (\<lambda>v. []), float_repr = (\<lambda>q. []), problem_text = (\<lambda>p. [])\<rparr>"

definition demo_calls :: "(ustring \<times> json) list" where
  "demo_calls = [(u ''run_shell'', JObj [(u ''command'', JStr (u ''ls''))]), (u ''task_complete'', JObj [])]"

lemma demo_calls_ok:
  "list_all (\<lambda>call. json_wf (snd call) \<and> find_sub hermes_end (call_body demo_fmt call) = None) demo_calls"
  by code_simp


text \<open>C35: The verdict on a turn is exact. For a registry with distinct names whose parameters spell schemas, and a turn whose
  calls could be extracted, the assessment does not raise; its valid calls are exactly, in order, the calls that name a
  registered tool and whose arguments are an object conforming to that tool's schema; the turn is malformed, with a reason, exactly when
  some call is not among them.\<close>

theorem assess_tool_calls_exact:
  assumes "list_all2 (\<lambda>t s. describes (tool_parameters t) s) reg schemas" and "distinct (map tool_name reg)"
    and "parse_hermes_tool_calls fmt s = Inr ext" and "tools_called ext" and "extraction_error ext = None"
  shows "\<exists>a. assess_tool_calls fmt s reg = Inr a \<and> attempted a
    \<and> valid_calls a = filter (acceptable reg schemas) (tool_calls ext)
    \<and> (malformed a \<longleftrightarrow> \<not> list_all (acceptable reg schemas) (tool_calls ext))
    \<and> (reason a = None \<longleftrightarrow> \<not> malformed a)"
proof -
  have "\<exists>vs. map_res (assess_call fmt reg) calls = Inr vs
      \<and> map fst (filter (\<lambda>(call, verdict). verdict = None) (zip calls vs)) = filter (acceptable reg schemas) calls
      \<and> (List.map_filter id vs \<noteq> [] \<longleftrightarrow> \<not> list_all (acceptable reg schemas) calls)" for calls
  proof (induction calls)
    case Nil
    then show ?case by (simp add: List.map_filter_def)
  next
    case (Cons call calls)
    obtain v where "assess_call fmt reg call = Inr v" "v = None \<longleftrightarrow> acceptable reg schemas call"
      using assess_call_iff [OF assms(1,2)] by blast
    then show ?case using Cons by (cases v) (auto simp: List.map_filter_def)
  qed
  then obtain vs where vs: "map_res (assess_call fmt reg) (tool_calls ext) = Inr vs"
      "map fst (filter (\<lambda>(call, verdict). verdict = None) (zip (tool_calls ext) vs)) = filter (acceptable reg schemas) (tool_calls ext)"
      "List.map_filter id vs \<noteq> [] \<longleftrightarrow> \<not> list_all (acceptable reg schemas) (tool_calls ext)" by blast
  show ?thesis
    using vs assms(3-5) by (auto simp: assess_tool_calls_def extraction_attempted_def Let_def)
qed

lemma code_tools_describe:
  "list_all2 (\<lambda>t s. describes (tool_parameters t) s) code_tools
     [Schema (Some T_object) None [u ''patch''] [(u ''patch'', Schema (Some T_string) None [] [] None)] None]"
  by (simp add: code_tools_def object_schema_def str_schema_def schema_type_def schema_properties_def items_schema_def)

theorem assess_tool_calls_exact_witness:
  "\<exists>a. assess_tool_calls demo_fmt (render_calls demo_fmt demo_calls) code_tools = Inr a \<and> valid_calls a = [] \<and> malformed a"
proof -
  let ?ext = "\<lparr>tools_called = True,
     tool_calls = map (\<lambda>(n, a). \<lparr>tc_name = JStr n, tc_arguments = a, tc_arguments_json = dumps (float_repr demo_fmt) a\<rparr>) demo_calls,
     content = None, extraction_error = None\<rparr>"
  have "parse_hermes_tool_calls demo_fmt ([] @ render_calls demo_fmt demo_calls) = Inr ?ext"
    using parse_calls_render [OF no_start_newline(2), of demo_fmt demo_calls] demo_calls_ok
      find_hermes_start [OF no_start_newline(2)]
    by (auto simp: parse_hermes_tool_calls_def list_all_iff render_calls_def demo_calls_def)
  moreover have "distinct (map tool_name code_tools)" by (simp add: code_tools_def)
  ultimately show ?thesis
    using assess_tool_calls_exact [OF code_tools_describe, of demo_fmt "[] @ render_calls demo_fmt demo_calls" ?ext]
    by (auto simp: acceptable_def demo_calls_def code_tools_def)
qed


end
