(* ===== verification/Invalid_Action.thy ===== *)
theory Invalid_Action
  imports Tool_Validation
begin

text \<open>
  Invalid-action penalties: the detectors and the typed verdict of \<^verbatim>\<open>rewards/invalid_action.py\<close>, the stamping
  of a verdict on a turn in \<^verbatim>\<open>experience/rollouts.py\<close> and the two places the penalty is charged in
  \<^verbatim>\<open>algorithms/reward_functions.py\<close>, the reward of a sample and the advantages of a message span.

  Violation types, loci and modes are strings as in the code, because the configuration maps and overrides
  them freely. Weights and rewards are exact rationals. Environment metadata is a dict of JSON values,
  of which only the truth value is used.
\<close>

section \<open>Violations\<close>

definition locus_reward :: string where "locus_reward = ''reward''"
definition locus_advantage :: string where "locus_advantage = ''advantage''"

definition violation_unexecuted_pattern :: string where "violation_unexecuted_pattern = ''unexecuted_pattern''"
definition violation_malformed_tool_call :: string where "violation_malformed_tool_call = ''malformed_tool_call''"
definition violation_schema_unknown_tool :: string where "violation_schema_unknown_tool = ''schema_unknown_tool''"
definition violation_schema_args :: string where "violation_schema_args = ''schema_args''"
definition violation_malformed_thinking :: string where "violation_malformed_thinking = ''malformed_thinking''"
definition violation_env_invalid_action :: string where "violation_env_invalid_action = ''env_invalid_action''"
definition violation_env_malformed_thinking :: string where
  "violation_env_malformed_thinking = ''env_malformed_thinking''"

lemmas violation_names =
  violation_unexecuted_pattern_def violation_malformed_tool_call_def violation_schema_unknown_tool_def
  violation_schema_args_def violation_malformed_thinking_def violation_env_invalid_action_def
  violation_env_malformed_thinking_def

definition default_locus :: "(string \<times> string) list" where
  "default_locus =
     [(violation_unexecuted_pattern, locus_advantage), (violation_malformed_tool_call, locus_advantage),
      (violation_schema_unknown_tool, locus_advantage), (violation_schema_args, locus_advantage),
      (violation_malformed_thinking, locus_advantage), (violation_env_malformed_thinking, locus_advantage),
      (violation_env_invalid_action, locus_reward)]"

definition default_severity :: "(string \<times> rat) list" where
  "default_severity =
     [(violation_unexecuted_pattern, 1), (violation_malformed_tool_call, 1), (violation_schema_unknown_tool, 1),
      (violation_schema_args, 1 / 2), (violation_malformed_thinking, 1 / 2),
      (violation_env_malformed_thinking, 1 / 2), (violation_env_invalid_action, 1)]"

definition invalid_action_types :: "string list" where
  "invalid_action_types =
     [violation_unexecuted_pattern, violation_malformed_tool_call, violation_schema_unknown_tool,
      violation_schema_args, violation_env_invalid_action]"

definition malformed_thinking_types :: "string list" where
  "malformed_thinking_types = [violation_malformed_thinking, violation_env_malformed_thinking]"

record violation =
  v_type :: string
  v_severity :: rat
  v_locus :: string
  v_detail :: "ustring option"

text \<open>The step schedule and the configuration: a key that may be absent is an option.\<close>

record step_scale =
  sc_schedule :: "string option"
  sc_start :: "rat option"
  sc_end :: "rat option"
  sc_steps :: "int option"

record invalid_action_cfg =
  ia_enabled :: bool
  ia_invalid_penalty :: "rat option"
  ia_malformed_penalty :: "rat option"
  ia_use_environment_flags :: "bool option"
  ia_patterns :: "ustring list option"
  ia_thinking_tags :: "ustring list option"
  ia_reward_floor :: "rat option"
  ia_penalty_mode :: "string option"
  ia_severity_weights :: "(string \<times> rat) list option"
  ia_locus_overrides :: "(string \<times> string) list option"
  ia_enable_schema_validation :: "bool option"
  ia_step_scale :: "step_scale option"

record invalid_action_verdict =
  iv_invalid_action :: bool
  iv_malformed_thinking :: bool
  iv_violations :: "violation list"

definition has_violation :: "invalid_action_verdict \<Rightarrow> bool" where
  "has_violation v \<longleftrightarrow> iv_violations v \<noteq> []"

section \<open>Text detectors\<close>

definition detect_invalid_tool_call :: "ustring \<Rightarrow> ustring list \<Rightarrow> bool" where
  "detect_invalid_tool_call s patterns = list_ex (\<lambda>p. p \<noteq> [] \<and> find_sub p s \<noteq> None) patterns"

definition default_thinking_tags :: "ustring list" where
  "default_thinking_tags = [u ''<think>'', u ''</think>'']"

definition detect_malformed_thinking :: "ustring \<Rightarrow> ustring list \<Rightarrow> string \<Rightarrow> bool result" where
  "detect_malformed_thinking s tags style =
     (case tags of
        [open_tag, close_tag] \<Rightarrow>
          let n_close = str_count close_tag s; n_open = str_count open_tag (str_replace close_tag [] s) in
          if style = ''closing_only'' then Inr (n_open > 0 \<or> n_close > 1)
          else if style \<noteq> ''paired'' then Inl ValueError
          else if n_open = 0 \<and> n_close = 0 then Inr False
          else Inr (n_open \<noteq> n_close \<or> n_open > 1)
      | _ \<Rightarrow> Inl ValueError)"

section \<open>Severity, locus and schedule\<close>

definition get_or :: "('k \<times> 'v) list option \<Rightarrow> 'k \<Rightarrow> 'v \<Rightarrow> 'v" where
  "get_or m k d = (case m of None \<Rightarrow> d | Some kv \<Rightarrow> (case map_of kv k of None \<Rightarrow> d | Some v \<Rightarrow> v))"

definition resolve_severity :: "invalid_action_cfg \<Rightarrow> string \<Rightarrow> rat" where
  "resolve_severity cfg vtype = get_or (ia_severity_weights cfg) vtype (get_or (Some default_severity) vtype 1)"

definition resolve_locus :: "invalid_action_cfg \<Rightarrow> string \<Rightarrow> string" where
  "resolve_locus cfg vtype = get_or (ia_locus_overrides cfg) vtype (get_or (Some default_locus) vtype locus_reward)"

definition make_violation :: "invalid_action_cfg \<Rightarrow> string \<Rightarrow> ustring option \<Rightarrow> violation" where
  "make_violation cfg vtype detail =
     \<lparr>v_type = vtype, v_severity = resolve_severity cfg vtype, v_locus = resolve_locus cfg vtype, v_detail = detail\<rparr>"

definition opt_or :: "'a option \<Rightarrow> 'a \<Rightarrow> 'a" where
  "opt_or x d = (case x of None \<Rightarrow> d | Some v \<Rightarrow> v)"

definition penalty_scale_at_step :: "invalid_action_cfg \<Rightarrow> int option \<Rightarrow> rat result" where
  "penalty_scale_at_step cfg step =
     (case ia_step_scale cfg of
        None \<Rightarrow> Inr 1
      | Some sched \<Rightarrow>
          let start = opt_or (sc_start sched) 1; kind = opt_or (sc_schedule sched) ''constant'' in
          (case step of
             None \<Rightarrow> Inr start
           | Some t \<Rightarrow>
               if kind = ''constant'' then Inr start
               else if kind = ''linear'' then
                 let e = opt_or (sc_end sched) start; n = opt_or (sc_steps sched) 0 in
                 if n \<le> 0 then Inr e
                 else let frac = min (max (of_int t / of_int n) 0) 1 in Inr (start + (e - start) * frac)
               else Inl ValueError))"

definition violation_rate_metrics :: "(string \<times> nat) list \<Rightarrow> nat \<Rightarrow> (string \<times> rat) list" where
  "violation_rate_metrics counts num_messages =
     (let denom = rat_of_nat (max num_messages 1);
          total = (\<lambda>types. rat_of_nat (sum_list (map (\<lambda>t. get_or (Some counts) t 0) types)))
      in [(''num_assistant_messages'', rat_of_nat num_messages),
          (''invalid_action_msg_rate'', total invalid_action_types / denom),
          (''malformed_thinking_msg_rate'', total malformed_thinking_types / denom)]
         @ map (\<lambda>(t, n). (''violation_rate/'' @ t, rat_of_nat n / denom)) counts)"

section \<open>Routing and amounts\<close>

definition violations_at_locus :: "violation list \<Rightarrow> string option \<Rightarrow> string \<Rightarrow> violation list result" where
  "violations_at_locus vs penalty_mode locus =
     (let mode = (case penalty_mode of None \<Rightarrow> ''auto'' | Some m \<Rightarrow> if m = [] then ''auto'' else m) in
      if mode = ''both'' then Inr vs
      else if mode = ''auto'' then Inr (filter (\<lambda>v. v_locus v = locus) vs)
      else if mode = locus_reward \<or> mode = locus_advantage then Inr (if mode = locus then vs else [])
      else Inl ValueError)"

definition base_penalty_for_type :: "invalid_action_cfg \<Rightarrow> string \<Rightarrow> rat" where
  "base_penalty_for_type cfg vtype =
     (if vtype \<in> set malformed_thinking_types then opt_or (ia_malformed_penalty cfg) 0
      else opt_or (ia_invalid_penalty cfg) 0)"

definition violation_penalty :: "invalid_action_cfg \<Rightarrow> violation \<Rightarrow> int option \<Rightarrow> rat result" where
  "violation_penalty cfg v step =
     bind_res (penalty_scale_at_step cfg step) (\<lambda>scale.
       Inr (base_penalty_for_type cfg (v_type v) * v_severity v * scale))"

text \<open>A message as the penalties read it: its token ids and the violations stamped on it.\<close>

record ia_message =
  im_token_ids :: "int list option"
  im_violations :: "violation list option"

definition sum_penalties :: "invalid_action_cfg \<Rightarrow> int option \<Rightarrow> violation list \<Rightarrow> rat result" where
  "sum_penalties cfg step vs =
     bind_res (map_res (\<lambda>v. violation_penalty cfg v step) vs) (\<lambda>ps. Inr (sum_list ps))"

definition message_locus_penalty ::
  "invalid_action_cfg \<Rightarrow> string \<Rightarrow> int option \<Rightarrow> ia_message \<Rightarrow> rat result" where
  "message_locus_penalty cfg locus step m =
     (case im_violations m of
        None \<Rightarrow> Inr 0
      | Some [] \<Rightarrow> Inr 0
      | Some vs \<Rightarrow> bind_res (violations_at_locus vs (ia_penalty_mode cfg) locus) (sum_penalties cfg step))"

definition sample_locus_penalty ::
  "ia_message list \<Rightarrow> invalid_action_cfg \<Rightarrow> string \<Rightarrow> int option \<Rightarrow> rat result" where
  "sample_locus_penalty message_log cfg locus step =
     bind_res (map_res (message_locus_penalty cfg locus step) message_log) (\<lambda>ps. Inr (sum_list ps))"

section \<open>The verdict\<close>

text \<open>\<open>head.lower().startswith\<close> for ASCII prefixes: no character outside ASCII lowers to a letter of these prefixes
  alone, so lowering ASCII letters decides the test.\<close>

definition classify_schema_failure :: "ustring \<Rightarrow> string" where
  "classify_schema_failure why =
     (if starts_with why (u ''unknown tool'') \<or> find_sub (u ''unknown tool'') why \<noteq> None then violation_schema_unknown_tool
      else
        let head = takeWhile (\<lambda>c. c \<noteq> 59) why in
        if find_sub (u '': '') head \<noteq> None
           \<and> \<not> list_ex (starts_with (lower head)) [u ''invalid'', u ''could not'', u ''no '']
        then violation_schema_args
        else violation_malformed_tool_call)"

fun truthy :: "json \<Rightarrow> bool" where
  "truthy JNull = False"
| "truthy (JBool b) = b"
| "truthy (JInt i) = (i \<noteq> 0)"
| "truthy (JFloat x) = (x \<noteq> Fin 0)"
| "truthy (JStr s) = (s \<noteq> [])"
| "truthy (JList vs) = (vs \<noteq> [])"
| "truthy (JObj ms) = (ms \<noteq> [])"

definition env_invalid_action_key :: ustring where "env_invalid_action_key = u ''invalid_action''"
definition env_malformed_thinking_key :: ustring where "env_malformed_thinking_key = u ''malformed_thinking''"

type_synonym metadata = "(ustring \<times> json) list"

definition env_flag :: "invalid_action_cfg \<Rightarrow> metadata option \<Rightarrow> ustring \<Rightarrow> bool" where
  "env_flag cfg env_metadata key =
     (opt_or (ia_use_environment_flags cfg) True
      \<and> (case env_metadata of
           None \<Rightarrow> False
         | Some md \<Rightarrow> (case map_of md key of None \<Rightarrow> False | Some v \<Rightarrow> truthy v)))"

text \<open>The schema tier: the violation for a malformed structured call, when a registry is supplied.\<close>

definition schema_tier ::
  "formatting \<Rightarrow> ustring \<Rightarrow> invalid_action_cfg \<Rightarrow> tool_registry option \<Rightarrow> violation list result" where
  "schema_tier fmt s cfg registry =
     (case registry of
        None \<Rightarrow> Inr []
      | Some reg \<Rightarrow>
          if \<not> opt_or (ia_enable_schema_validation cfg) True then Inr []
          else
            bind_res (assess_tool_calls fmt s reg) (\<lambda>a.
              if attempted a \<and> malformed a then
                let why = opt_or (reason a) [] in
                Inr [make_violation cfg (classify_schema_failure why) (if why = [] then None else Some why)]
              else Inr []))"

definition assess_assistant_turn ::
  "formatting \<Rightarrow> ustring \<Rightarrow> invalid_action_cfg \<Rightarrow> metadata option \<Rightarrow> string \<Rightarrow> tool_registry option
    \<Rightarrow> invalid_action_verdict result" where
  "assess_assistant_turn fmt s cfg env_metadata thinking_style registry =
     (let env_invalid = env_flag cfg env_metadata env_invalid_action_key;
          env_malformed = env_flag cfg env_metadata env_malformed_thinking_key;
          v_env = (if env_invalid then [make_violation cfg violation_env_invalid_action None] else [])
                @ (if env_malformed then [make_violation cfg violation_env_malformed_thinking None] else [])
      in
      bind_res (if env_invalid then Inr [] else schema_tier fmt s cfg registry) (\<lambda>v_schema.
      let invalid_detected = (env_invalid \<or> v_schema \<noteq> []);
          v_pattern = (if \<not> invalid_detected \<and> detect_invalid_tool_call s (opt_or (ia_patterns cfg) [])
                       then [make_violation cfg violation_unexecuted_pattern None] else []);
          tags = (case ia_thinking_tags cfg of None \<Rightarrow> default_thinking_tags | Some ts \<Rightarrow> if ts = [] then default_thinking_tags else ts)
      in
      bind_res (if env_malformed then Inr False else detect_malformed_thinking s tags thinking_style) (\<lambda>flagged.
      let vs = v_env @ v_schema @ v_pattern
             @ (if flagged then [make_violation cfg violation_malformed_thinking None] else [])
      in Inr \<lparr>iv_invalid_action = list_ex (\<lambda>v. v_type v \<in> set invalid_action_types) vs,
              iv_malformed_thinking = list_ex (\<lambda>v. v_type v \<in> set malformed_thinking_types) vs,
              iv_violations = vs\<rparr>)))"

definition pop_env_flags :: "metadata option \<Rightarrow> metadata option" where
  "pop_env_flags env_metadata =
     map_option (filter (\<lambda>(k, v). k \<noteq> env_invalid_action_key \<and> k \<noteq> env_malformed_thinking_key)) env_metadata"

section \<open>Stamping a turn\<close>

text \<open>What a rollout keeps of one sample: its message log, the two flag counts, the number of assistant messages judged
  and the violations seen per type.\<close>

record sample_verdicts =
  sv_log :: "ia_message list"
  sv_invalid_count :: nat
  sv_malformed_count :: nat
  sv_messages :: nat
  sv_type_counts :: "(string \<times> nat) list"

fun bump_type :: "(string \<times> nat) list \<Rightarrow> string \<Rightarrow> (string \<times> nat) list" where
  "bump_type [] k = [(k, 1)]"
| "bump_type ((k', n) # kv) k = (if k' = k then (k', n + 1) # kv else (k', n) # bump_type kv k)"

definition stamp_turn :: "invalid_action_verdict \<Rightarrow> sample_verdicts \<Rightarrow> ia_message \<Rightarrow> sample_verdicts" where
  "stamp_turn verdict sv m =
     \<lparr>sv_log = sv_log sv @ [if iv_violations verdict \<noteq> [] then m\<lparr>im_violations := Some (iv_violations verdict)\<rparr> else m],
      sv_invalid_count = sv_invalid_count sv + (if iv_invalid_action verdict then 1 else 0),
      sv_malformed_count = sv_malformed_count sv + (if iv_malformed_thinking verdict then 1 else 0),
      sv_messages = sv_messages sv + 1,
      sv_type_counts = fold (\<lambda>v kv. bump_type kv (v_type v)) (iv_violations verdict) (sv_type_counts sv)\<rparr>"

text \<open>One turn of a rollout: the assistant message is judged and stamped, the flags are popped from the metadata, and
  the observation, which carries no violations, is appended. The rollouts pass no registry.\<close>

record ia_turn =
  it_text :: ustring
  it_tokens :: "int list"
  it_metadata :: "metadata option"
  it_observation :: "int list"

definition rollout_turn ::
  "formatting \<Rightarrow> invalid_action_cfg \<Rightarrow> string \<Rightarrow> ia_turn \<Rightarrow> sample_verdicts \<Rightarrow> (sample_verdicts \<times> metadata option) result" where
  "rollout_turn fmt cfg style t sv =
     bind_res (assess_assistant_turn fmt (it_text t) cfg (it_metadata t) style None) (\<lambda>verdict.
       let sv' = stamp_turn verdict sv \<lparr>im_token_ids = Some (it_tokens t), im_violations = None\<rparr> in
       Inr (sv'\<lparr>sv_log := sv_log sv' @ [\<lparr>im_token_ids = Some (it_observation t), im_violations = None\<rparr>]\<rparr>,
            pop_env_flags (it_metadata t)))"

fun rollout_turns ::
  "formatting \<Rightarrow> invalid_action_cfg \<Rightarrow> string \<Rightarrow> ia_turn list \<Rightarrow> sample_verdicts \<Rightarrow> sample_verdicts result" where
  "rollout_turns fmt cfg style [] sv = Inr sv"
| "rollout_turns fmt cfg style (t # ts) sv =
     bind_res (rollout_turn fmt cfg style t sv) (\<lambda>(sv', _). rollout_turns fmt cfg style ts sv')"

section \<open>Charging the penalties\<close>

text \<open>The batch fields the reward penalty reads and writes.\<close>

record penalty_batch =
  pb_message_log :: "ia_message list list option"
  pb_total_reward :: "rat list"
  pb_unshaped :: "rat list option"
  pb_invalid_counts :: "nat list option"
  pb_malformed_counts :: "nat list option"

text \<open>Elementwise tensor operations on vectors, with the broadcast of a single element.\<close>

definition tensor_map2 :: "(rat \<Rightarrow> rat \<Rightarrow> rat) \<Rightarrow> rat list \<Rightarrow> rat list \<Rightarrow> rat list result" where
  "tensor_map2 f xs ys =
     (if length xs = length ys then Inr (map2 f xs ys)
      else if length ys = 1 then Inr (map (\<lambda>x. f x (hd ys)) xs)
      else if length xs = 1 then Inr (map (f (hd xs)) ys)
      else Inl RuntimeError)"

definition apply_floor :: "invalid_action_cfg \<Rightarrow> rat list \<Rightarrow> rat list" where
  "apply_floor cfg xs = (case ia_reward_floor cfg of None \<Rightarrow> xs | Some f \<Rightarrow> map (\<lambda>x. max x f) xs)"

definition keep_unshaped :: "penalty_batch \<Rightarrow> penalty_batch" where
  "keep_unshaped b = (if pb_unshaped b = None then b\<lparr>pb_unshaped := Some (pb_total_reward b)\<rparr> else b)"

definition apply_invalid_action_reward_locus ::
  "penalty_batch \<Rightarrow> ia_message list list \<Rightarrow> invalid_action_cfg \<Rightarrow> int option \<Rightarrow> penalty_batch result" where
  "apply_invalid_action_reward_locus b message_logs cfg step =
     bind_res (map_res (\<lambda>ml. sample_locus_penalty ml cfg locus_reward step) message_logs) (\<lambda>penalties.
     bind_res (tensor_map2 (-) (pb_total_reward b) penalties) (\<lambda>penalized.
       Inr ((keep_unshaped b)\<lparr>pb_total_reward := apply_floor cfg penalized\<rparr>)))"

definition apply_invalid_action_penalty ::
  "penalty_batch \<Rightarrow> invalid_action_cfg option \<Rightarrow> int option \<Rightarrow> penalty_batch result" where
  "apply_invalid_action_penalty b cfg_opt step =
     (case cfg_opt of
        None \<Rightarrow> Inr b
      | Some cfg \<Rightarrow>
          if \<not> ia_enabled cfg then Inr b
          else
            (case pb_message_log b of
               Some logs \<Rightarrow> apply_invalid_action_reward_locus b logs cfg step
             | None \<Rightarrow>
                 (case (pb_invalid_counts b, pb_malformed_counts b) of
                    (Some invalid, Some malf) \<Rightarrow>
                      let invalid_pen = opt_or (ia_invalid_penalty cfg) 0; malformed_pen = opt_or (ia_malformed_penalty cfg) 0 in
                      if \<not> (invalid_pen \<ge> 0 \<and> malformed_pen \<ge> 0) then Inl AssertionError
                      else
                        bind_res (tensor_map2 (-) (pb_total_reward b) (map (\<lambda>n. invalid_pen * rat_of_nat n) invalid)) (\<lambda>r1.
                        bind_res (tensor_map2 (-) r1 (map (\<lambda>n. malformed_pen * rat_of_nat n) malf)) (\<lambda>r2.
                          Inr ((keep_unshaped b)\<lparr>pb_total_reward := apply_floor cfg r2\<rparr>)))
                  | _ \<Rightarrow> Inl ValueError)))"

definition message_len :: "ia_message \<Rightarrow> nat" where
  "message_len m = (case im_token_ids m of None \<Rightarrow> 0 | Some ts \<Rightarrow> length ts)"

text \<open>The penalty of a message span, nothing when it is not charged.\<close>

definition span_penalty :: "invalid_action_cfg \<Rightarrow> int option \<Rightarrow> ia_message \<Rightarrow> rat option result" where
  "span_penalty cfg step m =
     (case im_violations m of
        None \<Rightarrow> Inr None
      | Some vs \<Rightarrow>
          if vs = [] \<or> message_len m = 0 then Inr None
          else
            bind_res (violations_at_locus vs (ia_penalty_mode cfg) locus_advantage) (\<lambda>adv.
              if adv = [] then Inr None
              else bind_res (sum_penalties cfg step adv) (\<lambda>pen. Inr (if pen > 0 then Some pen else None))))"

fun span_loop ::
  "invalid_action_cfg \<Rightarrow> int option \<Rightarrow> ia_message list \<Rightarrow> nat \<Rightarrow> rat list option \<Rightarrow> nat \<Rightarrow> (rat list option \<times> nat) result" where
  "span_loop cfg step [] off row spans = Inr (row, spans)"
| "span_loop cfg step (m # ms) off row spans =
     bind_res (span_penalty cfg step m) (\<lambda>p.
       case p of
         None \<Rightarrow> span_loop cfg step ms (off + message_len m) row spans
       | Some pen \<Rightarrow>
           (case row of
              None \<Rightarrow> Inl IndexError
            | Some r \<Rightarrow> span_loop cfg step ms (off + message_len m) (Some (assign_span r off (message_len m) (- pen))) (spans + 1)))"

text \<open>The loop over the samples: sample \<open>i\<close> reads and writes row \<open>i\<close>; a flagged span without a row raises.\<close>

fun span_rows ::
  "invalid_action_cfg \<Rightarrow> int option \<Rightarrow> rat list list \<Rightarrow> ia_message list list \<Rightarrow> nat \<Rightarrow> (rat list list \<times> nat) result" where
  "span_rows cfg step rows [] spans = Inr (rows, spans)"
| "span_rows cfg step [] (ml # mls) spans =
     bind_res (span_loop cfg step ml 0 None spans) (\<lambda>(_, n). span_rows cfg step [] mls n)"
| "span_rows cfg step (r # rows) (ml # mls) spans =
     bind_res (span_loop cfg step ml 0 (Some r) spans) (\<lambda>(r', n).
     bind_res (span_rows cfg step rows mls n) (\<lambda>(rows', n').
       Inr ((case r' of None \<Rightarrow> r | Some x \<Rightarrow> x) # rows', n')))"

definition apply_message_span_advantage_penalties ::
  "rat list list \<Rightarrow> ia_message list list \<Rightarrow> invalid_action_cfg option \<Rightarrow> int option
    \<Rightarrow> (rat list list \<times> (string \<times> rat) list) result" where
  "apply_message_span_advantage_penalties advantages message_logs cfg_opt step =
     (case cfg_opt of
        None \<Rightarrow> Inr (advantages, [])
      | Some cfg \<Rightarrow>
          if \<not> ia_enabled cfg then Inr (advantages, [])
          else
            bind_res (span_rows cfg step advantages message_logs 0) (\<lambda>(rows, n).
              Inr (rows, if n > 0 then [(''advantage_penalty_spans'', rat_of_nat n)] else [])))"

definition resolve_invalid_action_cfg ::
  "invalid_action_cfg option \<Rightarrow> bool \<Rightarrow> invalid_action_cfg option result" where
  "resolve_invalid_action_cfg cfg_opt cua_rollout =
     (case cfg_opt of
        None \<Rightarrow> Inr None
      | Some cfg \<Rightarrow>
          if \<not> ia_enabled cfg then Inr None
          else if cua_rollout then Inl NotImplementedError
          else Inr (Some cfg))"

section \<open>What a verdict contains\<close>

lemmas type_sets = invalid_action_types_def malformed_thinking_types_def violation_names

definition well_made :: "invalid_action_cfg \<Rightarrow> violation \<Rightarrow> bool" where
  "well_made cfg v \<longleftrightarrow>
     v = make_violation cfg (v_type v) (v_detail v) \<and> v_type v \<in> set (invalid_action_types @ malformed_thinking_types)"

lemma make_violation_sel [simp]:
  "v_type (make_violation cfg t d) = t"
  "v_severity (make_violation cfg t d) = resolve_severity cfg t"
  "v_locus (make_violation cfg t d) = resolve_locus cfg t"
  "v_detail (make_violation cfg t d) = d"
  by (simp_all add: make_violation_def)

lemma classify_type: "classify_schema_failure why \<in> set invalid_action_types"
  by (simp add: classify_schema_failure_def invalid_action_types_def Let_def)

lemma types_disjoint: "set invalid_action_types \<inter> set malformed_thinking_types = {}"
  by (auto simp: type_sets)

lemma schema_tier_shape:
  assumes "schema_tier fmt s cfg registry = Inr vs"
  obtains "vs = []" | why d where "vs = [make_violation cfg (classify_schema_failure why) d]"
  using assms by (auto simp: schema_tier_def Let_def bind_res_eq_Inr split: option.splits if_splits)

text \<open>A verdict has at most one violation of either family, and the two flags say which families occur.\<close>

definition family_count :: "string list \<Rightarrow> violation list \<Rightarrow> nat" where
  "family_count types vs = length (filter (\<lambda>v. v_type v \<in> set types) vs)"

lemma family_count_simps [simp]:
  "family_count types [] = 0"
  "family_count types (v # vs) = (if v_type v \<in> set types then 1 else 0) + family_count types vs"
  "family_count types (vs @ ws) = family_count types vs + family_count types ws"
  by (simp_all add: family_count_def)

lemma env_types:
  "violation_env_invalid_action \<in> set invalid_action_types" "violation_env_invalid_action \<notin> set malformed_thinking_types"
  "violation_unexecuted_pattern \<in> set invalid_action_types" "violation_unexecuted_pattern \<notin> set malformed_thinking_types"
  "violation_env_malformed_thinking \<in> set malformed_thinking_types" "violation_env_malformed_thinking \<notin> set invalid_action_types"
  "violation_malformed_thinking \<in> set malformed_thinking_types" "violation_malformed_thinking \<notin> set invalid_action_types"
  by (simp_all add: type_sets)

lemma classify_not_malformed: "classify_schema_failure why \<notin> set malformed_thinking_types"
  using classify_type types_disjoint by blast

lemmas family_facts = env_types classify_type classify_not_malformed

lemma assess_parts:
  assumes "assess_assistant_turn fmt s cfg md style registry = Inr verdict"
  obtains vsch flagged where
    "(if env_flag cfg md env_invalid_action_key then Inr [] else schema_tier fmt s cfg registry) = Inr vsch"
    and "env_flag cfg md env_malformed_thinking_key \<longrightarrow> \<not> flagged"
    and "verdict = (let vs = (if env_flag cfg md env_invalid_action_key then [make_violation cfg violation_env_invalid_action None] else [])
                @ (if env_flag cfg md env_malformed_thinking_key then [make_violation cfg violation_env_malformed_thinking None] else [])
                @ vsch @ (if \<not> (env_flag cfg md env_invalid_action_key \<or> vsch \<noteq> []) \<and> detect_invalid_tool_call s (opt_or (ia_patterns cfg) [])
                       then [make_violation cfg violation_unexecuted_pattern None] else [])
                @ (if flagged then [make_violation cfg violation_malformed_thinking None] else [])
       in \<lparr>iv_invalid_action = list_ex (\<lambda>v. v_type v \<in> set invalid_action_types) vs,
              iv_malformed_thinking = list_ex (\<lambda>v. v_type v \<in> set malformed_thinking_types) vs,
              iv_violations = vs\<rparr>)"
  using assms unfolding assess_assistant_turn_def Let_def bind_res_eq_Inr
  by (auto simp: bind_res_eq_Inr simp del: append_assoc split: if_splits)

lemma assess_types:
  assumes "assess_assistant_turn fmt s cfg md style registry = Inr verdict"
  shows "\<exists>vsch. (if env_flag cfg md env_invalid_action_key then Inr [] else schema_tier fmt s cfg registry) = Inr vsch
    \<and> v_type ` set (iv_violations verdict) \<subseteq> v_type ` set vsch \<union> {violation_env_invalid_action,
      violation_env_malformed_thinking, violation_unexecuted_pattern, violation_malformed_thinking}"
proof (rule assess_parts [OF assms], goal_cases)
  case (1 vsch flagged)
  then show ?case by (intro exI [of _ vsch]) (simp add: Let_def image_Un, blast)
qed

lemma assess_shape:
  assumes "assess_assistant_turn fmt s cfg md style registry = Inr verdict"
  shows "family_count invalid_action_types (iv_violations verdict) = (if iv_invalid_action verdict then 1 else 0)"
    and "family_count malformed_thinking_types (iv_violations verdict) = (if iv_malformed_thinking verdict then 1 else 0)"
    and "list_all (well_made cfg) (iv_violations verdict)"
proof -
  obtain vsch flagged where sch: "(if env_flag cfg md env_invalid_action_key then Inr [] else schema_tier fmt s cfg registry) = Inr vsch"
    and fl: "env_flag cfg md env_malformed_thinking_key \<longrightarrow> \<not> flagged"
    and v: "verdict = (let vs = (if env_flag cfg md env_invalid_action_key then [make_violation cfg violation_env_invalid_action None] else [])
                @ (if env_flag cfg md env_malformed_thinking_key then [make_violation cfg violation_env_malformed_thinking None] else [])
                @ vsch @ (if \<not> (env_flag cfg md env_invalid_action_key \<or> vsch \<noteq> []) \<and> detect_invalid_tool_call s (opt_or (ia_patterns cfg) [])
                       then [make_violation cfg violation_unexecuted_pattern None] else [])
                @ (if flagged then [make_violation cfg violation_malformed_thinking None] else [])
       in \<lparr>iv_invalid_action = list_ex (\<lambda>v. v_type v \<in> set invalid_action_types) vs,
              iv_malformed_thinking = list_ex (\<lambda>v. v_type v \<in> set malformed_thinking_types) vs,
              iv_violations = vs\<rparr>)"
    using assess_parts [OF assms] by blast
  have shape: "vsch = [] \<or> (\<not> env_flag cfg md env_invalid_action_key
      \<and> (\<exists>why d. vsch = [make_violation cfg (classify_schema_failure why) d]))"
    using sch by (auto split: if_splits elim!: schema_tier_shape)
  show "family_count invalid_action_types (iv_violations verdict) = (if iv_invalid_action verdict then 1 else 0)"
    using shape unfolding v Let_def by (elim disjE exE conjE) (simp_all add: family_facts)
  show "family_count malformed_thinking_types (iv_violations verdict) = (if iv_malformed_thinking verdict then 1 else 0)"
    using shape fl unfolding v Let_def by (elim disjE exE conjE) (simp_all add: family_facts)
  show "list_all (well_made cfg) (iv_violations verdict)"
    using shape unfolding v Let_def by (elim disjE exE conjE) (simp_all add: family_facts well_made_def)
qed

section \<open>Amounts\<close>

text \<open>The amount of one violation at scale \<open>k\<close>, and of everything stamped on a log.\<close>

definition amount :: "invalid_action_cfg \<Rightarrow> rat \<Rightarrow> violation \<Rightarrow> rat" where
  "amount cfg k v = base_penalty_for_type cfg (v_type v) * v_severity v * k"

definition stamped :: "ia_message \<Rightarrow> violation list" where
  "stamped m = opt_or (im_violations m) []"

definition log_violations :: "ia_message list \<Rightarrow> violation list" where
  "log_violations ml = concat (map stamped ml)"

lemma sum_penalties_amount:
  "penalty_scale_at_step cfg step = Inr k \<Longrightarrow> sum_penalties cfg step vs = Inr (sum_list (map (amount cfg k) vs))"
  by (simp add: sum_penalties_def violation_penalty_def amount_def [abs_def] map_res_Inr)

definition routed :: "string option \<Rightarrow> string \<Rightarrow> violation \<Rightarrow> bool" where
  "routed mode locus v \<longleftrightarrow>
     (mode = Some ''both'' \<or> mode = Some locus \<or> mode \<in> {None, Some [], Some ''auto''} \<and> v_locus v = locus)"

definition known_mode :: "string option \<Rightarrow> bool" where
  "known_mode mode \<longleftrightarrow> mode \<in> {None, Some [], Some ''auto'', Some locus_reward, Some locus_advantage, Some ''both''}"

lemma violations_at_locus_routed:
  "known_mode mode \<Longrightarrow> locus \<in> {locus_reward, locus_advantage}
    \<Longrightarrow> violations_at_locus vs mode locus = Inr (filter (routed mode locus) vs)"
  by (auto simp: known_mode_def violations_at_locus_def routed_def [abs_def] locus_reward_def locus_advantage_def)

lemma message_locus_penalty_amount:
  assumes "penalty_scale_at_step cfg step = Inr k" "known_mode (ia_penalty_mode cfg)" "locus \<in> {locus_reward, locus_advantage}"
  shows "message_locus_penalty cfg locus step m
    = Inr (sum_list (map (amount cfg k) (filter (routed (ia_penalty_mode cfg) locus) (stamped m))))"
  using assms
  by (simp add: message_locus_penalty_def violations_at_locus_routed sum_penalties_amount stamped_def opt_or_def
      split: option.splits list.splits)

lemma sum_list_concat_map: "sum_list (map f (concat xss)) = sum_list (map (\<lambda>xs. sum_list (map f xs)) xss)"
  by (induction xss) simp_all

lemma sample_locus_penalty_amount:
  assumes "penalty_scale_at_step cfg step = Inr k" "known_mode (ia_penalty_mode cfg)" "locus \<in> {locus_reward, locus_advantage}"
  shows "sample_locus_penalty ml cfg locus step
    = Inr (sum_list (map (amount cfg k) (filter (routed (ia_penalty_mode cfg) locus) (log_violations ml))))"
proof -
  have "map_res (message_locus_penalty cfg locus step) ml
      = Inr (map (\<lambda>m. sum_list (map (amount cfg k) (filter (routed (ia_penalty_mode cfg) locus) (stamped m)))) ml)"
    using message_locus_penalty_amount [OF assms] by (intro map_res_Inr) simp
  then show ?thesis
    by (simp add: sample_locus_penalty_def log_violations_def filter_concat sum_list_concat_map comp_def)
qed



section \<open>Rollouts\<close>

lemma log_violations_simps [simp]:
  "log_violations [] = []"
  "log_violations (m # ml) = stamped m @ log_violations ml"
  "log_violations (ml @ ml') = log_violations ml @ log_violations ml'"
  by (simp_all add: log_violations_def)

lemma stamped_fresh [simp]: "stamped \<lparr>im_token_ids = t, im_violations = None\<rparr> = []"
  by (simp add: stamped_def opt_or_def)

lemma rollout_turn_violations:
  assumes "rollout_turn fmt cfg style t sv = Inr (sv', md)"
  obtains verdict where "assess_assistant_turn fmt (it_text t) cfg (it_metadata t) style None = Inr verdict"
    and "log_violations (sv_log sv') = log_violations (sv_log sv) @ iv_violations verdict"
    and "sv_invalid_count sv' = sv_invalid_count sv + (if iv_invalid_action verdict then 1 else 0)"
    and "sv_malformed_count sv' = sv_malformed_count sv + (if iv_malformed_thinking verdict then 1 else 0)"
proof -
  obtain verdict where v: "assess_assistant_turn fmt (it_text t) cfg (it_metadata t) style None = Inr verdict"
    and sv': "sv' = (let sv1 = stamp_turn verdict sv \<lparr>im_token_ids = Some (it_tokens t), im_violations = None\<rparr> in
       sv1\<lparr>sv_log := sv_log sv1 @ [\<lparr>im_token_ids = Some (it_observation t), im_violations = None\<rparr>]\<rparr>)"
    using assms by (auto simp: rollout_turn_def Let_def bind_res_eq_Inr)
  show ?thesis
    using v by (rule that) (simp_all add: sv' Let_def stamp_turn_def stamped_def opt_or_def)
qed

text \<open>What a whole rollout stamps: well-made violations, as many of either family as the counters say.\<close>

definition verdicts_ok :: "invalid_action_cfg \<Rightarrow> sample_verdicts \<Rightarrow> bool" where
  "verdicts_ok cfg sv \<longleftrightarrow>
     list_all (well_made cfg) (log_violations (sv_log sv))
     \<and> family_count invalid_action_types (log_violations (sv_log sv)) = sv_invalid_count sv
     \<and> family_count malformed_thinking_types (log_violations (sv_log sv)) = sv_malformed_count sv"

lemma rollout_turn_ok:
  assumes "rollout_turn fmt cfg style t sv = Inr (sv', md)" "verdicts_ok cfg sv"
  shows "verdicts_ok cfg sv'"
  using assms(2) assess_shape unfolding verdicts_ok_def
  by (rule_tac rollout_turn_violations [OF assms(1)]) simp

lemma rollout_turns_ok:
  "rollout_turns fmt cfg style ts sv = Inr sv' \<Longrightarrow> verdicts_ok cfg sv \<Longrightarrow> verdicts_ok cfg sv'"
  by (induction ts arbitrary: sv) (auto simp: bind_res_eq_Inr dest: rollout_turn_ok)

text \<open>A sample before its first turn: the prompt messages, not judged.\<close>

definition fresh_sample :: "int list list \<Rightarrow> sample_verdicts" where
  "fresh_sample prompt =
     \<lparr>sv_log = map (\<lambda>ts. \<lparr>im_token_ids = Some ts, im_violations = None\<rparr>) prompt, sv_invalid_count = 0,
      sv_malformed_count = 0, sv_messages = 0, sv_type_counts = []\<rparr>"

lemma fresh_log [simp]: "log_violations (map (\<lambda>ts. \<lparr>im_token_ids = Some ts, im_violations = None\<rparr>) prompt) = []"
  by (induction prompt) simp_all

lemma fresh_ok: "verdicts_ok cfg (fresh_sample prompt)"
  by (simp add: verdicts_ok_def fresh_sample_def)

lemmas rollout_ok = rollout_turns_ok [OF _ fresh_ok]

section \<open>Grading of malformed calls\<close>

definition plain_name :: "ustring \<Rightarrow> bool" where
  "plain_name q \<longleftrightarrow> q \<noteq> [] \<and> 59 \<notin> set q \<and> hd (lower q) \<notin> {105, 99, 110}"

lemma classify_plain:
  assumes "plain_name q"
  shows "classify_schema_failure (q @ u '': '' @ rest) \<noteq> violation_malformed_tool_call"
proof -
  obtain c q' where q: "q = c # q'" using assms by (cases q) (auto simp: plain_name_def)
  have tw: "takeWhile (\<lambda>c. c \<noteq> 59) (q @ u '': '' @ rest) = q @ u '': '' @ takeWhile (\<lambda>c. c \<noteq> 59) rest"
    using assms by (subst takeWhile_append2) (auto simp: plain_name_def u_def)
  have "\<not> list_ex (starts_with (lower (q @ r))) [u ''invalid'', u ''could not'', u ''no '']" for r
    using assms by (auto simp: q plain_name_def lower_def u_def dest!: starts_with_first)
  then show ?thesis
    using find_sub_occurs [of "u '': ''" q]
    by (simp add: classify_schema_failure_def Let_def tw violation_names)
qed

lemma classify_unknown:
  "classify_schema_failure (u ''unknown tool'' @ rest) = violation_schema_unknown_tool"
  by (simp add: classify_schema_failure_def starts_with_def)

definition graded :: "ustring \<Rightarrow> bool" where
  "graded why \<longleftrightarrow> (\<exists>q rest. plain_name q \<and> why = q @ u '': '' @ rest) \<or> (\<exists>rest. why = u ''unknown tool'' @ rest)"

lemma graded_append: "graded why \<Longrightarrow> graded (why @ rest)"
  unfolding graded_def by (metis append_assoc)

lemma classify_graded: "graded why \<Longrightarrow> classify_schema_failure why \<noteq> violation_malformed_tool_call"
  using classify_plain classify_unknown by (auto simp: graded_def) (simp add: violation_names)

lemma graded_join: "ws \<noteq> [] \<Longrightarrow> graded (hd ws) \<Longrightarrow> graded (join sep ws)"
  by (cases ws rule: remdups_adj.cases) (auto intro: graded_append)

lemma extraction_error_graded:
  assumes "parse_hermes_tool_calls fmt s = Inr ext" "extraction_error ext = Some why"
  shows "graded why"
proof -
  have "plain_name (u ''tool-call JSON decode error'')" "plain_name (u ''tool-call missing/invalid name or arguments'')"
    by (simp_all add: plain_name_def u_def lower_def)
  moreover have "u ''tool-call JSON decode error: '' = u ''tool-call JSON decode error'' @ u '': ''"
    "u ''tool-call missing/invalid name or arguments: '' = u ''tool-call missing/invalid name or arguments'' @ u '': ''"
    by (simp_all add: u_def)
  ultimately show ?thesis
    using assms by (fastforce simp: parse_hermes_tool_calls_def graded_def split: option.splits sum.splits if_splits)
qed

lemma assess_call_graded:
  assumes "assess_call fmt reg call = Inr (Some why)" "list_all (\<lambda>t. plain_name (tool_name t)) reg"
  shows "graded why"
proof (cases "registry_contains reg (tc_name call)")
  case False
  then have "why = u ''unknown tool'' @ u '' '' @ py_repr fmt (tc_name call)"
    using assms(1) by (simp add: assess_call_def u_def)
  then show ?thesis unfolding graded_def by blast
next
  case True
  then obtain t where t: "t \<in> set reg" "py_eq (JStr (tool_name t)) (tc_name call)"
    by (auto simp: registry_contains_def list_ex_iff)
  then have "tc_name call = JStr (tool_name t)" using py_eq_str by metis
  then obtain rest where "why = tool_name t @ u '': '' @ rest"
    using assms(1) True by (auto simp: assess_call_def Let_def bind_res_eq_Inr split: if_splits)
  moreover have "plain_name (tool_name t)" using assms(2) t(1) by (simp add: list_all_iff)
  ultimately show ?thesis unfolding graded_def by blast
qed

lemma map_res_mem: "map_res f xs = Inr ys \<Longrightarrow> y \<in> set ys \<Longrightarrow> \<exists>x \<in> set xs. f x = Inr y"
  by (induction xs arbitrary: ys) (auto simp: bind_res_eq_Inr)

lemma assess_tool_calls_graded:
  assumes "assess_tool_calls fmt s reg = Inr a" "malformed a" "list_all (\<lambda>t. plain_name (tool_name t)) reg"
  shows "graded (opt_or (reason a) [])"
proof -
  obtain ext where ext: "parse_hermes_tool_calls fmt s = Inr ext" "extraction_attempted ext"
    using assms by (auto simp: assess_tool_calls_def bind_res_eq_Inr split: if_splits)
  show ?thesis
  proof (cases "extraction_error ext")
    case (Some why)
    then show ?thesis
      using assms(1) ext extraction_error_graded [OF ext(1) Some] by (auto simp: assess_tool_calls_def opt_or_def)
  next
    case None
    then obtain verdicts where vs: "map_res (assess_call fmt reg) (tool_calls ext) = Inr verdicts"
      and a: "malformed a = (List.map_filter id verdicts \<noteq> [])"
        "reason a = (if List.map_filter id verdicts \<noteq> [] then Some (join (u ''; '') (List.map_filter id verdicts)) else None)"
      using assms(1) ext by (auto simp: assess_tool_calls_def Let_def bind_res_eq_Inr)
    have "graded w" if "w \<in> set (List.map_filter id verdicts)" for w
    proof -
      have "Some w \<in> set verdicts" using that by (auto simp: map_filter_def)
      then show ?thesis using map_res_mem [OF vs] assess_call_graded [OF _ assms(3)] by blast
    qed
    then show ?thesis using assms(2) a graded_join by (simp add: opt_or_def)
  qed
qed

lemma schema_tier_graded:
  assumes "schema_tier fmt s cfg (Some reg) = Inr vs" "list_all (\<lambda>t. plain_name (tool_name t)) reg" "v \<in> set vs"
  shows "v_type v \<noteq> violation_malformed_tool_call"
proof (cases "opt_or (ia_enable_schema_validation cfg) True")
  case True
  then obtain a where a: "assess_tool_calls fmt s reg = Inr a"
    and vs: "vs = (if attempted a \<and> malformed a then [make_violation cfg (classify_schema_failure (opt_or (reason a) []))
        (if opt_or (reason a) [] = [] then None else Some (opt_or (reason a) []))] else [])"
    using assms(1) by (auto simp: schema_tier_def Let_def bind_res_eq_Inr split: if_splits)
  have "attempted a \<and> malformed a" and "v_type v = classify_schema_failure (opt_or (reason a) [])"
    using assms(3) by (simp_all add: vs split: if_splits)
  then show ?thesis using classify_graded [OF assess_tool_calls_graded [OF a _ assms(2)]] by simp
next
  case False
  then show ?thesis using assms(1,3) by (simp add: schema_tier_def)
qed

section \<open>Advantage spans\<close>

text \<open>The row a sample should end with: the tokens of every charged message carry the negative penalty.\<close>

definition charged_span :: "invalid_action_cfg \<Rightarrow> rat \<Rightarrow> ia_message \<Rightarrow> rat list \<Rightarrow> rat list" where
  "charged_span cfg k m seg =
     (let pen = sum_list (map (amount cfg k) (filter (routed (ia_penalty_mode cfg) locus_advantage) (stamped m)))
      in if pen > 0 then replicate (length seg) (- pen) else seg)"

definition charged :: "invalid_action_cfg \<Rightarrow> rat \<Rightarrow> ia_message \<Rightarrow> bool" where
  "charged cfg k m \<longleftrightarrow> message_len m > 0
     \<and> sum_list (map (amount cfg k) (filter (routed (ia_penalty_mode cfg) locus_advantage) (stamped m))) > 0"

lemma span_penalty_amount:
  assumes "penalty_scale_at_step cfg step = Inr k" "known_mode (ia_penalty_mode cfg)"
  shows "span_penalty cfg step m = Inr (if charged cfg k m
    then Some (sum_list (map (amount cfg k) (filter (routed (ia_penalty_mode cfg) locus_advantage) (stamped m)))) else None)"
  using assms
  by (simp add: span_penalty_def charged_def violations_at_locus_routed sum_penalties_amount stamped_def opt_or_def
      split: option.splits)

lemma charged_span_charged:
  "length seg = message_len m \<Longrightarrow> charged_span cfg k m seg
    = (if charged cfg k m then replicate (message_len m)
        (- sum_list (map (amount cfg k) (filter (routed (ia_penalty_mode cfg) locus_advantage) (stamped m)))) else seg)"
  by (auto simp: charged_span_def charged_def Let_def)

lemma span_loop_exact:
  assumes "penalty_scale_at_step cfg step = Inr k" "known_mode (ia_penalty_mode cfg)"
  shows "map length segs = map message_len ml \<Longrightarrow>
    span_loop cfg step ml (length pre) (Some (pre @ concat segs @ pad)) n
      = Inr (Some (pre @ concat (map2 (charged_span cfg k) ml segs) @ pad), n + length (filter (charged cfg k) ml))"
proof (induction ml arbitrary: segs pre n)
  case (Cons m ml)
  then obtain seg segs' where segs: "segs = seg # segs'" "length seg = message_len m" "map length segs' = map message_len ml"
    by (cases segs) auto
  note step = Cons.IH [OF segs(3)]
  show ?case
  proof (cases "charged cfg k m")
    case True
    define pen where "pen = sum_list (map (amount cfg k) (filter (routed (ia_penalty_mode cfg) locus_advantage) (stamped m)))"
    have "span_penalty cfg step m = Inr (Some pen)"
      and "charged_span cfg k m seg = replicate (message_len m) (- pen)"
      using True segs(2) by (simp_all add: span_penalty_amount [OF assms] charged_span_charged pen_def)
    then show ?thesis
      using True assign_span_mid [OF segs(2)] step [of "pre @ replicate (message_len m) (- pen)" "Suc n"]
      by (simp add: segs(1))
  next
    case False
    have "length pre + message_len m = length (pre @ seg)" using segs(2) by simp
    then show ?thesis
      using False segs(2) step [of "pre @ seg" n] by (simp add: segs(1) span_penalty_amount [OF assms] charged_span_charged)
  qed
qed simp

lemma span_rows_exact:
  assumes "penalty_scale_at_step cfg step = Inr k" "known_mode (ia_penalty_mode cfg)"
  shows "list_all2 (\<lambda>ml (segs, pad). map length segs = map message_len ml) mls parts \<Longrightarrow>
    span_rows cfg step (map (\<lambda>(segs, pad). concat segs @ pad) parts) mls n
      = Inr (map2 (\<lambda>ml (segs, pad). concat (map2 (charged_span cfg k) ml segs) @ pad) mls parts,
             n + sum_list (map (\<lambda>ml. length (filter (charged cfg k) ml)) mls))"
proof (induction mls arbitrary: parts n)
  case (Cons ml mls)
  then obtain segs pad parts' where parts: "parts = (segs, pad) # parts'" "map length segs = map message_len ml"
    "list_all2 (\<lambda>ml (segs, pad). map length segs = map message_len ml) mls parts'"
    by (cases parts) auto
  show ?case
    using span_loop_exact [OF assms parts(2), of "[]" pad] Cons.IH [OF parts(3)] by (simp add: parts(1))
qed simp

section \<open>The thinking-tag detector\<close>

lemma tag_counts:
  assumes "60 \<notin> set a"
  shows "str_count (u ''<think>'') a = 0" "str_count (u ''</think>'') a = 0" "str_replace (u ''</think>'') [] a = a"
    "str_count (u ''<think>'') (a @ s) = str_count (u ''<think>'') s"
    "str_count (u ''</think>'') (a @ s) = str_count (u ''</think>'') s"
    "str_replace (u ''</think>'') [] (a @ s) = a @ str_replace (u ''</think>'') [] s"
    "str_count (u ''<think>'') (u ''<think>'' @ s) = Suc (str_count (u ''<think>'') s)"
    "str_count (u ''</think>'') (u ''</think>'' @ s) = Suc (str_count (u ''</think>'') s)"
    "str_count (u ''</think>'') (u ''<think>'' @ s) = str_count (u ''</think>'') s"
    "str_replace (u ''</think>'') [] (u ''</think>'' @ s) = str_replace (u ''</think>'') [] s"
    "str_replace (u ''</think>'') [] (u ''<think>'' @ s) = u ''<think>'' @ str_replace (u ''</think>'') [] s"
proof -
  have o: "u ''<think>'' = 60 # u ''think>''" and c: "u ''</think>'' = 60 # u ''/think>''" by (simp_all add: u_def)
  have op: "find_sub (u ''</think>'') (u ''<think>'' @ s) = map_option (\<lambda>(x, y). (u ''<think>'' @ x, y)) (find_sub (u ''</think>'') s)" for s
    by (cases "find_sub (u ''</think>'') s") (auto simp: u_def)
  have self: "find_sub (60 # p) ((60 # p) @ s) = Some ([], s)" for p s :: ustring by simp
  have cnt: "str_count (60 # p) s = (case find_sub (60 # p) s of None \<Rightarrow> 0 | Some (_, r) \<Rightarrow> Suc (str_count (60 # p) r))" for p s
    by (subst str_count.simps) simp
  have rem: "str_replace (60 # p) [] s = (case find_sub (60 # p) s of None \<Rightarrow> s | Some (x, r) \<Rightarrow> x @ str_replace (60 # p) [] r)" for p s
    by (subst str_replace.simps) (simp split: option.splits)
  show "str_count (u ''<think>'') a = 0" "str_count (u ''</think>'') a = 0" "str_replace (u ''</think>'') [] a = a"
    using find_sub_absent [OF assms] by (simp_all add: o c cnt [of _ a] rem [of _ a])
  have skip: "find_sub (60 # p) (a @ s) = map_option (\<lambda>(x, y). (a @ x, y)) (find_sub (60 # p) s)" for p
    by (rule find_sub_skip [OF assms])
  show "str_count (u ''<think>'') (a @ s) = str_count (u ''<think>'') s"
    "str_count (u ''</think>'') (a @ s) = str_count (u ''</think>'') s"
    unfolding o c cnt [of _ "a @ s"] cnt [of _ s] skip by (simp_all split: option.splits prod.splits)
  show "str_replace (u ''</think>'') [] (a @ s) = a @ str_replace (u ''</think>'') [] s"
    unfolding c rem [of _ "a @ s"] rem [of _ s] skip by (simp split: option.splits prod.splits)
  show "str_count (u ''<think>'') (u ''<think>'' @ s) = Suc (str_count (u ''<think>'') s)"
    "str_count (u ''</think>'') (u ''</think>'' @ s) = Suc (str_count (u ''</think>'') s)"
    "str_replace (u ''</think>'') [] (u ''</think>'' @ s) = str_replace (u ''</think>'') [] s"
    unfolding o c by (subst cnt rem, subst self, simp)+
  show "str_count (u ''</think>'') (u ''<think>'' @ s) = str_count (u ''</think>'') s"
    unfolding c cnt [of _ "u ''<think>'' @ s"] cnt [of _ s] op [unfolded c] by (simp split: option.splits prod.splits)
  show "str_replace (u ''</think>'') [] (u ''<think>'' @ s) = u ''<think>'' @ str_replace (u ''</think>'') [] s"
    unfolding c rem [of _ "u ''<think>'' @ s"] rem [of _ s] op [unfolded c] by (simp split: option.splits prod.splits)
qed

lemmas tag_steps = tag_counts(7-11) [of "[]", simplified]

section \<open>The count path\<close>

lemma unit_amounts:
  assumes "list_all (well_made cfg) vs"
    and "list_all (\<lambda>t. resolve_severity cfg t = 1) (invalid_action_types @ malformed_thinking_types)"
  shows "sum_list (map (amount cfg 1) vs) = opt_or (ia_invalid_penalty cfg) 0 * rat_of_nat (family_count invalid_action_types vs)
    + opt_or (ia_malformed_penalty cfg) 0 * rat_of_nat (family_count malformed_thinking_types vs)"
  using assms(1)
proof (induction vs)
  case (Cons v vs)
  have v: "v = make_violation cfg (v_type v) (v_detail v)" "v_type v \<in> set (invalid_action_types @ malformed_thinking_types)"
    using Cons.prems by (simp_all add: well_made_def)
  have "v_severity v = 1" using assms(2) v unfolding list_all_iff by (metis make_violation_sel(2))
  then show ?case
    using Cons v(2) types_disjoint by (auto simp: amount_def base_penalty_for_type_def algebra_simps)
qed simp

lemma tensor_map2_eq [simp]: "length xs = length ys \<Longrightarrow> tensor_map2 f xs ys = Inr (map2 f xs ys)"
  by (simp add: tensor_map2_def)

lemma keep_unshaped_fresh [simp]: "pb_unshaped b = None \<Longrightarrow> pb_unshaped (keep_unshaped b) = Some (pb_total_reward b)"
  by (simp add: keep_unshaped_def)

section \<open>Properties\<close>


definition demo_penalties :: invalid_action_cfg where
  "demo_penalties =
     \<lparr>ia_enabled = True, ia_invalid_penalty = Some (1 / 2), ia_malformed_penalty = Some (1 / 4), ia_use_environment_flags = None,
      ia_patterns = None, ia_thinking_tags = None, ia_reward_floor = None, ia_penalty_mode = None, ia_severity_weights = None,
      ia_locus_overrides = None, ia_enable_schema_validation = None, ia_step_scale = None\<rparr>"

definition demo_turn :: ia_turn where
  "demo_turn = \<lparr>it_text = u ''ok</think>'', it_tokens = [1, 2], it_metadata = Some [(u ''invalid_action'', JBool True)], it_observation = [3]\<rparr>"

definition demo_log :: "invalid_action_cfg \<Rightarrow> ia_message list" where
  "demo_log cfg =
     [\<lparr>im_token_ids = Some [7], im_violations = None\<rparr>,
      \<lparr>im_token_ids = Some [1, 2], im_violations = Some [make_violation cfg violation_env_invalid_action None,
         make_violation cfg violation_malformed_thinking None]\<rparr>,
      \<lparr>im_token_ids = Some [3], im_violations = None\<rparr>]"

lemma demo_rollout:
  assumes "cfg \<in> {demo_penalties, demo_penalties\<lparr>ia_penalty_mode := Some locus_reward,
     ia_severity_weights := Some (map (\<lambda>t. (t, 1)) (invalid_action_types @ malformed_thinking_types))\<rparr>}"
  shows "\<exists>sv. rollout_turns demo_fmt cfg ''paired'' [demo_turn] (fresh_sample [[7]]) = Inr sv \<and> sv_log sv = demo_log cfg
    \<and> sv_invalid_count sv = 1 \<and> sv_malformed_count sv = 1"
proof -
  have tag: "detect_malformed_thinking (u ''ok</think>'') default_thinking_tags ''paired'' = Inr True"
    using tag_counts [of "u ''ok''"]
    by (simp add: detect_malformed_thinking_def default_thinking_tags_def Let_def) code_simp
  have "env_flag cfg (Some [(u ''invalid_action'', JBool True)]) env_invalid_action_key"
    "\<not> env_flag cfg (Some [(u ''invalid_action'', JBool True)]) env_malformed_thinking_key"
    "ia_thinking_tags cfg = None"
    using assms by (auto simp: env_flag_def demo_penalties_def env_invalid_action_key_def env_malformed_thinking_key_def opt_or_def u_def)
  then show ?thesis
    by (simp add: rollout_turn_def demo_turn_def assess_assistant_turn_def Let_def tag stamp_turn_def fresh_sample_def demo_log_def env_types)
qed


text \<open>The graded penalty generalises the count-based one. With every violation routed to the reward, unit severities, no schedule
  and non-negative penalties, charging the stamped message logs of any batch of rollouts changes the rewards exactly as charging the
  flag counts the same rollouts carry does, and both keep the unpenalised rewards.\<close>
lemma graded_equals_counts:
  assumes "map_res (\<lambda>(prompt, ts). rollout_turns fmt cfg style ts (fresh_sample prompt)) samples = Inr svs"
    and "ia_enabled cfg" and "ia_penalty_mode cfg = Some locus_reward" and "ia_step_scale cfg = None"
    and "list_all (\<lambda>t. resolve_severity cfg t = 1) (invalid_action_types @ malformed_thinking_types)"
    and "opt_or (ia_invalid_penalty cfg) 0 \<ge> 0" and "opt_or (ia_malformed_penalty cfg) 0 \<ge> 0"
    and "length rewards = length samples"
  shows "\<exists>b1 b2.
    apply_invalid_action_penalty \<lparr>pb_message_log = Some (map sv_log svs), pb_total_reward = rewards, pb_unshaped = None,
      pb_invalid_counts = None, pb_malformed_counts = None\<rparr> (Some cfg) step = Inr b1
    \<and> apply_invalid_action_penalty \<lparr>pb_message_log = None, pb_total_reward = rewards, pb_unshaped = None,
      pb_invalid_counts = Some (map sv_invalid_count svs), pb_malformed_counts = Some (map sv_malformed_count svs)\<rparr> (Some cfg) step = Inr b2
    \<and> pb_total_reward b1 = pb_total_reward b2 \<and> pb_unshaped b1 = Some rewards \<and> pb_unshaped b2 = Some rewards"
proof -
  have len: "length rewards = length svs" using map_res_length [OF assms(1)] assms(8) by simp
  have scale: "penalty_scale_at_step cfg step = Inr 1" by (simp add: penalty_scale_at_step_def assms(4))
  have mode: "known_mode (ia_penalty_mode cfg)" by (simp add: known_mode_def assms(3))
  define pen where "pen sv = opt_or (ia_invalid_penalty cfg) 0 * rat_of_nat (sv_invalid_count sv)
      + opt_or (ia_malformed_penalty cfg) 0 * rat_of_nat (sv_malformed_count sv)" for sv :: sample_verdicts
  have all: "filter (routed (Some locus_reward) locus_reward) vs = vs" for vs by (simp add: routed_def)
  have ok: "verdicts_ok cfg sv" if "sv \<in> set svs" for sv
    using map_res_mem [OF assms(1) that] rollout_ok by fastforce
  have "sample_locus_penalty (sv_log sv) cfg locus_reward step = Inr (pen sv)" if "sv \<in> set svs" for sv
    using ok [OF that] sample_locus_penalty_amount [OF scale mode] unit_amounts [OF _ assms(5)]
    by (simp add: all assms(3) verdicts_ok_def pen_def)
  then have "map_res (\<lambda>ml. sample_locus_penalty ml cfg locus_reward step) (map sv_log svs) = Inr (map pen svs)"
    by (subst map_res_map) (rule map_res_Inr, simp)
  moreover have "map2 (-) (map2 (-) rewards (map (\<lambda>n. opt_or (ia_invalid_penalty cfg) 0 * rat_of_nat n) (map sv_invalid_count svs)))
      (map (\<lambda>n. opt_or (ia_malformed_penalty cfg) 0 * rat_of_nat n) (map sv_malformed_count svs)) = map2 (-) rewards (map pen svs)"
    using len by (intro nth_equalityI) (simp_all add: pen_def)
  ultimately show ?thesis
    using len assms(2,6,7) by (simp add: apply_invalid_action_penalty_def apply_invalid_action_reward_locus_def)
qed

lemma graded_equals_counts_witness:
  "\<exists>cfg svs b1 b2. map_res (\<lambda>(prompt, ts). rollout_turns demo_fmt cfg ''paired'' ts (fresh_sample prompt)) [([[7]], [demo_turn])] = Inr svs
    \<and> apply_invalid_action_penalty \<lparr>pb_message_log = Some (map sv_log svs), pb_total_reward = [1], pb_unshaped = None,
      pb_invalid_counts = None, pb_malformed_counts = None\<rparr> (Some cfg) None = Inr b1
    \<and> apply_invalid_action_penalty \<lparr>pb_message_log = None, pb_total_reward = [1], pb_unshaped = None,
      pb_invalid_counts = Some [1], pb_malformed_counts = Some [1]\<rparr> (Some cfg) None = Inr b2
    \<and> pb_total_reward b1 = pb_total_reward b2"
proof -
  define cfg where "cfg = demo_penalties\<lparr>ia_penalty_mode := Some locus_reward,
     ia_severity_weights := Some (map (\<lambda>t. (t, 1)) (invalid_action_types @ malformed_thinking_types))\<rparr>"
  obtain sv where sv: "rollout_turns demo_fmt cfg ''paired'' [demo_turn] (fresh_sample [[7]]) = Inr sv"
    "sv_invalid_count sv = 1" "sv_malformed_count sv = 1" using demo_rollout [of cfg] by (auto simp: cfg_def)
  have run: "map_res (\<lambda>(prompt, ts). rollout_turns demo_fmt cfg ''paired'' ts (fresh_sample prompt)) [([[7]], [demo_turn])] = Inr [sv]"
    using sv by (simp del: rollout_turns.simps)
  have "list_all (\<lambda>t. resolve_severity cfg t = 1) (invalid_action_types @ malformed_thinking_types)"
    by (simp add: resolve_severity_def get_or_def cfg_def type_sets)
  moreover have "ia_enabled cfg" "ia_penalty_mode cfg = Some locus_reward" "ia_step_scale cfg = None"
    "opt_or (ia_invalid_penalty cfg) 0 \<ge> 0" "opt_or (ia_malformed_penalty cfg) 0 \<ge> 0"
    by (simp_all add: cfg_def demo_penalties_def opt_or_def)
  ultimately have "\<exists>b1 b2.
      apply_invalid_action_penalty \<lparr>pb_message_log = Some (map sv_log [sv]), pb_total_reward = [1], pb_unshaped = None,
        pb_invalid_counts = None, pb_malformed_counts = None\<rparr> (Some cfg) None = Inr b1
      \<and> apply_invalid_action_penalty \<lparr>pb_message_log = None, pb_total_reward = [1], pb_unshaped = None,
        pb_invalid_counts = Some [1], pb_malformed_counts = Some [1]\<rparr> (Some cfg) None = Inr b2
      \<and> pb_total_reward b1 = pb_total_reward b2"
    using graded_equals_counts [OF run, of "[1]" None] sv(2,3) by auto
  with run show ?thesis by blast
qed

text \<open>The advantage penalty hits exactly the flagged spans. On rows that are the token segments of the sample's messages followed by
  padding, every message whose advantage-routed violations have a positive total gets that total, negated, on each of its tokens;
  every other message and the padding keep their advantages; the metric counts the rewritten spans.\<close>
lemma advantage_spans_exact:
  assumes "ia_enabled cfg" and "penalty_scale_at_step cfg step = Inr k" and "known_mode (ia_penalty_mode cfg)"
    and "list_all2 (\<lambda>ml (segs, pad). map length segs = map message_len ml) mls parts"
  shows "apply_message_span_advantage_penalties (map (\<lambda>(segs, pad). concat segs @ pad) parts) mls (Some cfg) step
    = Inr (map2 (\<lambda>ml (segs, pad). concat (map2 (charged_span cfg k) ml segs) @ pad) mls parts,
           let n = sum_list (map (\<lambda>ml. length (filter (charged cfg k) ml)) mls)
           in if n > 0 then [(''advantage_penalty_spans'', rat_of_nat n)] else [])"
  using span_rows_exact [OF assms(2,3,4), of 0] assms(1)
  by (simp add: apply_message_span_advantage_penalties_def Let_def)

lemma advantage_spans_exact_witness:
  "apply_message_span_advantage_penalties [[5, 6, 7, 8, 9]] [demo_log demo_penalties] (Some demo_penalties) None
    = Inr ([[5, - 1 / 8, - 1 / 8, 8, 9]], [(''advantage_penalty_spans'', 1)])"
proof -
  have scale: "penalty_scale_at_step demo_penalties None = Inr 1" by (simp add: penalty_scale_at_step_def demo_penalties_def)
  have pen: "sum_list (map (amount demo_penalties 1) (filter (routed (ia_penalty_mode demo_penalties) locus_advantage) (stamped m)))
      = (if m = demo_log demo_penalties ! 1 then 1 / 8 else 0)" if "m \<in> set (demo_log demo_penalties)" for m
    using that by (auto simp: demo_log_def stamped_def opt_or_def routed_def amount_def base_penalty_for_type_def resolve_severity_def
        resolve_locus_def default_locus_def get_or_def default_severity_def demo_penalties_def type_sets locus_reward_def locus_advantage_def)
  have "apply_message_span_advantage_penalties (map (\<lambda>(segs, pad). concat segs @ pad) [([[5], [6, 7], [8]], [9])])
      [demo_log demo_penalties] (Some demo_penalties) None
    = Inr (map2 (\<lambda>ml (segs, pad). concat (map2 (charged_span demo_penalties 1) ml segs) @ pad) [demo_log demo_penalties] [([[5], [6, 7], [8]], [9])],
           let n = sum_list (map (\<lambda>ml. length (filter (charged demo_penalties 1) ml)) [demo_log demo_penalties])
           in if n > 0 then [(''advantage_penalty_spans'', rat_of_nat n)] else [])"
    by (rule advantage_spans_exact [OF _ scale]) (simp_all add: demo_penalties_def known_mode_def demo_log_def message_len_def)
  then show ?thesis
    using pen by (simp add: charged_span_def charged_def demo_log_def message_len_def numeral_2_eq_2)
qed

text \<open>A malformed tool call is never graded as one. For a registry whose tool names contain no semicolon and do not start with the letters i, c or n, as
  in both shipped registries, no turn and no configuration lead to a violation of type malformed tool call: an extraction
  failure, too, is graded as an argument error (or as an unknown tool, when the exception text says so).\<close>
lemma malformed_tool_call_never_graded:
  assumes "list_all (\<lambda>t. plain_name (tool_name t)) reg"
    and "assess_assistant_turn fmt s cfg md style (Some reg) = Inr verdict"
  shows "violation_malformed_tool_call \<notin> v_type ` set (iv_violations verdict)"
proof -
  obtain vsch where vsch: "(if env_flag cfg md env_invalid_action_key then Inr [] else schema_tier fmt s cfg (Some reg)) = Inr vsch"
    and sub: "v_type ` set (iv_violations verdict) \<subseteq> v_type ` set vsch \<union> {violation_env_invalid_action,
      violation_env_malformed_thinking, violation_unexecuted_pattern, violation_malformed_thinking}"
    using assess_types [OF assms(2)] by blast
  have "violation_malformed_tool_call \<notin> v_type ` set vsch"
  proof (cases "env_flag cfg md env_invalid_action_key")
    case False
    then have "schema_tier fmt s cfg (Some reg) = Inr vsch" using vsch by simp
    from schema_tier_graded [OF this assms(1)] show ?thesis by (metis imageE)
  qed (use vsch in simp)
  then show ?thesis using sub by (auto simp: violation_names)
qed

lemma malformed_tool_call_never_graded_witness:
  "list_all (\<lambda>t. plain_name (tool_name t)) (session_tools @ code_tools)
   \<and> (\<exists>verdict. assess_assistant_turn demo_fmt (u ''<tool_call>{'') demo_penalties None ''paired'' (Some session_tools) = Inr verdict
      \<and> map v_type (iv_violations verdict) = [violation_schema_args]
      \<and> violation_malformed_tool_call \<notin> v_type ` set (iv_violations verdict))"
proof -
  have plain: "list_all (\<lambda>t. plain_name (tool_name t)) (session_tools @ code_tools)" by code_simp
  obtain verdict where v: "assess_assistant_turn demo_fmt (u ''<tool_call>{'') demo_penalties None ''paired'' (Some session_tools) = Inr verdict"
      "map v_type (iv_violations verdict) = [violation_schema_args]"
  proof -
    have "(case assess_assistant_turn demo_fmt (u ''<tool_call>{'') demo_penalties None ''paired'' (Some session_tools) of
        Inl e \<Rightarrow> False | Inr verdict \<Rightarrow> map v_type (iv_violations verdict) = [violation_schema_args])"
      by code_simp
    then show ?thesis using that by (simp split: sum.splits)
  qed
  have "list_all (\<lambda>t. plain_name (tool_name t)) session_tools" using plain by simp
  from malformed_tool_call_never_graded [OF this v(1)] show ?thesis
    using plain v by (intro conjI exI [of _ verdict])
qed

text \<open>What the thinking-tag detector accepts. In pieces of text without an angle bracket, the paired style accepts no tags or one opening
  and one closing tag, in either order, and flags a lone tag and a repeated pair; the closing-only style accepts at most one closing tag
  and flags an opening tag.\<close>
lemma thinking_tags_verdict:
  assumes "60 \<notin> set (a @ b @ c)"
  shows "detect_malformed_thinking a default_thinking_tags ''paired'' = Inr False
    \<and> detect_malformed_thinking (a @ u ''<think>'' @ b @ u ''</think>'' @ c) default_thinking_tags ''paired'' = Inr False
    \<and> detect_malformed_thinking (a @ u ''</think>'' @ b @ u ''<think>'' @ c) default_thinking_tags ''paired'' = Inr False
    \<and> detect_malformed_thinking (a @ u ''<think>'' @ b) default_thinking_tags ''paired'' = Inr True
    \<and> detect_malformed_thinking (a @ u ''</think>'' @ b) default_thinking_tags ''paired'' = Inr True
    \<and> detect_malformed_thinking (a @ u ''<think>'' @ b @ u ''</think>'' @ u ''<think>'' @ c @ u ''</think>'') default_thinking_tags ''paired'' = Inr True
    \<and> detect_malformed_thinking (a @ u ''</think>'' @ b) default_thinking_tags ''closing_only'' = Inr False
    \<and> detect_malformed_thinking (a @ u ''<think>'' @ b @ u ''</think>'' @ c) default_thinking_tags ''closing_only'' = Inr True
    \<and> detect_malformed_thinking (a @ u ''</think>'' @ b @ u ''</think>'' @ c) default_thinking_tags ''closing_only'' = Inr True"
proof -
  have pieces: "60 \<notin> set a" "60 \<notin> set b" "60 \<notin> set c" using assms by simp_all
  have empty: "str_count (u ''<think>'') [] = 0" "str_count (u ''</think>'') [] = 0" "str_replace (u ''</think>'') [] [] = []"
    using tag_counts(1,2,3) [of "[]"] by simp_all
  show ?thesis
    unfolding detect_malformed_thinking_def default_thinking_tags_def Let_def
    by (simp add: tag_counts(1-6) tag_steps pieces empty tag_counts(1-3) [of "a @ b"] tag_counts(1-3) [of "a @ b @ c"])
qed

lemma thinking_tags_verdict_witness:
  "detect_malformed_thinking (u ''ab</think>cd<think>e'') default_thinking_tags ''paired'' = Inr False"
proof -
  have "60 \<notin> set (u ''ab'' @ u ''cd'' @ u ''e'')" by (simp add: u_def)
  from thinking_tags_verdict [OF this] show ?thesis by (simp add: u_def)
qed

end
