(* ===== verification/Token_Canon.thy ===== *)
theory Token_Canon
  imports Py_Strings
begin

text \<open>
  Canonical token text for the alignment of two tokenizers, the lower layer of
  \<^verbatim>\<open>algorithms/x_token/token_aligner.py\<close>: repair of multi-token mojibake, normalisation of single tokens, merging of
  byte tokens into characters, and the ranges that lead from canonical tokens back to the original ones.

  Tokens are lists of code points; the tables are those of the module, character by character. The two parallel lists
  of tokens and ranges are one list of pairs. \<open>int(s, 16)\<close> is modelled for ASCII digits.
\<close>

type_synonym token = ustring

section \<open>Tables\<close>

definition visual_byte_map :: "(nat \<times> nat) list" where
  "visual_byte_map =
     [
      (240, 240), (406, 241), (407, 242), (408, 243), (409, 244), (410, 245), (411, 246), (412, 247), (413, 248),
      (414, 249), (415, 250), (416, 251), (417, 252), (418, 253), (419, 254), (420, 255), (321, 156), (322, 157),
      (323, 158), (324, 159), (314, 149), (315, 150), (316, 151), (317, 152), (318, 153), (319, 154), (320, 155),
      (300, 135), (301, 136), (302, 137), (303, 138), (304, 139), (305, 140), (306, 141), (307, 142), (308, 143),
      (309, 144), (310, 145), (311, 146), (312, 147), (313, 148), (293, 128), (294, 129), (295, 130), (296, 131),
      (297, 132), (298, 133), (299, 134), (290, 162), (291, 163), (284, 28), (285, 29), (286, 30), (287, 31)
     ]"

definition multi_token_artifact_fixes :: "(token list \<times> token list) list" where
  "multi_token_artifact_fixes =
     [
      ([[288, 226, 298], [307]], [[288, 8721]]), ([[226, 298], [307]], [[8721]]),
      ([[288, 226, 298], [305]], [[288, 8719]]), ([[226, 298], [305]], [[8719]]),
      ([[288, 226, 298], [292]], [[288, 8706]]), ([[226, 298], [292]], [[8706]]),
      ([[288, 226, 298], [297]], [[288, 8711]]), ([[226, 298], [297]], [[8711]]),
      ([[288, 226, 298], [320]], [[288, 8734]]), ([[226, 298], [320]], [[8734]]),
      ([[288, 226, 298], [316]], [[288, 8730]]), ([[226, 298], [316]], [[8730]]),
      ([[288, 226, 298], [171]], [[288, 8747]]), ([[226, 298], [171]], [[8747]]),
      ([[288, 226, 299], [322]], [[288, 8800]]), ([[226, 299], [322]], [[8800]]),
      ([[288, 228, 184], [323]], [[288, 20013]]), ([[228, 184], [323]], [[20013]]), ([[230, 312], [297]], [[25991]]),
      ([[288, 230, 312], [297]], [[288, 25991]])
     ]"

definition unicode_fixes :: "(token \<times> token) list" where
  "unicode_fixes =
     [
      ([195, 177], [241]), ([195, 161], [225]), ([195, 169], [233]), ([195, 173], [237]), ([195, 179], [243]),
      ([195, 186], [250]), ([195], [192]), ([195, 162], [226]), ([195, 167], [231]), ([195, 168], [232]),
      ([195, 171], [235]), ([195, 174], [238]), ([195, 180], [244]), ([195, 185], [249]), ([195, 187], [251]),
      ([195, 191], [255]), ([228, 184, 323], [20013]), ([230, 312, 297], [25991]),
      ([230, 313, 165, 230, 318, 172], [26085, 26412]), ([232, 170, 320], [35486]),
      ([208, 322, 209, 293, 209, 291], [1056, 1091, 1089]),
      ([209, 291, 208, 186, 208, 184, 208, 185], [1089, 1082, 1080, 1081]),
      ([216, 167, 217, 294, 216, 185, 216, 177, 216, 168, 217, 300, 216, 169], [1575, 1604, 1593, 1585, 1576, 1610, 1577]),
      ([224, 164, 185], [2361]), ([224, 164, 191, 224, 164, 292], [2361, 2367, 2306]),
      ([224, 164, 166, 224, 165, 290], [2342, 2368]), ([226, 298, 307], [8721]), ([226, 298, 305], [8719]),
      ([226, 298, 292], [8706]), ([226, 298, 297], [8711]), ([226, 298, 320], [8734]), ([226, 298, 316], [8730]),
      ([226, 298, 171], [8747]), ([226, 299, 298], [8776]), ([226, 299, 322], [8800]), ([226, 299, 164], [8804]),
      ([226, 299, 165], [8805])
     ]"

definition special_token_map :: "(token \<times> token) list" where
  "special_token_map = [(u ''<|begin_of_text|>'', u ''<bos>''), (u ''<bos>'', u ''<bos>''), (u ''<pad>'', [])]"

section \<open>Canonical tokens\<close>

text \<open>288 is the space marker, 9601 the SentencePiece one, 266 and 265 the visible line feed and tab.\<close>

definition normalize_prefix :: "token \<Rightarrow> token" where
  "normalize_prefix t = (case t of [] \<Rightarrow> [] | c # r \<Rightarrow> if c = 32 \<or> c = 95 \<or> c = 9601 then 288 # r else t)"

definition normalize_newline :: "token \<Rightarrow> token" where
  "normalize_newline t =
     (if t = [266] then [10]
      else if t = [92, 110] then [10]
      else if t = [265] then [10]
      else if t = [288, 10] then [10]
      else if find_sub [266] t \<noteq> None then str_replace [266] [10] t
      else if find_sub [92, 110] t \<noteq> None then str_replace [92, 110] [10] t
      else t)"

definition normalize_punct :: "token \<Rightarrow> token" where
  "normalize_punct t =
     (if t = [288, 44] then [44] else if t = [288, 46] then [46] else if t = [288, 59] then [59]
      else if t = [288, 58] then [58] else t)"

definition is_space :: "nat \<Rightarrow> bool" where
  "is_space c \<longleftrightarrow> 9 \<le> c \<and> c \<le> 13 \<or> 28 \<le> c \<and> c \<le> 32 \<or> c = 133 \<or> c = 160 \<or> c = 5760 \<or> 8192 \<le> c \<and> c \<le> 8202
     \<or> c = 8232 \<or> c = 8233 \<or> c = 8239 \<or> c = 8287 \<or> c = 12288"

text \<open>\<open>int(s, 16)\<close> for two characters: two digits, or one digit with a sign or a space.\<close>

definition int_base16 :: "nat \<Rightarrow> nat \<Rightarrow> int option" where
  "int_base16 a b =
     (case (hex_digit a, hex_digit b) of
        (Some x, Some y) \<Rightarrow> Some (16 * int x + int y)
      | (None, Some y) \<Rightarrow>
          if a = 45 then Some (- int y) else if a = 43 \<or> is_space a then Some (int y) else None
      | (Some x, None) \<Rightarrow> if is_space b then Some (int x) else None
      | (None, None) \<Rightarrow> None)"

definition byte_fallback :: "token \<Rightarrow> token option" where
  "byte_fallback t =
     (if starts_with t [60, 48, 120] \<and> length t = 6 \<and> t ! 5 = 62 then
        (case int_base16 (t ! 3) (t ! 4) of
           Some v \<Rightarrow> if 0 \<le> v \<and> v \<le> 255 then Some [nat v] else None
         | None \<Rightarrow> None)
      else None)"

definition fix_unicode :: "token \<Rightarrow> token" where
  "fix_unicode t = foldl (\<lambda>t (broken, fixed). if find_sub broken t \<noteq> None then str_replace broken fixed t else t) t unicode_fixes"

definition canonical_token :: "bool \<Rightarrow> token \<Rightarrow> token" where
  "canonical_token enabled token =
     (if \<not> enabled then token
      else if token = [] then token
      else
        let t = normalize_punct (normalize_newline (normalize_prefix token)) in
        case byte_fallback t of
          Some c \<Rightarrow> c
        | None \<Rightarrow>
            let t' = fix_unicode t in
            (case map_of special_token_map t' of None \<Rightarrow> t' | Some r \<Rightarrow> r))"

definition strings_equal_flexible :: "token \<Rightarrow> token \<Rightarrow> bool \<Rightarrow> bool" where
  "strings_equal_flexible s1 s2 ignore_leading_char_diff =
     (if \<not> ignore_leading_char_diff then s1 = s2 else canonical_token True s1 = canonical_token True s2)"

section \<open>Sequences with their ranges\<close>

type_synonym ranged = "token \<times> nat \<times> nat"

lemma artifact_pattern_nonempty:
  "find P multi_token_artifact_fixes = Some (pat, rep) \<Longrightarrow> pat \<noteq> []"
  by (auto simp: multi_token_artifact_fixes_def split: if_splits)

text \<open>Every replacement is a single token, which the code asserts when it applies one.\<close>

lemma artifact_replacement_single: "list_all (\<lambda>(pat, rep). length rep = 1) multi_token_artifact_fixes"
  by (simp add: multi_token_artifact_fixes_def)

function merge_encoding_artifacts :: "nat \<Rightarrow> token list \<Rightarrow> ranged list" where
  "merge_encoding_artifacts i tokens =
     (case tokens of
        [] \<Rightarrow> []
      | t # ts \<Rightarrow>
          (case find (\<lambda>(pat, rep). take (length pat) tokens = pat) multi_token_artifact_fixes of
             Some (pat, rep) \<Rightarrow>
               (hd rep, i, i + length pat) # merge_encoding_artifacts (i + length pat) (drop (length pat) tokens)
           | None \<Rightarrow> (t, i, i + 1) # merge_encoding_artifacts (i + 1) ts))"
  by pat_completeness auto

termination
  by (relation "measure (length \<circ> snd)") (auto dest: artifact_pattern_nonempty)

declare merge_encoding_artifacts.simps [simp del]

definition get_byte_value :: "nat \<Rightarrow> nat option" where
  "get_byte_value c = (if c < 256 then Some c else map_of visual_byte_map c)"

definition lstrip_marker :: "token \<Rightarrow> token" where
  "lstrip_marker t = dropWhile (\<lambda>c. c = 288) t"

text \<open>Strict UTF-8 decoding of two to four bytes to a single character.\<close>

definition cont_byte :: "nat \<Rightarrow> bool" where
  "cont_byte b \<longleftrightarrow> 128 \<le> b \<and> b \<le> 191"

fun utf8_single :: "nat list \<Rightarrow> nat option" where
  "utf8_single [a, b] =
     (if 194 \<le> a \<and> a \<le> 223 \<and> cont_byte b then Some ((a - 192) * 64 + (b - 128)) else None)"
| "utf8_single [a, b, c] =
     (if 224 \<le> a \<and> a \<le> 239 \<and> cont_byte b \<and> cont_byte c \<and> (a = 224 \<longrightarrow> 160 \<le> b) \<and> (a = 237 \<longrightarrow> b \<le> 159)
      then Some ((a - 224) * 4096 + (b - 128) * 64 + (c - 128)) else None)"
| "utf8_single [a, b, c, d] =
     (if 240 \<le> a \<and> a \<le> 244 \<and> cont_byte b \<and> cont_byte c \<and> cont_byte d \<and> (a = 240 \<longrightarrow> 144 \<le> b) \<and> (a = 244 \<longrightarrow> b \<le> 143)
      then Some ((a - 240) * 262144 + (b - 128) * 4096 + (c - 128) * 64 + (d - 128)) else None)"
| "utf8_single _ = None"

definition raw_bytes :: "token list \<Rightarrow> nat list option" where
  "raw_bytes tokens = those (map get_byte_value (concat (map lstrip_marker tokens)))"

definition try_merge_byte_buffer :: "ranged list \<Rightarrow> ranged list" where
  "try_merge_byte_buffer buf =
     (if buf = [] then []
      else if length buf = 1 \<and> length (lstrip_marker (fst (hd buf))) \<le> 1 then buf
      else
        let space_prefix = (if starts_with (fst (hd buf)) [288] then [288] else []) in
        case raw_bytes (map fst buf) of
          None \<Rightarrow> buf
        | Some raw \<Rightarrow>
            if length raw < 2 \<or> length raw > 4 then buf
            else
              (case utf8_single raw of
                 Some c \<Rightarrow>
                   if c > 127 then [(space_prefix @ [c], fst (snd (hd buf)), snd (snd (last buf)))] else buf
               | None \<Rightarrow> buf))"

definition all_bytes :: "token \<Rightarrow> bool" where
  "all_bytes t \<longleftrightarrow> lstrip_marker t \<noteq> [] \<and> list_all (\<lambda>c. get_byte_value c \<noteq> None) (lstrip_marker t)"

fun merge_consecutive_bytes :: "ranged list \<Rightarrow> ranged list \<Rightarrow> ranged list" where
  "merge_consecutive_bytes byte_buffer [] = try_merge_byte_buffer byte_buffer"
| "merge_consecutive_bytes byte_buffer (x # xs) =
     (if all_bytes (fst x) then merge_consecutive_bytes (byte_buffer @ [x]) xs
      else try_merge_byte_buffer byte_buffer @ x # merge_consecutive_bytes [] xs)"

definition canonicalize_sequence :: "token list \<Rightarrow> ranged list" where
  "canonicalize_sequence seq =
     merge_consecutive_bytes [] (map (\<lambda>(t, r). (canonical_token True t, r)) (merge_encoding_artifacts 0 seq))"

section \<open>Ranges tile the sequence\<close>

text \<open>Non-empty half-open ranges that follow each other without gap from \<open>i\<close> to \<open>n\<close>.\<close>

fun tile :: "nat \<Rightarrow> (nat \<times> nat) list \<Rightarrow> nat \<Rightarrow> bool" where
  "tile i [] n \<longleftrightarrow> i = n"
| "tile i ((a, b) # rs) n \<longleftrightarrow> a = i \<and> i < b \<and> tile b rs n"

lemma tile_append: "tile i (rs @ rs') n \<longleftrightarrow> (\<exists>m. tile i rs m \<and> tile m rs' n)"
  by (induction i rs n rule: tile.induct) auto

lemma tile_collapse: "tile i rs n \<Longrightarrow> rs \<noteq> [] \<Longrightarrow> fst (hd rs) = i \<and> snd (last rs) = n \<and> i < n"
  by (induction i rs n rule: tile.induct) (auto split: if_splits)

lemma artifact_match_length:
  assumes "find (\<lambda>(pat, rep). take (length pat) tokens = pat) table = Some (pat, rep)"
  shows "length pat \<le> length tokens"
  using assms by (auto simp: find_Some_iff) (metis length_take min.cobounded1)

lemma artifacts_tile: "tile i (map snd (merge_encoding_artifacts i tokens)) (i + length tokens)"
proof (induction i tokens rule: merge_encoding_artifacts.induct)
  case (1 i tokens)
  show ?case
  proof (cases tokens)
    case (Cons t ts)
    show ?thesis
    proof (cases "find (\<lambda>(pat, rep). take (length pat) tokens = pat) multi_token_artifact_fixes")
      case None
      then show ?thesis
        using 1(1) [OF Cons None] Cons None by (subst merge_encoding_artifacts.simps) simp
    next
      case (Some p)
      obtain pat rep where p: "p = (pat, rep)" by (cases p)
      have "pat \<noteq> []" "length pat \<le> length tokens"
        using artifact_pattern_nonempty [OF Some [unfolded p]] artifact_match_length [OF Some [unfolded p]] .
      then show ?thesis
        using 1(2) [OF Cons Some p [symmetric]] Cons Some p by (subst merge_encoding_artifacts.simps) simp
    qed
  qed (simp add: merge_encoding_artifacts.simps)
qed

lemma try_merge_tile:
  assumes "tile i (map snd buf) n"
  shows "tile i (map snd (try_merge_byte_buffer buf)) n"
proof (cases "buf = []")
  case False
  then have "fst (snd (hd buf)) = i" "snd (snd (last buf)) = n" "i < n"
    using tile_collapse [OF assms] by (simp_all add: hd_map last_map)
  then show ?thesis
    using assms False by (simp add: try_merge_byte_buffer_def Let_def split: option.splits)
qed (use assms in \<open>simp add: try_merge_byte_buffer_def\<close>)

lemma merge_bytes_tile:
  "tile i (map snd (buf @ xs)) n \<Longrightarrow> tile i (map snd (merge_consecutive_bytes buf xs)) n"
proof (induction buf xs arbitrary: i rule: merge_consecutive_bytes.induct)
  case (1 buf)
  then show ?case by (simp add: try_merge_tile)
next
  case (2 buf x xs)
  show ?case
  proof (cases "all_bytes (fst x)")
    case False
    obtain m m' where m: "tile i (map snd buf) m" "tile m [snd x] m'" "tile m' (map snd ([] @ xs)) n"
      using "2.prems" by (cases "snd x") (auto simp: tile_append)
    then show ?thesis
      using False try_merge_tile [OF m(1)] "2.IH"(2) [OF False m(3)] by (cases "snd x") (auto simp: tile_append)
  qed (use 2 in simp)
qed

text \<open>Canonical tokens lead back to the original ones: their ranges are non-empty, follow each other without gap or overlap, and cover
  exactly the positions of the original sequence.\<close>

lemma canonical_tile: "tile 0 (map snd (canonicalize_sequence seq)) (length seq)"
proof -
  have "map snd (map (\<lambda>(t, r). (canonical_token True t, r)) (merge_encoding_artifacts 0 seq)) = map snd (merge_encoding_artifacts 0 seq)"
    by auto
  then show ?thesis
    using artifacts_tile [of 0 seq] unfolding canonicalize_sequence_def by (intro merge_bytes_tile) (simp del: map_map)
qed

section \<open>Byte tokens\<close>

text \<open>The UTF-8 bytes of a character beyond ASCII, and the fallback token of a byte.\<close>

definition utf8_encode :: "nat \<Rightarrow> nat list" where
  "utf8_encode c =
     (if c < 2048 then [192 + c div 64, 128 + c mod 64]
      else if c < 65536 then [224 + c div 4096, 128 + c div 64 mod 64, 128 + c mod 64]
      else [240 + c div 262144, 128 + c div 4096 mod 64, 128 + c div 64 mod 64, 128 + c mod 64])"

definition wide_char :: "nat \<Rightarrow> bool" where
  "wide_char c \<longleftrightarrow> 128 \<le> c \<and> c < 1114112 \<and> \<not> (55296 \<le> c \<and> c \<le> 57343)"

definition hex_char :: "nat \<Rightarrow> nat" where
  "hex_char n = (if n < 10 then 48 + n else 55 + n)"

definition byte_token :: "nat \<Rightarrow> token" where
  "byte_token b = u ''<0x'' @ [hex_char (b div 16), hex_char (b mod 16)] @ u ''>''"

lemma utf8_inverse:
  assumes "wide_char c"
  shows "utf8_single (utf8_encode c) = Some c" "list_all (\<lambda>b. b < 256) (utf8_encode c)"
proof -
  define x y z w v t where "x = c div 64" and "y = c mod 64" and "z = x div 64" and "w = x mod 64" and "v = z div 64" and "t = z mod 64"
  have c: "c = 64 * x + y" "x = 64 * z + w" "z = 64 * v + t" by (simp_all add: x_def y_def z_def w_def v_def t_def)
  have less: "y < 64" "w < 64" "t < 64" by (simp_all add: y_def w_def t_def)
  have d: "c div 64 = x" "c mod 64 = y" "c div 4096 = z" "x mod 64 = w" "c div 262144 = v" "z mod 64 = t"
    by (simp_all add: x_def y_def z_def w_def v_def t_def div_mult2_eq [symmetric])
  have wide: "128 \<le> c" "c < 1114112" "c < 55296 \<or> 57343 < c" using assms by (auto simp: wide_char_def)
  have low: "c < 65536 \<Longrightarrow> v = 0" "z = 13 \<Longrightarrow> w \<le> 31" "2048 \<le> c \<Longrightarrow> z = 0 \<Longrightarrow> 32 \<le> w" "v < 5" "c < 65536 \<Longrightarrow> z < 16"
    using c less wide by linarith+
  have high: "65536 \<le> c \<Longrightarrow> v = 0 \<Longrightarrow> 16 \<le> t" "v = 4 \<Longrightarrow> t < 16" "c < 2048 \<Longrightarrow> x < 32" "2 \<le> x"
    using c less wide by linarith+
  have total: "x * 64 + y = c" "z * 4096 + w * 64 + y = c" "v * 262144 + t * 4096 + w * 64 + y = c" using c by linarith+
  consider "c < 2048" | "2048 \<le> c" "c < 65536" | "65536 \<le> c" by linarith
  then show "utf8_single (utf8_encode c) = Some c"
  proof cases
    case 1
    then show ?thesis using less high total(1) by (simp add: utf8_encode_def d cont_byte_def)
  next
    case 2
    then show ?thesis using less low total(2) by (simp add: utf8_encode_def d cont_byte_def)
  next
    case 3
    then show ?thesis using less low(4) high(1,2) total(3) by (auto simp: utf8_encode_def d cont_byte_def)
  qed
  show "list_all (\<lambda>b. b < 256) (utf8_encode c)"
    using less low high by (auto simp: utf8_encode_def d)
qed

lemma hex_char_bounds: "n < 16 \<Longrightarrow> 48 \<le> hex_char n \<and> hex_char n \<le> 70"
  by (auto simp: hex_char_def)

lemma hex_digit_hex_char: "n < 16 \<Longrightarrow> hex_digit (hex_char n) = Some n"
  by (auto simp: hex_char_def hex_digit_def)

lemma byte_token_canonical:
  assumes "b < 256"
  shows "canonical_token True (byte_token b) = [b]"
proof -
  define g h where "g = hex_char (b div 16)" and "h = hex_char (b mod 16)"
  have t: "byte_token b = [60, 48, 120, g, h, 62]" by (simp add: byte_token_def u_def g_def h_def)
  have small: "48 \<le> g" "g \<le> 70" "48 \<le> h" "h \<le> 70"
    using hex_char_bounds [of "b div 16"] hex_char_bounds [of "b mod 16"] assms by (simp_all add: g_def h_def less_mult_imp_div_less)
  have "find_sub [266] [60, 48, 120, g, h, 62] = None" "find_sub [92, 110] [60, 48, 120, g, h, 62] = None"
    using small by (intro find_sub_absent; simp)+
  moreover have "int_base16 g h = Some (int b)"
    using assms hex_digit_hex_char [of "b div 16"] hex_digit_hex_char [of "b mod 16"]
    by (simp add: int_base16_def g_def h_def less_mult_imp_div_less) presburger
  ultimately show ?thesis
    using assms by (simp add: t canonical_token_def normalize_prefix_def normalize_newline_def normalize_punct_def byte_fallback_def
        starts_with_def)
qed

lemma no_artifact:
  "c < 128 \<Longrightarrow> find (\<lambda>(pat, rep). take (length pat) ((c # t) # ts) = pat) multi_token_artifact_fixes = None"
  by (simp add: multi_token_artifact_fixes_def)

lemma artifacts_plain_Cons:
  "c < 128 \<Longrightarrow> merge_encoding_artifacts i ((c # t) # ts) = (c # t, i, i + 1) # merge_encoding_artifacts (i + 1) ts"
  using no_artifact by (subst merge_encoding_artifacts.simps) simp

lemma artifacts_byte_tokens:
  "map (\<lambda>(t, r). (canonical_token True t, r)) (merge_encoding_artifacts i (map byte_token bs))
    = map (\<lambda>(t, r). (canonical_token True t, r)) (zip (map byte_token bs) (map (\<lambda>j. (j, j + 1)) [i..<i + length bs]))"
proof (induction bs arbitrary: i)
  case (Cons b bs)
  have "byte_token b = 60 # tl (byte_token b)" by (simp add: byte_token_def u_def)
  then have "merge_encoding_artifacts i (byte_token b # map byte_token bs)
      = (byte_token b, i, i + 1) # merge_encoding_artifacts (i + 1) (map byte_token bs)"
    using artifacts_plain_Cons [of 60 i "tl (byte_token b)"] by simp
  then show ?case using Cons [of "Suc i"] by (simp add: upt_conv_Cons del: upt_Suc)
qed (simp add: merge_encoding_artifacts.simps)

lemma merge_all_bytes:
  "list_all (\<lambda>x. all_bytes (fst x)) xs \<Longrightarrow> merge_consecutive_bytes buf xs = try_merge_byte_buffer (buf @ xs)"
  by (induction xs arbitrary: buf) simp_all

lemma single_byte: "b < 256 \<Longrightarrow> lstrip_marker [b] = [b] \<and> get_byte_value b = Some b \<and> all_bytes [b]"
  by (simp add: lstrip_marker_def get_byte_value_def all_bytes_def)

lemma those_Some: "those (map Some xs) = Some xs"
  by (induction xs) simp_all

lemma raw_single_bytes: "list_all (\<lambda>b. b < 256) bs \<Longrightarrow> raw_bytes (map (\<lambda>b. [b]) bs) = Some bs"
proof -
  assume bs: "list_all (\<lambda>b. b < 256) bs"
  then have "concat (map lstrip_marker (map (\<lambda>b. [b]) bs)) = bs" by (induction bs) (simp_all add: single_byte)
  moreover have "map get_byte_value bs = map Some bs" using bs by (induction bs) (simp_all add: single_byte)
  ultimately show ?thesis by (simp only: raw_bytes_def those_Some)
qed

text \<open>The ranged tokens of a list of bytes from position \<open>i\<close> on.\<close>

definition byte_items :: "nat \<Rightarrow> nat list \<Rightarrow> ranged list" where
  "byte_items i bs = zip (map (\<lambda>b. [b]) bs) (map (\<lambda>j. (j, j + 1)) [i..<i + length bs])"

lemma canonical_byte_tokens:
  assumes "list_all (\<lambda>b. b < 256) bs"
  shows "map (\<lambda>(t, r). (canonical_token True t, r)) (merge_encoding_artifacts i (map byte_token bs)) = byte_items i bs"
  unfolding artifacts_byte_tokens byte_items_def using assms
  by (intro nth_equalityI) (simp_all add: list_all_length byte_token_canonical)

lemma byte_items_facts:
  "map fst (byte_items i bs) = map (\<lambda>b. [b]) bs" "length (byte_items i bs) = length bs"
  "bs \<noteq> [] \<Longrightarrow> hd (byte_items i bs) = ([hd bs], i, i + 1)" "bs \<noteq> [] \<Longrightarrow> snd (snd (last (byte_items i bs))) = i + length bs"
  "list_all (\<lambda>b. b < 256) bs \<Longrightarrow> list_all (\<lambda>x. all_bytes (fst x)) (byte_items i bs)"
proof -
  show "map fst (byte_items i bs) = map (\<lambda>b. [b]) bs" "length (byte_items i bs) = length bs"
    "bs \<noteq> [] \<Longrightarrow> hd (byte_items i bs) = ([hd bs], i, i + 1)"
    by (simp_all add: byte_items_def hd_zip hd_map)
  show "bs \<noteq> [] \<Longrightarrow> snd (snd (last (byte_items i bs))) = i + length bs"
    by (cases bs rule: rev_cases) (simp_all add: byte_items_def)
  show "list_all (\<lambda>b. b < 256) bs \<Longrightarrow> list_all (\<lambda>x. all_bytes (fst x)) (byte_items i bs)"
    by (simp add: byte_items_def list_all_length single_byte)
qed

lemma utf8_encode_length: "length (utf8_encode c) \<in> {2, 3, 4}"
  by (simp add: utf8_encode_def)

section \<open>Properties\<close>

text \<open>Byte-fallback tokens become the character they spell. For every Unicode character beyond ASCII, the sequence of the
  fallback tokens of its UTF-8 bytes, on its own, is canonicalised to that one character, with a range that covers all its bytes.\<close>
lemma byte_fallback_roundtrip:
  assumes "wide_char c"
  shows "canonicalize_sequence (map byte_token (utf8_encode c)) = [([c], 0, length (utf8_encode c))]"
proof -
  note bytes = utf8_inverse [OF assms]
  have ne: "utf8_encode c \<noteq> []" "1 < length (utf8_encode c)" "length (utf8_encode c) \<le> 4"
    using utf8_encode_length [of c] by auto
  have "hd (utf8_encode c) \<noteq> 288" using bytes(2) ne(1) by (cases "utf8_encode c") auto
  then have "try_merge_byte_buffer (byte_items 0 (utf8_encode c)) = [([c], 0, length (utf8_encode c))]"
    using ne bytes assms byte_items_facts(2,3,4) [where i = 0 and bs = "utf8_encode c"]
    by (auto simp: try_merge_byte_buffer_def byte_items_facts(1) raw_single_bytes starts_with_def wide_char_def)
  then show ?thesis
    using merge_all_bytes [of "byte_items 0 (utf8_encode c)" "[]"] byte_items_facts(5) bytes(2) by (simp add: canonicalize_sequence_def canonical_byte_tokens)
qed

lemma byte_fallback_roundtrip_witness:
  "canonicalize_sequence [u ''<0xE2>'', u ''<0x82>'', u ''<0xAC>''] = [([8364], 0, 3)]"
proof -
  have "wide_char 8364" by (simp add: wide_char_def)
  from byte_fallback_roundtrip [OF this] show ?thesis
    by (simp add: utf8_encode_def byte_token_def hex_char_def u_def)
qed

section \<open>Where the tables fail\<close>

lemma letters_canonical:
  assumes "w \<noteq> []" and "list_all (\<lambda>c. 97 \<le> c \<and> c \<le> 122) w"
  shows "canonical_token True w = w"
proof -
  obtain c r where w: "w = c # r" and c: "97 \<le> c" "c \<le> 122" using assms by (cases w) auto
  have absent: "find_sub (d # p) w = None" if "d < 97 \<or> 122 < d" for d p
    using assms(2) that by (intro find_sub_absent) (auto simp: list_all_iff)
  have "list_all (\<lambda>(broken, fixed). find_sub broken w = None) unicode_fixes"
    by (simp add: unicode_fixes_def absent)
  then have "fix_unicode w = w"
  proof -
    have "foldl (\<lambda>t (broken, fixed). if find_sub broken t \<noteq> None then str_replace broken fixed t else t) w table = w"
      if "list_all (\<lambda>(broken, fixed). find_sub broken w = None) table" for table
      using that by (induction table) auto
    then show ?thesis
      using \<open>list_all (\<lambda>(broken, fixed). find_sub broken w = None) unicode_fixes\<close> unfolding fix_unicode_def by blast
  qed
  moreover have "map_of special_token_map w = None" using c by (simp add: special_token_map_def u_def w)
  moreover have "normalize_prefix w = w" "normalize_punct w = w" "byte_fallback w = None"
    using c by (auto simp: normalize_prefix_def normalize_punct_def byte_fallback_def starts_with_def w)
  moreover have "normalize_newline w = w"
    using c absent [of 266 "[]"] absent [of 92 "[110]"] unfolding normalize_newline_def by (simp add: w del: find_sub.simps)
  ultimately show ?thesis using assms(1) by (simp add: canonical_token_def)
qed

text \<open>A word of three letters or more before the bytes of a character keeps them from being merged: its letters are taken for
  bytes, too, and the buffer is too long to be one character.\<close>
lemma letters_block_byte_merge:
  assumes "wide_char c" and "3 \<le> length w" and "list_all (\<lambda>x. 97 \<le> x \<and> x \<le> 122) w"
  shows "map fst (canonicalize_sequence (w # map byte_token (utf8_encode c))) = w # map (\<lambda>b. [b]) (utf8_encode c)"
proof -
  note bytes = utf8_inverse [OF assms(1)]
  obtain x r where w: "w = x # r" using assms(2) by (cases w) auto
  have x: "x < 128" "w \<noteq> []" using assms(3) by (simp_all add: w)
  have lw: "lstrip_marker w = w" using assms(3) by (simp add: lstrip_marker_def w)
  have vals: "map get_byte_value w = map Some w"
    using assms(3) by (auto simp: get_byte_value_def list_all_iff)
  have allw: "all_bytes w" using assms(3) x(2) by (auto simp: all_bytes_def lw list_all_iff get_byte_value_def)
  have raw: "raw_bytes (w # map (\<lambda>b. [b]) (utf8_encode c)) = Some (w @ utf8_encode c)"
  proof -
    have "concat (map lstrip_marker (map (\<lambda>b. [b]) bs)) = bs" "map get_byte_value bs = map Some bs"
      if "list_all (\<lambda>b. b < 256) bs" for bs using that by (induction bs) (simp_all add: single_byte)
    then have "map get_byte_value (concat (map lstrip_marker (w # map (\<lambda>b. [b]) (utf8_encode c)))) = map Some (w @ utf8_encode c)"
      using bytes(2) by (simp only: list.map concat.simps lw map_append vals)
    then show ?thesis by (simp only: raw_bytes_def those_Some)
  qed
  have "map (\<lambda>(t, r). (canonical_token True t, r)) (merge_encoding_artifacts 0 (w # map byte_token (utf8_encode c)))
      = (w, 0, 1) # byte_items 1 (utf8_encode c)"
    using artifacts_plain_Cons [OF x(1), of 0 r] canonical_byte_tokens [OF bytes(2), of 1] letters_canonical [OF x(2) assms(3)]
    by (simp add: w)
  then show ?thesis
    using merge_all_bytes [of "(w, 0, 1) # byte_items 1 (utf8_encode c)" "[]"] byte_items_facts(5) [OF bytes(2), of 1] allw
      raw byte_items_facts(1) [of 1 "utf8_encode c"] assms(2) utf8_encode_length [of c]
    by (auto simp: canonicalize_sequence_def try_merge_byte_buffer_def lw)
qed

text \<open>The repair of a single A with tilde comes before the longer patterns that start with it, so these never apply.\<close>
lemma shadowed_unicode_fix: "canonical_token True [195, 162] = [192, 162]"
  by (simp add: canonical_token_def normalize_prefix_def normalize_newline_def normalize_punct_def byte_fallback_def
      starts_with_def fix_unicode_def unicode_fixes_def str_replace.simps special_token_map_def u_def)

text \<open>The visible bytes of an em dash (226, 128, 148) are read as a different character, because the byte map is shifted.\<close>
lemma visual_bytes_shifted: "canonicalize_sequence [[226, 290, 310]] = [([10385], 0, 1)] \<and> utf8_encode 8212 = [226, 128, 148]"
proof -
  have "merge_encoding_artifacts 0 [[226, 290, 310]] = [([226, 290, 310], 0, 1)]"
    by (simp add: merge_encoding_artifacts.simps multi_token_artifact_fixes_def)
  moreover have "canonical_token True [226, 290, 310] = [226, 290, 310]"
    by (simp add: canonical_token_def normalize_prefix_def normalize_newline_def normalize_punct_def byte_fallback_def
        starts_with_def fix_unicode_def unicode_fixes_def special_token_map_def u_def)
  ultimately show ?thesis
    by (simp add: canonicalize_sequence_def all_bytes_def lstrip_marker_def get_byte_value_def visual_byte_map_def
        try_merge_byte_buffer_def raw_bytes_def starts_with_def cont_byte_def utf8_encode_def)
qed

end
