(* ===== verification/Align_DP.thy ===== *)
theory Align_DP
  imports Token_Canon "HOL-Library.Product_Lexorder"
begin

text \<open>
  The dynamic program of the token aligner, \<^verbatim>\<open>algorithms/x_token/token_aligner.py\<close> (\<open>TokenAligner._align_dp\<close>): the score table,
  the trace and the traceback that pairs student spans with teacher spans. The lemmas show that the table holds the best score of
  all alignments built from the five kinds of step, and that the traceback returns one of these, covering both sequences.

  Scores are exact rationals; with the scores the class passes they are multiples of one half, which \<open>float32\<close> represents. The
  traceback is a loop over the trace matrix and may in principle not end, so it is a \<open>partial_function\<close>; that it returns is proved.
\<close>

section \<open>Data\<close>

record alignment_pair =
  s_tokens :: "token list"
  t_tokens :: "token list"
  s_start :: int
  s_end :: int
  t_start :: int
  t_end :: int
  is_correct :: bool

record align_cfg =
  exact_match_score :: rat
  combination_score_multiplier :: rat
  gap_penalty :: rat
  max_combination_len :: nat
  ignore_leading_char_diff :: bool

definition mk_pair :: "token list \<Rightarrow> token list \<Rightarrow> int \<Rightarrow> int \<Rightarrow> int \<Rightarrow> int \<Rightarrow> alignment_pair" where
  "mk_pair s t ss se ts te =
     \<lparr>s_tokens = s, t_tokens = t, s_start = ss, s_end = se, t_start = ts, t_end = te, is_correct = False\<rparr>"

section \<open>The dynamic program\<close>

datatype move = No_move | Diag | Up | Left | Comb_s1_over_s2 nat | Comb_s2_over_s1 nat

type_synonym cell = "rat \<times> move"

fun gap_cells :: "rat \<Rightarrow> move \<Rightarrow> rat \<Rightarrow> nat \<Rightarrow> cell list" where
  "gap_cells gap mv score 0 = []"
| "gap_cells gap mv score (Suc n) = (score + gap, mv) # gap_cells gap mv (score + gap) n"

definition first_row :: "align_cfg \<Rightarrow> nat \<Rightarrow> cell list" where
  "first_row cfg n2 = (0, No_move) # gap_cells (gap_penalty cfg) Left 0 n2"

definition joined :: "token list \<Rightarrow> nat \<Rightarrow> nat \<Rightarrow> token" where
  "joined tokens a b = concat (take (b - a) (drop a tokens))"

definition better :: "rat \<Rightarrow> move \<Rightarrow> cell \<Rightarrow> cell" where
  "better cand mv best = (if cand > fst best then (cand, mv) else best)"

definition match_score :: "align_cfg \<Rightarrow> token \<Rightarrow> token \<Rightarrow> rat" where
  "match_score cfg s t =
     (if strings_equal_flexible s t (ignore_leading_char_diff cfg) then exact_match_score cfg else - exact_match_score cfg)"

text \<open>One cell: \<open>rows\<close> are the rows above, \<open>row\<close> the cells to the left.\<close>

definition align_cell :: "align_cfg \<Rightarrow> token list \<Rightarrow> token list \<Rightarrow> cell list list \<Rightarrow> cell list \<Rightarrow> nat \<Rightarrow> nat \<Rightarrow> cell" where
  "align_cell cfg student teacher rows row i j =
     (let student_val = student ! (i - 1);
          teacher_val = teacher ! (j - 1);
          b0 = (fst (rows ! (i - 1) ! (j - 1)) + match_score cfg student_val teacher_val, Diag);
          b1 = better (fst (rows ! (i - 1) ! j) + gap_penalty cfg) Up b0;
          b2 = better (fst (row ! (j - 1)) + gap_penalty cfg) Left b1;
          b3 = fold (\<lambda>k b.
                 if strings_equal_flexible student_val (joined teacher (j - k) j) (ignore_leading_char_diff cfg)
                 then better (fst (rows ! (i - 1) ! (j - k)) + combination_score_multiplier cfg * of_nat k) (Comb_s1_over_s2 k) b
                 else b) [2..<min (j + 1) (max_combination_len cfg + 1)] b2
      in fold (\<lambda>k b.
           if strings_equal_flexible teacher_val (joined student (i - k) i) (ignore_leading_char_diff cfg)
           then better (fst (rows ! (i - k) ! (j - 1)) + combination_score_multiplier cfg * of_nat k) (Comb_s2_over_s1 k) b
           else b) [2..<min (i + 1) (max_combination_len cfg + 1)] b3)"

definition align_row :: "align_cfg \<Rightarrow> token list \<Rightarrow> token list \<Rightarrow> nat \<Rightarrow> cell list list \<Rightarrow> cell list" where
  "align_row cfg student teacher i rows =
     fold (\<lambda>j row. row @ [align_cell cfg student teacher rows row i j]) [1..<length teacher + 1]
       [(fst (rows ! (i - 1) ! 0) + gap_penalty cfg, Up)]"

definition align_table :: "align_cfg \<Rightarrow> token list \<Rightarrow> token list \<Rightarrow> cell list list" where
  "align_table cfg student teacher =
     fold (\<lambda>i rows. rows @ [align_row cfg student teacher i rows]) [1..<length student + 1] [first_row cfg (length teacher)]"

partial_function (option) traceback ::
  "token list \<Rightarrow> token list \<Rightarrow> cell list list \<Rightarrow> nat \<Rightarrow> nat \<Rightarrow> alignment_pair list \<Rightarrow> alignment_pair list option" where
  "traceback student teacher table i j aligned =
     (if \<not> (i > 0 \<or> j > 0) then Some aligned
      else
        case snd (table ! i ! j) of
          Diag \<Rightarrow>
            traceback student teacher table (i - 1) (j - 1)
              (aligned @ [mk_pair [student ! (i - 1)] [teacher ! (j - 1)] (int i - 1) (int i) (int j - 1) (int j)])
        | Up \<Rightarrow>
            traceback student teacher table (i - 1) j (aligned @ [mk_pair [student ! (i - 1)] [] (int i - 1) (int i) (-1) (-1)])
        | Left \<Rightarrow>
            traceback student teacher table i (j - 1) (aligned @ [mk_pair [] [teacher ! (j - 1)] (-1) (-1) (int j - 1) (int j)])
        | Comb_s1_over_s2 k \<Rightarrow>
            traceback student teacher table (i - 1) (j - k)
              (aligned @ [mk_pair [student ! (i - 1)] (take k (drop (j - k) teacher)) (int i - 1) (int i) (int j - int k) (int j)])
        | Comb_s2_over_s1 k \<Rightarrow>
            traceback student teacher table (i - k) (j - 1)
              (aligned @ [mk_pair (take k (drop (i - k) student)) [teacher ! (j - 1)] (int i - int k) (int i) (int j - 1) (int j)])
        | No_move \<Rightarrow> Some aligned)"

definition align_dp :: "align_cfg \<Rightarrow> token list \<Rightarrow> token list \<Rightarrow> (alignment_pair list \<times> rat) option" where
  "align_dp cfg student teacher =
     (let table = align_table cfg student teacher; n1 = length student; n2 = length teacher in
      map_option (\<lambda>aligned. (rev aligned, fst (table ! n1 ! n2))) (traceback student teacher table n1 n2 []))"

section \<open>Alignments and their scores\<close>

text \<open>One step of an alignment from the prefixes \<open>(i, j)\<close> already aligned to longer ones, with its score.\<close>

inductive align_step :: "align_cfg \<Rightarrow> token list \<Rightarrow> token list \<Rightarrow> nat \<Rightarrow> nat \<Rightarrow> nat \<Rightarrow> nat \<Rightarrow> rat \<Rightarrow> move \<Rightarrow> bool"
  for cfg s t where
  diag: "i < length s \<Longrightarrow> j < length t
    \<Longrightarrow> align_step cfg s t i j (Suc i) (Suc j) (match_score cfg (s ! i) (t ! j)) Diag"
| up: "i < length s \<Longrightarrow> j \<le> length t \<Longrightarrow> align_step cfg s t i j (Suc i) j (gap_penalty cfg) Up"
| left: "i \<le> length s \<Longrightarrow> j < length t \<Longrightarrow> align_step cfg s t i j i (Suc j) (gap_penalty cfg) Left"
| comb1: "i < length s \<Longrightarrow> 2 \<le> k \<Longrightarrow> k \<le> max_combination_len cfg \<Longrightarrow> j + k \<le> length t
    \<Longrightarrow> strings_equal_flexible (s ! i) (concat (take k (drop j t))) (ignore_leading_char_diff cfg)
    \<Longrightarrow> align_step cfg s t i j (Suc i) (j + k) (combination_score_multiplier cfg * of_nat k) (Comb_s1_over_s2 k)"
| comb2: "j < length t \<Longrightarrow> 2 \<le> k \<Longrightarrow> k \<le> max_combination_len cfg \<Longrightarrow> i + k \<le> length s
    \<Longrightarrow> strings_equal_flexible (t ! j) (concat (take k (drop i s))) (ignore_leading_char_diff cfg)
    \<Longrightarrow> align_step cfg s t i j (i + k) (Suc j) (combination_score_multiplier cfg * of_nat k) (Comb_s2_over_s1 k)"

inductive_cases align_stepE: "align_step cfg s t i j i' j' w mv"

inductive align_path :: "align_cfg \<Rightarrow> token list \<Rightarrow> token list \<Rightarrow> nat \<Rightarrow> nat \<Rightarrow> rat \<Rightarrow> bool" for cfg s t where
  start: "align_path cfg s t 0 0 0"
| extend: "align_path cfg s t i j v \<Longrightarrow> align_step cfg s t i j i' j' w mv \<Longrightarrow> align_path cfg s t i' j' (v + w)"

lemma align_step_bounds:
  "align_step cfg s t i j i' j' w mv \<Longrightarrow> i \<le> length s \<and> j \<le> length t \<and> i' \<le> length s \<and> j' \<le> length t \<and> i + j < i' + j'"
  by (auto elim: align_stepE)

section \<open>The table holds the best scores\<close>

definition cand_step :: "(nat \<Rightarrow> bool) \<Rightarrow> (nat \<Rightarrow> rat) \<Rightarrow> (nat \<Rightarrow> move) \<Rightarrow> nat \<Rightarrow> cell \<Rightarrow> cell" where
  "cand_step P v m k b = (if P k then better (v k) (m k) b else b)"

lemma fold_better:
  "fst b \<le> fst (fold (cand_step P v m) ks b)
   \<and> list_all (\<lambda>k. P k \<longrightarrow> v k \<le> fst (fold (cand_step P v m) ks b)) ks
   \<and> (fold (cand_step P v m) ks b = b \<or> list_ex (\<lambda>k. P k \<and> fold (cand_step P v m) ks b = (v k, m k)) ks)"
proof (induction ks arbitrary: b)
  case (Cons k ks)
  have "fst b \<le> fst (cand_step P v m k b)" "P k \<Longrightarrow> v k \<le> fst (cand_step P v m k b)"
    "cand_step P v m k b = b \<or> P k \<and> cand_step P v m k b = (v k, m k)"
    by (auto simp: cand_step_def better_def)
  then show ?case using Cons.IH [of "cand_step P v m k b"] by auto
qed simp

definition entry :: "align_cfg \<Rightarrow> token list \<Rightarrow> token list \<Rightarrow> nat \<Rightarrow> nat \<Rightarrow> cell" where
  "entry cfg s t i j = align_table cfg s t ! i ! j"

lemma table_rows:
  "length (align_table cfg s t) = length s + 1" "align_table cfg s t ! 0 = first_row cfg (length t)"
  "1 \<le> i \<Longrightarrow> i \<le> length s \<Longrightarrow> align_table cfg s t ! i = align_row cfg s t i (take i (align_table cfg s t))"
proof -
  note build = fold_append_build [of 1 "length s + 1" "align_table cfg s t" "align_row cfg s t" "[first_row cfg (length t)]"]
  show "length (align_table cfg s t) = length s + 1"
    and "1 \<le> i \<Longrightarrow> i \<le> length s \<Longrightarrow> align_table cfg s t ! i = align_row cfg s t i (take i (align_table cfg s t))"
    using build by (simp_all add: align_table_def del: upt_Suc)
  have "take 1 (align_table cfg s t) = [first_row cfg (length t)]" using build by (simp add: align_table_def del: upt_Suc)
  then show "align_table cfg s t ! 0 = first_row cfg (length t)" by (cases "align_table cfg s t") auto
qed

lemma gap_cells_nth: "j < n \<Longrightarrow> gap_cells g mv v n ! j = (v + g * of_nat (Suc j), mv)"
  by (induction n arbitrary: v j) (auto simp: nth_Cons algebra_simps split: nat.splits)

lemma row_cells:
  assumes "row = align_row cfg s t i rows"
  shows "row ! 0 = (fst (rows ! (i - 1) ! 0) + gap_penalty cfg, Up)"
    and "1 \<le> j \<Longrightarrow> j \<le> length t \<Longrightarrow> row ! j = align_cell cfg s t rows (take j row) i j"
proof -
  note build = fold_append_build [of 1 "length t + 1" row "\<lambda>j row. align_cell cfg s t rows row i j"
    "[(fst (rows ! (i - 1) ! 0) + gap_penalty cfg, Up)]"]
  show "1 \<le> j \<Longrightarrow> j \<le> length t \<Longrightarrow> row ! j = align_cell cfg s t rows (take j row) i j"
    using build by (simp add: assms align_row_def del: upt_Suc)
  have "take 1 row = [(fst (rows ! (i - 1) ! 0) + gap_penalty cfg, Up)]" using build by (simp add: assms align_row_def del: upt_Suc)
  then show "row ! 0 = (fst (rows ! (i - 1) ! 0) + gap_penalty cfg, Up)" by (cases row) auto
qed

lemma entry_borders:
  "entry cfg s t 0 0 = (0, No_move)"
  "j < length t \<Longrightarrow> entry cfg s t 0 (Suc j) = (fst (entry cfg s t 0 j) + gap_penalty cfg, Left)"
  "i < length s \<Longrightarrow> entry cfg s t (Suc i) 0 = (fst (entry cfg s t i 0) + gap_penalty cfg, Up)"
proof -
  show "entry cfg s t 0 0 = (0, No_move)" by (simp add: entry_def table_rows first_row_def)
  show "j < length t \<Longrightarrow> entry cfg s t 0 (Suc j) = (fst (entry cfg s t 0 j) + gap_penalty cfg, Left)"
    by (cases j) (simp_all add: entry_def table_rows first_row_def gap_cells_nth algebra_simps)
  show "i < length s \<Longrightarrow> entry cfg s t (Suc i) 0 = (fst (entry cfg s t i 0) + gap_penalty cfg, Up)"
    using table_rows(3) [of "Suc i" s cfg t] row_cells(1) [OF refl, of cfg s t "Suc i" "take (Suc i) (align_table cfg s t)"]
    by (simp add: entry_def)
qed

text \<open>The recurrence: an inner entry is the best of its candidates.\<close>

definition inner_best :: "align_cfg \<Rightarrow> token list \<Rightarrow> token list \<Rightarrow> nat \<Rightarrow> nat \<Rightarrow> cell" where
  "inner_best cfg s t i j =
     fold (cand_step (\<lambda>k. strings_equal_flexible (t ! j) (joined s (Suc i - k) (Suc i)) (ignore_leading_char_diff cfg))
         (\<lambda>k. fst (entry cfg s t (Suc i - k) j) + combination_score_multiplier cfg * of_nat k) Comb_s2_over_s1)
       [2..<min (Suc i + 1) (max_combination_len cfg + 1)]
     (fold (cand_step (\<lambda>k. strings_equal_flexible (s ! i) (joined t (Suc j - k) (Suc j)) (ignore_leading_char_diff cfg))
         (\<lambda>k. fst (entry cfg s t i (Suc j - k)) + combination_score_multiplier cfg * of_nat k) Comb_s1_over_s2)
       [2..<min (Suc j + 1) (max_combination_len cfg + 1)]
     (better (fst (entry cfg s t (Suc i) j) + gap_penalty cfg) Left
     (better (fst (entry cfg s t i (Suc j)) + gap_penalty cfg) Up
       (fst (entry cfg s t i j) + match_score cfg (s ! i) (t ! j), Diag))))"

lemma entry_inner:
  assumes "i < length s" "j < length t"
  shows "entry cfg s t (Suc i) (Suc j) = inner_best cfg s t i j"
proof -
  let ?T = "align_table cfg s t"
  have row: "?T ! Suc i = align_row cfg s t (Suc i) (take (Suc i) ?T)" using table_rows(3) assms by simp
  have "entry cfg s t (Suc i) (Suc j) = align_cell cfg s t (take (Suc i) ?T) (take (Suc j) (?T ! Suc i)) (Suc i) (Suc j)"
    using row_cells(2) [OF row, of "Suc j"] assms(2) by (simp add: entry_def)
  also have "\<dots> = inner_best cfg s t i j"
    unfolding align_cell_def inner_best_def Let_def entry_def
    by (intro fold_cong) (auto simp: cand_step_def)
  finally show ?thesis .
qed

lemma joined_take: "k \<le> j \<Longrightarrow> joined xs (j - k) j = concat (take k (drop (j - k) xs))"
  by (simp add: joined_def)

lemma inner_best_cases:
  obtains "inner_best cfg s t i j = (fst (entry cfg s t i j) + match_score cfg (s ! i) (t ! j), Diag)"
  | "inner_best cfg s t i j = (fst (entry cfg s t i (Suc j)) + gap_penalty cfg, Up)"
  | "inner_best cfg s t i j = (fst (entry cfg s t (Suc i) j) + gap_penalty cfg, Left)"
  | k where "2 \<le> k" "k \<le> Suc j" "k \<le> max_combination_len cfg"
      "strings_equal_flexible (s ! i) (joined t (Suc j - k) (Suc j)) (ignore_leading_char_diff cfg)"
      "inner_best cfg s t i j
        = (fst (entry cfg s t i (Suc j - k)) + combination_score_multiplier cfg * of_nat k, Comb_s1_over_s2 k)"
  | k where "2 \<le> k" "k \<le> Suc i" "k \<le> max_combination_len cfg"
      "strings_equal_flexible (t ! j) (joined s (Suc i - k) (Suc i)) (ignore_leading_char_diff cfg)"
      "inner_best cfg s t i j
        = (fst (entry cfg s t (Suc i - k) j) + combination_score_multiplier cfg * of_nat k, Comb_s2_over_s1 k)"
proof -
  let ?b2 = "better (fst (entry cfg s t (Suc i) j) + gap_penalty cfg) Left
     (better (fst (entry cfg s t i (Suc j)) + gap_penalty cfg) Up
       (fst (entry cfg s t i j) + match_score cfg (s ! i) (t ! j), Diag))"
  let ?P = "\<lambda>k. strings_equal_flexible (s ! i) (joined t (Suc j - k) (Suc j)) (ignore_leading_char_diff cfg)"
  let ?v = "\<lambda>k. fst (entry cfg s t i (Suc j - k)) + combination_score_multiplier cfg * of_nat k"
  let ?b3 = "fold (cand_step ?P ?v Comb_s1_over_s2) [2..<min (Suc j + 1) (max_combination_len cfg + 1)] ?b2"
  note outer = fold_better [of ?b3 "\<lambda>k. strings_equal_flexible (t ! j) (joined s (Suc i - k) (Suc i)) (ignore_leading_char_diff cfg)"
      "\<lambda>k. fst (entry cfg s t (Suc i - k) j) + combination_score_multiplier cfg * of_nat k" Comb_s2_over_s1
      "[2..<min (Suc i + 1) (max_combination_len cfg + 1)]", folded inner_best_def]
  note mid = fold_better [of ?b2 ?P ?v Comb_s1_over_s2 "[2..<min (Suc j + 1) (max_combination_len cfg + 1)]"]
  consider "inner_best cfg s t i j = ?b3" | k where "2 \<le> k" "k \<le> Suc i" "k \<le> max_combination_len cfg"
      "strings_equal_flexible (t ! j) (joined s (Suc i - k) (Suc i)) (ignore_leading_char_diff cfg)"
      "inner_best cfg s t i j
        = (fst (entry cfg s t (Suc i - k) j) + combination_score_multiplier cfg * of_nat k, Comb_s2_over_s1 k)"
    using outer by (auto simp: list_ex_iff simp del: upt_Suc)
  then show thesis
  proof cases
    case 1
    consider "?b3 = ?b2" | k where "2 \<le> k" "k \<le> Suc j" "k \<le> max_combination_len cfg" "?P k" "?b3 = (?v k, Comb_s1_over_s2 k)"
      using mid by (auto simp: list_ex_iff simp del: upt_Suc)
    then show thesis
    proof cases
      case 1
      then show thesis using \<open>inner_best cfg s t i j = ?b3\<close> that(1,2,3) by (simp add: better_def split: if_splits)
    qed (use \<open>inner_best cfg s t i j = ?b3\<close> that(4) in metis)
  qed (use that(5) in blast)
qed

lemma inner_best_bounds:
  "fst (entry cfg s t i j) + match_score cfg (s ! i) (t ! j) \<le> fst (inner_best cfg s t i j)"
  "fst (entry cfg s t i (Suc j)) + gap_penalty cfg \<le> fst (inner_best cfg s t i j)"
  "fst (entry cfg s t (Suc i) j) + gap_penalty cfg \<le> fst (inner_best cfg s t i j)"
  "2 \<le> k \<Longrightarrow> k \<le> Suc j \<Longrightarrow> k \<le> max_combination_len cfg
    \<Longrightarrow> strings_equal_flexible (s ! i) (joined t (Suc j - k) (Suc j)) (ignore_leading_char_diff cfg)
    \<Longrightarrow> fst (entry cfg s t i (Suc j - k)) + combination_score_multiplier cfg * of_nat k \<le> fst (inner_best cfg s t i j)"
  "2 \<le> k \<Longrightarrow> k \<le> Suc i \<Longrightarrow> k \<le> max_combination_len cfg
    \<Longrightarrow> strings_equal_flexible (t ! j) (joined s (Suc i - k) (Suc i)) (ignore_leading_char_diff cfg)
    \<Longrightarrow> fst (entry cfg s t (Suc i - k) j) + combination_score_multiplier cfg * of_nat k \<le> fst (inner_best cfg s t i j)"
proof -
  let ?b2 = "better (fst (entry cfg s t (Suc i) j) + gap_penalty cfg) Left
     (better (fst (entry cfg s t i (Suc j)) + gap_penalty cfg) Up
       (fst (entry cfg s t i j) + match_score cfg (s ! i) (t ! j), Diag))"
  let ?P = "\<lambda>k. strings_equal_flexible (s ! i) (joined t (Suc j - k) (Suc j)) (ignore_leading_char_diff cfg)"
  let ?v = "\<lambda>k. fst (entry cfg s t i (Suc j - k)) + combination_score_multiplier cfg * of_nat k"
  let ?b3 = "fold (cand_step ?P ?v Comb_s1_over_s2) [2..<min (Suc j + 1) (max_combination_len cfg + 1)] ?b2"
  note outer = fold_better [of ?b3 "\<lambda>k. strings_equal_flexible (t ! j) (joined s (Suc i - k) (Suc i)) (ignore_leading_char_diff cfg)"
      "\<lambda>k. fst (entry cfg s t (Suc i - k) j) + combination_score_multiplier cfg * of_nat k" Comb_s2_over_s1
      "[2..<min (Suc i + 1) (max_combination_len cfg + 1)]", folded inner_best_def]
  note mid = fold_better [of ?b2 ?P ?v Comb_s1_over_s2 "[2..<min (Suc j + 1) (max_combination_len cfg + 1)]"]
  have "fst ?b2 \<le> fst (inner_best cfg s t i j)" using outer mid by linarith
  moreover have "fst (entry cfg s t i j) + match_score cfg (s ! i) (t ! j) \<le> fst ?b2"
    "fst (entry cfg s t i (Suc j)) + gap_penalty cfg \<le> fst ?b2" "fst (entry cfg s t (Suc i) j) + gap_penalty cfg \<le> fst ?b2"
    by (auto simp: better_def)
  ultimately show "fst (entry cfg s t i j) + match_score cfg (s ! i) (t ! j) \<le> fst (inner_best cfg s t i j)"
    "fst (entry cfg s t i (Suc j)) + gap_penalty cfg \<le> fst (inner_best cfg s t i j)"
    "fst (entry cfg s t (Suc i) j) + gap_penalty cfg \<le> fst (inner_best cfg s t i j)"
    by linarith+
  show "fst (entry cfg s t i (Suc j - k)) + combination_score_multiplier cfg * of_nat k \<le> fst (inner_best cfg s t i j)"
    if "2 \<le> k" "k \<le> Suc j" "k \<le> max_combination_len cfg" "?P k"
  proof -
    have "k \<in> set [2..<min (Suc j + 1) (max_combination_len cfg + 1)]" using that by (auto simp del: upt_Suc)
    then have "?v k \<le> fst ?b3" using mid that(4) unfolding list_all_iff by blast
    then show ?thesis using outer by linarith
  qed
  show "fst (entry cfg s t (Suc i - k) j) + combination_score_multiplier cfg * of_nat k \<le> fst (inner_best cfg s t i j)"
    if "2 \<le> k" "k \<le> Suc i" "k \<le> max_combination_len cfg"
      "strings_equal_flexible (t ! j) (joined s (Suc i - k) (Suc i)) (ignore_leading_char_diff cfg)"
  proof -
    have "k \<in> set [2..<min (Suc i + 1) (max_combination_len cfg + 1)]" using that by (auto simp del: upt_Suc)
    then show ?thesis using outer that(4) unfolding list_all_iff by blast
  qed
qed

lemma entry_stepI:
  assumes "align_step cfg s t i j i' j' w mv" and "entry cfg s t i' j' = (fst (entry cfg s t i j) + w, mv)"
  shows "\<exists>i j w. align_step cfg s t i j i' j' w (snd (entry cfg s t i' j')) \<and> fst (entry cfg s t i' j') = fst (entry cfg s t i j) + w"
  using assms by (intro exI [of _ i] exI [of _ j] exI [of _ w]) simp

lemma entry_step:
  assumes "i' \<le> length s" "j' \<le> length t" "0 < i' + j'"
  shows "\<exists>i j w. align_step cfg s t i j i' j' w (snd (entry cfg s t i' j')) \<and> fst (entry cfg s t i' j') = fst (entry cfg s t i j) + w"
proof (cases i')
  case 0
  then obtain j where j: "j' = Suc j" "j < length t" using assms by (cases j') auto
  show ?thesis unfolding 0 j(1) using j(2) entry_borders(2) [OF j(2)] by (intro entry_stepI [OF align_step.left]) simp_all
next
  case (Suc i)
  note i' = this
  show ?thesis
  proof (cases j')
    case 0
    show ?thesis unfolding 0 i' using assms i' entry_borders(3) [of i s cfg t] by (intro entry_stepI [OF align_step.up]) simp_all
  next
    case (Suc j)
    have ij: "i < length s" "j < length t" using assms i' Suc by simp_all
    note e = entry_inner [OF ij]
    show ?thesis
    proof (cases rule: inner_best_cases [of cfg s t i j])
      case 1
      then show ?thesis unfolding i' Suc using e ij by (intro entry_stepI [OF align_step.diag]) simp_all
    next
      case 2
      then show ?thesis unfolding i' Suc using e ij by (intro entry_stepI [OF align_step.up]) simp_all
    next
      case 3
      then show ?thesis unfolding i' Suc using e ij by (intro entry_stepI [OF align_step.left]) simp_all
    next
      case (4 k)
      have "align_step cfg s t i (Suc j - k) (Suc i) (Suc j - k + k) (combination_score_multiplier cfg * of_nat k) (Comb_s1_over_s2 k)"
        using 4(1-4) ij joined_take [OF 4(2)] by (intro align_step.comb1) auto
      then show ?thesis unfolding i' Suc using e 4(2,5) by (intro entry_stepI) auto
    next
      case (5 k)
      have "align_step cfg s t (Suc i - k) j (Suc i - k + k) (Suc j) (combination_score_multiplier cfg * of_nat k) (Comb_s2_over_s1 k)"
        using 5(1-4) ij joined_take [OF 5(2)] by (intro align_step.comb2) auto
      then show ?thesis unfolding i' Suc using e 5(2,5) by (intro entry_stepI) auto
    qed
  qed
qed

lemma entry_best:
  assumes "align_step cfg s t i j i' j' w mv"
  shows "fst (entry cfg s t i j) + w \<le> fst (entry cfg s t i' j')"
  using assms
proof cases
  case diag
  then show ?thesis using inner_best_bounds(1) by (simp add: entry_inner)
next
  case up
  then show ?thesis using inner_best_bounds(2) [of cfg s t i "j - 1"] entry_inner [of i s "j - 1" t cfg] entry_borders(3)
    by (cases j) auto
next
  case left
  then show ?thesis using inner_best_bounds(3) [of cfg s t "i - 1" j] entry_inner [of "i - 1" s j t cfg] entry_borders(2)
    by (cases i) auto
next
  case (comb1 k)
  then show ?thesis using inner_best_bounds(4) [of k "j + k - 1" cfg s i t] entry_inner [of i s "j + k - 1" t cfg] joined_take [of k "j + k" t]
    by (simp add: Suc_diff_Suc)
next
  case (comb2 k)
  then show ?thesis using inner_best_bounds(5) [of k "i + k - 1" cfg t j s] entry_inner [of "i + k - 1" s j t cfg] joined_take [of k "i + k" s]
    by (simp add: Suc_diff_Suc)
qed

lemma entry_optimal: "align_path cfg s t i j v \<Longrightarrow> v \<le> fst (entry cfg s t i j)"
proof (induction rule: align_path.induct)
  case (extend i j v i' j' w mv)
  then show ?case using entry_best by fastforce
qed (simp add: entry_borders)

section \<open>Spans that tile a sequence\<close>

text \<open>One side of a list of pairs, tokens with their span, covers \<open>xs\<close> from \<open>i\<close> to \<open>j\<close>: the tokens are the next ones of \<open>xs\<close>,
  the span says where they are, and it is \<open>(-1, -1)\<close> for no tokens.\<close>

type_synonym side = "token list \<times> int \<times> int"

fun covers :: "token list \<Rightarrow> nat \<Rightarrow> side list \<Rightarrow> nat \<Rightarrow> bool" where
  "covers xs i [] j \<longleftrightarrow> i = j"
| "covers xs i ((toks, st, en) # sides) j \<longleftrightarrow>
     i + length toks \<le> length xs \<and> toks = take (length toks) (drop i xs)
     \<and> (st, en) = (if toks = [] then (-1, -1) else (int i, int (i + length toks)))
     \<and> covers xs (i + length toks) sides j"

definition s_side :: "alignment_pair \<Rightarrow> side" where
  "s_side p = (s_tokens p, s_start p, s_end p)"

definition t_side :: "alignment_pair \<Rightarrow> side" where
  "t_side p = (t_tokens p, t_start p, t_end p)"

lemma sides_mk [simp]:
  "s_side (mk_pair s t ss se ts te) = (s, ss, se)" "t_side (mk_pair s t ss se ts te) = (t, ts, te)"
  by (simp_all add: s_side_def t_side_def mk_pair_def)

lemma mk_pair_sel [simp]:
  "s_tokens (mk_pair s t ss se ts te) = s" "t_tokens (mk_pair s t ss se ts te) = t"
  "s_start (mk_pair s t ss se ts te) = ss" "s_end (mk_pair s t ss se ts te) = se"
  "t_start (mk_pair s t ss se ts te) = ts" "t_end (mk_pair s t ss se ts te) = te"
  by (simp_all add: mk_pair_def)

lemma covers_app: "covers xs i (a @ b) j \<longleftrightarrow> (\<exists>m. covers xs i a m \<and> covers xs m b j)"
proof (induction a arbitrary: i)
  case (Cons sd a)
  obtain toks st en where "sd = (toks, st, en)" by (cases sd)
  then show ?case using Cons.IH by simp
qed simp

lemma covers_le: "covers xs i sides j \<Longrightarrow> i \<le> j"
proof (induction sides arbitrary: i)
  case (Cons sd sides)
  then show ?case by (cases sd) fastforce
qed simp

lemma covers_tokens: "covers xs i sides j \<Longrightarrow> concat (map fst sides) = take (j - i) (drop i xs)"
proof (induction sides arbitrary: i)
  case (Cons sd sides)
  obtain toks st en where sd: "sd = (toks, st, en)" by (cases sd)
  have c: "covers xs (i + length toks) sides j" "toks = take (length toks) (drop i xs)" using Cons.prems sd by auto
  have "i + length toks \<le> j" using covers_le [OF c(1)] .
  then have "j - i = length toks + (j - (i + length toks))" by simp
  then have "take (j - i) (drop i xs) = take (length toks) (drop i xs) @ take (j - (i + length toks)) (drop (i + length toks) xs)"
    by (metis add.commute drop_drop take_add)
  then show ?case using Cons.IH [OF c(1)] c(2) sd by simp
qed simp

lemma covers_one:
  "covers xs i [(toks, st, en)] j \<longleftrightarrow> j = i + length toks \<and> j \<le> length xs \<and> toks = take (length toks) (drop i xs)
    \<and> (st, en) = (if toks = [] then (-1, -1) else (int i, int (i + length toks)))"
  by auto

section \<open>The traceback\<close>

definition pair_score :: "align_cfg \<Rightarrow> alignment_pair \<Rightarrow> rat" where
  "pair_score cfg p =
     (if s_tokens p = [] \<or> t_tokens p = [] then gap_penalty cfg
      else if length (s_tokens p) = 1 \<and> length (t_tokens p) = 1 then match_score cfg (hd (s_tokens p)) (hd (t_tokens p))
      else combination_score_multiplier cfg * of_nat (max (length (s_tokens p)) (length (t_tokens p))))"

definition tiles :: "token list \<Rightarrow> token list \<Rightarrow> nat \<Rightarrow> nat \<Rightarrow> alignment_pair list \<Rightarrow> nat \<Rightarrow> nat \<Rightarrow> bool" where
  "tiles s t i j ps i' j' \<longleftrightarrow> covers s i (map s_side ps) i' \<and> covers t j (map t_side ps) j'"

lemma tiles_append: "tiles s t i j (ps @ qs) i' j' \<longleftrightarrow> (\<exists>m n. tiles s t i j ps m n \<and> tiles s t m n qs i' j')"
  by (auto simp: tiles_def covers_app)

lemma tiles_Nil [simp]: "tiles s t i j [] i' j' \<longleftrightarrow> i = i' \<and> j = j'"
  by (simp add: tiles_def)

lemma take_one: "i < length xs \<Longrightarrow> take (Suc 0) (drop i xs) = [xs ! i]"
  by (simp add: take_Suc_conv_app_nth Cons_nth_drop_Suc [symmetric])

lemma traceback_step:
  assumes "align_step cfg s t a b i j w (snd (entry cfg s t i j))"
  shows "\<exists>p. (\<forall>acc. traceback s t (align_table cfg s t) i j acc = traceback s t (align_table cfg s t) a b (acc @ [p]))
    \<and> tiles s t a b [p] i j \<and> pair_score cfg p = w"
  using assms
proof cases
  case diag
  then show ?thesis
    by (intro exI [of _ "mk_pair [s ! a] [t ! b] (int a) (1 + int a) (int b) (1 + int b)"])
      (simp add: traceback.simps [of _ _ _ "Suc _"] entry_def [symmetric] tiles_def take_one pair_score_def)
next
  case up
  then show ?thesis
    by (intro exI [of _ "mk_pair [s ! a] [] (int a) (1 + int a) (-1) (-1)"])
      (simp add: traceback.simps [of _ _ _ "Suc _"] entry_def [symmetric] tiles_def take_one pair_score_def)
next
  case left
  then show ?thesis
    by (intro exI [of _ "mk_pair [] [t ! b] (-1) (-1) (int b) (1 + int b)"])
      (simp add: traceback.simps [of _ _ _ _ "Suc _"] entry_def [symmetric] tiles_def take_one pair_score_def)
next
  case (comb1 k)
  have "length (take k (drop b t)) = k" "take k (drop b t) \<noteq> []" using comb1 by auto
  with comb1 show ?thesis
    by (intro exI [of _ "mk_pair [s ! a] (take k (drop b t)) (int a) (1 + int a) (int b) (int (b + k))"])
      (simp add: traceback.simps [of _ _ _ "Suc _"] entry_def [symmetric] tiles_def take_one pair_score_def)
next
  case (comb2 k)
  have "length (take k (drop a s)) = k" "take k (drop a s) \<noteq> []" using comb2 by auto
  with comb2 show ?thesis
    by (intro exI [of _ "mk_pair (take k (drop a s)) [t ! b] (int a) (int (a + k)) (int b) (1 + int b)"])
      (simp add: traceback.simps [of _ _ _ _ "Suc _"] entry_def [symmetric] tiles_def take_one pair_score_def)
qed

lemma traceback_total:
  assumes "i \<le> length s" "j \<le> length t"
  shows "\<exists>ps. (\<forall>acc. traceback s t (align_table cfg s t) i j acc = Some (acc @ rev ps))
    \<and> tiles s t 0 0 ps i j \<and> sum_list (map (pair_score cfg) ps) = fst (entry cfg s t i j)
    \<and> align_path cfg s t i j (fst (entry cfg s t i j))"
  using assms
proof (induction "i + j" arbitrary: i j rule: less_induct)
  case less
  show ?case
  proof (cases "i + j = 0")
    case True
    then show ?thesis
      by (intro exI [of _ "[]"]) (simp add: traceback.simps entry_borders align_path.start)
  next
    case False
    then obtain a b w where step: "align_step cfg s t a b i j w (snd (entry cfg s t i j))"
      and w: "fst (entry cfg s t i j) = fst (entry cfg s t a b) + w"
      using entry_step [of i s j t cfg] less.prems by auto
    have ab: "a + b < i + j" "a \<le> length s" "b \<le> length t" using align_step_bounds [OF step] by simp_all
    obtain ps where ps: "\<forall>acc. traceback s t (align_table cfg s t) a b acc = Some (acc @ rev ps)" "tiles s t 0 0 ps a b"
      "sum_list (map (pair_score cfg) ps) = fst (entry cfg s t a b)" "align_path cfg s t a b (fst (entry cfg s t a b))"
      using less.hyps [OF ab] by blast
    obtain p where p: "\<forall>acc. traceback s t (align_table cfg s t) i j acc = traceback s t (align_table cfg s t) a b (acc @ [p])"
      "tiles s t a b [p] i j" "pair_score cfg p = w" using traceback_step [OF step] by blast
    have "tiles s t 0 0 (ps @ [p]) i j" using ps(2) p(2) tiles_append by blast
    moreover have "align_path cfg s t i j (fst (entry cfg s t i j))"
      unfolding w by (rule align_path.extend [OF ps(4) step])
    ultimately show ?thesis using ps(1,3) p(1,3) w by (intro exI [of _ "ps @ [p]"]) simp
  qed
qed

lemma align_dp_spec:
  "\<exists>ps. align_dp cfg s t = Some (ps, fst (entry cfg s t (length s) (length t))) \<and> tiles s t 0 0 ps (length s) (length t)
    \<and> sum_list (map (pair_score cfg) ps) = fst (entry cfg s t (length s) (length t))
    \<and> align_path cfg s t (length s) (length t) (fst (entry cfg s t (length s) (length t)))"
  using traceback_total [of "length s" s "length t" t cfg] by (auto simp: align_dp_def Let_def entry_def)

section \<open>Property\<close>

text \<open>C38: The aligner's dynamic program returns, and what it returns is a best alignment. For any two token lists and scores, the
  loops of \<open>_align_dp\<close> end with a list of pairs whose spans cover both lists in order, gaplessly and with the tokens they claim;
  the pairs' scores add up to the returned score; that score is one an alignment built from matches, gaps and combinations of
  equal text can have; and no such alignment scores higher.\<close>
theorem align_dp_optimal:
  assumes "align_path cfg s t (length s) (length t) w"
  shows "\<exists>ps v. align_dp cfg s t = Some (ps, v) \<and> tiles s t 0 0 ps (length s) (length t)
    \<and> sum_list (map (pair_score cfg) ps) = v \<and> align_path cfg s t (length s) (length t) v \<and> w \<le> v"
  using align_dp_spec [of cfg s t] entry_optimal [OF assms] by blast

theorem align_dp_optimal_witness:
  "\<exists>ps v. align_dp \<lparr>exact_match_score = 3, combination_score_multiplier = 3 / 2, gap_penalty = - (3 / 2),
        max_combination_len = 4, ignore_leading_char_diff = False\<rparr> [u ''ab''] [u ''a'', u ''b''] = Some (ps, v)
    \<and> tiles [u ''ab''] [u ''a'', u ''b''] 0 0 ps 1 2 \<and> 3 \<le> v"
proof -
  let ?cfg = "\<lparr>exact_match_score = 3, combination_score_multiplier = 3 / 2, gap_penalty = - (3 / 2),
        max_combination_len = 4, ignore_leading_char_diff = False\<rparr>"
  have "align_step ?cfg [u ''ab''] [u ''a'', u ''b''] 0 0 (Suc 0) (0 + 2)
      (combination_score_multiplier ?cfg * of_nat 2) (Comb_s1_over_s2 2)"
    by (intro align_step.comb1) (simp_all add: u_def strings_equal_flexible_def)
  from align_path.extend [OF align_path.start this]
  have "align_path ?cfg [u ''ab''] [u ''a'', u ''b''] (length [u ''ab'']) (length [u ''a'', u ''b'']) 3"
    by (simp add: numeral_2_eq_2)
  from align_dp_optimal [OF this] show ?thesis by (simp add: numeral_2_eq_2) blast
qed

end
