(* ===== verification/Token_Aligner.thy ===== *)
theory Token_Aligner
  imports Align_DP
begin

text \<open>
  The token aligner around its dynamic program, \<^verbatim>\<open>algorithms/x_token/token_aligner.py\<close> (class \<open>TokenAligner\<close>): the anchors that cut
  long sequences, the post-processing of bad spans, one sample, and the dense batch the loss reads. The lemmas show that every
  stage keeps the spans tiling both sequences, so the batch numbers every position by the pair that holds it.

  The cache of \<open>_post_process_alignment\<close> only avoids recomputation and is left out, and the two tokenizers are parameters.
\<close>

section \<open>Shifting and anchors\<close>

definition coarse_equal :: "alignment_pair \<Rightarrow> bool" where
  "coarse_equal p \<longleftrightarrow> length (s_tokens p) > 1 \<and> length (s_tokens p) = length (t_tokens p) \<and> s_tokens p = t_tokens p"

text \<open>A span of equal tokens is split into single matches.\<close>

definition split_pair :: "token list \<Rightarrow> token list \<Rightarrow> int \<Rightarrow> int \<Rightarrow> alignment_pair list" where
  "split_pair s t ss ts =
     map (\<lambda>k. mk_pair [s ! k] [t ! k] (ss + int k) (ss + int k + 1) (ts + int k) (ts + int k + 1)) [0..<length s]"

definition shift_index :: "int \<Rightarrow> int \<Rightarrow> int" where
  "shift_index by_s x = (if x \<noteq> -1 then x + by_s else -1)"

definition shift_pairs :: "alignment_pair list \<Rightarrow> int \<Rightarrow> int \<Rightarrow> alignment_pair list" where
  "shift_pairs pairs shift_s shift_t =
     concat (map (\<lambda>p.
       let ns = shift_index shift_s (s_start p); ne = shift_index shift_s (s_end p);
           nts = shift_index shift_t (t_start p); nte = shift_index shift_t (t_end p)
       in if coarse_equal p \<and> ns \<ge> 0 \<and> nts \<ge> 0 then split_pair (s_tokens p) (t_tokens p) ns nts
          else [mk_pair (s_tokens p) (t_tokens p) ns ne nts nte]) pairs)"

definition ngram :: "'a list \<Rightarrow> nat \<Rightarrow> nat \<Rightarrow> 'a list" where
  "ngram xs k i = take k (drop i xs)"

definition ngram_positions :: "'a list \<Rightarrow> nat \<Rightarrow> 'a list \<Rightarrow> nat list" where
  "ngram_positions xs k g = filter (\<lambda>i. ngram xs k i = g) [0..<length xs + 1 - k]"

text \<open>The n-grams that occur exactly once on either side. The code keeps positions per n-gram in dictionaries and meets the common keys in an
  arbitrary order; the sort that follows removes that order, as the keys of two anchors differ. Its separate case for single tokens
  computes the same.\<close>

definition potential_anchors :: "'a list \<Rightarrow> 'a list \<Rightarrow> nat \<Rightarrow> (nat \<times> nat \<times> nat) list" where
  "potential_anchors student teacher k =
     concat (map (\<lambda>i.
       let g = ngram student k i; js = ngram_positions teacher k g in
       if length (ngram_positions student k g) = 1 \<and> length js = 1 then [(i, hd js, k)] else []) [0..<length student + 1 - k])"

definition anchor_key :: "nat \<times> nat \<times> nat \<Rightarrow> int \<times> nat \<times> nat" where
  "anchor_key a = (case a of (i, j, k) \<Rightarrow> (- int k, i, j))"

fun select_anchors ::
  "nat set \<Rightarrow> nat set \<Rightarrow> (nat \<times> nat \<times> nat) list \<Rightarrow> (nat \<times> nat \<times> nat) list" where
  "select_anchors used_student used_teacher [] = []"
| "select_anchors used_student used_teacher ((i, j, k) # as) =
     (let r1 = set [i..<i + k]; r2 = set [j..<j + k] in
      if r1 \<inter> used_student = {} \<and> r2 \<inter> used_teacher = {}
      then (i, j, k) # select_anchors (used_student \<union> r1) (used_teacher \<union> r2) as
      else select_anchors used_student used_teacher as)"

fun validate_anchors :: "'a list \<Rightarrow> 'a list \<Rightarrow> int \<Rightarrow> (nat \<times> nat \<times> nat) list \<Rightarrow> (nat \<times> nat \<times> nat) list" where
  "validate_anchors student teacher last_j [] = []"
| "validate_anchors student teacher last_j ((i, j, k) # as) =
     (if int j > last_j \<and> ngram student k i = ngram teacher k j
      then (i, j, k) # validate_anchors student teacher (int j + int k - 1) as
      else validate_anchors student teacher last_j as)"

definition anchor_pairs :: "token list \<Rightarrow> token list \<Rightarrow> nat \<Rightarrow> nat \<Rightarrow> nat \<Rightarrow> alignment_pair list" where
  "anchor_pairs student teacher i j k =
     map (\<lambda>kk. mk_pair [student ! (i + kk)] [teacher ! (j + kk)] (int (i + kk)) (int (i + kk) + 1) (int (j + kk)) (int (j + kk) + 1)) [0..<k]"

text \<open>The segment between two anchors, aligned and shifted; nothing when both sides are empty.\<close>

definition align_segment :: "align_cfg \<Rightarrow> token list \<Rightarrow> token list \<Rightarrow> nat \<Rightarrow> nat \<Rightarrow> alignment_pair list option" where
  "align_segment cfg student_seg teacher_seg last_i last_j =
     (if student_seg \<noteq> [] \<or> teacher_seg \<noteq> []
      then map_option (\<lambda>(seg, _). shift_pairs seg (int last_i) (int last_j)) (align_dp cfg student_seg teacher_seg)
      else Some [])"

fun anchor_loop ::
  "align_cfg \<Rightarrow> token list \<Rightarrow> token list \<Rightarrow> nat \<Rightarrow> nat \<Rightarrow> (nat \<times> nat \<times> nat) list \<Rightarrow> alignment_pair list option" where
  "anchor_loop cfg student teacher last_i last_j [] = align_segment cfg (drop last_i student) (drop last_j teacher) last_i last_j"
| "anchor_loop cfg student teacher last_i last_j ((i, j, k) # as) =
     Option.bind (align_segment cfg (take (i - last_i) (drop last_i student)) (take (j - last_j) (drop last_j teacher)) last_i last_j) (\<lambda>seg.
     Option.bind (anchor_loop cfg student teacher (i + k) (j + k) as) (\<lambda>rest.
       Some (seg @ anchor_pairs student teacher i j k @ rest)))"

definition align_with_anchors ::
  "align_cfg \<Rightarrow> token list \<Rightarrow> token list \<Rightarrow> nat list \<Rightarrow> (alignment_pair list \<times> rat) option" where
  "align_with_anchors cfg student teacher anchor_lengths =
     (if anchor_lengths = [] then align_dp cfg student teacher
      else
        let all_potential = sort_key anchor_key (concat (map (potential_anchors student teacher) anchor_lengths));
            selected = sort (select_anchors {} {} all_potential);
            validated = validate_anchors student teacher (-1) selected
        in if validated = [] then align_dp cfg student teacher
           else map_option (\<lambda>full. (full, 0)) (anchor_loop cfg student teacher 0 0 validated))"

section \<open>Post-processing\<close>

definition canon_text :: "token list \<Rightarrow> token" where
  "canon_text tokens = concat (map (canonical_token True) tokens)"

definition pair_matches :: "alignment_pair \<Rightarrow> bool" where
  "pair_matches p = strings_equal_flexible (canon_text (s_tokens p)) (canon_text (t_tokens p)) False"

text \<open>Start and end of the spans of some pairs: the least start and the greatest end, or \<open>-1\<close>.\<close>

definition span_start :: "(int \<times> int) list \<Rightarrow> int" where
  "span_start idx = (if idx = [] then -1 else Min (set (map fst idx)))"

definition span_end :: "(int \<times> int) list \<Rightarrow> int" where
  "span_end idx = (if idx = [] then -1 else Max (set (map snd idx)))"

text \<open>The merge of a run of misaligned pairs.\<close>

definition combine_run :: "alignment_pair list \<Rightarrow> alignment_pair" where
  "combine_run run =
     (let s_idx = map (\<lambda>p. (s_start p, s_end p)) (filter (\<lambda>p. s_tokens p \<noteq> [] \<and> s_start p \<noteq> -1) run);
          t_idx = map (\<lambda>p. (t_start p, t_end p)) (filter (\<lambda>p. t_tokens p \<noteq> [] \<and> t_start p \<noteq> -1) run)
      in mk_pair (concat (map s_tokens run)) (concat (map t_tokens run))
           (span_start s_idx) (span_end s_idx) (span_start t_idx) (span_end t_idx))"

text \<open>The loop over the pairs from index \<open>i\<close> on; a run stops at the end boundary.\<close>

function combine_loop :: "int \<Rightarrow> nat \<Rightarrow> alignment_pair list \<Rightarrow> alignment_pair list" where
  "combine_loop end_boundary i [] = []"
| "combine_loop end_boundary i (p # ps) =
     (let run = p # takeWhile (\<lambda>q. \<not> pair_matches q) (take (nat (end_boundary - int i - 1)) ps) in
      if int i < end_boundary \<and> \<not> pair_matches p \<and> ps \<noteq> [] \<and> length run \<ge> 2
      then combine_run run # combine_loop end_boundary (i + length run) (drop (length run) (p # ps))
      else p # combine_loop end_boundary (i + 1) ps)"
  by pat_completeness auto

termination
  by (relation "measure (\<lambda>(b, i, ps). length ps)") (auto simp: Let_def)

definition combine_consecutive_misaligned :: "alignment_pair list \<Rightarrow> rat \<Rightarrow> alignment_pair list" where
  "combine_consecutive_misaligned pairs end_mismatch_threshold =
     (if length pairs < 2 then pairs
      else combine_loop \<lfloor>of_nat (length pairs) * (1 - end_mismatch_threshold)\<rfloor> 0 pairs)"

definition flatten_chunk ::
  "alignment_pair list \<Rightarrow> token list \<times> token list \<times> (int \<times> int) list \<times> (int \<times> int) list" where
  "flatten_chunk chunk =
     (concat (map s_tokens chunk), concat (map t_tokens chunk),
      map (\<lambda>p. (s_start p, s_end p)) (filter (\<lambda>p. s_tokens p \<noteq> []) chunk),
      map (\<lambda>p. (t_start p, t_end p)) (filter (\<lambda>p. t_tokens p \<noteq> []) chunk))"

text \<open>The pairs that replace a chunk whose texts agree: the aligned parts when they all match, otherwise one merged pair.\<close>

definition realign_chunk :: "align_cfg \<Rightarrow> alignment_pair list \<Rightarrow> alignment_pair list option" where
  "realign_chunk cfg chunk =
     (case flatten_chunk chunk of
        (chunk_s, chunk_t, s_idx, t_idx) \<Rightarrow>
          Option.bind (align_dp (cfg\<lparr>ignore_leading_char_diff := False\<rparr>) chunk_s chunk_t) (\<lambda>(sub_pairs, _).
            let ss = span_start s_idx; ts = span_start t_idx in
            Some (if list_all pair_matches sub_pairs
                  then map (\<lambda>p. mk_pair (s_tokens p) (t_tokens p) (shift_index ss (s_start p)) (shift_index ss (s_end p))
                         (shift_index ts (t_start p)) (shift_index ts (t_end p))) sub_pairs
                  else [mk_pair chunk_s chunk_t ss (span_end s_idx) ts (span_end t_idx)])))"

text \<open>The first chunk size from 2 on whose texts agree.\<close>

definition chunk_agrees :: "alignment_pair list \<Rightarrow> bool" where
  "chunk_agrees chunk = (canon_text (concat (map s_tokens chunk)) = canon_text (concat (map t_tokens chunk)))"

definition find_chunk :: "alignment_pair list \<Rightarrow> nat option" where
  "find_chunk pairs = find (\<lambda>n. chunk_agrees (take n pairs)) [2..<min 10 (length pairs) + 1]"

lemma length_dropWhile_less: "length (dropWhile P (x # xs)) \<le> Suc (length xs)"
  by (metis length_Cons length_dropWhile_le)

lemma find_chunk_bounds: "find_chunk bad = Some n \<Longrightarrow> 2 \<le> n \<and> n \<le> length bad"
  using find_SomeD [of "\<lambda>n. chunk_agrees (take n bad)" "[2..<min 10 (length bad) + 1]" n]
  by (auto simp: find_chunk_def simp del: upt_Suc)

function post_loop :: "align_cfg \<Rightarrow> alignment_pair list \<Rightarrow> alignment_pair list option" where
  "post_loop cfg [] = Some []"
| "post_loop cfg (cur # rest) =
     (if coarse_equal cur
      then map_option (\<lambda>out. split_pair (s_tokens cur) (t_tokens cur) (s_start cur) (t_start cur) @ out) (post_loop cfg rest)
      else
        let good = takeWhile pair_matches (cur # rest); bad = dropWhile pair_matches (cur # rest) in
        if bad = [] then Some (cur # rest)
        else
          (case find_chunk bad of
             Some n \<Rightarrow>
               Option.bind (realign_chunk cfg (take n bad)) (\<lambda>fixed.
                 map_option (\<lambda>out. good @ fixed @ out) (post_loop cfg (drop n bad)))
           | None \<Rightarrow> map_option (\<lambda>out. good @ hd bad # out) (post_loop cfg (tl bad))))"
  by pat_completeness auto

termination
proof (relation "measure (\<lambda>(cfg, ps). length ps)")
  fix cfg :: align_cfg and cur :: alignment_pair and rest good bad n
  assume bad: "bad = dropWhile pair_matches (cur # rest)" and n: "find_chunk bad = Some n" and ne: "bad \<noteq> []"
  have "length bad \<le> Suc (length rest)" unfolding bad by (rule length_dropWhile_less)
  then show "((cfg, drop n bad), (cfg, cur # rest)) \<in> measure (\<lambda>(cfg, ps). length ps)"
    using find_chunk_bounds [OF n] ne by auto
next
  fix cfg :: align_cfg and cur :: alignment_pair and rest good bad
  assume bad: "bad = dropWhile pair_matches (cur # rest)" and ne: "bad \<noteq> []"
  have "length bad \<le> Suc (length rest)" unfolding bad by (rule length_dropWhile_less)
  then show "((cfg, tl bad), (cfg, cur # rest)) \<in> measure (\<lambda>(cfg, ps). length ps)"
    using ne by (cases bad) auto
qed auto

definition post_process_alignment :: "align_cfg \<Rightarrow> alignment_pair list \<Rightarrow> rat \<Rightarrow> alignment_pair list option" where
  "post_process_alignment cfg pairs end_mismatch_threshold =
     (if pairs = [] then Some []
      else post_loop cfg (combine_consecutive_misaligned pairs end_mismatch_threshold))"

section \<open>One sample\<close>

definition remap_side :: "(nat \<times> nat) list \<Rightarrow> int \<Rightarrow> int \<Rightarrow> int \<times> int" where
  "remap_side canon_to_orig st en =
     (if st \<noteq> -1 then (int (fst (canon_to_orig ! nat st)), int (snd (canon_to_orig ! nat (en - 1)))) else (st, en))"

definition remap_pair :: "(nat \<times> nat) list \<Rightarrow> (nat \<times> nat) list \<Rightarrow> alignment_pair \<Rightarrow> alignment_pair" where
  "remap_pair s_map t_map p =
     (let (s0, s1) = remap_side s_map (s_start p) (s_end p); (t0, t1) = remap_side t_map (t_start p) (t_end p)
      in p\<lparr>s_start := s0, s_end := s1, t_start := t0, t_end := t1\<rparr>)"

definition class_cfg :: "nat \<Rightarrow> align_cfg" where
  "class_cfg max_comb_len =
     \<lparr>exact_match_score = 3, combination_score_multiplier = 3 / 2, gap_penalty = - (3 / 2),
      max_combination_len = max_comb_len, ignore_leading_char_diff = False\<rparr>"

definition align_single :: "nat \<Rightarrow> token list \<Rightarrow> token list \<Rightarrow> alignment_pair list option" where
  "align_single max_comb_len student_tokens teacher_tokens =
     (let s = canonicalize_sequence student_tokens; t = canonicalize_sequence teacher_tokens; cfg = class_cfg max_comb_len in
      Option.bind (align_with_anchors cfg (map fst s) (map fst t) [3]) (\<lambda>(aligned, _).
      map_option (\<lambda>aligned. map (\<lambda>p. p\<lparr>is_correct := pair_matches p\<rparr>) (map (remap_pair (map snd s) (map snd t)) aligned))
        (post_process_alignment cfg aligned (1 / 5))))"

section \<open>The batch\<close>

record alignment_batch =
  pair_valid :: "bool list list"
  pair_is_correct :: "bool list list"
  student_exact_partition_mask :: "bool list list"
  teacher_exact_partition_mask :: "bool list list"
  student_chunk_id :: "int list list"
  teacher_chunk_id :: "int list list"
  num_chunks :: "int list"

text \<open>One side of one sample: the chunk index of every position.\<close>

definition write_chunk :: "nat \<Rightarrow> (int \<times> int) \<Rightarrow> nat \<Rightarrow> int list \<Rightarrow> int list" where
  "write_chunk t sp pair_i ids =
     (let (st, en) = sp in
      if st \<noteq> -1 \<and> en \<noteq> -1 \<and> 0 \<le> st \<and> st < int t \<and> 0 < en \<and> en \<le> int t
      then assign_span ids (nat st) (nat (en - st)) (int pair_i) else ids)"

definition chunk_ids :: "nat \<Rightarrow> (int \<times> int) list \<Rightarrow> int list" where
  "chunk_ids t spans = fold (\<lambda>(k, sp). write_chunk t sp k) (enumerate 0 spans) (replicate t (-1))"

definition exact_pair :: "alignment_pair \<Rightarrow> bool" where
  "exact_pair p \<longleftrightarrow> is_correct p \<and> s_start p \<noteq> -1 \<and> t_start p \<noteq> -1 \<and> s_end p - s_start p = 1 \<and> t_end p - t_start p = 1"

definition partition_mask :: "nat \<Rightarrow> int list \<Rightarrow> bool list" where
  "partition_mask t starts =
     fold (\<lambda>st mask. if 0 \<le> st \<and> st < int t then mask[nat st := True] else mask) starts (replicate t False)"

definition pad_row :: "nat \<Rightarrow> bool list \<Rightarrow> bool list" where
  "pad_row n xs = xs @ replicate (n - length xs) False"

definition pairs_to_batch :: "alignment_pair list list \<Rightarrow> nat \<Rightarrow> nat \<Rightarrow> alignment_batch" where
  "pairs_to_batch per_sample_pairs t_s t_t =
     (let max_pairs = max (foldl max 0 (map length per_sample_pairs)) 1 in
      \<lparr>pair_valid = map (\<lambda>pairs. pad_row max_pairs (map (\<lambda>p. True) pairs)) per_sample_pairs,
       pair_is_correct = map (\<lambda>pairs. pad_row max_pairs (map is_correct pairs)) per_sample_pairs,
       student_exact_partition_mask = map (\<lambda>pairs. partition_mask t_s (map s_start (filter exact_pair pairs))) per_sample_pairs,
       teacher_exact_partition_mask = map (\<lambda>pairs. partition_mask t_t (map t_start (filter exact_pair pairs))) per_sample_pairs,
       student_chunk_id = map (\<lambda>pairs. chunk_ids t_s (map (\<lambda>p. (s_start p, s_end p)) pairs)) per_sample_pairs,
       teacher_chunk_id = map (\<lambda>pairs. chunk_ids t_t (map (\<lambda>p. (t_start p, t_end p)) pairs)) per_sample_pairs,
       num_chunks = map (\<lambda>pairs. int (length pairs)) per_sample_pairs\<rparr>)"

definition mask_rows :: "'a \<Rightarrow> int list list option \<Rightarrow> 'a list list \<Rightarrow> 'a list list" where
  "mask_rows fill attention rows =
     (case attention of None \<Rightarrow> rows | Some am \<Rightarrow> map2 (map2 (\<lambda>m x. if m = 0 then fill else x)) am rows)"

definition drop_padding :: "alignment_batch \<Rightarrow> int list list option \<Rightarrow> int list list option \<Rightarrow> alignment_batch" where
  "drop_padding batch student_attention_mask teacher_attention_mask =
     batch\<lparr>student_chunk_id := mask_rows (-1) student_attention_mask (student_chunk_id batch),
       student_exact_partition_mask := mask_rows False student_attention_mask (student_exact_partition_mask batch),
       teacher_chunk_id := mask_rows (-1) teacher_attention_mask (teacher_chunk_id batch),
       teacher_exact_partition_mask := mask_rows False teacher_attention_mask (teacher_exact_partition_mask batch)\<rparr>"

text \<open>\<open>align\<close> on rectangular id tensors of widths \<open>t_s\<close> and \<open>t_t\<close>; masks have the shape of their ids.\<close>

definition align ::
  "(int list \<Rightarrow> token list) \<Rightarrow> (int list \<Rightarrow> token list) \<Rightarrow> nat \<Rightarrow> nat \<Rightarrow> nat \<Rightarrow> int list list \<Rightarrow> int list list
    \<Rightarrow> int list list option \<Rightarrow> int list list option \<Rightarrow> alignment_batch result option" where
  "align student_tok teacher_tok max_comb_len t_s t_t student_ids teacher_ids student_attention_mask teacher_attention_mask =
     (if length student_ids \<noteq> length teacher_ids then Some (Inl AssertionError)
      else
        map_option (\<lambda>per_sample. Inr (drop_padding (pairs_to_batch per_sample t_s t_t) student_attention_mask teacher_attention_mask))
          (those (map2 (\<lambda>s t. align_single max_comb_len (student_tok s) (teacher_tok t)) student_ids teacher_ids)))"

section \<open>Shifted segments and anchors\<close>

definition shift_side :: "int \<Rightarrow> side \<Rightarrow> side" where
  "shift_side by_s sd = (case sd of (toks, st, en) \<Rightarrow> (toks, shift_index by_s st, shift_index by_s en))"

lemma covers_shift:
  "covers (take n (drop l xs)) i sides j \<Longrightarrow> l + n \<le> length xs \<Longrightarrow> covers xs (l + i) (map (shift_side (int l)) sides) (l + j)"
proof (induction sides arbitrary: i)
  case (Cons sd sides)
  obtain toks st en where sd: "sd = (toks, st, en)" by (cases sd)
  have c: "i + length toks \<le> n" "toks = take (length toks) (drop i (take n (drop l xs)))"
    "(st, en) = (if toks = [] then (-1, -1) else (int i, int (i + length toks)))"
    "covers (take n (drop l xs)) (i + length toks) sides j"
    using Cons.prems sd by auto
  have "toks = take (length toks) (drop (l + i) xs)"
    using c(1,2) by (simp add: drop_take take_take min_def add.commute split: if_splits)
  moreover have "covers xs (l + i + length toks) (map (shift_side (int l)) sides) (l + j)"
    using Cons.IH [OF c(4) Cons.prems(2)] by (simp add: add.assoc)
  moreover have "shift_side (int l) sd = (toks, if toks = [] then (-1, -1) else (int (l + i), int (l + i + length toks)))"
    using c(3) by (cases "toks = []") (simp_all add: sd shift_side_def shift_index_def)
  moreover have "l + i + length toks \<le> length xs" using c(1) Cons.prems(2) by simp
  ultimately show ?case by (cases "toks = []") simp_all
qed simp

lemma covers_empty_shift: "covers [] i sides j \<Longrightarrow> map (shift_side by_s) sides = sides"
  by (induction sides arbitrary: i) (auto simp: shift_side_def shift_index_def)

lemma covers_singles:
  "i + n \<le> length xs \<Longrightarrow> covers xs i (map (\<lambda>k. ([xs ! (i + k)], int (i + k), int (i + k) + 1)) [0..<n]) (i + n)"
proof (induction n)
  case (Suc n)
  let ?f = "\<lambda>k. ([xs ! (i + k)], int (i + k), int (i + k) + 1)"
  have "covers xs i (map ?f [0..<n]) (i + n)" using Suc by simp
  moreover have "covers xs (i + n) [?f n] (i + Suc n)" using Suc.prems by (simp add: take_one)
  ultimately have "covers xs i (map ?f [0..<n] @ [?f n]) (i + Suc n)" unfolding covers_app by blast
  then show ?case by (simp only: upt_Suc_append le0 list.map map_append)
qed simp

lemma split_sides:
  assumes "covers xs i [(toks, st, en)] j" "toks \<noteq> []"
  shows "covers xs i (map (\<lambda>k. ([toks ! k], st + int k, st + int k + 1)) [0..<length toks]) j"
proof -
  have c: "j = i + length toks" "j \<le> length xs" "toks = take (length toks) (drop i xs)" "st = int i"
    using assms by (auto simp: covers_one)
  have "toks ! k = xs ! (i + k)" if "k < length toks" for k
    using c(1,2) that by (subst c(3)) simp
  then have eq: "map (\<lambda>k. ([toks ! k], st + int k, st + int k + 1)) [0..<length toks]
      = map (\<lambda>k. ([xs ! (i + k)], int (i + k), int (i + k) + 1)) [0..<length toks]"
    by (intro map_cong refl) (simp add: c(4))
  show ?thesis unfolding eq c(1) using c(1,2) by (intro covers_singles) simp
qed

lemma split_pair_tiles:
  assumes "tiles s t i j [p] i' j'" "coarse_equal p"
  shows "tiles s t i j (split_pair (s_tokens p) (t_tokens p) (s_start p) (t_start p)) i' j'"
proof -
  have ne: "s_tokens p \<noteq> []" "t_tokens p \<noteq> []" "length (s_tokens p) = length (t_tokens p)"
    using assms(2) by (auto simp: coarse_equal_def)
  have "map s_side (split_pair (s_tokens p) (t_tokens p) (s_start p) (t_start p))
      = map (\<lambda>k. ([s_tokens p ! k], s_start p + int k, s_start p + int k + 1)) [0..<length (s_tokens p)]"
    "map t_side (split_pair (s_tokens p) (t_tokens p) (s_start p) (t_start p))
      = map (\<lambda>k. ([t_tokens p ! k], t_start p + int k, t_start p + int k + 1)) [0..<length (t_tokens p)]"
    by (simp_all add: split_pair_def comp_def ne(3))
  moreover have "covers s i [(s_tokens p, s_start p, s_end p)] i'" "covers t j [(t_tokens p, t_start p, t_end p)] j'"
    using assms(1) unfolding tiles_def s_side_def t_side_def list.map by (simp_all only:)
  ultimately show ?thesis
    by (simp only: tiles_def split_sides [OF _ ne(1)] split_sides [OF _ ne(2)] simp_thms)
qed

text \<open>A pair with shifted spans; \<open>shift_pairs\<close> shifts every pair and splits the coarse ones.\<close>

definition shifted :: "int \<Rightarrow> int \<Rightarrow> alignment_pair \<Rightarrow> alignment_pair" where
  "shifted bs bt p = mk_pair (s_tokens p) (t_tokens p) (shift_index bs (s_start p)) (shift_index bs (s_end p))
     (shift_index bt (t_start p)) (shift_index bt (t_end p))"

lemma shifted_sides [simp]:
  "s_side (shifted bs bt p) = shift_side bs (s_side p)" "t_side (shifted bs bt p) = shift_side bt (t_side p)"
  by (simp_all add: shifted_def shift_side_def s_side_def t_side_def)

lemma covers_Cons: "covers xs i (sd # sides) j \<longleftrightarrow> (\<exists>m. covers xs i [sd] m \<and> covers xs m sides j)"
  using covers_app [of xs i "[sd]" sides j] by (simp only: append_Cons append_Nil)

lemma tiles_Cons: "tiles s t i j (p # ps) i' j' \<longleftrightarrow> (\<exists>m n. tiles s t i j [p] m n \<and> tiles s t m n ps i' j')"
  using tiles_append [of s t i j "[p]" ps] by (simp only: append_Cons append_Nil)

lemma shift_pairs_tiles: "tiles s t i j (map (shifted bs bt) ps) i' j' \<Longrightarrow> tiles s t i j (shift_pairs ps bs bt) i' j'"
proof (induction ps arbitrary: i j)
  case (Cons p ps)
  obtain m n where head: "tiles s t i j [shifted bs bt p] m n" and rest: "tiles s t m n (map (shifted bs bt) ps) i' j'"
    using iffD1 [OF tiles_Cons Cons.prems [unfolded list.map]] by blast
  have "coarse_equal p \<longleftrightarrow> coarse_equal (shifted bs bt p)" by (simp add: coarse_equal_def shifted_def)
  then have "tiles s t i j (shift_pairs [p] bs bt) m n"
    using head split_pair_tiles [OF head] unfolding shift_pairs_def Let_def by (simp add: shifted_def)
  then have "tiles s t i j (shift_pairs [p] bs bt @ shift_pairs ps bs bt) i' j'"
    using Cons.IH [OF rest] tiles_append by blast
  then show ?case by (simp add: shift_pairs_def)
qed (simp add: shift_pairs_def)

lemma segment_tiles:
  assumes "a + n \<le> length s" "b + m \<le> length t"
  shows "\<exists>ps. align_segment cfg (take n (drop a s)) (take m (drop b t)) a b = Some ps \<and> tiles s t a b ps (a + n) (b + m)"
proof (cases "take n (drop a s) \<noteq> [] \<or> take m (drop b t) \<noteq> []")
  case True
  have len: "length (take n (drop a s)) = n" "length (take m (drop b t)) = m" using assms by simp_all
  obtain ps v where ps: "align_dp cfg (take n (drop a s)) (take m (drop b t)) = Some (ps, v)"
    "tiles (take n (drop a s)) (take m (drop b t)) 0 0 ps n m"
    using align_dp_spec [of cfg "take n (drop a s)" "take m (drop b t)"] len by auto
  have "tiles s t a b (map (shifted (int a) (int b)) ps) (a + n) (b + m)"
    using ps(2) covers_shift [of n a s 0 "map s_side ps" n] covers_shift [of m b t 0 "map t_side ps" m] assms
    by (simp add: tiles_def comp_def)
  then show ?thesis using True ps(1) shift_pairs_tiles by (auto simp: align_segment_def)
next
  case False
  then have "n = 0" "m = 0" using assms by auto
  then show ?thesis using False by (auto simp: align_segment_def)
qed

fun anchors_ok :: "token list \<Rightarrow> token list \<Rightarrow> nat \<Rightarrow> nat \<Rightarrow> (nat \<times> nat \<times> nat) list \<Rightarrow> bool" where
  "anchors_ok s t a b [] \<longleftrightarrow> a \<le> length s \<and> b \<le> length t"
| "anchors_ok s t a b ((i, j, k) # as) \<longleftrightarrow> a \<le> i \<and> b \<le> j \<and> i + k \<le> length s \<and> j + k \<le> length t \<and> anchors_ok s t (i + k) (j + k) as"

lemma anchor_pairs_tiles:
  assumes "i + k \<le> length s" "j + k \<le> length t"
  shows "tiles s t i j (anchor_pairs s t i j k) (i + k) (j + k)"
  using covers_singles [OF assms(1)] covers_singles [OF assms(2)] by (simp add: tiles_def anchor_pairs_def comp_def)

lemma anchor_loop_tiles:
  "anchors_ok s t a b as \<Longrightarrow> \<exists>ps. anchor_loop cfg s t a b as = Some ps \<and> tiles s t a b ps (length s) (length t)"
proof (induction cfg s t a b as rule: anchor_loop.induct)
  case (1 cfg s t a b)
  then show ?case using segment_tiles [of a "length s - a" s b "length t - b" t cfg] by simp
next
  case (2 cfg s t a b i j k as)
  have ok: "a \<le> i" "b \<le> j" "i + k \<le> length s" "j + k \<le> length t" "anchors_ok s t (i + k) (j + k) as" using "2.prems" by auto
  obtain seg where seg: "align_segment cfg (take (i - a) (drop a s)) (take (j - b) (drop b t)) a b = Some seg"
    "tiles s t a b seg i j"
    using segment_tiles [of a "i - a" s b "j - b" t cfg] ok by auto
  obtain rest where rest: "anchor_loop cfg s t (i + k) (j + k) as = Some rest" "tiles s t (i + k) (j + k) rest (length s) (length t)"
    using "2.IH" [OF seg(1) ok(5)] by auto
  have "tiles s t a b (seg @ anchor_pairs s t i j k @ rest) (length s) (length t)"
    using seg(2) rest(2) anchor_pairs_tiles [OF ok(3,4)] tiles_append by blast
  then show ?case using seg(1) rest(1) by simp
qed

section \<open>The anchors\<close>

lemma potential_anchors_bounds:
  assumes "(i, j, k') \<in> set (potential_anchors s t k)"
  shows "k' = k \<and> i + k \<le> length s \<and> j + k \<le> length t"
proof -
  obtain i0 where i0: "i0 < length s + 1 - k" "i = i0" "k' = k" "j = hd (ngram_positions t k (ngram s k i0))"
    "length (ngram_positions t k (ngram s k i0)) = 1"
    using assms by (auto simp: potential_anchors_def Let_def split: if_splits)
  then have "j \<in> set (ngram_positions t k (ngram s k i0))"
    by (metis hd_in_set length_0_conv zero_neq_one)
  then show ?thesis using i0 by (auto simp: ngram_positions_def)
qed

text \<open>The half-open range of an anchor on the student side.\<close>

definition s_range :: "nat \<times> nat \<times> nat \<Rightarrow> nat set" where
  "s_range a = (case a of (i, j, k) \<Rightarrow> {i..<i + k})"

lemma select_anchors_spec:
  assumes "\<forall>(i, j, k) \<in> set as. 0 < k"
  shows "set (select_anchors us ut as) \<subseteq> set as \<and> distinct (select_anchors us ut as)
    \<and> (\<forall>a \<in> set (select_anchors us ut as). s_range a \<inter> us = {})
    \<and> (\<forall>a \<in> set (select_anchors us ut as). \<forall>b \<in> set (select_anchors us ut as). a \<noteq> b \<longrightarrow> s_range a \<inter> s_range b = {})"
  using assms
proof (induction us ut as rule: select_anchors.induct)
  case (2 us ut i j k as)
  let ?r1 = "set [i..<i + k]" and ?r2 = "set [j..<j + k]"
  have r: "s_range (i, j, k) = ?r1" "s_range (i, j, k) \<noteq> {}" using "2.prems" by (auto simp: s_range_def)
  have pos: "\<forall>(i, j, k) \<in> set as. 0 < k" using "2.prems" by auto
  show ?case
  proof (cases "?r1 \<inter> us = {} \<and> ?r2 \<inter> ut = {}")
    case True
    note IH = "2.IH" (1) [OF refl refl True pos]
    let ?rest = "select_anchors (us \<union> ?r1) (ut \<union> ?r2) as"
    have sel: "select_anchors us ut ((i, j, k) # as) = (i, j, k) # ?rest" using True by simp
    have dis: "s_range a \<inter> us = {} \<and> s_range a \<inter> s_range (i, j, k) = {}" if "a \<in> set ?rest" for a
      using IH that unfolding r(1) by blast
    have "(i, j, k) \<notin> set ?rest" using dis r(2) by blast
    then show ?thesis
      unfolding sel using IH dis True r(1) by (simp only: list.set distinct.simps) blast
  next
    case False
    have "select_anchors us ut ((i, j, k) # as) = select_anchors us ut as"
      using False unfolding select_anchors.simps Let_def by (rule if_not_P)
    then show ?thesis using "2.IH" (2) [OF refl refl False pos] by auto
  qed
qed simp

lemma validate_anchors_ok:
  assumes "sorted as" "distinct as" "a \<le> length s" "b \<le> length t"
    and "\<forall>(i, j, k) \<in> set as. 0 < k \<and> a \<le> i \<and> i + k \<le> length s \<and> j + k \<le> length t"
    and "\<forall>x \<in> set as. \<forall>y \<in> set as. x \<noteq> y \<longrightarrow> s_range x \<inter> s_range y = {}"
  shows "anchors_ok s t a b (validate_anchors s t (int b - 1) as)"
  using assms
proof (induction as arbitrary: a b)
  case (Cons x as)
  obtain i j k where x: "x = (i, j, k)" by (cases x)
  have bnd: "0 < k" "a \<le> i" "i + k \<le> length s" "j + k \<le> length t" using Cons.prems(5) x by auto
  have rest: "sorted as" "distinct as" "\<forall>x \<in> set as. \<forall>y \<in> set as. x \<noteq> y \<longrightarrow> s_range x \<inter> s_range y = {}"
    "\<forall>(i, j, k) \<in> set as. 0 < k \<and> a \<le> i \<and> i + k \<le> length s \<and> j + k \<le> length t"
    using Cons.prems by simp_all
  have after: "i + k \<le> i'" if "(i', j', k') \<in> set as" for i' j' k'
  proof -
    have "x \<le> (i', j', k')" using Cons.prems(1) that by auto
    then have "i \<le> i'" by (auto simp: x less_eq_prod_def)
    moreover have "x \<noteq> (i', j', k')" using Cons.prems(2) that by auto
    then have "s_range x \<inter> s_range (i', j', k') = {}" using Cons.prems(6) that by simp
    then have "i' \<notin> s_range x" using Cons.prems(5) that by (fastforce simp: s_range_def)
    ultimately show ?thesis by (simp add: x s_range_def)
  qed
  show ?case
  proof (cases "int j > int b - 1 \<and> ngram s k i = ngram t k j")
    case True
    have "\<forall>(i', j', k') \<in> set as. 0 < k' \<and> i + k \<le> i' \<and> i' + k' \<le> length s \<and> j' + k' \<le> length t"
      using after rest(4) by fastforce
    then have "anchors_ok s t (i + k) (j + k) (validate_anchors s t (int (j + k) - 1) as)"
      using Cons.IH [OF rest(1,2) bnd(3,4)] rest(3) by blast
    then show ?thesis using True bnd by (simp add: x)
  next
    case False
    then have "validate_anchors s t (int b - 1) (x # as) = validate_anchors s t (int b - 1) as" by (auto simp: x)
    then show ?thesis using Cons.IH [OF rest(1,2) Cons.prems(3,4) rest(4,3)] by simp
  qed
qed simp

lemma align_with_anchors_tiles:
  assumes "0 \<notin> set lens"
  shows "\<exists>ps v. align_with_anchors cfg s t lens = Some (ps, v) \<and> tiles s t 0 0 ps (length s) (length t)"
proof -
  define potential where "potential = sort_key anchor_key (concat (map (potential_anchors s t) lens))"
  define selected where "selected = sort (select_anchors {} {} potential)"
  define validated where "validated = validate_anchors s t (-1) selected"
  have pot: "0 < k \<and> i + k \<le> length s \<and> j + k \<le> length t" if mem: "(i, j, k) \<in> set potential" for i j k
  proof -
    obtain n where n: "n \<in> set lens" "(i, j, k) \<in> set (potential_anchors s t n)" using mem by (auto simp: potential_def)
    have "n \<noteq> 0" using n(1) assms by metis
    then show ?thesis using potential_anchors_bounds [OF n(2)] by simp
  qed
  then have pos: "\<forall>(i, j, k) \<in> set potential. 0 < k" by blast
  note sel = select_anchors_spec [OF pos, of "{}" "{}"]
  have "anchors_ok s t 0 0 (validate_anchors s t (int 0 - 1) selected)"
    using sel pot unfolding selected_def by (intro validate_anchors_ok) auto
  then have ok: "anchors_ok s t 0 0 validated" by (simp add: validated_def)
  obtain full where full: "anchor_loop cfg s t 0 0 validated = Some full" "tiles s t 0 0 full (length s) (length t)"
    using anchor_loop_tiles [OF ok] by blast
  have "align_with_anchors cfg s t lens =
      (if lens = [] \<or> validated = [] then align_dp cfg s t else map_option (\<lambda>full. (full, 0)) (anchor_loop cfg s t 0 0 validated))"
    unfolding align_with_anchors_def Let_def validated_def selected_def potential_def by simp
  then show ?thesis using align_dp_spec [of cfg s t] full by (cases "lens = [] \<or> validated = []") auto
qed

section \<open>Merged and realigned chunks\<close>

text \<open>The spans of the sides that have tokens.\<close>

definition spans_of :: "side list \<Rightarrow> (int \<times> int) list" where
  "spans_of sides = map snd (filter (\<lambda>sd. fst sd \<noteq> []) sides)"

lemma covers_nonneg: "covers xs i sides j \<Longrightarrow> sd \<in> set sides \<Longrightarrow> fst sd \<noteq> [] \<longleftrightarrow> fst (snd sd) \<noteq> -1"
proof (induction sides arbitrary: i)
  case (Cons sd' sides)
  obtain toks st en where "sd' = (toks, st, en)" by (cases sd')
  then show ?case using Cons by (cases "toks = []") auto
qed simp

lemma covers_bound: "covers xs i sides j \<Longrightarrow> i \<le> length xs \<Longrightarrow> j \<le> length xs"
proof (induction sides arbitrary: i)
  case (Cons sd sides)
  then show ?case by (cases sd) auto
qed simp

lemma covers_spans:
  "covers xs i sides j \<Longrightarrow>
     (spans_of sides = [] \<longleftrightarrow> i = j) \<and> (\<forall>sp \<in> set (spans_of sides). int i \<le> fst sp \<and> snd sp \<le> int j)
     \<and> (i < j \<longrightarrow> int i \<in> set (map fst (spans_of sides)) \<and> int j \<in> set (map snd (spans_of sides)))"
proof (induction sides arbitrary: i)
  case (Cons sd sides)
  obtain toks st en where sd: "sd = (toks, st, en)" by (cases sd)
  have c: "(st, en) = (if toks = [] then (-1, -1) else (int i, int (i + length toks)))" "covers xs (i + length toks) sides j"
    using Cons.prems sd by auto
  note IH = Cons.IH [OF c(2)]
  show ?case
  proof (cases "toks = []")
    case True
    then show ?thesis using IH by (simp add: sd spans_of_def)
  next
    case False
    have ij: "i < i + length toks" "i + length toks \<le> j" using False covers_le [OF c(2)] by auto
    have cons: "spans_of (sd # sides) = (int i, int (i + length toks)) # spans_of sides"
      using False c(1) by (simp add: sd spans_of_def)
    have "int j \<in> set (map snd (spans_of (sd # sides)))" using IH ij unfolding cons by (cases "i + length toks = j") auto
    moreover have "int i \<le> fst sp \<and> snd sp \<le> int j" if "sp \<in> set (spans_of (sd # sides))" for sp
      using that IH ij unfolding cons by force
    moreover have "i \<noteq> j" using ij by linarith
    ultimately show ?thesis unfolding cons by simp
  qed
qed (simp add: spans_of_def)

lemma covers_span:
  assumes "covers xs i sides j"
  shows "span_start (spans_of sides) = (if i = j then -1 else int i)" "span_end (spans_of sides) = (if i = j then -1 else int j)"
proof -
  note sp = covers_spans [OF assms]
  have "span_start (spans_of sides) = int i" "span_end (spans_of sides) = int j" if "i \<noteq> j"
  proof -
    have lt: "i < j" using covers_le [OF assms] that by simp
    have "Min (set (map fst (spans_of sides))) = int i" using sp lt by (intro Min_eqI) auto
    moreover have "Max (set (map snd (spans_of sides))) = int j" using sp lt by (intro Max_eqI) auto
    ultimately show "span_start (spans_of sides) = int i" "span_end (spans_of sides) = int j"
      using sp that by (simp_all add: span_start_def span_end_def)
  qed
  then show "span_start (spans_of sides) = (if i = j then -1 else int i)" "span_end (spans_of sides) = (if i = j then -1 else int j)"
    using sp by (simp_all add: span_start_def span_end_def)
qed

lemma covers_merge:
  assumes "covers xs i sides j" "i \<le> length xs"
  shows "covers xs i [(concat (map fst sides), span_start (spans_of sides), span_end (spans_of sides))] j"
proof -
  have ij: "i \<le> j" "j \<le> length xs" using covers_le [OF assms(1)] covers_bound [OF assms] .
  have toks: "concat (map fst sides) = take (j - i) (drop i xs)" "length (concat (map fst sides)) = j - i"
    using covers_tokens [OF assms(1)] ij by simp_all
  have "concat (map fst sides) = [] \<longleftrightarrow> i = j" using toks(2) ij by (metis diff_is_0_eq le_antisym length_0_conv diff_self_eq_0)
  then show ?thesis
    unfolding covers_one covers_span [OF assms(1)] toks(2) using ij toks(1) by auto
qed

lemma run_sides:
  "map fst (map s_side ps) = map s_tokens ps" "map fst (map t_side ps) = map t_tokens ps"
  "spans_of (map s_side ps) = map (\<lambda>p. (s_start p, s_end p)) (filter (\<lambda>p. s_tokens p \<noteq> []) ps)"
  "spans_of (map t_side ps) = map (\<lambda>p. (t_start p, t_end p)) (filter (\<lambda>p. t_tokens p \<noteq> []) ps)"
  by (simp_all add: spans_of_def s_side_def t_side_def filter_map comp_def)

lemma combine_run_tiles:
  assumes "tiles s t i j run i' j'" "i \<le> length s" "j \<le> length t"
  shows "tiles s t i j [combine_run run] i' j'"
proof -
  have c: "covers s i (map s_side run) i'" "covers t j (map t_side run) j'" using assms(1) by (simp_all add: tiles_def)
  have nonneg: "s_tokens p \<noteq> [] \<longleftrightarrow> s_start p \<noteq> -1" "t_tokens p \<noteq> [] \<longleftrightarrow> t_start p \<noteq> -1" if "p \<in> set run" for p
    using covers_nonneg [OF c(1), of "s_side p"] covers_nonneg [OF c(2), of "t_side p"] that by (simp_all add: s_side_def t_side_def)
  have "filter (\<lambda>p. s_tokens p \<noteq> [] \<and> s_start p \<noteq> -1) run = filter (\<lambda>p. s_tokens p \<noteq> []) run"
    "filter (\<lambda>p. t_tokens p \<noteq> [] \<and> t_start p \<noteq> -1) run = filter (\<lambda>p. t_tokens p \<noteq> []) run"
    by (intro filter_cong refl; simp add: nonneg)+
  then show ?thesis
    using covers_merge [OF c(1) assms(2)] covers_merge [OF c(2) assms(3)]
    unfolding tiles_def combine_run_def Let_def run_sides list.map sides_mk by (simp only: simp_thms)
qed

lemma tiles_bounds: "tiles s t i j ps i' j' \<Longrightarrow> i \<le> length s \<Longrightarrow> j \<le> length t \<Longrightarrow> i' \<le> length s \<and> j' \<le> length t"
  by (auto simp: tiles_def covers_bound)

lemma takeWhile_take_split:
  "takeWhile P (take m xs) @ drop (length (takeWhile P (take m xs))) xs = xs"
proof -
  have "length (takeWhile P (take m xs)) \<le> m" using length_takeWhile_le [of P "take m xs"] by simp
  then have "takeWhile P (take m xs) = take (length (takeWhile P (take m xs))) xs"
    by (metis min_absorb1 take_take takeWhile_eq_take)
  then show ?thesis by (metis append_take_drop_id)
qed

lemma combine_loop_tiles:
  "tiles s t i j ps i' j' \<Longrightarrow> i \<le> length s \<Longrightarrow> j \<le> length t \<Longrightarrow> tiles s t i j (combine_loop b n ps) i' j'"
proof (induction b n ps arbitrary: i j rule: combine_loop.induct)
  case (2 b n p ps)
  define more where "more = takeWhile (\<lambda>q. \<not> pair_matches q) (take (nat (b - int n - 1)) ps)"
  show ?case
  proof (cases "int n < b \<and> \<not> pair_matches p \<and> ps \<noteq> [] \<and> length (p # more) \<ge> 2")
    case True
    have "p # ps = (p # more) @ drop (length (p # more)) (p # ps)"
      unfolding more_def using takeWhile_take_split [of _ _ ps] by simp
    then obtain m k where a: "tiles s t i j (p # more) m k" and r: "tiles s t m k (drop (length (p # more)) (p # ps)) i' j'"
      using "2.prems"(1) tiles_append by metis
    note mk = tiles_bounds [OF a "2.prems"(2,3)]
    have "tiles s t m k (combine_loop b (n + length (p # more)) (drop (length (p # more)) (p # ps))) i' j'"
      using "2.IH"(1) [OF refl _ r [unfolded more_def]] True mk unfolding more_def by blast
    then have "tiles s t i j (combine_run (p # more) # combine_loop b (n + length (p # more)) (drop (length (p # more)) (p # ps))) i' j'"
      using combine_run_tiles [OF a "2.prems"(2,3)] by (intro iffD2 [OF tiles_Cons]) blast
    then show ?thesis using True unfolding more_def combine_loop.simps Let_def by (simp only: if_True simp_thms)
  next
    case False
    obtain m k where a: "tiles s t i j [p] m k" and r: "tiles s t m k ps i' j'"
      using iffD1 [OF tiles_Cons "2.prems"(1)] by blast
    note mk = tiles_bounds [OF a "2.prems"(2,3)]
    have "tiles s t m k (combine_loop b (n + 1) ps) i' j'"
      using "2.IH"(2) [OF refl _ r] False mk unfolding more_def by blast
    then have "tiles s t i j (p # combine_loop b (n + 1) ps) i' j'" using a by (intro iffD2 [OF tiles_Cons]) blast
    then show ?thesis using False unfolding more_def combine_loop.simps Let_def by (simp only: if_False simp_thms)
  qed
qed simp

lemma covers_empty: "covers [] 0 sides 0 \<Longrightarrow> i \<le> length xs \<Longrightarrow> covers xs i sides i"
proof (induction sides)
  case (Cons sd sides)
  then show ?case by (cases sd) auto
qed simp

lemma covers_moved:
  assumes "covers (take (j - i) (drop i xs)) 0 sides (j - i)" "i \<le> j" "j \<le> length xs"
  shows "covers xs i (map (shift_side (if i = j then -1 else int i)) sides) j"
proof (cases "i = j")
  case True
  then show ?thesis
    using assms covers_empty_shift [of 0 sides 0 "-1"] covers_empty [of sides i xs] by simp
next
  case False
  then show ?thesis using covers_shift [of "j - i" i xs 0 sides "j - i"] assms by simp
qed

lemma tiles_shifted:
  "tiles s t i j (map (shifted bs bt) ps) i' j' \<longleftrightarrow>
     covers s i (map (shift_side bs) (map s_side ps)) i' \<and> covers t j (map (shift_side bt) (map t_side ps)) j'"
  by (simp add: tiles_def comp_def)

lemma realign_chunk_tiles:
  assumes "tiles s t i j chunk i' j'" "i \<le> length s" "j \<le> length t"
  shows "\<exists>fixed. realign_chunk cfg chunk = Some fixed \<and> tiles s t i j fixed i' j'"
proof -
  let ?s = "concat (map s_tokens chunk)" and ?t = "concat (map t_tokens chunk)"
  let ?si = "spans_of (map s_side chunk)" and ?ti = "spans_of (map t_side chunk)"
  have c: "covers s i (map s_side chunk) i'" "covers t j (map t_side chunk) j'" using assms(1) by (simp_all add: tiles_def)
  have le: "i \<le> i'" "j \<le> j'" "i' \<le> length s" "j' \<le> length t"
    using covers_le [OF c(1)] covers_le [OF c(2)] tiles_bounds [OF assms] by simp_all
  have toks: "?s = take (i' - i) (drop i s)" "?t = take (j' - j) (drop j t)"
    using covers_tokens [OF c(1)] covers_tokens [OF c(2)] by (simp_all only: run_sides)
  obtain sub v where sub: "align_dp (cfg\<lparr>ignore_leading_char_diff := False\<rparr>) ?s ?t = Some (sub, v)"
    "tiles ?s ?t 0 0 sub (i' - i) (j' - j)"
    using align_dp_spec [of "cfg\<lparr>ignore_leading_char_diff := False\<rparr>" ?s ?t] le toks by auto
  have moved: "tiles s t i j (map (shifted (span_start ?si) (span_start ?ti)) sub) i' j'"
    unfolding tiles_shifted covers_span [OF c(1)] covers_span [OF c(2)]
    using sub(2) [unfolded tiles_def toks] covers_moved [OF _ le(1,3)] covers_moved [OF _ le(2,4)] by blast
  have merged: "tiles s t i j [mk_pair ?s ?t (span_start ?si) (span_end ?si) (span_start ?ti) (span_end ?ti)] i' j'"
    using covers_merge [OF c(1) assms(2)] covers_merge [OF c(2) assms(3)] by (simp only: tiles_def list.map sides_mk run_sides simp_thms)
  have "realign_chunk cfg chunk = Some (if list_all pair_matches sub then map (shifted (span_start ?si) (span_start ?ti)) sub
      else [mk_pair ?s ?t (span_start ?si) (span_end ?si) (span_start ?ti) (span_end ?ti)])"
    using sub(1) by (simp add: realign_chunk_def flatten_chunk_def run_sides shifted_def [abs_def] Let_def)
  with moved merged show ?thesis by (cases "list_all pair_matches sub") auto
qed

lemma post_loop_tiles:
  "tiles s t i j ps i' j' \<Longrightarrow> i \<le> length s \<Longrightarrow> j \<le> length t
    \<Longrightarrow> \<exists>out. post_loop cfg ps = Some out \<and> tiles s t i j out i' j'"
proof (induction cfg ps arbitrary: i j rule: post_loop.induct)
  case (2 cfg cur rest)
  let ?good = "takeWhile pair_matches (cur # rest)" and ?bad = "dropWhile pair_matches (cur # rest)"
  obtain m k where a: "tiles s t i j [cur] m k" and r: "tiles s t m k rest i' j'"
    using iffD1 [OF tiles_Cons "2.prems"(1)] by blast
  have "tiles s t i j (?good @ ?bad) i' j'" using "2.prems"(1) by simp
  then obtain m' k' where g: "tiles s t i j ?good m' k'" and b: "tiles s t m' k' ?bad i' j'" using tiles_append by metis
  note mk = tiles_bounds [OF a "2.prems"(2,3)] and mk' = tiles_bounds [OF g "2.prems"(2,3)]
  consider (coarse) "coarse_equal cur" | (good) "\<not> coarse_equal cur" "?bad = []"
    | (chunk) n where "\<not> coarse_equal cur" "?bad \<noteq> []" "find_chunk ?bad = Some n"
    | (single) "\<not> coarse_equal cur" "?bad \<noteq> []" "find_chunk ?bad = None" by blast
  then show ?case
  proof cases
    case coarse
    obtain out where out: "post_loop cfg rest = Some out" "tiles s t m k out i' j'"
      using "2.IH"(1) [OF coarse r] mk by blast
    have "tiles s t i j (split_pair (s_tokens cur) (t_tokens cur) (s_start cur) (t_start cur) @ out) i' j'"
      using split_pair_tiles [OF a coarse] out(2) tiles_append by blast
    then show ?thesis using coarse out(1) by simp
  next
    case good
    then show ?thesis using "2.prems"(1) by simp
  next
    case (chunk n)
    obtain m2 k2 where c: "tiles s t m' k' (take n ?bad) m2 k2" and d: "tiles s t m2 k2 (drop n ?bad) i' j'"
      using b by (metis append_take_drop_id tiles_append)
    note mk2 = tiles_bounds [OF c]
    obtain fixed where f: "realign_chunk cfg (take n ?bad) = Some fixed" "tiles s t m' k' fixed m2 k2"
      using realign_chunk_tiles [OF c] mk' by blast
    obtain out where out: "post_loop cfg (drop n ?bad) = Some out" "tiles s t m2 k2 out i' j'"
      using "2.IH"(3) [OF chunk(1) refl refl chunk(2,3) f(1) d] mk2 mk' by blast
    have "tiles s t i j (?good @ fixed @ out) i' j'" using g f(2) out(2) tiles_append by blast
    then show ?thesis using chunk f(1) out(1) by (simp add: Let_def del: takeWhile.simps dropWhile.simps dropWhile_eq_Nil_conv)
  next
    case single
    then obtain p bs where bs: "?bad = p # bs" by (cases ?bad) auto
    obtain m2 k2 where c: "tiles s t m' k' [p] m2 k2" and d: "tiles s t m2 k2 bs i' j'"
      using iffD1 [OF tiles_Cons b [unfolded bs]] by blast
    note mk2 = tiles_bounds [OF c]
    obtain out where out: "post_loop cfg bs = Some out" "tiles s t m2 k2 out i' j'"
      using "2.IH"(2) [OF single(1) refl refl single(2,3), of m2 k2] d mk2 mk' bs by auto
    have "tiles s t m' k' (p # out) i' j'" using c out(2) by (intro iffD2 [OF tiles_Cons]) blast
    then have "tiles s t i j (?good @ p # out) i' j'" using g tiles_append by blast
    then show ?thesis using single out(1) bs by (simp add: Let_def del: takeWhile.simps dropWhile.simps dropWhile_eq_Nil_conv)
  qed
qed simp

lemma post_process_tiles:
  assumes "tiles s t 0 0 ps (length s) (length t)"
  shows "\<exists>out. post_process_alignment cfg ps thr = Some out \<and> tiles s t 0 0 out (length s) (length t)"
proof -
  have "tiles s t 0 0 (combine_consecutive_misaligned ps thr) (length s) (length t)"
    using assms combine_loop_tiles [OF assms] by (simp add: combine_consecutive_misaligned_def)
  from post_loop_tiles [OF this] show ?thesis using assms by (auto simp: post_process_alignment_def)
qed

section \<open>Spans over the original tokens\<close>

text \<open>Spans that follow each other from \<open>i\<close> to \<open>j\<close> without gap; \<open>(-1, -1)\<close> stands for no tokens.\<close>

fun chain :: "int \<Rightarrow> (int \<times> int) list \<Rightarrow> int \<Rightarrow> bool" where
  "chain i [] j \<longleftrightarrow> i = j"
| "chain i ((st, en) # spans) j \<longleftrightarrow>
     (if (st, en) = (-1, -1) then chain i spans j else st = i \<and> i < en \<and> chain en spans j)"

definition bound :: "(nat \<times> nat) list \<Rightarrow> nat \<Rightarrow> nat \<Rightarrow> nat" where
  "bound rs n i = (if i < length rs then fst (rs ! i) else n)"

lemma bound_Cons: "bound (r # rs) n (Suc i) = bound rs n i"
  by (simp add: bound_def)

lemma bound_0: "tile a rs n \<Longrightarrow> bound rs n 0 = a"
  by (cases rs) (auto simp: bound_def)

lemma bound_step:
  "tile a rs n \<Longrightarrow> i < length rs \<Longrightarrow> fst (rs ! i) = bound rs n i \<and> snd (rs ! i) = bound rs n (Suc i) \<and> bound rs n i < bound rs n (Suc i)"
proof (induction rs arbitrary: a i)
  case (Cons r rs)
  obtain b where r: "r = (a, b)" "a < b" "tile b rs n" using Cons.prems(1) by (cases r) auto
  show ?case
  proof (cases i)
    case 0
    then show ?thesis using r bound_0 [OF r(3)] by (simp add: bound_Cons) (simp add: bound_def)
  next
    case (Suc k)
    then show ?thesis using Cons.IH [OF r(3), of k] Cons.prems(2) by (simp add: bound_Cons)
  qed
qed simp

lemma bound_less:
  assumes "tile a rs n" "i < j" "j \<le> length rs"
  shows "bound rs n i < bound rs n j"
  using assms(2,3)
proof (induction j)
  case (Suc j)
  then show ?case using bound_step [OF assms(1), of j] by (cases "i = j") auto
qed simp

lemma covers_chain:
  assumes "tile a rs n" "length rs = length xs"
  shows "covers xs i sides j \<Longrightarrow> chain (int (bound rs n i)) (map (\<lambda>(toks, st, en). remap_side rs st en) sides) (int (bound rs n j))"
proof (induction sides arbitrary: i)
  case (Cons sd sides)
  obtain toks st en where sd: "sd = (toks, st, en)" by (cases sd)
  have c: "(st, en) = (if toks = [] then (-1, -1) else (int i, int (i + length toks)))" "i + length toks \<le> length xs"
    "covers xs (i + length toks) sides j" using Cons.prems sd by auto
  note IH = Cons.IH [OF c(3)]
  show ?case
  proof (cases "toks = []")
    case True
    then show ?thesis using IH c(1) by (simp add: sd remap_side_def)
  next
    case False
    define m where "m = i + length toks"
    have m: "i < m" "m \<le> length rs" "m - 1 < length rs" "Suc (m - 1) = m" "nat (int m - 1) = m - 1"
      using False c(2) assms(2) by (cases toks; simp add: m_def nat_diff_distrib)+
    have "remap_side rs st en = (int (bound rs n i), int (bound rs n m))"
      using c(1) False m bound_step [OF assms(1), of i] bound_step [OF assms(1), of "m - 1"]
      by (simp add: remap_side_def m_def [symmetric])
    then show ?thesis using IH bound_less [OF assms(1) m(1,2)] by (simp add: sd m_def)
  qed
qed simp

lemma remap_sides:
  "(\<lambda>p. (s_start p, s_end p)) (remap_pair sm tm p) = remap_side sm (s_start p) (s_end p)"
  "(\<lambda>p. (t_start p, t_end p)) (remap_pair sm tm p) = remap_side tm (t_start p) (t_end p)"
  "s_tokens (remap_pair sm tm p) = s_tokens p" "t_tokens (remap_pair sm tm p) = t_tokens p"
  by (simp_all add: remap_pair_def split: prod.splits)

lemma align_single_facts:
  "\<exists>ps. align_single m ss ts = Some ps
    \<and> chain 0 (map (\<lambda>p. (s_start p, s_end p)) ps) (int (length ss)) \<and> chain 0 (map (\<lambda>p. (t_start p, t_end p)) ps) (int (length ts))
    \<and> concat (map s_tokens ps) = map fst (canonicalize_sequence ss) \<and> concat (map t_tokens ps) = map fst (canonicalize_sequence ts)
    \<and> map is_correct ps = map pair_matches ps"
proof -
  let ?s = "canonicalize_sequence ss" and ?t = "canonicalize_sequence ts" and ?cfg = "class_cfg m"
  obtain ps0 v where ps0: "align_with_anchors ?cfg (map fst ?s) (map fst ?t) [3] = Some (ps0, v)"
    "tiles (map fst ?s) (map fst ?t) 0 0 ps0 (length ?s) (length ?t)"
    using align_with_anchors_tiles [of "[3]" ?cfg "map fst ?s" "map fst ?t"] by auto
  obtain ps1 where ps1: "post_process_alignment ?cfg ps0 (1 / 5) = Some ps1"
    "tiles (map fst ?s) (map fst ?t) 0 0 ps1 (length ?s) (length ?t)"
    using post_process_tiles [of "map fst ?s" "map fst ?t" ps0 ?cfg "1 / 5"] ps0(2) by auto
  define ps where "ps = map (\<lambda>p. p\<lparr>is_correct := pair_matches p\<rparr>) (map (remap_pair (map snd ?s) (map snd ?t)) ps1)"
  have "align_single m ss ts = Some ps" using ps0(1) ps1(1) by (simp add: align_single_def Let_def ps_def)
  moreover have c: "covers (map fst ?s) 0 (map s_side ps1) (length ?s)" "covers (map fst ?t) 0 (map t_side ps1) (length ?t)"
    using ps1(2) by (simp_all add: tiles_def)
  have sides: "map (\<lambda>(toks, st, en). remap_side (map snd ?s) st en) (map s_side ps1) = map (\<lambda>p. (s_start p, s_end p)) ps"
    "map (\<lambda>(toks, st, en). remap_side (map snd ?t) st en) (map t_side ps1) = map (\<lambda>p. (t_start p, t_end p)) ps"
    by (simp_all add: ps_def s_side_def t_side_def remap_sides [simplified])
  have ends: "bound (map snd (canonicalize_sequence xs)) (length xs) 0 = 0"
    "bound (map snd (canonicalize_sequence xs)) (length xs) (length (canonicalize_sequence xs)) = length xs" for xs
    using bound_0 [OF canonical_tile] by (simp_all add: bound_def)
  have "chain 0 (map (\<lambda>p. (s_start p, s_end p)) ps) (int (length ss))" "chain 0 (map (\<lambda>p. (t_start p, t_end p)) ps) (int (length ts))"
    using covers_chain [OF canonical_tile _ c(1), of ss] covers_chain [OF canonical_tile _ c(2), of ts]
    unfolding sides ends by simp_all
  moreover have "concat (map s_tokens ps) = map fst ?s" "concat (map t_tokens ps) = map fst ?t"
    using covers_tokens [OF c(1), unfolded run_sides] covers_tokens [OF c(2), unfolded run_sides]
    by (simp_all add: ps_def comp_def remap_sides)
  moreover have "map is_correct ps = map pair_matches ps" by (simp add: ps_def pair_matches_def)
  ultimately show ?thesis by blast
qed

section \<open>The batch\<close>

text \<open>The chunk index of every position of consecutive spans, numbered from \<open>k\<close>.\<close>

definition numbered :: "nat \<Rightarrow> (int \<times> int) list \<Rightarrow> int list" where
  "numbered k spans = concat (map (\<lambda>(k, st, en). replicate (nat (en - st)) (int k)) (enumerate k spans))"

lemma chain_le: "chain i spans j \<Longrightarrow> i \<le> j"
  by (induction i spans j rule: chain.induct) (auto split: if_splits)

lemma numbered_length: "chain i spans j \<Longrightarrow> length (numbered k spans) = nat (j - i)"
proof (induction i spans j arbitrary: k rule: chain.induct)
  case (2 i st en spans j)
  then show ?case using chain_le [of en spans j] by (auto simp: numbered_def nat_add_distrib [symmetric] split: if_splits)
qed (simp add: numbered_def)

lemma write_chunks:
  "chain i spans (int t) \<Longrightarrow> i = int (length pre) \<Longrightarrow>
     fold (\<lambda>(k, sp). write_chunk t sp k) (enumerate k spans) (pre @ replicate (t - length pre) (-1)) = pre @ numbered k spans"
proof (induction spans arbitrary: i k pre)
  case Nil
  then show ?case by (simp add: numbered_def)
next
  case (Cons sp spans)
  obtain st en where sp: "sp = (st, en)" by (cases sp)
  show ?case
  proof (cases "sp = (-1, -1)")
    case True
    then show ?thesis using Cons.IH [of i pre "Suc k"] Cons.prems by (simp add: sp numbered_def write_chunk_def)
  next
    case False
    define n where "n = nat (en - st)"
    have c: "st = int (length pre)" "st < en" "chain en spans (int t)" using Cons.prems False by (auto simp: sp split: if_splits)
    have n: "en = int (length pre + n)" "length pre + n \<le> t" using c chain_le [OF c(3)] by (simp_all add: n_def)
    have "write_chunk t sp k (pre @ replicate (t - length pre) (-1))
        = assign_span (pre @ replicate n (-1) @ replicate (t - (length pre + n)) (-1)) (length pre) n (int k)"
      using c n by (simp add: sp write_chunk_def replicate_add [symmetric])
    also have "\<dots> = (pre @ replicate n (int k)) @ replicate (t - length (pre @ replicate n (int k))) (-1)"
      by (simp add: assign_span_mid)
    finally show ?thesis
      using Cons.IH [OF c(3), of "pre @ replicate n (int k)" "Suc k"] n c(1) by (simp add: sp numbered_def)
  qed
qed

lemma chunk_ids_numbered: "chain 0 spans (int t) \<Longrightarrow> chunk_ids t spans = numbered 0 spans"
  using write_chunks [of 0 spans t "[]" 0] by (simp add: chunk_ids_def)

lemma numbered_nth:
  "chain i spans j \<Longrightarrow> i \<le> q \<Longrightarrow> q < j \<Longrightarrow>
     \<exists>m < length spans. fst (spans ! m) \<le> q \<and> q < snd (spans ! m) \<and> numbered k spans ! nat (q - i) = int (k + m)"
proof (induction i spans j arbitrary: k rule: chain.induct)
  case (2 i st en spans j)
  show ?case
  proof (cases "(st, en) = (-1, -1)")
    case True
    then obtain m where "m < length spans" "fst (spans ! m) \<le> q" "q < snd (spans ! m)"
      "numbered (Suc k) spans ! nat (q - i) = int (Suc k + m)"
      using "2.IH"(1) [OF True, of "Suc k"] "2.prems" by auto
    then show ?thesis using True by (intro exI [of _ "Suc m"]) (simp add: numbered_def)
  next
    case False
    then have c: "st = i" "i < en" "chain en spans j" using "2.prems"(1) by (simp_all split: if_splits)
    have cons: "numbered k ((st, en) # spans) = replicate (nat (en - i)) (int k) @ numbered (Suc k) spans"
      by (simp add: numbered_def c(1))
    show ?thesis
    proof (cases "q < en")
      case True
      then show ?thesis using c "2.prems"(2) unfolding cons by (intro exI [of _ 0]) (simp add: nth_append)
    next
      case q: False
      then obtain m where m: "m < length spans" "fst (spans ! m) \<le> q" "q < snd (spans ! m)"
        "numbered (Suc k) spans ! nat (q - en) = int (Suc k + m)"
        using "2.IH"(2) [OF False c(3) _ "2.prems"(3), of "Suc k"] by auto
      have "nat (q - i) - nat (en - i) = nat (q - en)" "\<not> nat (q - i) < nat (en - i)" using q c by auto
      then show ?thesis using m unfolding cons by (intro exI [of _ "Suc m"]) (simp add: nth_append)
    qed
  qed
qed simp

text \<open>Whether the mask of a side excludes position \<open>q\<close> of row \<open>r\<close>.\<close>

definition masked :: "int list list option \<Rightarrow> nat \<Rightarrow> nat \<Rightarrow> bool" where
  "masked attention r q = (case attention of None \<Rightarrow> False | Some am \<Rightarrow> am ! r ! q = 0)"

text \<open>A mask has the shape of the ids it belongs to, and every row has the same width.\<close>

definition grid :: "nat \<Rightarrow> nat \<Rightarrow> 'a list list \<Rightarrow> bool" where
  "grid n w rows \<longleftrightarrow> length rows = n \<and> list_all (\<lambda>row. length row = w) rows"

lemma mask_rows_nth:
  assumes "grid n w rows" "case attention of None \<Rightarrow> True | Some am \<Rightarrow> grid n w am" "r < n" "q < w"
  shows "mask_rows fill attention rows ! r ! q = (if masked attention r q then fill else rows ! r ! q)"
  using assms by (auto simp: mask_rows_def masked_def grid_def list_all_length split: option.splits)

lemma those_total: "list_all (\<lambda>z. f z = Some (g z)) zs \<Longrightarrow> those (map f zs) = Some (map g zs)"
  by (induction zs) auto

text \<open>One side of the batch: the row of a sample whose spans chain over it holds, at every position, the number of the pair there.\<close>

lemma side_chunk:
  assumes "chain 0 (map sp ps) (int w)" "q < w"
  shows "\<exists>k < length ps. fst (sp (ps ! k)) \<le> int q \<and> int q < snd (sp (ps ! k)) \<and> chunk_ids w (map sp ps) ! q = int k"
  using numbered_nth [OF assms(1), of "int q" 0] assms(2) chunk_ids_numbered [OF assms(1)] by force

lemma chunk_ids_length: "chain 0 spans (int t) \<Longrightarrow> length (chunk_ids t spans) = t"
  using numbered_length [of 0 spans "int t" 0] by (simp add: chunk_ids_numbered)

text \<open>C40: The batch numbers every position by the pair that holds it. For rectangular student and teacher batches of as many rows,
  with tokenizers that turn a row of ids into as many tokens and masks of the ids' shape, \<open>align\<close> returns a batch; in every row \<open>r\<close>, the
  chunk id of every student position is the index of the one aligned pair whose student span holds it, or \<open>-1\<close> where the mask
  excludes it; the same on the teacher side; and the row's chunk count is the number of its pairs.\<close>
theorem align_batch_chunks:
  assumes ids: "grid n w_s student_ids" "grid n w_t teacher_ids"
    and toks: "\<And>ids. length (student_tok ids) = length ids" "\<And>ids. length (teacher_tok ids) = length ids"
    and masks: "case s_mask of None \<Rightarrow> True | Some am \<Rightarrow> grid n w_s am" "case t_mask of None \<Rightarrow> True | Some am \<Rightarrow> grid n w_t am"
    and at: "r < n" "q < w_s" "q' < w_t"
  shows "\<exists>b ps k k'. align student_tok teacher_tok m w_s w_t student_ids teacher_ids s_mask t_mask = Some (Inr b)
    \<and> align_single m (student_tok (student_ids ! r)) (teacher_tok (teacher_ids ! r)) = Some ps \<and> num_chunks b ! r = int (length ps)
    \<and> k < length ps \<and> s_start (ps ! k) \<le> int q \<and> int q < s_end (ps ! k)
    \<and> student_chunk_id b ! r ! q = (if masked s_mask r q then -1 else int k)
    \<and> k' < length ps \<and> t_start (ps ! k') \<le> int q' \<and> int q' < t_end (ps ! k')
    \<and> teacher_chunk_id b ! r ! q' = (if masked t_mask r q' then -1 else int k')"
proof -
  define pairs where "pairs = (\<lambda>(s, t). the (align_single m (student_tok s) (teacher_tok t)))"
  define per where "per = map pairs (zip student_ids teacher_ids)"
  have len: "length student_ids = n" "length teacher_ids = n" "length per = n" using ids by (simp_all add: grid_def per_def)
  have row: "align_single m (student_tok (student_ids ! i)) (teacher_tok (teacher_ids ! i)) = Some (per ! i)"
    "chain 0 (map (\<lambda>p. (s_start p, s_end p)) (per ! i)) (int w_s)" "chain 0 (map (\<lambda>p. (t_start p, t_end p)) (per ! i)) (int w_t)"
    if "i < n" for i
    using that ids toks len align_single_facts [of m "student_tok (student_ids ! i)" "teacher_tok (teacher_ids ! i)"]
    by (auto simp: per_def pairs_def grid_def list_all_length)
  define b where "b = drop_padding (pairs_to_batch per w_s w_t) s_mask t_mask"
  have "list_all (\<lambda>z. (case z of (s, t) \<Rightarrow> align_single m (student_tok s) (teacher_tok t)) = Some (pairs z)) (zip student_ids teacher_ids)"
    using row(1) len by (auto simp: list_all_length per_def)
  then have run: "align student_tok teacher_tok m w_s w_t student_ids teacher_ids s_mask t_mask = Some (Inr b)"
    using len those_total by (fastforce simp: align_def b_def per_def)
  have "grid n w_s (map (\<lambda>pairs. chunk_ids w_s (map (\<lambda>p. (s_start p, s_end p)) pairs)) per)"
    "grid n w_t (map (\<lambda>pairs. chunk_ids w_t (map (\<lambda>p. (t_start p, t_end p)) pairs)) per)"
    using row len by (auto simp: grid_def list_all_length chunk_ids_length)
  note cells = mask_rows_nth [OF this(1) masks(1) at(1,2), of "-1"] mask_rows_nth [OF this(2) masks(2) at(1,3), of "-1"]
  obtain k where k: "k < length (per ! r)" "s_start (per ! r ! k) \<le> int q" "int q < s_end (per ! r ! k)"
    "chunk_ids w_s (map (\<lambda>p. (s_start p, s_end p)) (per ! r)) ! q = int k" using side_chunk [OF row(2) [OF at(1)] at(2)] by auto
  obtain k' where k': "k' < length (per ! r)" "t_start (per ! r ! k') \<le> int q'" "int q' < t_end (per ! r ! k')"
    "chunk_ids w_t (map (\<lambda>p. (t_start p, t_end p)) (per ! r)) ! q' = int k'" using side_chunk [OF row(3) [OF at(1)] at(3)] by auto
  have "num_chunks b ! r = int (length (per ! r))" using at(1) len by (simp add: b_def drop_padding_def pairs_to_batch_def Let_def)
  moreover have "student_chunk_id b ! r ! q = (if masked s_mask r q then -1 else int k)"
    "teacher_chunk_id b ! r ! q' = (if masked t_mask r q' then -1 else int k')"
    using cells k(4) k'(4) at(1) len by (simp_all add: b_def drop_padding_def pairs_to_batch_def Let_def)
  ultimately show ?thesis using run row(1) [OF at(1)] k(1-3) k'(1-3) by blast
qed

theorem align_batch_chunks_witness:
  "\<exists>b ps k. align (map (\<lambda>i. [nat i])) (map (\<lambda>i. [nat i])) 4 2 2 [[97, 98]] [[97, 98]] (Some [[1, 0]]) None = Some (Inr b)
    \<and> align_single 4 [[97], [98]] [[97], [98]] = Some ps \<and> num_chunks b ! 0 = int (length ps)
    \<and> student_chunk_id b ! 0 ! 1 = -1 \<and> k < length ps \<and> t_start (ps ! k) \<le> 0 \<and> 0 < t_end (ps ! k) \<and> teacher_chunk_id b ! 0 ! 0 = int k"
  using align_batch_chunks [of 1 2 "[[97, 98]]" 2 "[[97, 98]]" "map (\<lambda>i. [nat i])" "map (\<lambda>i. [nat i])" "Some [[1, 0]]" None 0 1 0 4]
  by (auto simp: grid_def masked_def)

text \<open>C39: Aligning a sample always succeeds and accounts for every token of both tokenisations. For any two token sequences
  \<open>_align_single\<close> returns pairs whose student spans follow each other without gap or overlap from the first to the last position of
  the original student sequence, whose teacher spans do the same on the teacher's, whose tokens are the canonical tokens of both sides
  in order, and which are marked correct exactly when their canonical texts agree.\<close>
theorem align_single_tiles:
  "\<exists>ps. align_single m ss ts = Some ps
    \<and> chain 0 (map (\<lambda>p. (s_start p, s_end p)) ps) (int (length ss)) \<and> chain 0 (map (\<lambda>p. (t_start p, t_end p)) ps) (int (length ts))
    \<and> concat (map s_tokens ps) = map fst (canonicalize_sequence ss) \<and> concat (map t_tokens ps) = map fst (canonicalize_sequence ts)
    \<and> map is_correct ps = map pair_matches ps"
  by (rule align_single_facts)

end
