(* ===== verification/Message_Log.thy ===== *)
theory Message_Log
  imports Py_Strings
begin

text \<open>
  Message logs, \<^verbatim>\<open>data/llm_message_utils.py\<close>: flattening a log into columns, padding a batch of logs, loss masks, routing
  placeholders, chat-template formatting, and the wire format of the data plane.

  A message is a dict; its values are integer tensors, float tensors, routing tensors (rows of a fixed width), text, or other
  objects. Tensors of one kind have one dtype and device. Dicts are association lists; the order of the keys of a set of
  keys is that of their first appearance, which the results do not depend on. Multimodal values are not modelled.
\<close>

section \<open>Messages\<close>

datatype 'o mvalue =
    MInts "int list"
  | MFloats "rat list"
  | MRoutes nat "int list list"
  | MText ustring
  | MObj 'o

type_synonym 'o message = "(string \<times> 'o mvalue) list"

fun tensor_len :: "'o mvalue \<Rightarrow> nat option" where
  "tensor_len (MInts xs) = Some (length xs)"
| "tensor_len (MFloats xs) = Some (length xs)"
| "tensor_len (MRoutes w rows) = Some (length rows)"
| "tensor_len (MText s) = None"
| "tensor_len (MObj x) = None"

definition is_tensor :: "'o mvalue \<Rightarrow> bool" where
  "is_tensor v \<longleftrightarrow> tensor_len v \<noteq> None"

text \<open>\<open>torch.cat\<close>: integers are promoted to floats, and the number of dimensions and the row shape have to agree. (That the library lets
  an empty one-dimensional operand pass next to others is left out.)\<close>

fun cat2 :: "'o mvalue \<Rightarrow> 'o mvalue \<Rightarrow> 'o mvalue result" where
  "cat2 (MInts a) (MInts b) = Inr (MInts (a @ b))"
| "cat2 (MInts a) (MFloats b) = Inr (MFloats (map of_int a @ b))"
| "cat2 (MFloats a) (MInts b) = Inr (MFloats (a @ map of_int b))"
| "cat2 (MFloats a) (MFloats b) = Inr (MFloats (a @ b))"
| "cat2 (MRoutes w a) (MRoutes v b) = (if w = v then Inr (MRoutes w (a @ b)) else Inl RuntimeError)"
| "cat2 a b = Inl (if is_tensor a \<and> is_tensor b then RuntimeError else TypeError)"

fun torch_cat :: "'o mvalue \<Rightarrow> 'o mvalue list \<Rightarrow> 'o mvalue result" where
  "torch_cat v [] = Inr v"
| "torch_cat v (w # vs) = bind_res (cat2 v w) (\<lambda>x. torch_cat x vs)"

section \<open>Flattening one msgs\<close>

datatype 'o fvalue = FTensor "'o mvalue" | FList "'o mvalue list"

definition msg_column :: "string \<Rightarrow> 'o message list \<Rightarrow> 'o mvalue list" where
  "msg_column key msgs = List.map_filter (\<lambda>m. map_of m key) msgs"

definition flat_column :: "'o mvalue list \<Rightarrow> 'o fvalue result" where
  "flat_column vs =
     (case vs of
        [] \<Rightarrow> Inr (FList [])
      | v # rest \<Rightarrow> if is_tensor v then bind_res (torch_cat v rest) (\<lambda>x. Inr (FTensor x)) else Inr (FList vs))"

definition all_keys :: "('k \<times> 'v) list list \<Rightarrow> 'k list" where
  "all_keys dicts = remdups (concat (map (map fst) dicts))"

definition message_log_to_flat_messages :: "'o message list \<Rightarrow> (string \<times> 'o fvalue) list result" where
  "message_log_to_flat_messages msgs =
     map_res (\<lambda>k. bind_res (flat_column (msg_column k msgs)) (\<lambda>v. Inr (k, v))) (all_keys msgs)"

definition get_keys_from_message_log :: "'o message list \<Rightarrow> string list \<Rightarrow> 'o message list" where
  "get_keys_from_message_log msgs keys =
     map (\<lambda>msg. List.map_filter (\<lambda>k. map_option (\<lambda>v. (k, v)) (map_of msg k)) keys) msgs"

section \<open>Padding a batch\<close>

text \<open>A column of the batch: stacked rows, the flat values where no tensor is found, or the first values of a batch without tensors.\<close>

datatype 'o bvalue =
    BInts "int list list"
  | BFloats "rat list list"
  | BRoutes nat "int list list list"
  | BFlat "'o fvalue option list"
  | BFirst "'o mvalue option list"

fun flat_tensor_len :: "'o fvalue \<Rightarrow> nat option" where
  "flat_tensor_len (FTensor v) = tensor_len v"
| "flat_tensor_len (FList vs) = None"

definition seq_len :: "(string \<times> 'o fvalue) list \<Rightarrow> nat" where
  "seq_len seq = foldl max 0 (List.map_filter (\<lambda>(k, v). flat_tensor_len v) seq)"

definition round_up :: "nat \<Rightarrow> nat \<Rightarrow> nat" where
  "round_up n d = (if n mod d \<noteq> 0 then (n div d + 1) * d else n)"

text \<open>\<open>_pad_tensor\<close>, on the left or on the right.\<close>

definition pad_list :: "bool \<Rightarrow> nat \<Rightarrow> 'a \<Rightarrow> 'a list \<Rightarrow> 'a list" where
  "pad_list on_left max_len x xs =
     (if on_left then replicate (max_len - length xs) x @ xs else xs @ replicate (max_len - length xs) x)"

definition pad_value_of :: "(string \<times> int) list option \<Rightarrow> string \<Rightarrow> int" where
  "pad_value_of pads key = (case pads of None \<Rightarrow> 0 | Some d \<Rightarrow> (case map_of d key of None \<Rightarrow> 0 | Some v \<Rightarrow> v))"

text \<open>One row of a column: a missing one is an empty one-dimensional tensor, one of another kind fails to validate or to stack.\<close>

definition int_row :: "nat \<Rightarrow> int \<Rightarrow> 'o fvalue option \<Rightarrow> int list result" where
  "int_row max_len pad v =
     (case v of
        None \<Rightarrow> Inr (pad_list False max_len pad [])
      | Some (FTensor (MInts xs)) \<Rightarrow> Inr (pad_list False max_len pad xs)
      | Some (FTensor _) \<Rightarrow> Inl RuntimeError
      | Some (FList _) \<Rightarrow> Inl AttributeError)"

definition float_row :: "nat \<Rightarrow> int \<Rightarrow> 'o fvalue option \<Rightarrow> rat list result" where
  "float_row max_len pad v =
     (case v of
        None \<Rightarrow> Inr (pad_list False max_len (of_int pad) [])
      | Some (FTensor (MFloats xs)) \<Rightarrow> Inr (pad_list False max_len (of_int pad) xs)
      | Some (FTensor _) \<Rightarrow> Inl RuntimeError
      | Some (FList _) \<Rightarrow> Inl AttributeError)"

definition route_row :: "nat \<Rightarrow> nat \<Rightarrow> int \<Rightarrow> 'o fvalue option \<Rightarrow> int list list result" where
  "route_row w max_len pad v =
     (case v of
        None \<Rightarrow> Inl RuntimeError
      | Some (FTensor (MRoutes w' rows)) \<Rightarrow>
          if w' = w then Inr (pad_list False max_len (replicate w pad) rows) else Inl RuntimeError
      | Some (FTensor _) \<Rightarrow> Inl RuntimeError
      | Some (FList _) \<Rightarrow> Inl AttributeError)"

definition batch_column :: "nat \<Rightarrow> int \<Rightarrow> 'o fvalue option list \<Rightarrow> 'o bvalue result" where
  "batch_column max_len pad vals =
     (case find (\<lambda>v. v \<noteq> None) vals of
        Some (Some (FTensor (MInts _))) \<Rightarrow> bind_res (map_res (int_row max_len pad) vals) (\<lambda>rows. Inr (BInts rows))
      | Some (Some (FTensor (MFloats _))) \<Rightarrow> bind_res (map_res (float_row max_len pad) vals) (\<lambda>rows. Inr (BFloats rows))
      | Some (Some (FTensor (MRoutes w _))) \<Rightarrow> bind_res (map_res (route_row w max_len pad) vals) (\<lambda>rows. Inr (BRoutes w rows))
      | _ \<Rightarrow> Inr (BFlat vals))"

definition first_of :: "'o fvalue option \<Rightarrow> 'o mvalue option" where
  "first_of v = (case v of Some (FList (x # _)) \<Rightarrow> Some x | _ \<Rightarrow> None)"

definition batched_message_log_to_flat_message ::
  "'o message list list \<Rightarrow> (string \<times> int) list option \<Rightarrow> nat \<Rightarrow> ((string \<times> 'o bvalue) list \<times> nat list) result" where
  "batched_message_log_to_flat_message batch pads divisible =
     (if batch = [] then Inr ([], [])
      else
        bind_res (map_res message_log_to_flat_messages batch) (\<lambda>seqs.
          if divisible = 0 then Inl ZeroDivisionError
          else
            let keys = all_keys seqs; longest = foldl max 0 (map seq_len seqs); max_len = round_up longest divisible in
            if \<not> list_ex (list_ex (\<lambda>(k, v). flat_tensor_len v \<noteq> None)) seqs
            then Inr (map (\<lambda>k. (k, BFirst (map (\<lambda>seq. first_of (map_of seq k)) seqs))) keys, [])
            else
              bind_res (map_res (\<lambda>k. bind_res (batch_column max_len (pad_value_of pads k) (map (\<lambda>seq. map_of seq k) seqs))
                  (\<lambda>col. Inr (k, col))) keys) (\<lambda>cols.
                Inr (cols, map seq_len seqs))))"

section \<open>Loss masks and routing placeholders\<close>

definition full_like :: "'o mvalue \<Rightarrow> nat \<Rightarrow> int \<Rightarrow> 'o mvalue result" where
  "full_like v n x =
     (case v of
        MInts _ \<Rightarrow> Inr (MInts (replicate n x))
      | MFloats _ \<Rightarrow> Inr (MFloats (replicate n (of_int x)))
      | MRoutes w _ \<Rightarrow> Inr (MRoutes w (replicate n (replicate w x)))
      | _ \<Rightarrow> Inl TypeError)"

definition get_item :: "(string \<times> 'v) list \<Rightarrow> string \<Rightarrow> 'v result" where
  "get_item d k = (case map_of d k of None \<Rightarrow> Inl KeyError | Some v \<Rightarrow> Inr v)"

definition set_loss_mask :: "bool \<Rightarrow> 'o message \<Rightarrow> 'o message result" where
  "set_loss_mask train m =
     bind_res (get_item m ''token_ids'') (\<lambda>ids.
     bind_res (full_like ids (case tensor_len ids of None \<Rightarrow> 0 | Some n \<Rightarrow> n) (if train then 1 else 0)) (\<lambda>mask.
       Inr (dict_set ''token_loss_mask'' mask m)))"

definition role_trained :: "ustring list \<Rightarrow> 'o message \<Rightarrow> bool result" where
  "role_trained roles m =
     bind_res (get_item m ''role'') (\<lambda>r. Inr (case r of MText t \<Rightarrow> t \<in> set roles | _ \<Rightarrow> False))"

definition add_loss_mask_to_message_log ::
  "'o message list list \<Rightarrow> ustring list option \<Rightarrow> bool \<Rightarrow> 'o message list list result" where
  "add_loss_mask_to_message_log batch roles_to_train_on only_unmask_final =
     (let roles = map lower (case roles_to_train_on of None \<Rightarrow> [u ''assistant''] | Some rs \<Rightarrow> rs) in
      map_res (\<lambda>msgs. map_res (\<lambda>(i, m).
          if only_unmask_final then set_loss_mask (i = length msgs - 1) m
          else bind_res (role_trained roles m) (\<lambda>train. set_loss_mask train m)) (enumerate 0 msgs)) batch)"

definition backfill_message :: "'o mvalue \<Rightarrow> int \<Rightarrow> 'o message \<Rightarrow> 'o message result" where
  "backfill_message ref sentinel m =
     (if map_of m ''routed_experts'' \<noteq> None then Inr m
      else
        bind_res (get_item m ''token_ids'') (\<lambda>ids.
          case tensor_len ids of
            None \<Rightarrow> Inl AttributeError
          | Some n \<Rightarrow> bind_res (full_like ref n sentinel) (\<lambda>fill. Inr (dict_set ''routed_experts'' fill m))))"

definition backfill_routed_experts :: "'o message list list \<Rightarrow> int \<Rightarrow> 'o message list list result" where
  "backfill_routed_experts logs sentinel =
     map_res (\<lambda>msgs.
       case msg_column ''routed_experts'' msgs of
         [] \<Rightarrow> Inr msgs
       | ref # _ \<Rightarrow> if is_tensor ref then map_res (backfill_message ref sentinel) msgs else Inl AttributeError) logs"

text \<open>GRPO's masks: only messages of the assistant with log-probabilities, which the rollouts generated, are trained on.\<close>

definition missing_route_sentinel :: int where "missing_route_sentinel = - 1"

definition grpo_mask_message :: "'o message \<Rightarrow> 'o message result" where
  "grpo_mask_message m =
     bind_res (get_item m ''token_ids'') (\<lambda>ids.
     bind_res (get_item m ''role'') (\<lambda>role.
     bind_res (set_loss_mask (role = MText (u ''assistant'') \<and> map_of m ''generation_logprobs'' \<noteq> None) m) (\<lambda>m'.
       Inr (if map_of m ''generation_logprobs'' = None
            then dict_set ''generation_logprobs'' (MFloats (replicate (case tensor_len ids of None \<Rightarrow> 0 | Some n \<Rightarrow> n) 0)) m' else m'))))"

definition add_grpo_token_loss_masks_and_generation_logprobs :: "'o message list list \<Rightarrow> 'o message list list result" where
  "add_grpo_token_loss_masks_and_generation_logprobs logs =
     bind_res (backfill_routed_experts logs missing_route_sentinel) (map_res (map_res grpo_mask_message))"

section \<open>The wire format\<close>









section \<open>Typed logs\<close>

text \<open>A schema gives every key the kind of its values.\<close>

datatype kind = KInts | KFloats | KRoutes nat | KOther

fun kind_of :: "'o mvalue \<Rightarrow> kind" where
  "kind_of (MInts xs) = KInts"
| "kind_of (MFloats xs) = KFloats"
| "kind_of (MRoutes w rows) = KRoutes w"
| "kind_of (MText s) = KOther"
| "kind_of (MObj x) = KOther"

fun ints_of :: "'o mvalue \<Rightarrow> int list" where
  "ints_of (MInts xs) = xs"
| "ints_of v = []"

fun floats_of :: "'o mvalue \<Rightarrow> rat list" where
  "floats_of (MFloats xs) = xs"
| "floats_of v = []"

fun routes_of :: "'o mvalue \<Rightarrow> int list list" where
  "routes_of (MRoutes w rows) = rows"
| "routes_of v = []"

definition tokens_of :: "'o message \<Rightarrow> int list" where
  "tokens_of m = (case map_of m ''token_ids'' of Some (MInts ts) \<Rightarrow> ts | _ \<Rightarrow> [])"

definition all_tokens :: "'o message list \<Rightarrow> int list" where
  "all_tokens msgs = concat (map tokens_of msgs)"

text \<open>Every value is of its key's kind, the token ids are there, and no other tensor is longer than them.\<close>

definition typed_msg :: "(string \<Rightarrow> kind) \<Rightarrow> 'o message \<Rightarrow> bool" where
  "typed_msg sch m \<longleftrightarrow>
     list_all (\<lambda>(k, v). kind_of v = sch k \<and> (case tensor_len v of None \<Rightarrow> True | Some n \<Rightarrow> n \<le> length (tokens_of m))) m
     \<and> map_of m ''token_ids'' = Some (MInts (tokens_of m))"

definition flat_value :: "(string \<Rightarrow> kind) \<Rightarrow> string \<Rightarrow> 'o message list \<Rightarrow> 'o fvalue" where
  "flat_value sch k msgs =
     (case sch k of
        KInts \<Rightarrow> FTensor (MInts (concat (map ints_of (msg_column k msgs))))
      | KFloats \<Rightarrow> FTensor (MFloats (concat (map floats_of (msg_column k msgs))))
      | KRoutes w \<Rightarrow> FTensor (MRoutes w (concat (map routes_of (msg_column k msgs))))
      | KOther \<Rightarrow> FList (msg_column k msgs))"

lemma msg_column_simps [simp]:
  "msg_column k [] = []"
  "msg_column k (m # msgs) = (case map_of m k of None \<Rightarrow> msg_column k msgs | Some v \<Rightarrow> v # msg_column k msgs)"
  by (simp_all add: msg_column_def List.map_filter_simps cong: option.case_cong)

lemma msg_column_app [simp]: "msg_column k (a @ b) = msg_column k a @ msg_column k b"
  by (induction a) (auto split: option.splits)

lemma column_Nil_iff: "msg_column k msgs = [] \<longleftrightarrow> k \<notin> set (all_keys msgs)"
  by (induction msgs) (auto simp: all_keys_def map_of_eq_None_iff split: option.splits dest: map_of_SomeD intro: rev_image_eqI)

lemma typed_kind: "list_all (typed_msg sch) msgs \<Longrightarrow> v \<in> set (msg_column k msgs) \<Longrightarrow> kind_of v = sch k"
proof (induction msgs)
  case (Cons m msgs)
  have "map_of m k = Some w \<Longrightarrow> kind_of w = sch k" for w
    using Cons.prems(1) by (auto simp: typed_msg_def list_all_iff dest!: map_of_SomeD)
  then show ?case using Cons by (auto split: option.splits)
qed simp

lemma kind_cases:
  "kind_of v = KInts \<longleftrightarrow> v = MInts (ints_of v)" "kind_of v = KFloats \<longleftrightarrow> v = MFloats (floats_of v)"
  "kind_of v = KRoutes w \<longleftrightarrow> v = MRoutes w (routes_of v)" "kind_of v = KOther \<longleftrightarrow> \<not> is_tensor v"
  by (cases v; simp add: is_tensor_def)+

lemma torch_cat_kinds:
  "\<forall>v \<in> set (v0 # vs). kind_of v = KInts \<Longrightarrow> torch_cat v0 vs = Inr (MInts (concat (map ints_of (v0 # vs))))"
  "\<forall>v \<in> set (v0 # vs). kind_of v = KFloats \<Longrightarrow> torch_cat v0 vs = Inr (MFloats (concat (map floats_of (v0 # vs))))"
  "\<forall>v \<in> set (v0 # vs). kind_of v = KRoutes w \<Longrightarrow> torch_cat v0 vs = Inr (MRoutes w (concat (map routes_of (v0 # vs))))"
  by (induction vs arbitrary: v0; simp add: kind_cases; metis (no_types, lifting) append_assoc cat2.simps bind_res_simps(2) ints_of.simps(1) floats_of.simps(1) routes_of.simps(1))+

lemma flat_column_typed:
  assumes "list_all (typed_msg sch) msgs" "msg_column k msgs \<noteq> []"
  shows "flat_column (msg_column k msgs) = Inr (flat_value sch k msgs)"
proof -
  obtain v vs where vs: "msg_column k msgs = v # vs" using assms(2) by (cases "msg_column k msgs") auto
  have kind: "\<forall>x \<in> set (v # vs). kind_of x = sch k" using typed_kind [OF assms(1)] vs by metis
  have head: "is_tensor v \<longleftrightarrow> sch k \<noteq> KOther" using kind kind_cases(4) [of v] by auto
  show ?thesis
  proof (cases "sch k")
    case KInts
    then show ?thesis using torch_cat_kinds(1) [of v vs] kind head by (simp add: flat_column_def flat_value_def vs)
  next
    case KFloats
    then show ?thesis using torch_cat_kinds(2) [of v vs] kind head by (simp add: flat_column_def flat_value_def vs)
  next
    case (KRoutes w)
    then show ?thesis using torch_cat_kinds(3) [of v vs w] kind head by (simp add: flat_column_def flat_value_def vs)
  next
    case KOther
    then show ?thesis using head by (simp add: flat_column_def flat_value_def vs)
  qed
qed

lemma flat_messages_typed:
  assumes "list_all (typed_msg sch) msgs"
  shows "message_log_to_flat_messages msgs = Inr (map (\<lambda>k. (k, flat_value sch k msgs)) (all_keys msgs))"
  unfolding message_log_to_flat_messages_def
  using flat_column_typed [OF assms] by (intro map_res_Inr) (simp add: column_Nil_iff)

lemma map_of_keyed: "map_of (map (\<lambda>k. (k, f k)) ks) k = (if k \<in> set ks then Some (f k) else None)"
  by (induction ks) auto

lemma tokens_column: "list_all (typed_msg sch) msgs \<Longrightarrow> msg_column ''token_ids'' msgs = map (MInts \<circ> tokens_of) msgs"
  by (induction msgs) (auto simp: typed_msg_def)

lemma typed_schema: "list_all (typed_msg sch) msgs \<Longrightarrow> msgs \<noteq> [] \<Longrightarrow> sch ''token_ids'' = KInts"
  using typed_kind [of sch msgs _ "''token_ids''"] tokens_column [of sch msgs] by (cases msgs) fastforce+

lemma flat_tokens:
  assumes "list_all (typed_msg sch) msgs" "msgs \<noteq> []"
  shows "flat_value sch ''token_ids'' msgs = FTensor (MInts (all_tokens msgs))" "''token_ids'' \<in> set (all_keys msgs)"
proof -
  show "flat_value sch ''token_ids'' msgs = FTensor (MInts (all_tokens msgs))"
    using typed_schema [OF assms] tokens_column [OF assms(1)] by (simp add: flat_value_def all_tokens_def comp_def)
  show "''token_ids'' \<in> set (all_keys msgs)"
    using column_Nil_iff [of "''token_ids''" msgs] tokens_column [OF assms(1)] assms(2) by auto
qed






lemma fold_max_ge: "a \<le> foldl max (a :: nat) xs \<and> (\<forall>x \<in> set xs. x \<le> foldl max a xs)"
  by (induction xs arbitrary: a) (auto, (meson le_trans max.cobounded1 max.cobounded2)+)


section \<open>Padding\<close>










section \<open>Masks and placeholders keep the columns aligned\<close>

lemma typed_set:
  assumes "typed_msg sch m" "kind_of v = sch k" "k \<noteq> ''token_ids''"
    and "case tensor_len v of None \<Rightarrow> True | Some n \<Rightarrow> n \<le> length (tokens_of m)"
  shows "typed_msg sch (dict_set k v m)" "tokens_of (dict_set k v m) = tokens_of m"
proof -
  show toks: "tokens_of (dict_set k v m) = tokens_of m" using assms(3) by (simp add: tokens_of_def)
  have "set (dict_set k v d) \<subseteq> insert (k, v) (set d)" for d :: "(string \<times> 'a mvalue) list"
    by (induction d) (auto split: if_splits)
  then show "typed_msg sch (dict_set k v m)"
    using assms unfolding typed_msg_def toks list_all_iff by fastforce
qed

lemma all_tokens_map: "(\<And>m. m \<in> set msgs \<Longrightarrow> tokens_of (f m) = tokens_of m) \<Longrightarrow> all_tokens (map f msgs) = all_tokens msgs"
  by (simp add: all_tokens_def cong: map_cong)

text \<open>A column every message has: its flat value is the concatenation of the messages' values.\<close>

lemma flat_full_column:
  assumes "list_all (typed_msg sch) msgs" "msgs \<noteq> []" "\<And>m. m \<in> set msgs \<Longrightarrow> map_of m k = Some (val m)"
  shows "\<exists>flat. message_log_to_flat_messages msgs = Inr flat \<and> map_of flat k = Some (flat_value sch k msgs)
    \<and> msg_column k msgs = map val msgs \<and> map_of flat ''token_ids'' = Some (FTensor (MInts (all_tokens msgs)))"
proof -
  have col: "msg_column k msgs = map val msgs" using assms(3) by (induction msgs) simp_all
  then have "k \<in> set (all_keys msgs)" using column_Nil_iff [of k msgs] assms(2) by auto
  then show ?thesis
    using flat_messages_typed [OF assms(1)] flat_tokens [OF assms(1,2)] col by (simp add: map_of_keyed)
qed

lemma map_res_enumerate:
  assumes "\<And>i. i < length xs \<Longrightarrow> f (k + i, xs ! i) = Inr (g (k + i) (xs ! i))"
  shows "map_res f (enumerate k xs) = Inr (map2 g [k..<k + length xs] xs)"
  using assms
proof (induction xs arbitrary: k)
  case (Cons x xs)
  have "map_res f (enumerate (Suc k) xs) = Inr (map2 g [Suc k..<Suc k + length xs] xs)"
    using Cons.prems [of "Suc _"] by (intro Cons.IH) simp
  moreover have "[k..<k + length (x # xs)] = k # [Suc k..<Suc k + length xs]" by (simp add: upt_conv_Cons del: upt_Suc)
  ultimately show ?case using Cons.prems [of 0] by simp
qed simp

definition mask_of :: "bool \<Rightarrow> 'o message \<Rightarrow> 'o mvalue" where
  "mask_of train m = MInts (replicate (length (tokens_of m)) (if train then 1 else 0))"

lemma set_loss_mask_typed:
  "typed_msg sch m \<Longrightarrow> set_loss_mask train m = Inr (dict_set ''token_loss_mask'' (mask_of train m) m)"
  by (simp add: set_loss_mask_def get_item_def typed_msg_def full_like_def mask_of_def)

definition role_is :: "ustring \<Rightarrow> 'o message \<Rightarrow> bool" where
  "role_is r m \<longleftrightarrow> map_of m ''role'' = Some (MText r)"

lemma lower_assistant: "map lower [u ''assistant''] = [u ''assistant'']"
  by (simp add: lower_def u_def)

lemma add_loss_mask_log:
  assumes "list_all (typed_msg sch) msgs" "\<And>m. m \<in> set msgs \<Longrightarrow> map_of m ''role'' \<noteq> None"
  shows "map_res (\<lambda>(i, m). if False then set_loss_mask (i = length msgs - 1) m
      else bind_res (role_trained [u ''assistant''] m) (\<lambda>train. set_loss_mask train m)) (enumerate 0 msgs)
    = Inr (map (\<lambda>m. dict_set ''token_loss_mask'' (mask_of (role_is (u ''assistant'') m) m) m) msgs)"
proof -
  have role: "role_trained [u ''assistant''] m = Inr (role_is (u ''assistant'') m)" if m: "m \<in> set msgs" for m
  proof -
    obtain r where "map_of m ''role'' = Some r" using assms(2) [OF m] by blast
    then show ?thesis by (cases r) (simp_all add: role_trained_def get_item_def role_is_def)
  qed
  have "map_res (\<lambda>(i, m). bind_res (role_trained [u ''assistant''] m) (\<lambda>train. set_loss_mask train m)) (enumerate 0 msgs)
      = Inr (map2 (\<lambda>i m. dict_set ''token_loss_mask'' (mask_of (role_is (u ''assistant'') m) m) m) [0..<0 + length msgs] msgs)"
    using assms(1) role set_loss_mask_typed by (intro map_res_enumerate) (fastforce simp: list_all_iff)
  moreover have "map2 (\<lambda>i m. f m) [0..<0 + length msgs] msgs = map f msgs" for f :: "'a message \<Rightarrow> 'a message"
    by (intro nth_equalityI) simp_all
  ultimately show ?thesis by simp
qed

lemma mask_column:
  fixes train :: "'a message \<Rightarrow> bool"
  assumes "list_all (typed_msg sch) msgs" "msgs \<noteq> []" "sch ''token_loss_mask'' = KInts"
  defines "out \<equiv> map (\<lambda>m. dict_set ''token_loss_mask'' (mask_of (train m) m) m) msgs"
  shows "\<exists>flat. message_log_to_flat_messages out = Inr flat \<and> map_of flat ''token_ids'' = Some (FTensor (MInts (all_tokens msgs)))
    \<and> map_of flat ''token_loss_mask''
      = Some (FTensor (MInts (concat (map (\<lambda>m. replicate (length (tokens_of m)) (if train m then 1 else 0)) msgs))))"
proof -
  define f where "f = (\<lambda>m. dict_set ''token_loss_mask'' (mask_of (train m) m) m)"
  have m: "typed_msg sch (f m)" "tokens_of (f m) = tokens_of m" "map_of (f m) ''token_loss_mask'' = Some (mask_of (train m) m)"
    if "m \<in> set msgs" for m
    using typed_set [of sch m "mask_of (train m) m" "''token_loss_mask''"] assms(1,3) that
    by (auto simp: list_all_iff f_def mask_of_def)
  have out: "out = map f msgs" by (simp add: out_def f_def)
  have typed: "list_all (typed_msg sch) out" using m(1) by (simp add: out list_all_iff)
  have col: "msg_column ''token_loss_mask'' out = map (\<lambda>m. mask_of (train m) m) msgs"
    unfolding out using m(3) by (induction msgs) simp_all
  then have "''token_loss_mask'' \<in> set (all_keys out)" using column_Nil_iff [of "''token_loss_mask''" out] assms(2) by auto
  moreover have "flat_value sch ''token_loss_mask'' out
      = FTensor (MInts (concat (map (\<lambda>m. replicate (length (tokens_of m)) (if train m then 1 else 0)) msgs)))"
    by (simp add: flat_value_def assms(3) col comp_def mask_of_def)
  moreover have "all_tokens out = all_tokens msgs" unfolding out using m(2) by (rule all_tokens_map)
  ultimately show ?thesis
    using flat_messages_typed [OF typed] flat_tokens [OF typed] assms(2) by (simp add: map_of_keyed out)
qed

text \<open>The routing of a message, or a placeholder per token.\<close>

definition route_rows :: "nat \<Rightarrow> int \<Rightarrow> 'o message \<Rightarrow> int list list" where
  "route_rows w sentinel m =
     (case map_of m ''routed_experts'' of
        Some v \<Rightarrow> routes_of v
      | None \<Rightarrow> replicate (length (tokens_of m)) (replicate w sentinel))"

text \<open>Backfilled routing stays at the offsets of the tokens. In a log where some message carries routing, and each does so for all
  its tokens, backfilling succeeds, and in the flattened log the routing column is the concatenation of one segment per
  message, each as long as the message's tokens, with the recorded rows where there were any.\<close>

lemma backfill_aligns_routes:
  fixes msgs :: "'a message list"
  assumes typed: "list_all (typed_msg sch) msgs" and sch: "sch ''routed_experts'' = KRoutes w"
    and some: "msg_column ''routed_experts'' msgs \<noteq> []"
    and full: "list_all (\<lambda>m. length (route_rows w sentinel m) = length (tokens_of m)) msgs"
  shows "\<exists>msgs' flat. backfill_routed_experts [msgs] sentinel = Inr [msgs'] \<and> message_log_to_flat_messages msgs' = Inr flat
    \<and> map_of flat ''token_ids'' = Some (FTensor (MInts (all_tokens msgs)))
    \<and> map_of flat ''routed_experts'' = Some (FTensor (MRoutes w (concat (map (route_rows w sentinel) msgs))))"
proof -
  obtain ref rest where ref: "msg_column ''routed_experts'' msgs = ref # rest" using some by (cases "msg_column ''routed_experts'' msgs") auto
  have kind: "kind_of ref = KRoutes w" using typed_kind [OF typed, of ref "''routed_experts''"] ref sch by simp
  then obtain rows where rows: "ref = MRoutes w rows" by (cases ref) auto
  define f where "f = (\<lambda>m :: 'a message. if map_of m ''routed_experts'' \<noteq> None then m
      else dict_set ''routed_experts'' (MRoutes w (route_rows w sentinel m)) m)"
  have m: "backfill_message ref sentinel m = Inr (f m)" "typed_msg sch (f m)" "tokens_of (f m) = tokens_of m"
    "map_of (f m) ''routed_experts'' = Some (MRoutes w (route_rows w sentinel m))" if mem: "m \<in> set msgs" for m
  proof -
    have tm: "typed_msg sch m" using typed mem by (simp add: list_all_iff)
    show "backfill_message ref sentinel m = Inr (f m)"
      using tm by (auto simp: backfill_message_def f_def get_item_def typed_msg_def rows full_like_def route_rows_def)
    have "typed_msg sch (f m) \<and> tokens_of (f m) = tokens_of m"
      using typed_set [OF tm, of "MRoutes w (route_rows w sentinel m)" "''routed_experts''"] tm full mem
      by (simp add: f_def sch list_all_iff)
    then show "typed_msg sch (f m)" "tokens_of (f m) = tokens_of m" by simp_all
    show "map_of (f m) ''routed_experts'' = Some (MRoutes w (route_rows w sentinel m))"
    proof (cases "map_of m ''routed_experts''")
      case (Some v)
      then have "v \<in> set (msg_column ''routed_experts'' [m])" by simp
      then have "kind_of v = KRoutes w" using typed_kind [of sch "[m]" v] tm sch by simp
      then show ?thesis using Some by (cases v) (auto simp: f_def route_rows_def)
    qed (simp add: f_def)
  qed
  have fill: "map_res (backfill_message ref sentinel) msgs = Inr (map f msgs)" using m(1) by (intro map_res_Inr)
  have out: "list_all (typed_msg sch) (map f msgs)" "msgs \<noteq> []" using m(2) ref by (auto simp: list_all_iff)
  have col: "msg_column ''routed_experts'' (map f msgs) = map (\<lambda>m. MRoutes w (route_rows w sentinel m)) msgs"
    using m(4) by (induction msgs) simp_all
  then have "''routed_experts'' \<in> set (all_keys (map f msgs))" using column_Nil_iff [of "''routed_experts''" "map f msgs"] out(2) by auto
  moreover have "flat_value sch ''routed_experts'' (map f msgs) = FTensor (MRoutes w (concat (map (route_rows w sentinel) msgs)))"
    by (simp add: flat_value_def sch col comp_def)
  moreover have "all_tokens (map f msgs) = all_tokens msgs" using m(3) by (rule all_tokens_map)
  moreover have "backfill_routed_experts [msgs] sentinel = Inr [map f msgs]"
    using fill by (simp add: backfill_routed_experts_def ref rows is_tensor_def)
  ultimately show ?thesis
    using flat_messages_typed [OF out(1)] flat_tokens [OF out(1)] out(2) by (simp add: map_of_keyed)
qed

text \<open>A log without any routing next to one with it: backfilling leaves it alone, and stacking the routing column then fails.\<close>

lemma sparse_routes_fail:
  fixes batch :: "unit message list list"
  defines "batch \<equiv> [[[(''role'', MText (u ''assistant'')), (''token_ids'', MInts [1]), (''routed_experts'', MRoutes 1 [[7]])]],
      [[(''role'', MText (u ''user'')), (''token_ids'', MInts [2])]]]"
  shows "backfill_routed_experts batch (-1) = Inr batch" "batched_message_log_to_flat_message batch None 1 = Inl RuntimeError"
  by (simp_all add: batch_def backfill_routed_experts_def backfill_message_def is_tensor_def batched_message_log_to_flat_message_def
      message_log_to_flat_messages_def all_keys_def flat_column_def flat_tensor_len.simps seq_len_def List.map_filter_simps
      batch_column_def int_row_def route_row_def round_up_def)

section \<open>The wire format loses nothing\<close>






lemma fold_max_len: "msgs \<in> set batch \<Longrightarrow> length msgs \<le> foldl max 0 (map length batch)"
  using fold_max_ge [of 0 "map length batch"] by simp




text \<open>GRPO's masks on one message and on a log.\<close>

definition generated_msg :: "'o message \<Rightarrow> bool" where
  "generated_msg m \<longleftrightarrow> map_of m ''role'' = Some (MText (u ''assistant'')) \<and> map_of m ''generation_logprobs'' \<noteq> None"

definition logprobs_of :: "'o message \<Rightarrow> rat list" where
  "logprobs_of m = (case map_of m ''generation_logprobs'' of Some v \<Rightarrow> floats_of v | None \<Rightarrow> replicate (length (tokens_of m)) 0)"

definition grpo_ready :: "(string \<Rightarrow> kind) \<Rightarrow> 'o message \<Rightarrow> bool" where
  "grpo_ready sch m \<longleftrightarrow> typed_msg sch m \<and> map_of m ''role'' \<noteq> None \<and> map_of m ''routed_experts'' = None
     \<and> length (logprobs_of m) = length (tokens_of m)"

definition grpo_masked :: "'o message \<Rightarrow> 'o message" where
  "grpo_masked m =
     (let m' = dict_set ''token_loss_mask'' (mask_of (generated_msg m) m) m in
      if map_of m ''generation_logprobs'' = None then dict_set ''generation_logprobs'' (MFloats (logprobs_of m)) m' else m')"

lemma grpo_mask_message_ready:
  assumes "grpo_ready sch m"
  shows "grpo_mask_message m = Inr (grpo_masked m)"
proof -
  have t: "typed_msg sch m" "map_of m ''token_ids'' = Some (MInts (tokens_of m))" using assms by (auto simp: grpo_ready_def typed_msg_def)
  obtain r where r: "map_of m ''role'' = Some r" using assms by (auto simp: grpo_ready_def)
  have g: "(r = MText (u ''assistant'') \<and> map_of m ''generation_logprobs'' \<noteq> None) = generated_msg m" by (simp add: generated_msg_def r)
  show ?thesis
    unfolding grpo_mask_message_def get_item_def t(2) r option.case bind_res_simps g set_loss_mask_typed [OF t(1)]
    by (simp add: grpo_masked_def Let_def logprobs_of_def)
qed

lemma grpo_masked_facts:
  assumes "grpo_ready sch m" "sch ''token_loss_mask'' = KInts" "sch ''generation_logprobs'' = KFloats"
  shows "typed_msg sch (grpo_masked m)" "tokens_of (grpo_masked m) = tokens_of m"
    "map_of (grpo_masked m) ''token_loss_mask'' = Some (mask_of (generated_msg m) m)"
    "map_of (grpo_masked m) ''generation_logprobs'' = Some (MFloats (logprobs_of m))"
proof -
  have t: "typed_msg sch m" "length (logprobs_of m) = length (tokens_of m)" using assms(1) by (auto simp: grpo_ready_def)
  note one = typed_set [OF t(1), of "mask_of (generated_msg m) m" "''token_loss_mask''"]
  have m1: "typed_msg sch (dict_set ''token_loss_mask'' (mask_of (generated_msg m) m) m)"
    "tokens_of (dict_set ''token_loss_mask'' (mask_of (generated_msg m) m) m) = tokens_of m"
    using one assms(2) by (simp_all add: mask_of_def)
  note two = typed_set [OF m1(1), of "MFloats (logprobs_of m)" "''generation_logprobs''"]
  show "typed_msg sch (grpo_masked m)" "tokens_of (grpo_masked m) = tokens_of m"
    using m1 two assms(3) t(2) by (simp_all add: grpo_masked_def Let_def)
  show "map_of (grpo_masked m) ''token_loss_mask'' = Some (mask_of (generated_msg m) m)" by (simp add: grpo_masked_def Let_def)
  show "map_of (grpo_masked m) ''generation_logprobs'' = Some (MFloats (logprobs_of m))"
  proof (cases "map_of m ''generation_logprobs''")
    case (Some v)
    then have "v \<in> set (msg_column ''generation_logprobs'' [m])" by simp
    then have "kind_of v = KFloats" using typed_kind [of sch "[m]" v] t(1) assms(3) by simp
    then show ?thesis using Some by (cases v) (simp_all add: grpo_masked_def Let_def logprobs_of_def)
  qed (simp add: grpo_masked_def Let_def)
qed

lemma grpo_columns:
  assumes "list_all (grpo_ready sch) msgs" "msgs \<noteq> []" "sch ''token_loss_mask'' = KInts" "sch ''generation_logprobs'' = KFloats"
  shows "\<exists>flat. message_log_to_flat_messages (map grpo_masked msgs) = Inr flat
    \<and> map_of flat ''token_ids'' = Some (FTensor (MInts (all_tokens msgs)))
    \<and> map_of flat ''token_loss_mask'' = Some (FTensor (MInts
        (concat (map (\<lambda>m. replicate (length (tokens_of m)) (if generated_msg m then 1 else 0)) msgs))))
    \<and> map_of flat ''generation_logprobs'' = Some (FTensor (MFloats (concat (map logprobs_of msgs))))"
proof -
  let ?out = "map grpo_masked msgs"
  note f = grpo_masked_facts [OF _ assms(3,4)]
  have ready: "grpo_ready sch m" if "m \<in> set msgs" for m using assms(1) that by (simp add: list_all_iff)
  have typed: "list_all (typed_msg sch) ?out" "?out \<noteq> []" using f(1) [OF ready] assms(2) by (simp_all add: list_all_iff)
  have toks: "all_tokens ?out = all_tokens msgs" using f(2) [OF ready] by (rule all_tokens_map)
  have cols: "msg_column ''token_loss_mask'' ?out = map (\<lambda>m. mask_of (generated_msg m) m) msgs"
    "msg_column ''generation_logprobs'' ?out = map (\<lambda>m. MFloats (logprobs_of m)) msgs"
    using f(3) [OF ready] f(4) [OF ready] by (induction msgs) simp_all
  have keys: "''token_loss_mask'' \<in> set (all_keys ?out)" "''generation_logprobs'' \<in> set (all_keys ?out)"
    using column_Nil_iff [of "''token_loss_mask''" ?out] column_Nil_iff [of "''generation_logprobs''" ?out] cols assms(2) by auto
  have vals: "flat_value sch ''token_loss_mask'' ?out
      = FTensor (MInts (concat (map (\<lambda>m. replicate (length (tokens_of m)) (if generated_msg m then 1 else 0)) msgs)))"
    "flat_value sch ''generation_logprobs'' ?out = FTensor (MFloats (concat (map logprobs_of msgs)))"
    by (simp_all add: flat_value_def assms(3,4) cols comp_def mask_of_def)
  show ?thesis
    using flat_messages_typed [OF typed(1)] flat_tokens [OF typed] keys vals toks by (simp add: map_of_keyed)
qed

text \<open>Loss masks mark exactly the assistant's tokens. For every batch of typed logs whose messages have roles, adding the default
  loss mask succeeds, and in every flattened log the mask has one entry per token, in the order of the tokens, which is 1 on the
  tokens of messages of the assistant and 0 on all others.\<close>
lemma loss_mask_exact:
  assumes "list_all (\<lambda>msgs. msgs \<noteq> [] \<and> list_all (\<lambda>m. typed_msg sch m \<and> map_of m ''role'' \<noteq> None) msgs) batch"
    and "sch ''token_loss_mask'' = KInts"
  shows "\<exists>out. add_loss_mask_to_message_log batch None False = Inr out
    \<and> list_all2 (\<lambda>msgs msgs'. \<exists>flat. message_log_to_flat_messages msgs' = Inr flat
        \<and> map_of flat ''token_ids'' = Some (FTensor (MInts (all_tokens msgs)))
        \<and> map_of flat ''token_loss_mask'' = Some (FTensor (MInts
            (concat (map (\<lambda>m. replicate (length (tokens_of m)) (if role_is (u ''assistant'') m then 1 else 0)) msgs))))) batch out"
proof -
  define mask where "mask = map (\<lambda>m :: 'a message. dict_set ''token_loss_mask'' (mask_of (role_is (u ''assistant'') m) m) m)"
  have each: "msgs \<noteq> []" "list_all (typed_msg sch) msgs" "\<And>m. m \<in> set msgs \<Longrightarrow> map_of m ''role'' \<noteq> None"
    if "msgs \<in> set batch" for msgs
    using assms(1) that by (auto simp: list_all_iff)
  have "add_loss_mask_to_message_log batch None False = Inr (map mask batch)"
    unfolding add_loss_mask_to_message_log_def Let_def option.case lower_assistant mask_def
    using add_loss_mask_log [OF each(2,3)] by (intro map_res_Inr) simp
  moreover have "list_all2 (\<lambda>msgs msgs'. \<exists>flat. message_log_to_flat_messages msgs' = Inr flat
        \<and> map_of flat ''token_ids'' = Some (FTensor (MInts (all_tokens msgs)))
        \<and> map_of flat ''token_loss_mask'' = Some (FTensor (MInts
            (concat (map (\<lambda>m. replicate (length (tokens_of m)) (if role_is (u ''assistant'') m then 1 else 0)) msgs))))) batch (map mask batch)"
    using mask_column [OF each(2,1) assms(2)] by (auto simp: list_all2_conv_all_nth mask_def)
  ultimately show ?thesis by blast
qed

lemma loss_mask_exact_witness:
  "\<exists>out. add_loss_mask_to_message_log [[[(''role'', MText (u ''user'')), (''token_ids'', MInts [5, 6])],
        [(''role'', MText (u ''assistant'')), (''token_ids'', MInts [7])] :: unit message]] None False = Inr out
    \<and> list_all2 (\<lambda>msgs msgs'. \<exists>flat. message_log_to_flat_messages msgs' = Inr flat
        \<and> map_of flat ''token_loss_mask'' = Some (FTensor (MInts [0, 0, 1])))
      [[[(''role'', MText (u ''user'')), (''token_ids'', MInts [5, 6])],
        [(''role'', MText (u ''assistant'')), (''token_ids'', MInts [7])]]] out"
proof -
  let ?sch = "\<lambda>k. if k = ''token_ids'' \<or> k = ''token_loss_mask'' then KInts else KOther"
  let ?batch = "[[[(''role'', MText (u ''user'')), (''token_ids'', MInts [5, 6])],
        [(''role'', MText (u ''assistant'')), (''token_ids'', MInts [7])] :: unit message]]"
  have "list_all (\<lambda>msgs. msgs \<noteq> [] \<and> list_all (\<lambda>m. typed_msg ?sch m \<and> map_of m ''role'' \<noteq> None) msgs) ?batch"
    by (simp add: typed_msg_def tokens_of_def)
  from loss_mask_exact [OF this] show ?thesis
    by (auto simp: list_all2_Cons1 tokens_of_def role_is_def u_def numeral_2_eq_2)
qed

section \<open>Properties\<close>





text \<open>C12: GRPO trains on exactly the generated tokens. For every batch of typed logs without routing whose messages have roles and
  whose log-probabilities, where present, are one per token, adding the masks succeeds, and in every flattened log the mask and the
  log-probability column have one entry per token, at the offsets of the tokens: the mask is 1 on the tokens of the messages
  the rollout generated and 0 on all others, assistant messages of the prompt included, and the log-probabilities are the recorded ones there and 0 elsewhere.\<close>
theorem grpo_masks_exact:
  assumes "list_all (\<lambda>msgs. msgs \<noteq> [] \<and> list_all (grpo_ready sch) msgs) batch"
    and "sch ''token_loss_mask'' = KInts" "sch ''generation_logprobs'' = KFloats"
  shows "\<exists>out. add_grpo_token_loss_masks_and_generation_logprobs batch = Inr out
    \<and> list_all2 (\<lambda>msgs msgs'. \<exists>flat. message_log_to_flat_messages msgs' = Inr flat
        \<and> map_of flat ''token_ids'' = Some (FTensor (MInts (all_tokens msgs)))
        \<and> map_of flat ''token_loss_mask'' = Some (FTensor (MInts
            (concat (map (\<lambda>m. replicate (length (tokens_of m)) (if generated_msg m then 1 else 0)) msgs))))
        \<and> map_of flat ''generation_logprobs'' = Some (FTensor (MFloats (concat (map logprobs_of msgs))))) batch out"
proof -
  have each: "msgs \<noteq> []" "list_all (grpo_ready sch) msgs" if "msgs \<in> set batch" for msgs
    using assms(1) that by (auto simp: list_all_iff)
  have none: "msg_column ''routed_experts'' msgs = []" if "list_all (grpo_ready sch) msgs" for msgs :: "'a message list"
    using that by (induction msgs) (auto simp: grpo_ready_def)
  have "backfill_routed_experts batch missing_route_sentinel = Inr (map (\<lambda>msgs. msgs) batch)"
    unfolding backfill_routed_experts_def using none each by (intro map_res_Inr) simp
  moreover have "map_res (map_res grpo_mask_message) batch = Inr (map (map grpo_masked) batch)"
    using grpo_mask_message_ready each(2) by (intro map_res_Inr) (auto simp: list_all_iff)
  ultimately have "add_grpo_token_loss_masks_and_generation_logprobs batch = Inr (map (map grpo_masked) batch)"
    by (simp add: add_grpo_token_loss_masks_and_generation_logprobs_def)
  moreover have "list_all2 (\<lambda>msgs msgs'. \<exists>flat. message_log_to_flat_messages msgs' = Inr flat
        \<and> map_of flat ''token_ids'' = Some (FTensor (MInts (all_tokens msgs)))
        \<and> map_of flat ''token_loss_mask'' = Some (FTensor (MInts
            (concat (map (\<lambda>m. replicate (length (tokens_of m)) (if generated_msg m then 1 else 0)) msgs))))
        \<and> map_of flat ''generation_logprobs'' = Some (FTensor (MFloats (concat (map logprobs_of msgs))))) batch (map (map grpo_masked) batch)"
    using grpo_columns [OF each(2,1) assms(2,3)] by (auto simp: list_all2_conv_all_nth)
  ultimately show ?thesis by blast
qed

theorem grpo_masks_exact_witness:
  "\<exists>out. add_grpo_token_loss_masks_and_generation_logprobs [[[(''role'', MText (u ''assistant'')), (''token_ids'', MInts [5, 6])],
        [(''role'', MText (u ''assistant'')), (''token_ids'', MInts [7]), (''generation_logprobs'', MFloats [- 1])] :: unit message]] = Inr out
    \<and> list_all2 (\<lambda>msgs msgs'. \<exists>flat. message_log_to_flat_messages msgs' = Inr flat
        \<and> map_of flat ''token_loss_mask'' = Some (FTensor (MInts [0, 0, 1]))
        \<and> map_of flat ''generation_logprobs'' = Some (FTensor (MFloats [0, 0, - 1])))
      [[[(''role'', MText (u ''assistant'')), (''token_ids'', MInts [5, 6])],
        [(''role'', MText (u ''assistant'')), (''token_ids'', MInts [7]), (''generation_logprobs'', MFloats [- 1])]]] out"
proof -
  let ?sch = "\<lambda>k. if k = ''token_ids'' \<or> k = ''token_loss_mask'' then KInts else if k = ''generation_logprobs'' then KFloats else KOther"
  let ?batch = "[[[(''role'', MText (u ''assistant'')), (''token_ids'', MInts [5, 6])],
        [(''role'', MText (u ''assistant'')), (''token_ids'', MInts [7]), (''generation_logprobs'', MFloats [- 1])] :: unit message]]"
  have "list_all (\<lambda>msgs. msgs \<noteq> [] \<and> list_all (grpo_ready ?sch) msgs) ?batch"
    by (simp add: grpo_ready_def typed_msg_def tokens_of_def logprobs_of_def)
  from grpo_masks_exact [OF this] show ?thesis
    by (auto simp: list_all2_Cons1 tokens_of_def generated_msg_def logprobs_of_def u_def numeral_2_eq_2)
qed

end
