(* ===== verification/Rollouts.thy ===== *)
theory Rollouts
  imports Message_Log Invalid_Action
begin

text \<open>
  Multi-turn rollouts, \<^verbatim>\<open>experience/rollouts.py\<close>: the batched loop of \<open>run_multi_turn_rollout\<close> and the per-sample loop of
  \<open>run_async_multi_turn_rollout\<close>, with the reward calculation both use.

  The generation engine, the tokenizer and the environments are the functions of a record \<open>services\<close>; the engine and the environments
  may answer differently in every turn, so any run of a stochastic engine is one of these functions. The batched loop appends to
  message logs in place, and rows of a batch may share a log, so its logs live in a store and the rows hold addresses; the per-sample
  loop starts from deep copies. Per-sample tensors are the fields of a record per row. Multimodal inputs and timers are left out.
\<close>

section \<open>Services\<close>

type_synonym msg = "violation list message"
type_synonym stops = "ustring list option"

record gen_input =
  gi_input_ids :: "violation list bvalue"
  gi_lengths :: "nat list"
  gi_stops :: "stops list"

record gen_output =
  go_output_ids :: "int list list"
  go_generation_lengths :: "nat list"
  go_unpadded_lengths :: "nat list"
  go_truncated :: "bool list option"
  go_logprobs :: "rat list list option"
  go_routes :: "(nat \<times> int list list list) option"

datatype step_rewards = Single "rat list" | Named "(string \<times> rat list) list"

record env_return =
  er_observations :: "(ustring \<times> ustring) list"
  er_metadata :: "metadata option list"
  er_next_stops :: "stops list option"
  er_rewards :: step_rewards
  er_terminateds :: "bool list"
  er_answers :: "ustring option list option"

type_synonym env_step = "nat \<Rightarrow> msg list list \<Rightarrow> metadata option list \<Rightarrow> env_return"

record services =
  ro_generate :: "nat \<Rightarrow> gen_input \<Rightarrow> gen_output result"
  ro_decode :: "bool \<Rightarrow> int list \<Rightarrow> ustring"
  ro_tokenize :: "ustring \<Rightarrow> int list"
  ro_pad_token :: int
  ro_envs :: "string \<Rightarrow> env_step option"
  ro_fmt :: formatting

section \<open>The structured protocol\<close>

definition im_start :: ustring where "im_start = u ''<|im_start|>''"
definition im_end :: ustring where "im_end = u ''<|im_end|>''"
definition tool_response_open :: ustring where "tool_response_open = u ''<tool_response>''"
definition tool_response_close :: ustring where "tool_response_close = u ''</tool_response>''"

definition wrap_tool_response_envelope :: "ustring \<Rightarrow> ustring" where
  "wrap_tool_response_envelope body =
     im_start @ u ''user'' @ [10] @ tool_response_open @ [10] @ body
     @ [10] @ tool_response_close @ im_end @ [10] @ im_start @ u ''assistant'' @ [10]"

definition structured_thinking_style :: "structured_tool_use_config option \<Rightarrow> string" where
  "structured_thinking_style cfg =
     (case cfg of None \<Rightarrow> ''paired'' | Some c \<Rightarrow> (case st_thinking_style c of None \<Rightarrow> ''paired'' | Some s \<Rightarrow> s))"

text \<open>The memo on the tokenizer only saves work.\<close>

definition tool_tags_survive_skip_special :: "services \<Rightarrow> bool" where
  "tool_tags_survive_skip_special ro =
     list_all (\<lambda>tag. find_sub tag (ro_decode ro True (ro_tokenize ro tag)) \<noteq> None) [hermes_start, hermes_end]"

definition structured_decode_skip_special :: "structured_tool_use_config option \<Rightarrow> services \<Rightarrow> bool" where
  "structured_decode_skip_special cfg ro =
     (case cfg of
        None \<Rightarrow> True
      | Some c \<Rightarrow> (case st_decode_skip c of Some explicit \<Rightarrow> explicit | None \<Rightarrow> tool_tags_survive_skip_special ro))"

section \<open>Generation\<close>

definition item :: "'a list \<Rightarrow> nat \<Rightarrow> 'a result" where
  "item xs i = (if i < length xs then Inr (xs ! i) else Inl IndexError)"

text \<open>\<open>xs[a:b]\<close> for bounds that are not negative.\<close>

definition slice :: "nat \<Rightarrow> nat \<Rightarrow> 'a list \<Rightarrow> 'a list" where
  "slice a b xs = take (b - a) (drop a xs)"

definition assistant_message :: "services \<Rightarrow> bool \<Rightarrow> bool \<Rightarrow> gen_output \<Rightarrow> nat \<Rightarrow> nat \<Rightarrow> nat \<Rightarrow> msg result" where
  "assistant_message ro skip include_logprobs out i start stop =
     bind_res (item (go_output_ids out) i) (\<lambda>row.
     bind_res (case go_logprobs out of
         Some rows \<Rightarrow> if include_logprobs then bind_res (item rows i) (\<lambda>r. Inr [(''generation_logprobs'', MFloats (slice start stop r))]) else Inr []
       | None \<Rightarrow> Inr []) (\<lambda>lps.
     bind_res (case go_routes out of
         Some (w, rows) \<Rightarrow> bind_res (item rows i) (\<lambda>r. Inr [(''routed_experts'', MRoutes w (slice start stop r))])
       | None \<Rightarrow> Inr []) (\<lambda>routes.
       Inr ([(''role'', MText (u ''assistant'')), (''content'', MText (ro_decode ro skip (slice start stop row))),
             (''token_ids'', MInts (slice start stop row))] @ lps @ routes))))"

text \<open>The rows of the log store to append to are those of the batch, in order. The batch's own stop strings replace the ones of the input.\<close>

definition append_at :: "'a list list \<Rightarrow> nat \<times> 'a \<Rightarrow> 'a list list" where
  "append_at store am = (case am of (a, m) \<Rightarrow> store[a := store ! a @ [m]])"

definition generate_responses ::
  "services \<Rightarrow> nat \<Rightarrow> gen_input \<Rightarrow> stops list option \<Rightarrow> msg list list \<Rightarrow> nat list \<Rightarrow> bool \<Rightarrow> structured_tool_use_config option
    \<Rightarrow> (msg list list \<times> int list list \<times> bool list option) result" where
  "generate_responses ro turn input batch_stops store addrs include_logprobs structured =
     (let lens = gi_lengths input;
          input' = input\<lparr>gi_stops := (case batch_stops of Some s \<Rightarrow> s | None \<Rightarrow> replicate (length lens) None)\<rparr> in
      bind_res (ro_generate ro turn input') (\<lambda>out.
      bind_res (map_res (\<lambda>i. bind_res (item (go_unpadded_lengths out) i) (\<lambda>stop.
          assistant_message ro (structured_decode_skip_special structured ro) include_logprobs out i (lens ! i) stop)) [0..<length lens]) (\<lambda>msgs.
        Inr (foldl append_at store (zip addrs msgs), map tokens_of msgs, go_truncated out))))"

section \<open>Rewards\<close>

datatype row_reward = One rat | Many "(string \<times> rat) list"

record env_row =
  ew_index :: nat
  ew_observation :: "ustring \<times> ustring"
  ew_metadata :: "metadata option"
  ew_next_stop :: stops
  ew_reward :: row_reward
  ew_terminated :: bool
  ew_answer :: "ustring option"

definition row_reward_of :: "step_rewards \<Rightarrow> nat \<Rightarrow> row_reward result" where
  "row_reward_of rewards i =
     (case rewards of
        Single rs \<Rightarrow> bind_res (item rs i) (\<lambda>r. Inr (One r))
      | Named kvs \<Rightarrow> bind_res (map_res (\<lambda>(k, rs). bind_res (item rs i) (\<lambda>r. Inr (k, r))) kvs) (\<lambda>rs. Inr (Many rs)))"

definition env_row_of :: "env_return \<Rightarrow> nat \<times> nat \<Rightarrow> env_row result" where
  "env_row_of r p =
     (case p of (i, idx) \<Rightarrow>
       bind_res (row_reward_of (er_rewards r) i) (\<lambda>reward.
       bind_res (item (er_observations r) i) (\<lambda>obs.
       bind_res (item (er_terminateds r) i) (\<lambda>fin.
       bind_res (item (case er_next_stops r of None \<Rightarrow> replicate (length (er_terminateds r)) None | Some s \<Rightarrow> s) i) (\<lambda>stop.
       bind_res (item (er_metadata r) i) (\<lambda>meta.
       bind_res (item (case er_answers r of None \<Rightarrow> replicate (length (er_terminateds r)) None | Some s \<Rightarrow> s) i) (\<lambda>answer.
         Inr \<lparr>ew_index = idx, ew_observation = obs, ew_metadata = meta, ew_next_stop = stop, ew_reward = reward,
              ew_terminated = fin, ew_answer = answer\<rparr>)))))))"

text \<open>The rewards of all rows: named components when some environment returned them, which every row then has to have.\<close>

definition assemble_rewards :: "env_row list \<Rightarrow> env_row list \<Rightarrow> step_rewards result" where
  "assemble_rewards processed srt =
     (case List.map_filter (\<lambda>r. case ew_reward r of Many kvs \<Rightarrow> Some kvs | One _ \<Rightarrow> None) processed of
        [] \<Rightarrow> Inr (Single (map (\<lambda>r. case ew_reward r of One x \<Rightarrow> x | Many _ \<Rightarrow> 0) srt))
      | kvs0 # others \<Rightarrow>
          if \<not> list_all (\<lambda>kvs. set (map fst kvs) \<subseteq> set (map fst kvs0)) others then Inl KeyError
          else if list_ex (\<lambda>r. case ew_reward r of One _ \<Rightarrow> True | Many _ \<Rightarrow> False) processed then Inl AssertionError
          else bind_res (map_res (\<lambda>(name, _). bind_res (map_res (\<lambda>r. case ew_reward r of
                   Many kvs \<Rightarrow> (case map_of kvs name of Some x \<Rightarrow> Inr x | None \<Rightarrow> Inl IndexError) | One _ \<Rightarrow> Inl IndexError) srt)
                 (\<lambda>xs. Inr (name, xs))) kvs0) (\<lambda>named. Inr (Named named)))"

definition first_occurrences :: "'a list \<Rightarrow> 'a list" where
  "first_occurrences xs = rev (remdups (rev xs))"

definition calculate_rewards ::
  "services \<Rightarrow> nat \<Rightarrow> msg list list \<Rightarrow> string list \<Rightarrow> metadata option list \<Rightarrow> env_return result" where
  "calculate_rewards ro turn logs task_names infos =
     (let to_env = map (\<lambda>l. get_keys_from_message_log l [''role'', ''content'']) logs in
      bind_res (map_res (\<lambda>name.
          case ro_envs ro name of
            None \<Rightarrow> Inl ValueError
          | Some step \<Rightarrow>
              let indices = matching (\<lambda>t. t = name) task_names in
              Inr (indices, step turn (map ((!) to_env) indices) (map ((!) infos) indices))) (first_occurrences task_names)) (\<lambda>results.
      bind_res (map_res (\<lambda>(indices, r). map_res (env_row_of r) (enumerate 0 indices)) results) (\<lambda>rowss.
      let rows = concat rowss; srt = sort_key ew_index rows in
      bind_res (assemble_rewards rows srt) (\<lambda>rewards.
        Inr \<lparr>er_observations = map ew_observation srt, er_metadata = map ew_metadata srt, er_next_stops = Some (map ew_next_stop srt),
             er_rewards = rewards, er_terminateds = map ew_terminated srt, er_answers = Some (map ew_answer srt)\<rparr>))))"

section \<open>The state of a rollout\<close>

text \<open>What both loops keep of one sample. The batched loop adds the address of its log, the per-sample loop the log itself.\<close>

record sample =
  sa_task :: string
  sa_info :: "metadata option"
  sa_stop :: stops
  sa_total :: rat
  sa_named :: "(string \<times> rat) list"
  sa_turns :: nat
  sa_tokens :: nat
  sa_assistant :: nat
  sa_env :: nat
  sa_terminated :: bool
  sa_truncated :: bool
  sa_invalid :: nat
  sa_malformed :: nat

record row = sample +
  rw_addr :: nat

record rollout =
  rl_store :: "msg list list"
  rl_rows :: "row list"
  rl_active :: "nat list"
  rl_names :: "string list option"
  rl_types :: "(string \<times> nat) list"
  rl_messages :: nat
  rl_gen_per_turn :: "nat list"
  rl_active_per_turn :: "nat list"

definition count_assistant :: "nat \<Rightarrow> 'z sample_scheme \<Rightarrow> 'z sample_scheme" where
  "count_assistant n s = s\<lparr>sa_assistant := sa_assistant s + n, sa_tokens := sa_tokens s + n\<rparr>"

definition count_env :: "nat \<Rightarrow> 'z sample_scheme \<Rightarrow> 'z sample_scheme" where
  "count_env n s = s\<lparr>sa_env := sa_env s + n, sa_tokens := sa_tokens s + n\<rparr>"

definition count_verdict :: "invalid_action_verdict \<Rightarrow> 'z sample_scheme \<Rightarrow> 'z sample_scheme" where
  "count_verdict v s =
     s\<lparr>sa_invalid := sa_invalid s + (if iv_invalid_action v then 1 else 0),
       sa_malformed := sa_malformed s + (if iv_malformed_thinking v then 1 else 0)\<rparr>"

text \<open>Flattened input of some logs; the tokenizer's pad id fills up.\<close>

definition model_input :: "services \<Rightarrow> msg list list \<Rightarrow> (violation list bvalue \<times> nat list) result" where
  "model_input ro logs =
     bind_res (batched_message_log_to_flat_message logs (Some [(''token_ids'', ro_pad_token ro)]) 1) (\<lambda>(cols, lens).
     bind_res (get_item cols ''token_ids'') (\<lambda>ids. Inr (ids, lens)))"

definition content_text :: "msg \<Rightarrow> ustring" where
  "content_text m = (case map_of m ''content'' of Some (MText s) \<Rightarrow> s | _ \<Rightarrow> [])"

definition observation_text :: "structured_tool_use_config option \<Rightarrow> ustring \<Rightarrow> ustring" where
  "observation_text structured body = (if structured \<noteq> None then wrap_tool_response_envelope body else body)"

text \<open>The verdict on the last message of a log, and the message with the violations stamped on it.\<close>

definition judge_last ::
  "services \<Rightarrow> invalid_action_cfg \<Rightarrow> structured_tool_use_config option \<Rightarrow> metadata option \<Rightarrow> msg list \<Rightarrow> (invalid_action_verdict \<times> msg list) result" where
  "judge_last ro cfg structured meta msgs =
     bind_res (assess_assistant_turn (ro_fmt ro) (content_text (last msgs)) cfg meta (structured_thinking_style structured) None) (\<lambda>v.
       Inr (v, if iv_violations v \<noteq> []
               then butlast msgs @ [dict_set ''invalid_action_violations'' (MObj (iv_violations v)) (last msgs)] else msgs))"

definition detecting :: "invalid_action_cfg option \<Rightarrow> invalid_action_cfg option" where
  "detecting cfg = (case cfg of Some c \<Rightarrow> if ia_enabled c then Some c else None | None \<Rightarrow> None)"

definition count_types :: "invalid_action_verdict \<Rightarrow> (string \<times> nat) list \<Rightarrow> (string \<times> nat) list" where
  "count_types v counts = fold (\<lambda>x kv. bump_type kv (v_type x)) (iv_violations v) counts"

section \<open>The batched loop\<close>

text \<open>Rewards of a turn: a total per active row, and named components, whose names are fixed by the first turn that has any.\<close>

definition add_named :: "(string \<times> rat list) list \<Rightarrow> nat \<Rightarrow> (string \<times> rat) list \<Rightarrow> (string \<times> rat) list" where
  "add_named kvs k acc = map (\<lambda>(name, x). (name, x + (case map_of kvs name of Some rs \<Rightarrow> rs ! k | None \<Rightarrow> 0))) acc"

definition add_rewards :: "step_rewards \<Rightarrow> rollout \<Rightarrow> rollout result" where
  "add_rewards rewards r =
     (case rewards of
        Single rs \<Rightarrow>
          Inr (r\<lparr>rl_rows := foldl (\<lambda>rows (k, g). rows[g := (rows ! g)\<lparr>sa_total := sa_total (rows ! g) + rs ! k\<rparr>]) (rl_rows r) (enumerate 0 (rl_active r))\<rparr>)
      | Named kvs \<Rightarrow>
          let names = (case rl_names r of None \<Rightarrow> map fst kvs | Some ns \<Rightarrow> ns);
              rows = (if rl_names r = None then map (\<lambda>w. w\<lparr>sa_named := map (\<lambda>n. (n, 0)) names\<rparr>) (rl_rows r) else rl_rows r)
          in if \<not> set (map fst kvs) \<subseteq> set names then Inl KeyError
             else Inr (r\<lparr>rl_names := Some names,
               rl_rows := foldl (\<lambda>rows (k, g). rows[g := (rows ! g)\<lparr>sa_total := sa_total (rows ! g) + sum_list (map (\<lambda>(n, rs). rs ! k) kvs),
                   sa_named := add_named kvs k (sa_named (rows ! g))\<rparr>]) rows (enumerate 0 (rl_active r))\<rparr>))"

text \<open>Tokens of the observation that fit behind \<open>used\<close> tokens, and whether they were cut.\<close>

definition fit_observation :: "nat \<Rightarrow> nat \<Rightarrow> int list \<Rightarrow> (int list \<times> bool) result" where
  "fit_observation max_seq_len used toks =
     (if length toks + used \<ge> max_seq_len
      then if used > max_seq_len then Inl AssertionError else Inr (take (max_seq_len - used) toks, True)
      else Inr (toks, False))"

definition observation_message :: "ustring \<times> ustring \<Rightarrow> violation list mvalue \<Rightarrow> msg" where
  "observation_message obs toks = [(''role'', MText (fst obs)), (''content'', MText (snd obs)), (''token_ids'', toks)]"

text \<open>One active row after the environment's step: verdict, observation, counts. \<open>k\<close> is its position among the active rows, \<open>g\<close> its global one.\<close>

definition observe_row ::
  "services \<Rightarrow> invalid_action_cfg option \<Rightarrow> structured_tool_use_config option \<Rightarrow> nat \<Rightarrow> env_return \<Rightarrow> int list list \<Rightarrow> nat list
    \<Rightarrow> nat \<times> nat \<Rightarrow> rollout \<times> bool list \<Rightarrow> (rollout \<times> bool list) result" where
  "observe_row ro cfg structured max_seq_len out gen_ids lens kg acc =
     (case kg of (k, g) \<Rightarrow> case acc of (r, cut_mask) \<Rightarrow>
       let a = rw_addr (rl_rows r ! g); obs = er_observations out ! k in
       bind_res (case detecting cfg of
           None \<Rightarrow> Inr r
         | Some c \<Rightarrow>
             bind_res (judge_last ro c structured (er_metadata out ! k) (rl_store r ! a)) (\<lambda>(v, msgs).
               Inr (r\<lparr>rl_store := (rl_store r)[a := msgs], rl_rows := (rl_rows r)[g := count_verdict v (rl_rows r ! g)],
                      rl_messages := rl_messages r + 1, rl_types := count_types v (rl_types r)\<rparr>))) (\<lambda>r.
       bind_res (fit_observation max_seq_len (length (gen_ids ! k) + lens ! k) (ro_tokenize ro (observation_text structured (snd obs)))) (\<lambda>(toks, cut).
         let w = rl_rows r ! g;
             w = w\<lparr>sa_truncated := sa_truncated w \<or> cut\<rparr>;
             w = (count_env (length toks) w)\<lparr>sa_turns := sa_turns w + 1\<rparr>
         in Inr (r\<lparr>rl_store := append_at (rl_store r) (a, observation_message obs (MInts toks)), rl_rows := (rl_rows r)[g := w]\<rparr>,
                 cut_mask @ [cut]))))"

fun fold_res :: "('a \<Rightarrow> 'b \<Rightarrow> 'b result) \<Rightarrow> 'a list \<Rightarrow> 'b \<Rightarrow> 'b result" where
  "fold_res f [] s = Inr s"
| "fold_res f (x # xs) s = bind_res (f x s) (fold_res f xs)"

text \<open>Rows that go on take the environment's stop strings and, when there is one, its metadata.\<close>

definition settle_rows :: "env_return \<Rightarrow> bool list \<Rightarrow> rollout \<Rightarrow> rollout" where
  "settle_rows out finished r =
     (let kgs = enumerate 0 (rl_active r); stops = (case er_next_stops out of Some s \<Rightarrow> s | None \<Rightarrow> []);
          rows = foldl (\<lambda>rows (k, g). rows[g := (rows ! g)\<lparr>sa_terminated := sa_terminated (rows ! g) \<or> finished ! k\<rparr>]) (rl_rows r) kgs;
          going = filter (\<lambda>(k, g). \<not> finished ! k) kgs;
          rows = foldl (\<lambda>rows (k, g).
            rows[g := (rows ! g)\<lparr>sa_stop := stops ! k,
                 sa_info := (case pop_env_flags (er_metadata out ! k) of Some m \<Rightarrow> Some m | None \<Rightarrow> sa_info (rows ! g))\<rparr>]) rows going
      in r\<lparr>rl_rows := rows, rl_active := map snd going\<rparr>)"

definition rollout_step ::
  "services \<Rightarrow> invalid_action_cfg option \<Rightarrow> structured_tool_use_config option \<Rightarrow> nat \<Rightarrow> bool \<Rightarrow> nat \<Rightarrow> rollout \<Rightarrow> rollout result" where
  "rollout_step ro cfg structured max_seq_len has_stops turn r =
     (let active = rl_active r; rows = map ((!) (rl_rows r)) active; addrs = map rw_addr rows in
      bind_res (model_input ro (map ((!) (rl_store r)) addrs)) (\<lambda>(ids, lens).
      bind_res (generate_responses ro turn \<lparr>gi_input_ids = ids, gi_lengths = lens, gi_stops = map sa_stop rows\<rparr>
          (if has_stops then Some (map sa_stop rows) else None) (rl_store r) addrs True structured) (\<lambda>(store, gen_ids, truncated).
      let r = r\<lparr>rl_store := store, rl_active_per_turn := rl_active_per_turn r @ [length active],
            rl_gen_per_turn := rl_gen_per_turn r @ [sum_list (map length gen_ids)],
            rl_rows := foldl (\<lambda>rows (k, g). rows[g := count_assistant (length (gen_ids ! k))
                (case truncated of Some ts \<Rightarrow> if ts ! k then (rows ! g)\<lparr>sa_truncated := True\<rparr> else rows ! g | None \<Rightarrow> rows ! g)])
              (rl_rows r) (enumerate 0 active)\<rparr>
      in
      bind_res (calculate_rewards ro turn (map ((!) store) addrs) (map sa_task rows) (map sa_info rows)) (\<lambda>out.
      bind_res (add_rewards (er_rewards out) r) (\<lambda>r.
      bind_res (fold_res (observe_row ro cfg structured max_seq_len out gen_ids lens) (enumerate 0 active) (r, [])) (\<lambda>(r, cut_mask).
        Inr (settle_rows out (map2 (\<or>) cut_mask (er_terminateds out)) r)))))))"

fun rollout_loop ::
  "services \<Rightarrow> invalid_action_cfg option \<Rightarrow> structured_tool_use_config option \<Rightarrow> nat \<Rightarrow> bool \<Rightarrow> nat \<Rightarrow> nat \<Rightarrow> rollout \<Rightarrow> rollout result" where
  "rollout_loop ro cfg structured max_seq_len has_stops 0 turn r = Inr r"
| "rollout_loop ro cfg structured max_seq_len has_stops (Suc n) turn r =
     (if rl_active r = [] then Inr r
      else bind_res (rollout_step ro cfg structured max_seq_len has_stops turn r)
             (rollout_loop ro cfg structured max_seq_len has_stops n (turn + 1)))"

text \<open>The batch a rollout starts from: message logs, by their addresses in the store, and the columns it reads.\<close>

record rollout_batch =
  bt_logs :: "nat list"
  bt_info :: "metadata option list"
  bt_task :: "string list"
  bt_stops :: "stops list option"
  bt_idx :: "int list option"

definition new_sample :: "string \<Rightarrow> metadata option \<Rightarrow> stops \<Rightarrow> sample" where
  "new_sample task info stop =
     \<lparr>sa_task = task, sa_info = info, sa_stop = stop, sa_total = 0, sa_named = [], sa_turns = 0, sa_tokens = 0, sa_assistant = 0,
      sa_env = 0, sa_terminated = False, sa_truncated = False, sa_invalid = 0, sa_malformed = 0\<rparr>"

definition batch_stop :: "rollout_batch \<Rightarrow> nat \<Rightarrow> stops" where
  "batch_stop b i = (case bt_stops b of None \<Rightarrow> None | Some s \<Rightarrow> s ! i)"

definition initial_rollout :: "msg list list \<Rightarrow> rollout_batch \<Rightarrow> rollout" where
  "initial_rollout store b =
     \<lparr>rl_store = store,
      rl_rows = map (\<lambda>i. sample.extend (new_sample (bt_task b ! i) (bt_info b ! i) (batch_stop b i)) \<lparr>rw_addr = bt_logs b ! i\<rparr>)
        [0..<length (bt_logs b)],
      rl_active = [0..<length (bt_logs b)], rl_names = None, rl_types = [], rl_messages = 0, rl_gen_per_turn = [], rl_active_per_turn = []\<rparr>"

definition mean_of :: "('r \<Rightarrow> rat) \<Rightarrow> 'r list \<Rightarrow> rat" where
  "mean_of f rows = sum_list (map f rows) / of_nat (length rows)"

definition rate_of :: "('r \<Rightarrow> bool) \<Rightarrow> 'r list \<Rightarrow> rat" where
  "rate_of P rows = mean_of (\<lambda>w. if P w then 1 else 0) rows"

definition max_of :: "('r \<Rightarrow> 'a :: linorder) \<Rightarrow> 'r list \<Rightarrow> 'a" where
  "max_of f rows = Max (set (map f rows))"

definition min_of :: "('r \<Rightarrow> 'a :: linorder) \<Rightarrow> 'r list \<Rightarrow> 'a" where
  "min_of f rows = Min (set (map f rows))"

definition violation_metrics :: "invalid_action_cfg option \<Rightarrow> 'z sample_scheme list \<Rightarrow> (string \<times> nat) list \<Rightarrow> nat \<Rightarrow> (string \<times> rat) list" where
  "violation_metrics cfg rows types messages =
     (if detecting cfg = None then []
      else [(''invalid_action_rate'', rate_of (\<lambda>w. sa_invalid w > 0) rows), (''malformed_thinking_rate'', rate_of (\<lambda>w. sa_malformed w > 0) rows)]
           @ violation_rate_metrics types messages)"

text \<open>The metrics of the batched loop; the rows still active at the end reached the turn limit. The maximum of no rows raises.\<close>

definition rollout_metrics :: "invalid_action_cfg option \<Rightarrow> rollout \<Rightarrow> (string \<times> rat) list result" where
  "rollout_metrics cfg r =
     (let rows = rl_rows r in
      if rows = [] then Inl RuntimeError
      else Inr ([(''total_turns'', of_nat (sum_list (map sa_turns rows))), (''avg_turns_per_sample'', mean_of (of_nat \<circ> sa_turns) rows),
          (''max_turns_per_sample'', of_nat (max_of sa_turns rows)), (''natural_termination_rate'', rate_of sa_terminated rows),
          (''truncation_rate'', rate_of sa_truncated rows),
          (''max_turns_reached_rate'', rate_of (\<lambda>i. i \<in> set (rl_active r)) [0..<length rows])]
        @ violation_metrics cfg rows (rl_types r) (rl_messages r)
        @ [(''mean_total_tokens_per_sample'', mean_of (of_nat \<circ> sa_tokens) rows),
           (''mean_gen_tokens_per_sample'', mean_of (of_nat \<circ> sa_assistant) rows),
           (''max_gen_tokens_per_sample'', of_nat (max_of sa_assistant rows)),
           (''mean_env_tokens_per_sample'', mean_of (of_nat \<circ> sa_env) rows), (''mean_total_reward'', mean_of sa_total rows),
           (''max_total_reward'', max_of sa_total rows), (''min_total_reward'', min_of sa_total rows)]))"

definition run_multi_turn_rollout ::
  "services \<Rightarrow> invalid_action_cfg option \<Rightarrow> structured_tool_use_config option \<Rightarrow> nat \<Rightarrow> nat \<Rightarrow> msg list list \<Rightarrow> rollout_batch
    \<Rightarrow> (rollout \<times> (string \<times> rat) list) result" where
  "run_multi_turn_rollout ro cfg structured max_seq_len max_turns store b =
     bind_res (rollout_loop ro cfg structured max_seq_len (bt_stops b \<noteq> None) max_turns 0 (initial_rollout store b)) (\<lambda>r.
     bind_res (rollout_metrics cfg r) (\<lambda>metrics. Inr (r, metrics)))"

section \<open>The per-sample loop\<close>

record solo = sample +
  so_log :: "msg list"
  so_multi :: bool
  so_types :: "(string \<times> nat) list"
  so_messages :: nat
  so_gen_tokens :: "nat list"
  so_input_tokens :: "nat list"
  so_total_tokens :: "nat list"

definition generate_for_sample ::
  "services \<Rightarrow> structured_tool_use_config option \<Rightarrow> nat \<Rightarrow> msg list \<Rightarrow> stops \<Rightarrow> (msg list \<times> int list \<times> nat \<times> bool list option) result" where
  "generate_for_sample ro structured turn msgs stop =
     bind_res (model_input ro [msgs]) (\<lambda>(ids, lens).
     bind_res (generate_responses ro turn \<lparr>gi_input_ids = ids, gi_lengths = lens, gi_stops = [stop]\<rparr> (Some [stop]) [msgs] [0] True structured)
       (\<lambda>(store, gens, truncated).
     bind_res (item lens 0) (\<lambda>len. Inr (store ! 0, (case gens of [] \<Rightarrow> [] | gen # _ \<Rightarrow> gen), len, truncated))))"

definition solo_reward :: "step_rewards \<Rightarrow> solo \<Rightarrow> solo" where
  "solo_reward rewards s =
     (case rewards of
        Single rs \<Rightarrow> s\<lparr>sa_total := sa_total s + rs ! 0\<rparr>
      | Named kvs \<Rightarrow> s\<lparr>so_multi := True, sa_total := sa_total s + sum_list (map (\<lambda>(n, rs). rs ! 0) kvs),
          sa_named := fold (\<lambda>(n, rs) acc. dict_set n ((case map_of acc n of None \<Rightarrow> 0 | Some x \<Rightarrow> x) + rs ! 0) acc) kvs (sa_named s)\<rparr>)"

text \<open>The tokenizer returns a float tensor for an empty text; this loop does not convert it.\<close>

definition raw_tensor :: "int list \<Rightarrow> int list \<Rightarrow> violation list mvalue" where
  "raw_tensor toks kept = (if toks = [] then MFloats [] else MInts kept)"

text \<open>One turn of one sample: generation, verdict, reward, observation, and the state for the next turn. The flag says that generation
  failed, which ends the sample's loop.\<close>

definition solo_generated :: "msg list \<Rightarrow> int list \<Rightarrow> nat \<Rightarrow> bool list option \<Rightarrow> solo \<Rightarrow> solo" where
  "solo_generated msgs gen in_len truncated s =
     (let s = count_assistant (length gen) (s\<lparr>so_log := msgs,
                sa_truncated := sa_truncated s \<or> (case truncated of Some ts \<Rightarrow> ts ! 0 | None \<Rightarrow> False)\<rparr>)
      in s\<lparr>so_gen_tokens := so_gen_tokens s @ [length gen], so_input_tokens := so_input_tokens s @ [in_len],
           so_total_tokens := so_total_tokens s @ [in_len + length gen]\<rparr>)"

definition solo_judge ::
  "services \<Rightarrow> invalid_action_cfg option \<Rightarrow> structured_tool_use_config option \<Rightarrow> metadata option \<Rightarrow> solo \<Rightarrow> solo result" where
  "solo_judge ro cfg structured meta s =
     (case detecting cfg of
        None \<Rightarrow> Inr s
      | Some c \<Rightarrow>
          bind_res (judge_last ro c structured meta (so_log s)) (\<lambda>(v, msgs).
            Inr ((count_verdict v s)\<lparr>so_log := msgs, so_messages := so_messages s + 1, so_types := count_types v (so_types s)\<rparr>)))"

definition solo_observe ::
  "services \<Rightarrow> structured_tool_use_config option \<Rightarrow> nat \<Rightarrow> ustring \<times> ustring \<Rightarrow> nat \<Rightarrow> nat \<Rightarrow> solo \<Rightarrow> solo" where
  "solo_observe ro structured max_seq_len obs in_len gen_len s =
     (let toks = ro_tokenize ro (observation_text structured (snd obs));
          cut = (in_len + gen_len + length toks \<ge> max_seq_len);
          kept = (if cut then take (max_seq_len - in_len - gen_len) toks else toks)
      in count_env (length kept) (s\<lparr>sa_truncated := sa_truncated s \<or> cut,
           so_log := so_log s @ [observation_message obs (raw_tensor toks kept)]\<rparr>))"

definition solo_settle :: "env_return \<Rightarrow> solo \<Rightarrow> solo" where
  "solo_settle out s =
     (if sa_terminated s \<or> sa_truncated s then s
      else s\<lparr>sa_stop := (case er_next_stops out of Some (Some x # _) \<Rightarrow> Some x | _ \<Rightarrow> sa_stop s),
             sa_info := (case pop_env_flags (er_metadata out ! 0) of Some m \<Rightarrow> Some m | None \<Rightarrow> sa_info s)\<rparr>)"

definition solo_step ::
  "services \<Rightarrow> invalid_action_cfg option \<Rightarrow> structured_tool_use_config option \<Rightarrow> nat \<Rightarrow> nat \<Rightarrow> solo \<Rightarrow> (solo \<times> bool) result" where
  "solo_step ro cfg structured max_seq_len turn s =
     (let s = s\<lparr>sa_turns := sa_turns s + 1\<rparr> in
      case generate_for_sample ro structured turn (so_log s) (sa_stop s) of
        Inl _ \<Rightarrow> Inr (s, True)
      | Inr (msgs, gen, in_len, truncated) \<Rightarrow>
          let s = solo_generated msgs gen in_len truncated s in
          bind_res (calculate_rewards ro turn [so_log s] [sa_task s] [sa_info s]) (\<lambda>out.
          bind_res (solo_judge ro cfg structured (er_metadata out ! 0) s) (\<lambda>s.
          let s = (solo_reward (er_rewards out) s)\<lparr>sa_terminated := er_terminateds out ! 0\<rparr>;
              s = solo_observe ro structured max_seq_len (er_observations out ! 0) in_len (length gen) s
          in Inr (solo_settle out s, False))))"

fun solo_loop ::
  "services \<Rightarrow> invalid_action_cfg option \<Rightarrow> structured_tool_use_config option \<Rightarrow> nat \<Rightarrow> nat \<Rightarrow> nat \<Rightarrow> solo \<Rightarrow> solo result" where
  "solo_loop ro cfg structured max_seq_len 0 turn s = Inr s"
| "solo_loop ro cfg structured max_seq_len (Suc n) turn s =
     (if sa_terminated s \<or> sa_truncated s then Inr s
      else bind_res (solo_step ro cfg structured max_seq_len turn s) (\<lambda>(s, failed).
             if failed then Inr s else solo_loop ro cfg structured max_seq_len n (turn + 1) s))"

definition fresh_solo :: "msg list list \<Rightarrow> rollout_batch \<Rightarrow> nat \<Rightarrow> solo" where
  "fresh_solo store b i =
     sample.extend (new_sample (bt_task b ! i) (bt_info b ! i) (batch_stop b i))
       \<lparr>so_log = store ! (bt_logs b ! i), so_multi = False, so_types = [], so_messages = 0, so_gen_tokens = [], so_input_tokens = [],
        so_total_tokens = []\<rparr>"

definition run_sample_multi_turn_rollout ::
  "services \<Rightarrow> invalid_action_cfg option \<Rightarrow> structured_tool_use_config option \<Rightarrow> nat \<Rightarrow> nat \<Rightarrow> solo \<Rightarrow> (solo \<times> bool) result" where
  "run_sample_multi_turn_rollout ro cfg structured max_seq_len max_turns s =
     bind_res (solo_loop ro cfg structured max_seq_len max_turns 0 s) (\<lambda>s. Inr (s, sa_turns s \<ge> max_turns))"

text \<open>The batch the per-sample rollouts are put together to.\<close>

record async_batch =
  ab_logs :: "msg list list"
  ab_info :: "metadata option list"
  ab_task :: "string list"
  ab_total :: "rat list"
  ab_idx :: "nat list"
  ab_truncated :: "bool list"
  ab_invalid :: "(nat list \<times> nat list) option"
  ab_named :: "(string \<times> rat list) list"

definition reward_key :: "string \<Rightarrow> bool" where
  "reward_key k \<longleftrightarrow> take 7 k = ''reward/''"

definition async_named :: "solo list \<Rightarrow> (string \<times> rat list) list" where
  "async_named states =
     map (\<lambda>k. (k, map (\<lambda>s. case map_of (sa_named s) k of Some x \<Rightarrow> x | None \<Rightarrow> 0) states))
       (filter reward_key (all_keys (map sa_named states)))"

fun merge_counts :: "(string \<times> nat) list \<Rightarrow> (string \<times> nat) list \<Rightarrow> (string \<times> nat) list" where
  "merge_counts acc [] = acc"
| "merge_counts acc ((k, n) # kvs) = merge_counts (dict_set k ((case map_of acc k of None \<Rightarrow> 0 | Some m \<Rightarrow> m) + n) acc) kvs"

definition async_metrics :: "invalid_action_cfg option \<Rightarrow> (solo \<times> bool) list \<Rightarrow> (string \<times> rat) list" where
  "async_metrics cfg results =
     (let states = map fst results in
      [(''total_turns'', of_nat (sum_list (map sa_turns states))), (''avg_turns_per_sample'', mean_of (of_nat \<circ> sa_turns) states),
       (''max_turns_per_sample'', of_nat (max_of sa_turns states)), (''natural_termination_rate'', rate_of sa_terminated states),
       (''truncation_rate'', rate_of sa_truncated states), (''max_turns_reached_rate'', rate_of snd results),
       (''mean_total_tokens_per_sample'', mean_of (of_nat \<circ> sa_tokens) states),
       (''mean_gen_tokens_per_sample'', mean_of (of_nat \<circ> sa_assistant) states),
       (''max_gen_tokens_per_sample'', of_nat (max_of sa_assistant states)),
       (''mean_env_tokens_per_sample'', mean_of (of_nat \<circ> sa_env) states), (''mean_total_reward'', mean_of sa_total states),
       (''max_total_reward'', max_of sa_total states), (''min_total_reward'', min_of sa_total states)]
      @ violation_metrics cfg states (foldl merge_counts [] (map so_types states)) (sum_list (map so_messages states)))"

text \<open>All samples run concurrently and independently; an exception of one ends the whole call with a \<open>RuntimeError\<close>, as does an empty batch.\<close>

definition run_async_multi_turn_rollout ::
  "services \<Rightarrow> invalid_action_cfg option \<Rightarrow> structured_tool_use_config option \<Rightarrow> nat \<Rightarrow> nat \<Rightarrow> msg list list \<Rightarrow> rollout_batch
    \<Rightarrow> (async_batch \<times> (string \<times> rat) list) result" where
  "run_async_multi_turn_rollout ro cfg structured max_seq_len max_turns store b =
     (let n = length (bt_logs b) in
      case map_res (\<lambda>i. run_sample_multi_turn_rollout ro cfg structured max_seq_len max_turns (fresh_solo store b i)) [0..<n] of
        Inl _ \<Rightarrow> Inl RuntimeError
      | Inr results \<Rightarrow>
          if results = [] then Inl RuntimeError
          else
            let states = map fst results in
            Inr (\<lparr>ab_logs = map so_log states, ab_info = map sa_info states, ab_task = map sa_task states, ab_total = map sa_total states,
                  ab_idx = [0..<n], ab_truncated = map sa_truncated states,
                  ab_invalid = (if detecting cfg = None then None else Some (map sa_invalid states, map sa_malformed states)),
                  ab_named = async_named states\<rparr>, async_metrics cfg results))"

section \<open>Rewards go back to their rows\<close>

text \<open>The position of row \<open>i\<close> among the rows of its task.\<close>

definition rank_in :: "'a list \<Rightarrow> nat \<Rightarrow> nat" where
  "rank_in tasks i = length (filter (\<lambda>j. tasks ! j = tasks ! i) [0..<i])"

lemma filter_upt_split:
  assumes "i < n" "P i"
  shows "filter P [0..<n] = filter P [0..<i] @ i # filter P [Suc i..<n]"
proof -
  have "[0..<n] = [0..<i] @ i # [Suc i..<n]" using assms(1) by (metis less_imp_le_nat upt_add_eq_append upt_conv_Cons le0 le_add_diff_inverse)
  then show ?thesis using assms(2) by simp
qed

lemma matching_rank:
  assumes "p < length (matching (\<lambda>t. t = name) tasks)"
  shows "rank_in tasks (matching (\<lambda>t. t = name) tasks ! p) = p"
proof -
  let ?m = "filter (\<lambda>i. tasks ! i = name) [0..<length tasks]"
  define i where "i = ?m ! p"
  have p: "p < length ?m" using assms by (simp add: matching_def)
  have i: "i < length tasks" "tasks ! i = name" using nth_mem [OF p] by (auto simp: i_def)
  have "?m = filter (\<lambda>i. tasks ! i = name) [0..<i] @ i # filter (\<lambda>i. tasks ! i = name) [Suc i..<length tasks]"
    using i by (intro filter_upt_split) simp_all
  moreover have "rank_in tasks i = length (filter (\<lambda>i. tasks ! i = name) [0..<i])" using i(2) by (simp add: rank_in_def)
  ultimately have "?m ! rank_in tasks i = i" "rank_in tasks i < length ?m" by (metis nth_append_length) (simp add: \<open>rank_in tasks i = _\<close>, metis \<open>?m = _\<close> length_append less_add_same_cancel1 length_Cons zero_less_Suc)
  then have "rank_in tasks i = p" using p distinct_filter [of "[0..<length tasks]"] by (simp add: i_def nth_eq_iff_index_eq)
  then show ?thesis by (simp add: i_def matching_def)
qed

lemma matching_rank_less:
  assumes "i < length tasks"
  shows "rank_in tasks i < length (matching (\<lambda>t. t = tasks ! i) tasks)"
  using filter_upt_split [OF assms, of "\<lambda>j. tasks ! j = tasks ! i"] by (simp add: rank_in_def matching_def)

text \<open>What an environment returns for \<open>n\<close> rows when it keeps to its interface, with one reward per row.\<close>

definition rewards_of :: "env_return \<Rightarrow> rat list" where
  "rewards_of r = (case er_rewards r of Single rs \<Rightarrow> rs | Named _ \<Rightarrow> [])"

definition opt_list :: "'a option list option \<Rightarrow> nat \<Rightarrow> 'a option list" where
  "opt_list xs n = (case xs of None \<Rightarrow> replicate n None | Some ys \<Rightarrow> ys)"

definition shaped :: "env_return \<Rightarrow> nat \<Rightarrow> bool" where
  "shaped r n \<longleftrightarrow> er_rewards r = Single (rewards_of r) \<and> length (rewards_of r) = n \<and> length (er_observations r) = n
     \<and> length (er_metadata r) = n \<and> length (er_terminateds r) = n
     \<and> length (opt_list (er_next_stops r) n) = n \<and> length (opt_list (er_answers r) n) = n"

definition env_row_at :: "env_return \<Rightarrow> nat \<Rightarrow> nat \<Rightarrow> nat \<Rightarrow> env_row" where
  "env_row_at r n p i =
     \<lparr>ew_index = i, ew_observation = er_observations r ! p, ew_metadata = er_metadata r ! p,
      ew_next_stop = opt_list (er_next_stops r) n ! p, ew_reward = One (rewards_of r ! p),
      ew_terminated = er_terminateds r ! p, ew_answer = opt_list (er_answers r) n ! p\<rparr>"

lemma env_row_of_shaped: "shaped r n \<Longrightarrow> p < n \<Longrightarrow> env_row_of r (p, i) = Inr (env_row_at r n p i)"
  by (auto simp: shaped_def env_row_of_def row_reward_of_def item_def env_row_at_def opt_list_def split: step_rewards.splits option.splits)

lemma env_rows_shaped:
  assumes "shaped r (length idx)"
  shows "map_res (env_row_of r) (enumerate 0 idx) = Inr (map2 (env_row_at r (length idx)) [0..<length idx] idx)"
  using map_res_enumerate [of idx "env_row_of r" 0 "env_row_at r (length idx)"] env_row_of_shaped [OF assms] by simp

lemma first_occurrences_set [simp]: "set (first_occurrences xs) = set xs"
  by (simp add: first_occurrences_def)

lemma first_occurrences_distinct [simp]: "distinct (first_occurrences xs)"
  by (simp add: first_occurrences_def)

lemma matching_concat:
  "distinct (concat (map (\<lambda>name. matching (\<lambda>t. t = name) tasks) (first_occurrences tasks)))"
  "set (concat (map (\<lambda>name. matching (\<lambda>t. t = name) tasks) (first_occurrences tasks))) = {0..<length tasks}"
proof -
  have "distinct (map (\<lambda>name. matching (\<lambda>t. t = name) tasks) (first_occurrences tasks))"
  proof (subst distinct_map, intro conjI inj_onI)
    fix a b assume "a \<in> set (first_occurrences tasks)" "matching (\<lambda>t. t = a) tasks = matching (\<lambda>t. t = b) tasks"
    moreover from this(1) obtain i where "i < length tasks" "tasks ! i = a" by (auto simp: in_set_conv_nth)
    ultimately have "i \<in> set (matching (\<lambda>t. t = b) tasks)" using set_matching [of "\<lambda>t. t = a" tasks] by auto
    then show "a = b" using \<open>tasks ! i = a\<close> by (simp add: set_matching)
  qed simp
  then show "distinct (concat (map (\<lambda>name. matching (\<lambda>t. t = name) tasks) (first_occurrences tasks)))"
    by (intro distinct_concat) (auto simp: set_matching matching_def)
  show "set (concat (map (\<lambda>name. matching (\<lambda>t. t = name) tasks) (first_occurrences tasks))) = {0..<length tasks}"
    by (auto simp: set_matching)
qed

lemma sort_key_index:
  assumes "distinct is" "set is = {0..<n}" "\<And>i. ew_index (f i) = i"
  shows "sort_key ew_index (map f is) = map f [0..<n]"
proof (rule properties_for_sort_key)
  have "mset is = mset [0..<n]" using assms(1,2) by (metis distinct_upt set_eq_iff_mset_eq_distinct set_upt)
  then show "mset (map f [0..<n]) = mset (map f is)" by simp
  show "sorted (map ew_index (map f [0..<n]))" using assms(3) by (simp add: comp_def)
  fix k assume "k \<in> set (map f [0..<n])"
  then obtain i where i: "k = f i" "i < n" by auto
  have "filter (\<lambda>y. ew_index k = ew_index y) (map f js) = map f (filter (\<lambda>j. j = i) js)" for js
    using assms(3) i(1) by (simp add: filter_map comp_def eq_commute [of i])
  moreover have "filter (\<lambda>j. j = i) js = (if i \<in> set js then [i] else [])" if "distinct js" for js
    using that by (induction js) auto
  ultimately show "filter (\<lambda>y. ew_index k = ew_index y) (map f [0..<n]) = filter (\<lambda>y. ew_index k = ew_index y) (map f is)"
    using assms(1,2) i(2) by simp
qed

text \<open>The environment's answer for the rows of one task.\<close>

definition group_return :: "services \<Rightarrow> nat \<Rightarrow> msg list list \<Rightarrow> string list \<Rightarrow> metadata option list \<Rightarrow> string \<Rightarrow> env_return" where
  "group_return ro turn logs tasks infos name =
     (let idx = matching (\<lambda>t. t = name) tasks
      in the (ro_envs ro name) turn (map (\<lambda>i. get_keys_from_message_log (logs ! i) [''role'', ''content'']) idx) (map ((!) infos) idx))"

definition group_size :: "string list \<Rightarrow> string \<Rightarrow> nat" where
  "group_size tasks name = length (matching (\<lambda>t. t = name) tasks)"

definition row_answer :: "(string \<Rightarrow> env_return) \<Rightarrow> string list \<Rightarrow> nat \<Rightarrow> env_row" where
  "row_answer R tasks i = env_row_at (R (tasks ! i)) (group_size tasks (tasks ! i)) (rank_in tasks i) i"

lemma calculate_rewards_rows:
  assumes "length logs = length tasks" "\<And>name. name \<in> set tasks \<Longrightarrow> ro_envs ro name \<noteq> None"
    and "\<And>name. name \<in> set tasks \<Longrightarrow> shaped (group_return ro turn logs tasks infos name) (group_size tasks name)"
  defines "rows \<equiv> map (row_answer (group_return ro turn logs tasks infos) tasks) [0..<length tasks]"
  shows "calculate_rewards ro turn logs tasks infos = Inr
      \<lparr>er_observations = map ew_observation rows, er_metadata = map ew_metadata rows, er_next_stops = Some (map ew_next_stop rows),
       er_rewards = Single (map (\<lambda>r. case ew_reward r of One x \<Rightarrow> x | Many _ \<Rightarrow> 0) rows), er_terminateds = map ew_terminated rows,
       er_answers = Some (map ew_answer rows)\<rparr>"
proof -
  let ?R = "group_return ro turn logs tasks infos" and ?m = "\<lambda>name. matching (\<lambda>t. t = name) tasks"
  let ?names = "first_occurrences tasks" and ?row = "row_answer (group_return ro turn logs tasks infos) tasks"
  have results: "map_res (\<lambda>name. case ro_envs ro name of None \<Rightarrow> Inl ValueError
        | Some step \<Rightarrow> let indices = ?m name in
            Inr (indices, step turn (map ((!) (map (\<lambda>l. get_keys_from_message_log l [''role'', ''content'']) logs)) indices) (map ((!) infos) indices))) ?names
      = Inr (map (\<lambda>name. (?m name, ?R name)) ?names)"
  proof (intro map_res_Inr)
    fix name assume "name \<in> set ?names"
    then obtain step where step: "ro_envs ro name = Some step" using assms(2) by auto
    have "map ((!) (map (\<lambda>l. get_keys_from_message_log l [''role'', ''content'']) logs)) (?m name)
        = map (\<lambda>i. get_keys_from_message_log (logs ! i) [''role'', ''content'']) (?m name)"
      using assms(1) by (intro map_cong refl) (simp add: set_matching)
    then show "(case ro_envs ro name of None \<Rightarrow> Inl ValueError
        | Some step \<Rightarrow> let indices = ?m name in
            Inr (indices, step turn (map ((!) (map (\<lambda>l. get_keys_from_message_log l [''role'', ''content'']) logs)) indices) (map ((!) infos) indices)))
      = Inr (?m name, ?R name)"
      unfolding step option.case Let_def group_return_def option.sel by (rule arg_cong)
  qed
  have group: "map_res (env_row_of (?R name)) (enumerate 0 (?m name)) = Inr (map ?row (?m name))" if "name \<in> set ?names" for name
  proof -
    have "map2 (env_row_at (?R name) (length (?m name))) [0..<length (?m name)] (?m name) = map ?row (?m name)"
    proof (intro nth_equalityI)
      fix p assume p: "p < length (map2 (env_row_at (?R name) (length (?m name))) [0..<length (?m name)] (?m name))"
      then have "tasks ! (?m name ! p) = name" using nth_mem [of p "?m name"] by (auto simp: set_matching)
      then show "map2 (env_row_at (?R name) (length (?m name))) [0..<length (?m name)] (?m name) ! p = map ?row (?m name) ! p"
        using p matching_rank [of p name tasks] by (simp add: row_answer_def group_size_def)
    qed simp
    then show ?thesis using env_rows_shaped [of "?R name" "?m name"] assms(3) [of name] that by (simp add: group_size_def)
  qed
  have rowss: "map_res (\<lambda>(indices, r). map_res (env_row_of r) (enumerate 0 indices)) (map (\<lambda>name. (?m name, ?R name)) ?names)
      = Inr (map (\<lambda>name. map ?row (?m name)) ?names)"
    unfolding map_res_map using group by (intro map_res_Inr) simp
  have cat: "concat (map (\<lambda>name. map ?row (?m name)) ?names) = map ?row (concat (map ?m ?names))"
    by (simp add: map_concat comp_def)
  have srt: "sort_key ew_index (concat (map (\<lambda>name. map ?row (?m name)) ?names)) = rows"
    unfolding cat rows_def by (rule sort_key_index [OF matching_concat]) (simp add: row_answer_def env_row_at_def)
  have "List.map_filter (\<lambda>r. case ew_reward r of Many kvs \<Rightarrow> Some kvs | One _ \<Rightarrow> None) (concat (map (\<lambda>name. map ?row (?m name)) ?names)) = []"
    unfolding cat by (simp add: List.map_filter_def row_answer_def env_row_at_def filter_empty_conv)
  then show ?thesis
    unfolding calculate_rewards_def Let_def results [unfolded Let_def] bind_res_simps rowss srt assemble_rewards_def by simp
qed


end
