(* ===== verification/Rollout_Agreement.thy ===== *)
theory Rollout_Agreement
  imports Rollouts
begin

text \<open>
  What the two rollout loops of \<^verbatim>\<open>experience/rollouts.py\<close> do. A turn of the batched loop changes every active row by a function of
  that row alone, as long as rows do not share logs (\<open>rollout_step_effect\<close>); a turn of the per-sample loop changes its sample by the
  same function; so with services that treat rows separately both return the same logs, rewards and counts. Token
  accounting of the per-sample loop holds for any services. Rows that share a log, as repeated prompts do, are shown on a run.
\<close>

section \<open>The effect of a turn on one row\<close>

lemma truncate_updates [simp]:
  "sample.truncate (count_assistant n w) = count_assistant n (sample.truncate w)"
  "sample.truncate (count_env n w) = count_env n (sample.truncate w)"
  "sample.truncate (count_verdict v w) = count_verdict v (sample.truncate w)"
  "sample.truncate (w\<lparr>sa_truncated := b\<rparr>) = (sample.truncate w)\<lparr>sa_truncated := b\<rparr>"
  "sample.truncate (w\<lparr>sa_terminated := b\<rparr>) = (sample.truncate w)\<lparr>sa_terminated := b\<rparr>"
  "sample.truncate (w\<lparr>sa_total := x\<rparr>) = (sample.truncate w)\<lparr>sa_total := x\<rparr>"
  "sample.truncate (w\<lparr>sa_turns := n\<rparr>) = (sample.truncate w)\<lparr>sa_turns := n\<rparr>"
  "sample.truncate (w\<lparr>sa_stop := st\<rparr>) = (sample.truncate w)\<lparr>sa_stop := st\<rparr>"
  "sample.truncate (w\<lparr>sa_info := i\<rparr>) = (sample.truncate w)\<lparr>sa_info := i\<rparr>"
  "sample.truncate (sample.truncate w) = sample.truncate w"
  by (cases w; simp add: sample.truncate_def count_assistant_def count_env_def count_verdict_def)+


lemma count_sel [simp]:
  "sa_truncated (count_assistant n w) = sa_truncated w" "sa_truncated (count_env n w) = sa_truncated w" "sa_truncated (count_verdict v w) = sa_truncated w"
  "sa_terminated (count_assistant n w) = sa_terminated w" "sa_terminated (count_env n w) = sa_terminated w" "sa_terminated (count_verdict v w) = sa_terminated w"
  "sa_total (count_assistant n w) = sa_total w" "sa_turns (count_assistant n w) = sa_turns w" "sa_turns (count_env n w) = sa_turns w"
  "sa_turns (count_verdict v w) = sa_turns w" "sa_stop (count_assistant n w) = sa_stop w" "sa_stop (count_env n w) = sa_stop w"
  "sa_stop (count_verdict v w) = sa_stop w" "sa_info (count_assistant n w) = sa_info w" "sa_info (count_env n w) = sa_info w"
  "sa_info (count_verdict v w) = sa_info w" "sa_task (count_assistant n w) = sa_task w" "sa_task (count_env n w) = sa_task w"
  "sa_task (count_verdict v w) = sa_task w"
  by (cases w; simp add: count_assistant_def count_env_def count_verdict_def)+

text \<open>Verdict, observation and counts on a sample and its log.\<close>

definition observe_effect ::
  "services \<Rightarrow> invalid_action_cfg option \<Rightarrow> structured_tool_use_config option \<Rightarrow> nat \<Rightarrow> nat \<Rightarrow> ustring \<times> ustring \<Rightarrow> metadata option
    \<Rightarrow> sample \<times> msg list \<Rightarrow> ((sample \<times> msg list) \<times> bool) result" where
  "observe_effect ro cfg structured max_seq_len used obs meta sl =
     (case sl of (s, msgs) \<Rightarrow>
       bind_res (case detecting cfg of
           None \<Rightarrow> Inr (s, msgs)
         | Some c \<Rightarrow> bind_res (judge_last ro c structured meta msgs) (\<lambda>(v, msgs). Inr (count_verdict v s, msgs))) (\<lambda>(s, msgs).
       bind_res (fit_observation max_seq_len used (ro_tokenize ro (observation_text structured (snd obs)))) (\<lambda>(toks, ct).
         Inr (((count_env (length toks) (s\<lparr>sa_truncated := sa_truncated s \<or> ct\<rparr>))\<lparr>sa_turns := sa_turns s + 1\<rparr>,
               msgs @ [observation_message obs (MInts toks)]), ct))))"






lemma rw_addr_updates [simp]:
  "rw_addr (count_assistant n w) = rw_addr w" "rw_addr (count_env n w) = rw_addr w" "rw_addr (count_verdict v w) = rw_addr w"
  by (simp_all add: count_assistant_def count_env_def count_verdict_def)








definition settle_sample :: "stops \<Rightarrow> metadata option \<Rightarrow> bool \<Rightarrow> 'z sample_scheme \<Rightarrow> 'z sample_scheme" where
  "settle_sample stop meta finished s =
     (let s = s\<lparr>sa_terminated := sa_terminated s \<or> finished\<rparr> in
      if finished then s
      else s\<lparr>sa_stop := stop, sa_info := (case pop_env_flags meta of Some m \<Rightarrow> Some m | None \<Rightarrow> sa_info s)\<rparr>)"

lemma settle_truncate: "sample.truncate (settle_sample stop meta finished s) = settle_sample stop meta finished (sample.truncate s)"
  by (cases s; cases finished; cases "pop_env_flags meta"; simp add: settle_sample_def sample.truncate_def)


definition turn_effect ::
  "services \<Rightarrow> invalid_action_cfg option \<Rightarrow> structured_tool_use_config option \<Rightarrow> nat \<Rightarrow> msg \<Rightarrow> nat \<Rightarrow> rat \<Rightarrow> ustring \<times> ustring
    \<Rightarrow> metadata option \<Rightarrow> stops \<Rightarrow> bool \<Rightarrow> sample \<times> msg list \<Rightarrow> ((sample \<times> msg list) \<times> bool) result" where
  "turn_effect ro cfg structured max_seq_len m in_len reward obs meta stop fin sl =
     (case sl of (s, msgs) \<Rightarrow>
       bind_res (observe_effect ro cfg structured max_seq_len (length (tokens_of m) + in_len) obs meta
           ((count_assistant (length (tokens_of m)) s)\<lparr>sa_total := sa_total s + reward\<rparr>, msgs @ [m])) (\<lambda>((s, msgs), ct).
         Inr ((settle_sample stop meta (ct \<or> fin) s, msgs), ct \<or> fin)))"




section \<open>Services that treat every row by itself\<close>

text \<open>What an engine and environments do that look at one row at a time and never set stop strings.\<close>

record env_reply =
  rp_observation :: "ustring \<times> ustring"
  rp_metadata :: "metadata option"
  rp_reward :: rat
  rp_terminated :: bool
  rp_answer :: "ustring option"

record row_service =
  rs_reply :: "nat \<Rightarrow> int list \<Rightarrow> int list \<times> rat list"
  rs_env :: "string \<Rightarrow> nat \<Rightarrow> msg list \<Rightarrow> metadata option \<Rightarrow> env_reply"

definition reply_tokens :: "row_service \<Rightarrow> nat \<Rightarrow> int list \<Rightarrow> int list" where
  "reply_tokens R turn ids = fst (rs_reply R turn ids)"

definition reply_logprobs :: "row_service \<Rightarrow> nat \<Rightarrow> int list \<Rightarrow> rat list" where
  "reply_logprobs R turn ids = snd (rs_reply R turn ids)"

text \<open>The engine answers a batch of padded prompts with one row each, which holds the reply behind the prompt.\<close>

definition rowwise_output :: "row_service \<Rightarrow> nat \<Rightarrow> int list list \<Rightarrow> nat list \<Rightarrow> gen_output \<Rightarrow> bool" where
  "rowwise_output R turn rows lens out \<longleftrightarrow>
     length (go_output_ids out) = length lens \<and> length (go_unpadded_lengths out) = length lens
     \<and> go_truncated out = None \<and> go_routes out = None
     \<and> (\<exists>lps. go_logprobs out = Some lps \<and> length lps = length lens \<and> (\<forall>i < length lens.
          slice (lens ! i) (go_unpadded_lengths out ! i) (go_output_ids out ! i) = reply_tokens R turn (take (lens ! i) (rows ! i))
          \<and> slice (lens ! i) (go_unpadded_lengths out ! i) (lps ! i) = reply_logprobs R turn (take (lens ! i) (rows ! i))))"

definition rowwise_engine :: "services \<Rightarrow> nat \<Rightarrow> row_service \<Rightarrow> bool" where
  "rowwise_engine ro max_seq_len R \<longleftrightarrow>
     (\<forall>turn rows lens. length rows = length lens \<and> lens \<noteq> [] \<and> (\<forall>i < length lens. lens ! i \<le> length (rows ! i)) \<longrightarrow>
        (\<exists>out. ro_generate ro turn \<lparr>gi_input_ids = BInts rows, gi_lengths = lens, gi_stops = replicate (length lens) None\<rparr> = Inr out
           \<and> rowwise_output R turn rows lens out))
     \<and> (\<forall>turn ids. length (reply_logprobs R turn ids) = length (reply_tokens R turn ids)
          \<and> (length ids < max_seq_len \<longrightarrow> length ids + length (reply_tokens R turn ids) \<le> max_seq_len))"

definition rowwise_envs :: "services \<Rightarrow> row_service \<Rightarrow> bool" where
  "rowwise_envs ro R \<longleftrightarrow>
     (\<forall>name step turn logs infos. ro_envs ro name = Some step \<and> length infos = length logs \<longrightarrow>
        (let r = step turn logs infos; replies = map2 (rs_env R name turn) logs infos in
           er_observations r = map rp_observation replies \<and> er_metadata r = map rp_metadata replies
           \<and> er_rewards r = Single (map rp_reward replies) \<and> er_terminateds r = map rp_terminated replies
           \<and> opt_list (er_next_stops r) (length logs) = replicate (length logs) None
           \<and> opt_list (er_answers r) (length logs) = map rp_answer replies))"

definition rowwise :: "services \<Rightarrow> nat \<Rightarrow> row_service \<Rightarrow> bool" where
  "rowwise ro max_seq_len R \<longleftrightarrow> rowwise_engine ro max_seq_len R \<and> rowwise_envs ro R \<and> (\<forall>s. ro_tokenize ro s \<noteq> [])"

text \<open>Judging a turn never raises.\<close>

definition judges :: "services \<Rightarrow> invalid_action_cfg option \<Rightarrow> bool" where
  "judges ro cfg \<longleftrightarrow> (\<forall>c body meta style. detecting cfg = Some c \<longrightarrow>
     (\<exists>v. assess_assistant_turn (ro_fmt ro) body c meta style None = Inr v))"

definition reply_message :: "services \<Rightarrow> structured_tool_use_config option \<Rightarrow> row_service \<Rightarrow> nat \<Rightarrow> msg list \<Rightarrow> msg" where
  "reply_message ro structured R turn msgs =
     (let ids = all_tokens msgs in
      [(''role'', MText (u ''assistant'')),
       (''content'', MText (ro_decode ro (structured_decode_skip_special structured ro) (reply_tokens R turn ids))),
       (''token_ids'', MInts (reply_tokens R turn ids)), (''generation_logprobs'', MFloats (reply_logprobs R turn ids))])"

definition env_view :: "msg list \<Rightarrow> msg list" where
  "env_view msgs = get_keys_from_message_log msgs [''role'', ''content'']"

text \<open>One turn of one sample, and the turns of a sample up to the one that ends it.\<close>

definition row_turn ::
  "services \<Rightarrow> invalid_action_cfg option \<Rightarrow> structured_tool_use_config option \<Rightarrow> nat \<Rightarrow> row_service \<Rightarrow> nat \<Rightarrow> sample \<times> msg list
    \<Rightarrow> ((sample \<times> msg list) \<times> bool) result" where
  "row_turn ro cfg structured max_seq_len R turn sl =
     (let s = fst sl; msgs = snd sl; m = reply_message ro structured R turn msgs;
          a = rs_env R (sa_task s) turn (env_view (msgs @ [m])) (sa_info s)
      in turn_effect ro cfg structured max_seq_len m (length (all_tokens msgs)) (rp_reward a) (rp_observation a) (rp_metadata a) None (rp_terminated a) sl)"

fun row_run ::
  "services \<Rightarrow> invalid_action_cfg option \<Rightarrow> structured_tool_use_config option \<Rightarrow> nat \<Rightarrow> row_service \<Rightarrow> nat \<Rightarrow> nat \<Rightarrow> sample \<times> msg list
    \<Rightarrow> (sample \<times> msg list) result" where
  "row_run ro cfg structured max_seq_len R 0 turn sl = Inr sl"
| "row_run ro cfg structured max_seq_len R (Suc n) turn sl =
     bind_res (row_turn ro cfg structured max_seq_len R turn sl) (\<lambda>(sl, fin).
       if fin then Inr sl else row_run ro cfg structured max_seq_len R n (turn + 1) sl)"

text \<open>The values a rollout works on, and what holds of a sample that is still going.\<close>

definition rollout_schema :: "string \<Rightarrow> kind" where
  "rollout_schema k = (if k = ''token_ids'' then KInts else if k = ''generation_logprobs'' then KFloats else KOther)"

definition log_ready :: "nat \<Rightarrow> msg list \<Rightarrow> bool" where
  "log_ready max_seq_len msgs \<longleftrightarrow> msgs \<noteq> [] \<and> list_all (typed_msg rollout_schema) msgs \<and> length (all_tokens msgs) < max_seq_len"

definition going :: "services \<Rightarrow> nat \<Rightarrow> sample \<times> msg list \<Rightarrow> bool" where
  "going ro max_seq_len sl \<longleftrightarrow> log_ready max_seq_len (snd sl) \<and> sa_stop (fst sl) = None \<and> \<not> sa_terminated (fst sl) \<and> \<not> sa_truncated (fst sl)
     \<and> ro_envs ro (sa_task (fst sl)) \<noteq> None"


lemma reply_message_typed:
  assumes "rowwise_engine ro max_seq_len R"
  shows "typed_msg rollout_schema (reply_message ro structured R turn msgs)"
    and "tokens_of (reply_message ro structured R turn msgs) = reply_tokens R turn (all_tokens msgs)"
  using assms by (simp_all add: reply_message_def Let_def typed_msg_def tokens_of_def rollout_schema_def rowwise_engine_def)

lemma observation_typed: "typed_msg rollout_schema (observation_message obs (MInts toks))"
  by (simp add: observation_message_def typed_msg_def tokens_of_def rollout_schema_def)

lemma all_tokens_append [simp]: "all_tokens (a @ b) = all_tokens a @ all_tokens b"
  by (simp add: all_tokens_def)

lemma all_tokens_single [simp]: "all_tokens [m] = tokens_of m"
  by (simp add: all_tokens_def)





section \<open>A turn of a sample that is going\<close>

lemma sample_turn_going:
  assumes row: "rowwise ro max_seq_len R" and judge: "judges ro cfg" and go: "going ro max_seq_len sl"
  shows "\<exists>sl' fin. row_turn ro cfg structured max_seq_len R turn sl = Inr (sl', fin) \<and> (\<not> fin \<longrightarrow> going ro max_seq_len sl')
    \<and> sa_terminated (fst sl') = fin \<and> sa_task (fst sl') = sa_task (fst sl)"
proof -
  obtain s msgs where sl: "sl = (s, msgs)" by (cases sl)
  have eng: "rowwise_engine ro max_seq_len R" using row by (simp add: rowwise_def)
  have ready: "log_ready max_seq_len msgs" using go by (simp add: going_def sl)
  define m where "m = reply_message ro structured R turn msgs"
  define a where "a = rs_env R (sa_task s) turn (env_view (msgs @ [m])) (sa_info s)"
  note mt = reply_message_typed [OF eng, of structured turn msgs, folded m_def]
  let ?s = "(count_assistant (length (tokens_of m)) s)\<lparr>sa_total := sa_total s + rp_reward a\<rparr>"
  obtain s1 msgs1 where judged: "(case detecting cfg of None \<Rightarrow> Inr (?s, msgs @ [m])
        | Some c \<Rightarrow> bind_res (judge_last ro c structured (rp_metadata a) (msgs @ [m])) (\<lambda>(v, msgs). Inr (count_verdict v ?s, msgs))) = Inr (s1, msgs1)"
      "list_all (typed_msg rollout_schema) msgs1" "all_tokens msgs1 = all_tokens msgs @ tokens_of m"
      "sa_stop s1 = None" "\<not> sa_terminated s1" "\<not> sa_truncated s1" "sa_task s1 = sa_task s"
  proof (cases "detecting cfg")
    case None
    then show ?thesis using that [of ?s "msgs @ [m]"] ready mt(1) go by (simp add: log_ready_def going_def sl)
  next
    case (Some c)
    obtain v where v: "assess_assistant_turn (ro_fmt ro) (content_text m) c (rp_metadata a) (structured_thinking_style structured) None = Inr v"
      using judge Some unfolding judges_def by blast
    let ?m' = "if iv_violations v \<noteq> [] then dict_set ''invalid_action_violations'' (MObj (iv_violations v)) m else m"
    have m': "typed_msg rollout_schema ?m'" "tokens_of ?m' = tokens_of m"
      using mt(1) typed_set [of rollout_schema m "MObj (iv_violations v)" "''invalid_action_violations''"] by (simp_all add: rollout_schema_def)
    have "judge_last ro c structured (rp_metadata a) (msgs @ [m]) = Inr (v, msgs @ [?m'])" by (simp add: judge_last_def v)
    then show ?thesis using that [of "count_verdict v ?s" "msgs @ [?m']"] ready m' go Some by (simp add: log_ready_def going_def sl)
  qed
  have fits: "length (all_tokens msgs) + length (tokens_of m) \<le> max_seq_len"
    using eng ready unfolding mt(2) rowwise_engine_def log_ready_def by blast
  define toks where "toks = ro_tokenize ro (observation_text structured (snd (rp_observation a)))"
  define used where "used = length (tokens_of m) + length (all_tokens msgs)"
  define ct where "ct = (length toks + used \<ge> max_seq_len)"
  define kept where "kept = (if ct then take (max_seq_len - used) toks else toks)"
  have fit: "fit_observation max_seq_len used toks = Inr (kept, ct)"
    using fits by (simp add: fit_observation_def ct_def kept_def used_def)
  let ?s2 = "(count_env (length kept) (s1\<lparr>sa_truncated := sa_truncated s1 \<or> ct\<rparr>))\<lparr>sa_turns := sa_turns s1 + 1\<rparr>"
  let ?msgs2 = "msgs1 @ [observation_message (rp_observation a) (MInts kept)]"
  have ob: "observe_effect ro cfg structured max_seq_len used (rp_observation a) (rp_metadata a) (?s, msgs @ [m]) = Inr ((?s2, ?msgs2), ct)"
    unfolding observe_effect_def prod.case judged(1) bind_res_simps toks_def [symmetric] fit ..
  have turn: "row_turn ro cfg structured max_seq_len R turn sl
      = Inr ((settle_sample None (rp_metadata a) (ct \<or> rp_terminated a) ?s2, ?msgs2), ct \<or> rp_terminated a)"
    unfolding row_turn_def turn_effect_def sl fst_conv snd_conv Let_def prod.case m_def [symmetric] a_def [symmetric] used_def [symmetric] ob bind_res_simps ..
  have "going ro max_seq_len (settle_sample None (rp_metadata a) False ?s2, ?msgs2)" if "\<not> ct"
  proof -
    have toks: "tokens_of (observation_message (rp_observation a) (MInts kept)) = kept" by (simp add: observation_message_def tokens_of_def)
    have "length (all_tokens ?msgs2) < max_seq_len"
      using that unfolding all_tokens_append all_tokens_single judged(3) toks length_append by (simp add: kept_def ct_def used_def)
    then show ?thesis using judged that go observation_typed by (simp add: going_def log_ready_def settle_sample_def Let_def sl)
  qed
  moreover have "sa_task (settle_sample None (rp_metadata a) (ct \<or> rp_terminated a) ?s2) = sa_task s"
    using judged(7) by (simp add: settle_sample_def Let_def)
  moreover have "sa_terminated (settle_sample None (rp_metadata a) (ct \<or> rp_terminated a) ?s2) = (ct \<or> rp_terminated a)"
    using judged(5) by (simp add: settle_sample_def Let_def)
  ultimately show ?thesis unfolding turn by (auto simp: sl)
qed

section \<open>The per-sample loop\<close>



lemma count_solo [simp]:
  "so_log (count_assistant n s) = so_log s" "so_log (count_env n s) = so_log s" "so_log (count_verdict v s) = so_log s"
  "sample.truncate (s\<lparr>so_log := l\<rparr>) = sample.truncate s" "sample.truncate (s\<lparr>so_types := t\<rparr>) = sample.truncate s"
  "sample.truncate (s\<lparr>so_messages := n\<rparr>) = sample.truncate s" "sample.truncate (s\<lparr>so_gen_tokens := ns\<rparr>) = sample.truncate s"
  "sample.truncate (s\<lparr>so_input_tokens := ns\<rparr>) = sample.truncate s" "sample.truncate (s\<lparr>so_total_tokens := ns\<rparr>) = sample.truncate s"
  by (cases s; simp add: count_assistant_def count_env_def count_verdict_def sample.truncate_def)+



lemma sample_run_going:
  assumes row: "rowwise ro max_seq_len R" "judges ro cfg"
  shows "going ro max_seq_len sl \<Longrightarrow> \<exists>sl'. row_run ro cfg structured max_seq_len R n turn sl = Inr sl'"
proof (induction n arbitrary: turn sl)
  case (Suc n)
  obtain sl1 fin where one: "row_turn ro cfg structured max_seq_len R turn sl = Inr (sl1, fin)" "\<not> fin \<longrightarrow> going ro max_seq_len sl1"
    using sample_turn_going [OF row Suc.prems] by blast
  show ?case using Suc.IH [of sl1 "turn + 1"] one by (cases fin) simp_all
qed simp


section \<open>The batched loop\<close>



section \<open>Both loops give the same rollouts\<close>












section \<open>Examples\<close>

text \<open>An engine that answers every prompt with two tokens, and an environment that says \<open>ok\<close> and ends in its second turn.\<close>

definition echo_reply :: "nat \<Rightarrow> int list \<Rightarrow> int list" where
  "echo_reply turn ids = [int turn]"

definition echo_generate :: "nat \<Rightarrow> gen_input \<Rightarrow> gen_output result" where
  "echo_generate turn input =
     (case gi_input_ids input of
        BInts rows \<Rightarrow>
          Inr \<lparr>go_output_ids = map2 (\<lambda>row len. take len row @ echo_reply turn (take len row)) rows (gi_lengths input),
               go_generation_lengths = map (\<lambda>len. 1) (gi_lengths input), go_unpadded_lengths = map (\<lambda>len. len + 1) (gi_lengths input),
               go_truncated = None, go_logprobs = Some (map (\<lambda>len. replicate len 0 @ [1 / 2]) (gi_lengths input)), go_routes = None\<rparr>
      | _ \<Rightarrow> Inl TypeError)"

definition echo_env :: env_step where
  "echo_env turn logs infos =
     \<lparr>er_observations = map (\<lambda>l. (u ''user'', u ''ok'')) logs, er_metadata = infos, er_next_stops = None,
      er_rewards = Single (map (\<lambda>l. of_nat (length l)) logs), er_terminateds = map (\<lambda>l. turn \<ge> 1) logs, er_answers = None\<rparr>"

definition echo_services :: services where
  "echo_services =
     \<lparr>ro_generate = echo_generate, ro_decode = (\<lambda>skip ids. map nat ids), ro_tokenize = (\<lambda>s. 90 # map int s), ro_pad_token = 0,
      ro_envs = (\<lambda>name. if name = ''echo'' then Some echo_env else None), ro_fmt = demo_fmt\<rparr>"



definition ask :: "int list \<Rightarrow> msg list" where
  "ask ids = [[(''role'', MText (u ''user'')), (''content'', MText (u ''go'')), (''token_ids'', MInts ids)]]"

definition two_rows :: "nat list \<Rightarrow> rollout_batch" where
  "two_rows addrs = \<lparr>bt_logs = addrs, bt_info = [None, None], bt_task = [''echo'', ''echo''], bt_stops = None, bt_idx = None\<rparr>"


text \<open>Rows that share one log, as a repeated prompt's rows do: every turn appends the replies of all of them to it.\<close>

lemma shared_log_rollout:
  "case run_multi_turn_rollout echo_services None None 20 1 [ask [1, 2]] (two_rows [0, 0]) of
     Inr (r, ms) \<Rightarrow> map (\<lambda>l. length l) (rl_store r) = [5] \<and> all_tokens (rl_store r ! 0) = [1, 2, 0, 0, 90, 111, 107, 90, 111, 107]
   | Inl e \<Rightarrow> False"
  by code_simp

section \<open>Properties\<close>




text \<open>The batch's own stop strings replace those of the input; without that key the environments' stop strings are lost.\<close>

lemma stops_overridden:
  "generate_responses ro turn (input\<lparr>gi_stops := stops\<rparr>) None store addrs lp structured
    = generate_responses ro turn (input\<lparr>gi_stops := replicate (length (gi_lengths input)) None\<rparr>) None store addrs lp structured"
  by (simp add: generate_responses_def)

section \<open>Token accounting\<close>

lemma bind_res_Inr: "bind_res x f = Inr y \<Longrightarrow> (\<And>z. x = Inr z \<Longrightarrow> f z = Inr y \<Longrightarrow> thesis) \<Longrightarrow> thesis"
  by (cases x) auto

lemma generate_for_sample_shape:
  assumes "generate_for_sample ro structured turn msgs stop = Inr (msgs', gen, in_len, truncated)"
  shows "\<exists>m. msgs' = msgs @ [m] \<and> tokens_of m = gen"
proof -
  obtain ids lens where input: "model_input ro [msgs] = Inr (ids, lens)"
    using assms by (cases "model_input ro [msgs]") (auto simp: generate_for_sample_def)
  let ?gi = "\<lparr>gi_input_ids = ids, gi_lengths = lens, gi_stops = [stop]\<rparr>"
  obtain store gens where gr: "generate_responses ro turn ?gi (Some [stop]) [msgs] [0] True structured = Inr (store, gens, truncated)"
    and out: "0 < length lens" "msgs' = store ! 0" "gen = (case gens of [] \<Rightarrow> [] | gen # _ \<Rightarrow> gen)"
    using assms input by (cases "generate_responses ro turn ?gi (Some [stop]) [msgs] [0] True structured")
      (auto simp: generate_for_sample_def item_def split: if_splits)
  obtain ms where ms: "store = foldl append_at [msgs] (zip [0] ms)" "gens = map tokens_of ms" "length ms = length lens"
    using gr unfolding generate_responses_def Let_def by (auto elim!: bind_res_Inr dest: map_res_length)
  obtain m ms' where "ms = m # ms'" using ms(3) out(1) by (cases ms) auto
  then show ?thesis using ms out by (simp add: append_at_def)
qed

text \<open>What the log gains since some point, and what the counts of a sample gain, go together.\<close>

definition gained :: "solo \<Rightarrow> solo \<Rightarrow> bool" where
  "gained s s' \<longleftrightarrow> (\<exists>new. so_log s' = so_log s @ new \<and> sa_tokens s' = sa_tokens s + length (all_tokens new))
     \<and> sa_tokens s' + sa_assistant s + sa_env s = sa_tokens s + sa_assistant s' + sa_env s'"

lemma gained_refl: "gained s s"
  by (simp add: gained_def all_tokens_def)

lemma gained_trans: "gained s s' \<Longrightarrow> gained s' s'' \<Longrightarrow> gained s s''"
  unfolding gained_def by force

lemma solo_judge_tokens:
  assumes "solo_judge ro cfg structured meta s = Inr s'" "so_log s = old @ [m]"
  shows "\<exists>m'. so_log s' = old @ [m'] \<and> tokens_of m' = tokens_of m \<and> sa_tokens s' = sa_tokens s \<and> sa_assistant s' = sa_assistant s
    \<and> sa_env s' = sa_env s \<and> sa_turns s' = sa_turns s"
proof (cases "detecting cfg")
  case (Some c)
  then obtain v msgs where v: "judge_last ro c structured meta (so_log s) = Inr (v, msgs)"
      "s' = (count_verdict v s)\<lparr>so_log := msgs, so_messages := so_messages s + 1, so_types := count_types v (so_types s)\<rparr>"
    using assms(1) by (auto simp: solo_judge_def elim!: bind_res_Inr)
  have "\<exists>m'. msgs = old @ [m'] \<and> tokens_of m' = tokens_of m"
    using v(1) assms(2) by (auto simp: judge_last_def tokens_of_def elim!: bind_res_Inr split: if_splits)
  then show ?thesis by (auto simp: v(2) count_verdict_def)
qed (use assms in \<open>auto simp: solo_judge_def\<close>)

lemma solo_step_gained:
  assumes "solo_step ro cfg structured max_seq_len turn s = Inr (s', failed)"
  shows "gained s s' \<and> sa_turns s' = sa_turns s + 1"
proof (cases "generate_for_sample ro structured turn (so_log s) (sa_stop s)")
  case (Inl e)
  then have "s' = s\<lparr>sa_turns := sa_turns s + 1\<rparr>" using assms by (simp add: solo_step_def)
  then show ?thesis by (simp add: gained_def all_tokens_def)
next
  case (Inr g)
  obtain msgs gen in_len truncated where g: "g = (msgs, gen, in_len, truncated)" by (cases g)
  obtain m where m: "msgs = so_log s @ [m]" "tokens_of m = gen" using generate_for_sample_shape [of ro structured turn "so_log s" "sa_stop s"] Inr g by blast
  define s1 where "s1 = solo_generated msgs gen in_len truncated (s\<lparr>sa_turns := sa_turns s + 1\<rparr>)"
  have s1: "so_log s1 = so_log s @ [m]" "sa_tokens s1 = sa_tokens s + length gen" "sa_assistant s1 = sa_assistant s + length gen"
      "sa_env s1 = sa_env s" "sa_turns s1 = sa_turns s + 1"
    by (simp_all add: s1_def solo_generated_def Let_def m(1)) (simp_all add: count_assistant_def)
  obtain out s2 where s2: "solo_judge ro cfg structured (er_metadata out ! 0) s1 = Inr s2"
      "s' = solo_settle out (solo_observe ro structured max_seq_len (er_observations out ! 0) in_len (length gen)
          ((solo_reward (er_rewards out) s2)\<lparr>sa_terminated := er_terminateds out ! 0\<rparr>))"
    using assms Inr g by (auto simp: solo_step_def Let_def s1_def elim!: bind_res_Inr)
  obtain m' where m': "so_log s2 = so_log s @ [m']" "tokens_of m' = gen" "sa_tokens s2 = sa_tokens s1" "sa_assistant s2 = sa_assistant s1"
      "sa_env s2 = sa_env s1" "sa_turns s2 = sa_turns s1"
    using solo_judge_tokens [OF s2(1) s1(1)] m(2) by blast
  let ?s3 = "(solo_reward (er_rewards out) s2)\<lparr>sa_terminated := er_terminateds out ! 0\<rparr>"
  have s3: "so_log ?s3 = so_log s2" "sa_tokens ?s3 = sa_tokens s2" "sa_assistant ?s3 = sa_assistant s2" "sa_env ?s3 = sa_env s2" "sa_turns ?s3 = sa_turns s2"
    by (simp_all add: solo_reward_def split: step_rewards.splits)
  define toks where "toks = ro_tokenize ro (observation_text structured (snd (er_observations out ! 0)))"
  define kept where "kept = (if in_len + length gen + length toks \<ge> max_seq_len then take (max_seq_len - in_len - length gen) toks else toks)"
  define s4 where "s4 = solo_observe ro structured max_seq_len (er_observations out ! 0) in_len (length gen) ?s3"
  have ob: "length (tokens_of (observation_message obs (raw_tensor toks kept))) = length kept" for obs
    by (simp add: raw_tensor_def observation_message_def tokens_of_def kept_def)
  have s4: "so_log s4 = so_log s @ [m', observation_message (er_observations out ! 0) (raw_tensor toks kept)]"
      "sa_tokens s4 = sa_tokens s + length gen + length kept" "sa_assistant s4 = sa_assistant s + length gen" "sa_env s4 = sa_env s + length kept"
      "sa_turns s4 = sa_turns s + 1"
    using s3 m' s1 by (simp_all add: s4_def solo_observe_def Let_def toks_def [symmetric] kept_def [symmetric]) (simp_all add: count_env_def)
  have "so_log (solo_settle out s4) = so_log s4" "sa_tokens (solo_settle out s4) = sa_tokens s4" "sa_assistant (solo_settle out s4) = sa_assistant s4"
      "sa_env (solo_settle out s4) = sa_env s4" "sa_turns (solo_settle out s4) = sa_turns s4"
    by (simp_all add: solo_settle_def)
  then show ?thesis
    unfolding s2(2) s4_def [symmetric] gained_def using s4 ob m'(2) by (simp add: all_tokens_def)
qed

lemma solo_loop_gained:
  "solo_loop ro cfg structured max_seq_len n turn s = Inr s' \<Longrightarrow> gained s s' \<and> sa_turns s' \<le> sa_turns s + n"
proof (induction n arbitrary: turn s)
  case (Suc n)
  show ?case
  proof (cases "sa_terminated s \<or> sa_truncated s")
    case True
    then show ?thesis using Suc.prems gained_refl by simp
  next
    case False
    then obtain s1 failed where one: "solo_step ro cfg structured max_seq_len turn s = Inr (s1, failed)"
        "(if failed then Inr s1 else solo_loop ro cfg structured max_seq_len n (turn + 1) s1) = Inr s'"
      using Suc.prems by (auto elim!: bind_res_Inr)
    note g = solo_step_gained [OF one(1)]
    show ?thesis
    proof (cases failed)
      case True
      then show ?thesis using one(2) g by simp
    next
      case False
      then show ?thesis using one(2) g Suc.IH [of "turn + 1" s1] gained_trans by fastforce
    qed
  qed
qed (simp add: gained_refl)

text \<open>C8: Token accounting of a sample. Whatever the engine, the tokenizer and the environments do, when the per-sample rollout
  returns, the log it started from is a prefix of the final one, the token count of the sample is the number of tokens appended, it
  is the sum of the assistant's and the environment's tokens, and no more than the allowed turns were taken.\<close>
theorem sample_token_accounting:
  assumes "run_sample_multi_turn_rollout ro cfg structured max_seq_len max_turns (fresh_solo store b i) = Inr (s, reached)"
  shows "\<exists>new. so_log s = store ! (bt_logs b ! i) @ new \<and> length (all_tokens new) = sa_tokens s \<and> sa_tokens s = sa_assistant s + sa_env s
    \<and> sa_turns s \<le> max_turns \<and> (reached \<longleftrightarrow> sa_turns s = max_turns)"
proof -
  have run: "solo_loop ro cfg structured max_seq_len max_turns 0 (fresh_solo store b i) = Inr s" "reached = (max_turns \<le> sa_turns s)"
    using assms by (auto simp: run_sample_multi_turn_rollout_def elim!: bind_res_Inr)
  then show ?thesis
    using solo_loop_gained [OF run(1)] by (auto simp: gained_def fresh_solo_def new_sample_def sample.extend_def)
qed

theorem sample_token_accounting_witness:
  "\<exists>s reached new. run_sample_multi_turn_rollout echo_services None None 20 3 (fresh_solo [ask [1, 2]] (two_rows [0, 0]) 0) = Inr (s, reached)
    \<and> so_log s = ask [1, 2] @ new \<and> length (all_tokens new) = sa_tokens s \<and> sa_tokens s = 8 \<and> sa_assistant s = 2 \<and> sa_env s = 6"
proof -
  have "case run_sample_multi_turn_rollout echo_services None None 20 3 (fresh_solo [ask [1, 2]] (two_rows [0, 0]) 0) of
      Inr (s, reached) \<Rightarrow> sa_tokens s = 8 \<and> sa_assistant s = 2 \<and> sa_env s = 6 | Inl e \<Rightarrow> False"
    by code_simp
  then obtain s reached where s: "run_sample_multi_turn_rollout echo_services None None 20 3 (fresh_solo [ask [1, 2]] (two_rows [0, 0]) 0) = Inr (s, reached)"
      "sa_tokens s = 8" "sa_assistant s = 2" "sa_env s = 6"
    by (auto split: sum.splits)
  then show ?thesis using sample_token_accounting [OF s(1)] by (auto simp: two_rows_def)
qed

end
