(* ===== verification/Image_Cache.thy ===== *)
theory Image_Cache
  imports Prelude "HOL-Library.AList"
begin

text \<open>
  The bounded cache of docker images kept by the sandbox task executor
  (\<open>ubuntu-base/scripts/tools/task_executor.py\<close>). \<open>_image_last_used\<close> is a Python dict whose
  insertion order decides ties of the eviction order, hence an association list updated in place;
  \<open>_image_in_use\<close> is a map of reference counts. What docker answers to one call of
  \<open>_evict_lru_locked\<close> is the parameter \<open>docker\<close>: an answer may be the \<open>_TaskTimeoutError\<close> of a
  hung command (a \<open>RuntimeError\<close>), and the size of an image is asked for twice, once for the total and once when
  the image is evicted. The functions return the \<open>docker image rm\<close> commands they issue.
\<close>

section \<open>State and operations\<close>

record image_cache =
  last_used :: "(string \<times> rat) list"
  in_use :: "string \<rightharpoonup> int"

record docker =
  dk_total_size :: "string \<Rightarrow> int result"
  dk_evict_size :: "string \<Rightarrow> int result"
  dk_rm :: "string \<Rightarrow> int result"

definition uses :: "image_cache \<Rightarrow> string \<Rightarrow> int" where
  "uses c ref = (case in_use c ref of None \<Rightarrow> 0 | Some n \<Rightarrow> n)"

definition tracked :: "image_cache \<Rightarrow> string list" where
  "tracked c = map fst (last_used c)"

definition stamp :: "image_cache \<Rightarrow> string \<Rightarrow> rat" where
  "stamp c ref = the (map_of (last_used c) ref)"

definition reserve_image :: "string \<Rightarrow> rat \<Rightarrow> image_cache \<Rightarrow> image_cache" where
  "reserve_image ref now c =
     c\<lparr>in_use := (in_use c)(ref \<mapsto> uses c ref + 1), last_used := AList.update ref now (last_used c)\<rparr>"

text \<open>The decrement a failed pull or build performs: \<open>get(ref, 1) - 1\<close>, dropped at zero.\<close>

definition unreserve_image :: "string \<Rightarrow> image_cache \<Rightarrow> image_cache" where
  "unreserve_image ref c =
     (let n = (case in_use c ref of None \<Rightarrow> 1 | Some k \<Rightarrow> k) - 1
      in if n \<le> 0 then c\<lparr>in_use := (in_use c)(ref := None)\<rparr>
         else c\<lparr>in_use := (in_use c)(ref \<mapsto> n)\<rparr>)"

definition refresh_image :: "string \<Rightarrow> rat \<Rightarrow> image_cache \<Rightarrow> image_cache" where
  "refresh_image ref now c =
     (if ref \<in> set (tracked c) then c\<lparr>last_used := AList.update ref now (last_used c)\<rparr> else c)"

definition tracked_total_bytes :: "docker \<Rightarrow> image_cache \<Rightarrow> int result" where
  "tracked_total_bytes d c =
     bind_res (map_res (dk_total_size d) (tracked c)) (\<lambda>sizes. Inr (sum_list sizes))"

definition eviction_candidates :: "image_cache \<Rightarrow> string list" where
  "eviction_candidates c = sort_key (stamp c) (filter (\<lambda>img. uses c img = 0) (tracked c))"

definition rm_commands :: "image_cache \<times> string list \<times> py_error option \<Rightarrow> string list" where
  "rm_commands r = fst (snd r)"

definition issued ::
  "string \<Rightarrow> image_cache \<times> string list \<times> py_error option \<Rightarrow> image_cache \<times> string list \<times> py_error option" where
  "issued img r = (fst r, img # rm_commands r, snd (snd r))"

fun evict_loop ::
  "docker \<Rightarrow> int \<Rightarrow> image_cache \<Rightarrow> int \<Rightarrow> string list \<Rightarrow> image_cache \<times> string list \<times> py_error option" where
  "evict_loop d cap c tot [] = (c, [], None)"
| "evict_loop d cap c tot (img # imgs) =
     (if tot \<le> cap then (c, [], None)
      else case dk_evict_size d img of
        Inl e \<Rightarrow> (c, [], Some e)
      | Inr sz \<Rightarrow>
          (case dk_rm d img of
             Inl e \<Rightarrow> (c, [img], Some e)
           | Inr rc \<Rightarrow> issued img
               (if rc = 0
                then evict_loop d cap (c\<lparr>last_used := AList.delete img (last_used c)\<rparr>) (tot - sz) imgs
                else evict_loop d cap c tot imgs)))"

definition evict_lru_locked ::
  "docker \<Rightarrow> int \<Rightarrow> image_cache \<Rightarrow> image_cache \<times> string list \<times> py_error option" where
  "evict_lru_locked d cap c =
     (if cap \<le> 0 then (c, [], None)
      else case tracked_total_bytes d c of
        Inl e \<Rightarrow> (c, [], Some e)
      | Inr tot \<Rightarrow>
          if tot \<le> cap then (c, [], None)
          else evict_loop d cap c tot (eviction_candidates c))"

definition drop_reference :: "string \<Rightarrow> image_cache \<Rightarrow> image_cache" where
  "drop_reference ref c =
     (let n = uses c ref - 1
      in if n \<le> 0 then c\<lparr>in_use := (in_use c)(ref := None)\<rparr>
         else c\<lparr>in_use := (in_use c)(ref \<mapsto> n)\<rparr>)"

definition release_image ::
  "docker \<Rightarrow> int \<Rightarrow> string \<Rightarrow> rat \<Rightarrow> image_cache \<Rightarrow> image_cache \<times> string list \<times> py_error option" where
  "release_image d cap ref now c =
     (let c' = drop_reference ref c
      in evict_lru_locked d cap (c'\<lparr>last_used := AList.update ref now (last_used c')\<rparr>))"

text \<open>\<open>_ensure_image\<close> after its reservation: what the \<open>inspect\<close> and the \<open>pull\<close> answer decides whether the
  reservation stays (the image is present or was pulled), is given back (the pull failed) or
  stays although the call raises (one of the two commands hung).\<close>

definition ensure_image ::
  "int result \<Rightarrow> int result \<Rightarrow> string \<Rightarrow> image_cache \<Rightarrow> image_cache \<times> unit result" where
  "ensure_image inspect pull ref c =
     (case inspect of
        Inl e \<Rightarrow> (c, Inl e)
      | Inr rc \<Rightarrow>
          if rc = 0 then (c, Inr ())
          else case pull of
            Inl e \<Rightarrow> (c, Inl e)
          | Inr rc' \<Rightarrow> if rc' = 0 then (c, Inr ()) else (unreserve_image ref c, Inl RuntimeError))"

section \<open>Reference counts\<close>

lemma rm_commands_simps [simp]: "rm_commands (c, rms, err) = rms"
  by (simp add: rm_commands_def)

lemma issued_simps [simp]:
  "fst (issued img r) = fst r" "rm_commands (issued img r) = img # rm_commands r"
  by (simp_all add: issued_def)

lemma uses_reserve [simp]: "uses (reserve_image ref now c) = (uses c)(ref := uses c ref + 1)"
  by (auto simp: uses_def reserve_image_def)

lemma uses_refresh [simp]: "uses (refresh_image ref now c) = uses c"
  by (auto simp: uses_def refresh_image_def)

lemma uses_last_used_update [simp]: "uses (c\<lparr>last_used := xs\<rparr>) = uses c"
  by (auto simp: uses_def)

lemma uses_unreserve: "uses (unreserve_image ref c) = (uses c)(ref := max 0 (uses c ref - 1))"
  by (auto simp: uses_def unreserve_image_def Let_def split: option.splits)

lemma uses_drop_reference [simp]: "uses (drop_reference ref c) = (uses c)(ref := max 0 (uses c ref - 1))"
  by (auto simp: uses_def drop_reference_def Let_def split: option.splits)

lemma uses_evict_loop [simp]: "uses (fst (evict_loop d cap c tot imgs)) = uses c"
  by (induction d cap c tot imgs rule: evict_loop.induct)
    (simp_all split: sum.split)

lemma uses_evict [simp]: "uses (fst (evict_lru_locked d cap c)) = uses c"
  by (simp add: evict_lru_locked_def split: sum.split)

lemma uses_release [simp]:
  "uses (fst (release_image d cap ref now c)) = (uses c)(ref := max 0 (uses c ref - 1))"
  by (simp add: release_image_def Let_def)

lemma in_use_evict_loop [simp]: "in_use (fst (evict_loop d cap c tot imgs)) = in_use c"
  by (induction d cap c tot imgs rule: evict_loop.induct)
    (simp_all split: sum.split)

section \<open>Eviction\<close>

lemma evict_loop_prefix: "\<exists>k. rm_commands (evict_loop d cap c tot imgs) = take k imgs"
proof (induction d cap c tot imgs rule: evict_loop.induct)
  case (2 d cap c tot img imgs)
  consider (stop) "tot \<le> cap \<or> isl (dk_evict_size d img)"
    | (hung) sz e where "\<not> tot \<le> cap" "dk_evict_size d img = Inr sz" "dk_rm d img = Inl e"
    | (rm) sz rc where "\<not> tot \<le> cap" "dk_evict_size d img = Inr sz" "dk_rm d img = Inr rc"
    by (cases "dk_evict_size d img"; cases "dk_rm d img") auto
  then show ?case
  proof cases
    case stop
    then show ?thesis by (cases "dk_evict_size d img") auto
  next
    case hung
    then show ?thesis by (auto intro: exI [of _ 1])
  next
    case rm
    define r where "r = (if rc = 0
       then evict_loop d cap (c\<lparr>last_used := AList.delete img (last_used c)\<rparr>) (tot - sz) imgs
       else evict_loop d cap c tot imgs)"
    have "\<exists>k. rm_commands r = take k imgs"
      using "2.IH" rm by (cases "rc = 0") (simp_all add: r_def)
    then obtain k where "rm_commands r = take k imgs" ..
    moreover have "evict_loop d cap c tot (img # imgs) = issued img r"
      using rm by (simp add: r_def)
    ultimately show ?thesis by (auto intro: exI [of _ "Suc k"])
  qed
qed simp

lemma evict_issues_prefix: "\<exists>k. rm_commands (evict_lru_locked d cap c) = take k (eviction_candidates c)"
proof (cases "tracked_total_bytes d c")
  case (Inl e)
  then show ?thesis by (auto simp: evict_lru_locked_def intro: exI [of _ 0])
next
  case (Inr tot)
  then show ?thesis
    using evict_loop_prefix [of d cap c tot "eviction_candidates c"]
    by (auto simp: evict_lru_locked_def intro: exI [of _ 0])
qed

lemma set_eviction_candidates: "set (eviction_candidates c) = {img \<in> set (tracked c). uses c img = 0}"
  by (auto simp: eviction_candidates_def)

lemma evict_only_unused:
  "img \<in> set (rm_commands (evict_lru_locked d cap c)) \<Longrightarrow> img \<in> set (tracked c) \<and> uses c img = 0"
  using evict_issues_prefix [of d cap c] set_eviction_candidates [of c] by (metis (mono_tags, lifting) in_set_takeD mem_Collect_eq)

lemma release_only_unused:
  "img \<in> set (rm_commands (release_image d cap ref now c)) \<Longrightarrow>
     ((uses c)(ref := max 0 (uses c ref - 1))) img = 0"
  by (simp add: release_image_def Let_def) (metis evict_only_unused fun_upd_apply uses_drop_reference uses_last_used_update)

definition footprint :: "(string \<Rightarrow> int) \<Rightarrow> image_cache \<Rightarrow> int" where
  "footprint sz c = sum_list (map sz (tracked c))"

definition without :: "string list \<Rightarrow> image_cache \<Rightarrow> image_cache" where
  "without imgs c = c\<lparr>last_used := filter (\<lambda>p. fst p \<notin> set imgs) (last_used c)\<rparr>"

lemma without_Nil [simp]: "without [] c = c"
  by (simp add: without_def)

lemma delete_is_without: "c\<lparr>last_used := AList.delete img (last_used c)\<rparr> = without [img] c"
  by (simp add: without_def AList.delete_eq split_def eq_commute)

lemma without_without: "without ys (without xs c) = without (xs @ ys) c"
  by (simp add: without_def conj_commute)

lemma tracked_without: "tracked (without imgs c) = filter (\<lambda>i. i \<notin> set imgs) (tracked c)"
  by (simp add: tracked_def without_def filter_map comp_def)

lemma footprint_without_one:
  assumes "distinct (tracked c)" and "img \<in> set (tracked c)"
  shows "footprint sz (without [img] c) = footprint sz c - sz img"
proof -
  have "filter (\<lambda>i. i \<noteq> img) (tracked c) = remove1 img (tracked c)"
    using assms(1) by (simp add: distinct_remove1_removeAll removeAll_filter_not_eq) (metis (full_types))
  then show ?thesis
    unfolding footprint_def tracked_without using assms(2) by (simp add: sum_list_map_remove1 [of img])
qed

lemma evict_loop_exact:
  assumes "distinct (tracked c)" and "distinct imgs" and "set imgs \<subseteq> set (tracked c)"
    and "\<And>i. i \<in> set imgs \<Longrightarrow> dk_evict_size d i = Inr (sz i) \<and> dk_rm d i = Inr 0"
  shows "\<exists>k\<le>length imgs. evict_loop d cap c (footprint sz c) imgs = (without (take k imgs) c, take k imgs, None) \<and>
     (footprint sz (without (take k imgs) c) \<le> cap \<or> k = length imgs) \<and>
     (\<forall>j<k. cap < footprint sz (without (take j imgs) c))"
  using assms
proof (induction imgs arbitrary: c)
  case Nil
  then show ?case by simp
next
  case (Cons img imgs)
  show ?case
  proof (cases "footprint sz c \<le> cap")
    case True
    then show ?thesis by (auto intro: exI [of _ 0])
  next
    case False
    let ?c = "without [img] c"
    have fp: "footprint sz ?c = footprint sz c - sz img"
      using Cons.prems by (intro footprint_without_one) auto
    have "\<exists>k\<le>length imgs. evict_loop d cap ?c (footprint sz ?c) imgs = (without (take k imgs) ?c, take k imgs, None) \<and>
       (footprint sz (without (take k imgs) ?c) \<le> cap \<or> k = length imgs) \<and>
       (\<forall>j<k. cap < footprint sz (without (take j imgs) ?c))"
      by (rule Cons.IH) (use Cons.prems in \<open>auto simp: tracked_without\<close>)
    then obtain k where k: "k \<le> length imgs"
      "evict_loop d cap ?c (footprint sz ?c) imgs = (without (take k imgs) ?c, take k imgs, None)"
      "footprint sz (without (take k imgs) ?c) \<le> cap \<or> k = length imgs"
      "\<forall>j<k. cap < footprint sz (without (take j imgs) ?c)"
      by blast
    have "dk_evict_size d img = Inr (sz img)" and "dk_rm d img = Inr 0"
      using Cons.prems(4) [of img] by simp_all
    then have "evict_loop d cap c (footprint sz c) (img # imgs) =
        (without (take (Suc k) (img # imgs)) c, take (Suc k) (img # imgs), None)"
      using False k(2) by (simp add: delete_is_without fp issued_def without_without)
    moreover have "cap < footprint sz (without (take j (img # imgs)) c)" if "j < Suc k" for j
      using that False k(4) by (cases j) (auto simp: without_without)
    ultimately show ?thesis
      using k(1,3) by (intro exI [of _ "Suc k"]) (simp add: without_without)
  qed
qed

lemma tracked_total:
  assumes "\<And>i. i \<in> set (tracked c) \<Longrightarrow> dk_total_size d i = Inr (sz i)"
  shows "tracked_total_bytes d c = Inr (footprint sz c)"
  using assms by (simp add: tracked_total_bytes_def footprint_def map_res_Inr)

lemma eviction_candidates_facts:
  assumes "distinct (tracked c)"
  shows "distinct (eviction_candidates c)" and "set (eviction_candidates c) \<subseteq> set (tracked c)"
    and "sorted (map (stamp c) (eviction_candidates c))"
  using assms by (auto simp: eviction_candidates_def)

text \<open>C17: When docker answers (an image's size does not change and \<open>image rm\<close> succeeds), eviction removes the shortest
  prefix of the unused images, least recently used first, that brings the tracked footprint
  under the cap, or all of them; nothing else in the cache changes.\<close>

theorem eviction_exact:
  assumes "distinct (tracked c)" and "0 < cap"
    and "\<And>i. i \<in> set (tracked c) \<Longrightarrow>
      dk_total_size d i = Inr (sz i) \<and> dk_evict_size d i = Inr (sz i) \<and> dk_rm d i = Inr 0"
  shows "\<exists>k. evict_lru_locked d cap c =
       (without (take k (eviction_candidates c)) c, take k (eviction_candidates c), None) \<and>
     k \<le> length (eviction_candidates c) \<and>
     (footprint sz (without (take k (eviction_candidates c)) c) \<le> cap \<or> k = length (eviction_candidates c)) \<and>
     (\<forall>j<k. cap < footprint sz (without (take j (eviction_candidates c)) c)) \<and>
     sorted (map (stamp c) (eviction_candidates c)) \<and>
     set (eviction_candidates c) = {img \<in> set (tracked c). uses c img = 0}"
proof -
  let ?U = "eviction_candidates c"
  note U = eviction_candidates_facts [OF assms(1)]
  have total: "tracked_total_bytes d c = Inr (footprint sz c)"
    using assms(3) by (intro tracked_total) auto
  have "\<exists>k\<le>length ?U. evict_lru_locked d cap c = (without (take k ?U) c, take k ?U, None) \<and>
     (footprint sz (without (take k ?U) c) \<le> cap \<or> k = length ?U) \<and>
     (\<forall>j<k. cap < footprint sz (without (take j ?U) c))"
  proof (cases "footprint sz c \<le> cap")
    case True
    then show ?thesis using total by (auto simp: evict_lru_locked_def intro: exI [of _ 0])
  next
    case False
    have "\<exists>k\<le>length ?U. evict_loop d cap c (footprint sz c) ?U = (without (take k ?U) c, take k ?U, None) \<and>
       (footprint sz (without (take k ?U) c) \<le> cap \<or> k = length ?U) \<and>
       (\<forall>j<k. cap < footprint sz (without (take j ?U) c))"
      by (rule evict_loop_exact) (use assms(1,3) U(1,2) in auto)
    then show ?thesis using total False assms(2) by (simp add: evict_lru_locked_def)
  qed
  then show ?thesis using U(3) set_eviction_candidates [of c] by blast
qed

definition sample_cache :: image_cache where
  "sample_cache = \<lparr>last_used = [(''a'', 3), (''b'', 1), (''c'', 2)], in_use = [''b'' \<mapsto> 1]\<rparr>"

definition sample_docker :: docker where
  "sample_docker = \<lparr>dk_total_size = \<lambda>_. Inr 10, dk_evict_size = \<lambda>_. Inr 10, dk_rm = \<lambda>_. Inr 0\<rparr>"

lemma sample_candidates: "eviction_candidates sample_cache = [''c'', ''a'']"
  by (simp add: eviction_candidates_def sample_cache_def tracked_def uses_def stamp_def)

theorem eviction_exact_witness:
  "\<exists>k\<le>2. evict_lru_locked sample_docker 20 sample_cache =
      (without (take k [''c'', ''a'']) sample_cache, take k [''c'', ''a''], None) \<and>
     (footprint (\<lambda>_. 10) (without (take k [''c'', ''a'']) sample_cache) \<le> 20 \<or> k = 2)"
  using eviction_exact [of sample_cache 20 sample_docker "\<lambda>_. 10"]
  unfolding sample_candidates
  by (simp add: sample_docker_def) (auto simp: sample_cache_def tracked_def)

end
