(* ===== verification/Sandbox_Sessions.thy ===== *)
theory Sandbox_Sessions
  imports Image_Cache
begin

text \<open>
  The interactive sessions of the sandbox task executor
  (\<open>ubuntu-base/scripts/tools/task_executor.py\<close>) as a machine of interleaved threads over the
  image cache. Every region the code runs under \<open>_sessions_lock\<close> or \<open>_image_lock\<close> is one event; what a thread still
  has to do between two regions is part of the state: the phase of each bootstrap thread, the
  teardowns that have popped a session and not yet released its image, the \<open>finish\<close> and
  \<open>DELETE\<close> requests past their guard, the reaper's list, and the one-shot image
  tasks, which share the cache. The answers of docker and the clock are carried by the events. The fields from
  \<open>leaks\<close> on are history: references no thread will release any more, the \<open>image rm\<close> commands
  issued, the sessions graded and torn down, and the session ids handed out (\<open>uuid4\<close> ids are fresh).
\<close>

section \<open>State\<close>

datatype session_status = Starting | Ready | Failed | Finishing

record session =
  sess_status :: session_status
  sess_image :: "string option"
  image_held :: bool
  sess_container :: "string option"
  sess_error :: "py_error option"
  sess_created :: rat
  sess_last_used :: rat

text \<open>The image of a session: the reference to pull, or the tag \<open>dockyard-build:<key>\<close> to build.\<close>

datatype mode = Image_mode (mode_ref: string) | Build_mode (mode_ref: string)

datatype bootstrap =
    Checking mode
  | Reserved mode
  | Acquired string
  | Dropping string
  | Running string
  | Started string
  | Cleaning string
  | Raised py_error "string option"
  | Handled "string option"

datatype image_task = Pulling string | Holding string

record executor =
  cache :: image_cache
  sessions :: "(string \<times> session) list"
  boots :: "(string \<times> bootstrap) list"
  owed :: "string list"
  execs :: "string list"
  finishers :: "string list"
  deleters :: "string list"
  reaping :: "string list"
  image_tasks :: "(string \<times> image_task) list"
  leaks :: "string list"
  rm_log :: "string list"
  graded_ids :: "string list"
  torn :: "string list"
  seen :: "string list"

definition idle :: executor where
  "idle = \<lparr>cache = \<lparr>last_used = [], in_use = Map.empty\<rparr>, sessions = [], boots = [], owed = [], execs = [],
     finishers = [], deleters = [], reaping = [], image_tasks = [], leaks = [], rm_log = [], graded_ids = [],
     torn = [], seen = []\<rparr>"

section \<open>Operations\<close>

datatype http = OK | ACCEPTED | NOT_FOUND | CONFLICT

definition session_container :: "string \<Rightarrow> string" where
  "session_container sid = ''dockyard_sess_'' @ sid"

definition lookup :: "executor \<Rightarrow> string \<Rightarrow> session option" where
  "lookup st sid = map_of (sessions st) sid"

definition put_session :: "string \<Rightarrow> session \<Rightarrow> executor \<Rightarrow> executor" where
  "put_session sid s st = st\<lparr>sessions := AList.update sid s (sessions st)\<rparr>"

definition set_boot :: "string \<Rightarrow> bootstrap \<Rightarrow> executor \<Rightarrow> executor" where
  "set_boot sid b st = st\<lparr>boots := AList.update sid b (boots st)\<rparr>"

definition end_boot :: "string \<Rightarrow> executor \<Rightarrow> executor" where
  "end_boot sid st = st\<lparr>boots := AList.delete sid (boots st)\<rparr>"

definition held_image :: "session \<Rightarrow> string option" where
  "held_image s = (if image_held s then sess_image s else None)"

text \<open>One call of \<open>_release_image\<close>, and whether it raised.\<close>

definition release_now :: "docker \<Rightarrow> int \<Rightarrow> string \<Rightarrow> rat \<Rightarrow> executor \<Rightarrow> executor \<times> py_error option" where
  "release_now d cap ref now st =
     (let r = release_image d cap ref now (cache st)
      in (st\<lparr>cache := fst r, rm_log := rm_log st @ rm_commands r\<rparr>, snd (snd r)))"

text \<open>\<open>session_start\<close> and the bootstrap thread it starts.\<close>

definition session_start :: "string \<Rightarrow> mode \<Rightarrow> rat \<Rightarrow> executor \<Rightarrow> executor" where
  "session_start sid m now st =
     set_boot sid (Checking m)
       (put_session sid \<lparr>sess_status = Starting, sess_image = None, image_held = False, sess_container = None,
          sess_error = None, sess_created = now, sess_last_used = now\<rparr> (st\<lparr>seen := seen st @ [sid]\<rparr>))"

definition boot_reserve :: "string \<Rightarrow> mode \<Rightarrow> rat \<Rightarrow> executor \<Rightarrow> executor" where
  "boot_reserve sid m now st =
     set_boot sid (Reserved m) (st\<lparr>cache := reserve_image (mode_ref m) now (cache st)\<rparr>)"

text \<open>The local variable \<open>ref\<close> of the bootstrap when acquiring the image raises: set before the pull, not before a
  build returns.\<close>

fun local_ref :: "mode \<Rightarrow> string option" where
  "local_ref (Image_mode ref) = Some ref"
| "local_ref (Build_mode ref) = None"

text \<open>A reference is leaked when acquiring raised and the reservation was kept.\<close>

definition kept :: "image_cache \<Rightarrow> image_cache \<Rightarrow> string \<Rightarrow> string list" where
  "kept c c' ref = (if uses c' ref = uses c ref then [ref] else [])"

definition boot_ensure :: "string \<Rightarrow> mode \<Rightarrow> int result \<Rightarrow> int result \<Rightarrow> executor \<Rightarrow> executor" where
  "boot_ensure sid m inspect pull st =
     (let (c, r) = ensure_image inspect pull (mode_ref m) (cache st)
      in case r of
           Inr _ \<Rightarrow> set_boot sid (Acquired (mode_ref m)) (st\<lparr>cache := c\<rparr>)
         | Inl e \<Rightarrow> set_boot sid (Raised e (local_ref m))
             (st\<lparr>cache := c, leaks := leaks st @ kept (cache st) c (mode_ref m)\<rparr>))"

definition boot_record :: "string \<Rightarrow> string \<Rightarrow> executor \<Rightarrow> executor" where
  "boot_record sid ref st =
     (case lookup st sid of
        Some s \<Rightarrow> set_boot sid (Running ref) (put_session sid (s\<lparr>sess_image := Some ref, image_held := True\<rparr>) st)
      | None \<Rightarrow> set_boot sid (Dropping ref) st)"

definition boot_drop :: "docker \<Rightarrow> int \<Rightarrow> string \<Rightarrow> string \<Rightarrow> rat \<Rightarrow> executor \<Rightarrow> executor" where
  "boot_drop d cap sid ref now st =
     (case release_now d cap ref now st of
        (st', None) \<Rightarrow> end_boot sid st'
      | (st', Some e) \<Rightarrow> set_boot sid (Raised e (Some ref)) st')"

text \<open>\<open>docker run\<close>, then the background startup command, whose exit code is ignored.\<close>

definition boot_run :: "string \<Rightarrow> string \<Rightarrow> int result \<Rightarrow> int result option \<Rightarrow> executor \<Rightarrow> executor" where
  "boot_run sid ref run startup st =
     (case run of
        Inl e \<Rightarrow> set_boot sid (Raised e (Some ref)) st
      | Inr rc \<Rightarrow>
          if rc \<noteq> 0 then set_boot sid (Raised RuntimeError (Some ref)) st
          else case startup of
            Some (Inl e) \<Rightarrow> set_boot sid (Raised e (Some ref)) st
          | _ \<Rightarrow> set_boot sid (Started ref) st)"

definition boot_ready :: "string \<Rightarrow> string \<Rightarrow> rat \<Rightarrow> executor \<Rightarrow> executor" where
  "boot_ready sid ref now st =
     (case lookup st sid of
        Some s \<Rightarrow> end_boot sid (put_session sid
          (s\<lparr>sess_status := Ready, sess_container := Some (session_container sid), sess_last_used := now\<rparr>) st)
      | None \<Rightarrow> set_boot sid (Cleaning ref) st)"

definition boot_clean :: "string \<Rightarrow> string \<Rightarrow> int result \<Rightarrow> executor \<Rightarrow> executor" where
  "boot_clean sid ref rm st =
     (case rm of
        Inl e \<Rightarrow> set_boot sid (Raised e (Some ref)) st
      | Inr _ \<Rightarrow> set_boot sid (Dropping ref) st)"

text \<open>The exception handler of the bootstrap: its locked region, then the removal of the container and the release.\<close>

definition boot_handler :: "string \<Rightarrow> py_error \<Rightarrow> string option \<Rightarrow> executor \<Rightarrow> executor" where
  "boot_handler sid e ref st =
     (case lookup st sid of
        Some s \<Rightarrow> set_boot sid (Handled (held_image s))
          (put_session sid (s\<lparr>image_held := False, sess_status := Failed, sess_error := Some e\<rparr>) st)
      | None \<Rightarrow> set_boot sid (Handled ref) st)"

definition boot_settle ::
  "docker \<Rightarrow> int \<Rightarrow> string \<Rightarrow> string option \<Rightarrow> int result \<Rightarrow> rat \<Rightarrow> executor \<Rightarrow> executor" where
  "boot_settle d cap sid rel rm now st =
     (case rel of
        None \<Rightarrow> end_boot sid st
      | Some ref \<Rightarrow>
          (case rm of
             Inl e \<Rightarrow> end_boot sid (st\<lparr>leaks := leaks st @ [ref]\<rparr>)
           | Inr _ \<Rightarrow> end_boot sid (fst (release_now d cap ref now st))))"

text \<open>\<open>_teardown_session\<close>: the locked region, then the release after the container is removed. A removal that
  hangs raises before the release.\<close>

definition teardown_session :: "string \<Rightarrow> executor \<Rightarrow> executor \<times> bool" where
  "teardown_session sid st =
     (case lookup st sid of
        None \<Rightarrow> (st, False)
      | Some s \<Rightarrow>
          (st\<lparr>sessions := AList.delete sid (sessions st),
              owed := owed st @ (case held_image s of None \<Rightarrow> [] | Some ref \<Rightarrow> [ref]),
              torn := torn st @ [sid]\<rparr>, True))"

definition teardown_release :: "docker \<Rightarrow> int \<Rightarrow> string \<Rightarrow> int result \<Rightarrow> rat \<Rightarrow> executor \<Rightarrow> executor" where
  "teardown_release d cap ref rm now st =
     (let st' = st\<lparr>owed := remove1 ref (owed st)\<rparr>
      in case rm of
           Inl e \<Rightarrow> st'\<lparr>leaks := leaks st' @ [ref]\<rparr>
         | Inr _ \<Rightarrow> fst (release_now d cap ref now st'))"

text \<open>The guard shared by \<open>exec\<close>, \<open>export\<close> and \<open>finish\<close>.\<close>

definition session_guard :: "executor \<Rightarrow> string \<Rightarrow> http + session" where
  "session_guard st sid =
     (case lookup st sid of
        None \<Rightarrow> Inl NOT_FOUND
      | Some s \<Rightarrow> if sess_status s \<noteq> Ready then Inl CONFLICT else Inr s)"

definition touch_session :: "string \<Rightarrow> session \<Rightarrow> rat \<Rightarrow> executor \<Rightarrow> executor" where
  "touch_session sid s now st = put_session sid (s\<lparr>sess_last_used := now\<rparr>) st"

definition session_exec_begin :: "string \<Rightarrow> rat \<Rightarrow> executor \<Rightarrow> executor \<times> http" where
  "session_exec_begin sid now st =
     (case session_guard st sid of
        Inl h \<Rightarrow> (st, h)
      | Inr s \<Rightarrow> (let st' = touch_session sid s now st
          in (st'\<lparr>execs := execs st' @ (case sess_image s of None \<Rightarrow> [] | Some ref \<Rightarrow> [ref])\<rparr>, OK)))"

definition session_exec_end :: "string \<Rightarrow> rat \<Rightarrow> executor \<Rightarrow> executor" where
  "session_exec_end ref now st =
     st\<lparr>execs := remove1 ref (execs st), cache := refresh_image ref now (cache st)\<rparr>"

definition session_export_begin :: "string \<Rightarrow> rat \<Rightarrow> executor \<Rightarrow> executor \<times> http" where
  "session_export_begin sid now st =
     (case session_guard st sid of
        Inl h \<Rightarrow> (st, h)
      | Inr s \<Rightarrow> (touch_session sid s now st, OK))"

definition session_finish_begin :: "string \<Rightarrow> rat \<Rightarrow> executor \<Rightarrow> executor \<times> http" where
  "session_finish_begin sid now st =
     (case session_guard st sid of
        Inl h \<Rightarrow> (st, h)
      | Inr s \<Rightarrow> (let st' = put_session sid (s\<lparr>sess_status := Finishing, sess_last_used := now\<rparr>) st
          in (st'\<lparr>finishers := finishers st' @ [sid], graded_ids := graded_ids st' @ [sid]\<rparr>, OK)))"

definition session_finish_end :: "string \<Rightarrow> executor \<Rightarrow> executor" where
  "session_finish_end sid st = fst (teardown_session sid (st\<lparr>finishers := remove1 sid (finishers st)\<rparr>))"

definition session_delete_check :: "string \<Rightarrow> executor \<Rightarrow> executor \<times> http" where
  "session_delete_check sid st =
     (case lookup st sid of
        None \<Rightarrow> (st, NOT_FOUND)
      | Some s \<Rightarrow> if sess_status s = Starting then (st, CONFLICT)
          else (st\<lparr>deleters := deleters st @ [sid]\<rparr>, OK))"

definition session_delete_end :: "string \<Rightarrow> executor \<Rightarrow> executor" where
  "session_delete_end sid st = fst (teardown_session sid (st\<lparr>deleters := remove1 sid (deleters st)\<rparr>))"

text \<open>\<open>_reap_sessions_once\<close>: the scan, then one teardown per stale session; an exception ends the pass.\<close>

definition stale_sessions :: "rat \<Rightarrow> executor \<Rightarrow> string list" where
  "stale_sessions cutoff st = map fst (filter (\<lambda>(sid, s). sess_last_used s < cutoff) (sessions st))"

definition reap_next :: "executor \<Rightarrow> executor" where
  "reap_next st =
     (case reaping st of
        [] \<Rightarrow> st
      | sid # rest \<Rightarrow> fst (teardown_session sid (st\<lparr>reaping := rest\<rparr>)))"

text \<open>The image a one-shot task holds while its container runs (\<open>_execute_image\<close>).\<close>

definition task_reserve :: "string \<Rightarrow> string \<Rightarrow> rat \<Rightarrow> executor \<Rightarrow> executor" where
  "task_reserve tid ref now st =
     st\<lparr>cache := reserve_image ref now (cache st), image_tasks := AList.update tid (Pulling ref) (image_tasks st)\<rparr>"

definition task_ensure :: "string \<Rightarrow> string \<Rightarrow> int result \<Rightarrow> int result \<Rightarrow> executor \<Rightarrow> executor" where
  "task_ensure tid ref inspect pull st =
     (let (c, r) = ensure_image inspect pull ref (cache st)
      in case r of
           Inr _ \<Rightarrow> st\<lparr>cache := c, image_tasks := AList.update tid (Holding ref) (image_tasks st)\<rparr>
         | Inl e \<Rightarrow> st\<lparr>cache := c, image_tasks := AList.delete tid (image_tasks st),
             leaks := leaks st @ kept (cache st) c ref\<rparr>)"

definition task_release :: "docker \<Rightarrow> int \<Rightarrow> string \<Rightarrow> string \<Rightarrow> rat \<Rightarrow> executor \<Rightarrow> executor" where
  "task_release d cap tid ref now st =
     fst (release_now d cap ref now (st\<lparr>image_tasks := AList.delete tid (image_tasks st)\<rparr>))"

section \<open>The machine\<close>

datatype sandbox_event =
    Session_start string mode rat
  | Boot_abort string py_error
  | Boot_dies string
  | Boot_reserve string rat
  | Boot_ensure string "int result" "int result"
  | Boot_record string
  | Boot_drop docker string rat
  | Boot_run string "int result" "int result option"
  | Boot_ready string rat
  | Boot_clean string "int result"
  | Boot_handler string
  | Boot_settle docker string "int result" rat
  | Exec_begin string rat
  | Exec_end string rat
  | Export_begin string rat
  | Finish_begin string rat
  | Finish_end string
  | Finish_dies string
  | Delete_check string
  | Delete_end string
  | Reap_scan rat
  | Reap_next
  | Reap_abort
  | Teardown_release docker string "int result" rat
  | Task_reserve string string rat
  | Task_ensure string "int result" "int result"
  | Task_release docker string rat

text \<open>\<open>Boot_dies\<close> and \<open>Finish_dies\<close> are the conversions \<open>int(params.get(...))\<close> that stand before the \<open>try\<close> of the
  bootstrap and of \<open>finish\<close>: the thread ends with the session as it is.\<close>

definition boot_of :: "executor \<Rightarrow> string \<Rightarrow> bootstrap option" where
  "boot_of st sid = map_of (boots st) sid"

fun step :: "int \<Rightarrow> sandbox_event \<Rightarrow> executor \<Rightarrow> executor option" where
  "step cap (Session_start sid m now) st =
     (if sid \<in> set (seen st) then None else Some (session_start sid m now st))"
| "step cap (Boot_abort sid e) st =
     (case boot_of st sid of Some (Checking m) \<Rightarrow> Some (set_boot sid (Raised e None) st) | _ \<Rightarrow> None)"
| "step cap (Boot_dies sid) st =
     (case boot_of st sid of Some (Checking m) \<Rightarrow> Some (end_boot sid st) | _ \<Rightarrow> None)"
| "step cap (Boot_reserve sid now) st =
     (case boot_of st sid of Some (Checking m) \<Rightarrow> Some (boot_reserve sid m now st) | _ \<Rightarrow> None)"
| "step cap (Boot_ensure sid inspect pull) st =
     (case boot_of st sid of Some (Reserved m) \<Rightarrow> Some (boot_ensure sid m inspect pull st) | _ \<Rightarrow> None)"
| "step cap (Boot_record sid) st =
     (case boot_of st sid of Some (Acquired ref) \<Rightarrow> Some (boot_record sid ref st) | _ \<Rightarrow> None)"
| "step cap (Boot_drop d sid now) st =
     (case boot_of st sid of Some (Dropping ref) \<Rightarrow> Some (boot_drop d cap sid ref now st) | _ \<Rightarrow> None)"
| "step cap (Boot_run sid run startup) st =
     (case boot_of st sid of Some (Running ref) \<Rightarrow> Some (boot_run sid ref run startup st) | _ \<Rightarrow> None)"
| "step cap (Boot_ready sid now) st =
     (case boot_of st sid of Some (Started ref) \<Rightarrow> Some (boot_ready sid ref now st) | _ \<Rightarrow> None)"
| "step cap (Boot_clean sid rm) st =
     (case boot_of st sid of Some (Cleaning ref) \<Rightarrow> Some (boot_clean sid ref rm st) | _ \<Rightarrow> None)"
| "step cap (Boot_handler sid) st =
     (case boot_of st sid of Some (Raised e ref) \<Rightarrow> Some (boot_handler sid e ref st) | _ \<Rightarrow> None)"
| "step cap (Boot_settle d sid rm now) st =
     (case boot_of st sid of Some (Handled rel) \<Rightarrow> Some (boot_settle d cap sid rel rm now st) | _ \<Rightarrow> None)"
| "step cap (Exec_begin sid now) st = Some (fst (session_exec_begin sid now st))"
| "step cap (Exec_end ref now) st =
     (if ref \<in> set (execs st) then Some (session_exec_end ref now st) else None)"
| "step cap (Export_begin sid now) st = Some (fst (session_export_begin sid now st))"
| "step cap (Finish_begin sid now) st = Some (fst (session_finish_begin sid now st))"
| "step cap (Finish_end sid) st =
     (if sid \<in> set (finishers st) then Some (session_finish_end sid st) else None)"
| "step cap (Finish_dies sid) st =
     (if sid \<in> set (finishers st) then Some (st\<lparr>finishers := remove1 sid (finishers st)\<rparr>) else None)"
| "step cap (Delete_check sid) st = Some (fst (session_delete_check sid st))"
| "step cap (Delete_end sid) st =
     (if sid \<in> set (deleters st) then Some (session_delete_end sid st) else None)"
| "step cap (Reap_scan cutoff) st =
     (if reaping st = [] then Some (st\<lparr>reaping := stale_sessions cutoff st\<rparr>) else None)"
| "step cap Reap_next st = (if reaping st = [] then None else Some (reap_next st))"
| "step cap Reap_abort st = Some (st\<lparr>reaping := []\<rparr>)"
| "step cap (Teardown_release d ref rm now) st =
     (if ref \<in> set (owed st) then Some (teardown_release d cap ref rm now st) else None)"
| "step cap (Task_reserve tid ref now) st =
     (if map_of (image_tasks st) tid = None then Some (task_reserve tid ref now st) else None)"
| "step cap (Task_ensure tid inspect pull) st =
     (case map_of (image_tasks st) tid of
        Some (Pulling ref) \<Rightarrow> Some (task_ensure tid ref inspect pull st) | _ \<Rightarrow> None)"
| "step cap (Task_release d tid now) st =
     (case map_of (image_tasks st) tid of
        Some (Holding ref) \<Rightarrow> Some (task_release d cap tid ref now st) | _ \<Rightarrow> None)"

inductive reachable :: "int \<Rightarrow> executor \<Rightarrow> bool" for cap where
  reachable_idle: "reachable cap idle"
| reachable_step: "reachable cap st \<Longrightarrow> step cap ev st = Some st' \<Longrightarrow> reachable cap st'"

text \<open>The runs in which the reaper never tears down a starting session whose bootstrap still runs.\<close>

fun spares :: "sandbox_event \<Rightarrow> executor \<Rightarrow> bool" where
  "spares Reap_next st =
     (case reaping st of
        [] \<Rightarrow> True
      | sid # _ \<Rightarrow> (case lookup st sid of None \<Rightarrow> True
          | Some s \<Rightarrow> sess_status s \<noteq> Starting \<or> boot_of st sid = None))"
| "spares _ st = True"

inductive calmly_reachable :: "int \<Rightarrow> executor \<Rightarrow> bool" for cap where
  calm_idle: "calmly_reachable cap idle"
| calm_step: "calmly_reachable cap st \<Longrightarrow> spares ev st \<Longrightarrow> step cap ev st = Some st' \<Longrightarrow> calmly_reachable cap st'"

section \<open>Counting over a dict\<close>

fun opt_count :: "('a \<Rightarrow> int) \<Rightarrow> 'a option \<Rightarrow> int" where
  "opt_count f None = 0"
| "opt_count f (Some x) = f x"

definition tally :: "('v \<Rightarrow> int) \<Rightarrow> ('k \<times> 'v) list \<Rightarrow> int" where
  "tally f al = (\<Sum>k\<in>dom (map_of al). f (the (map_of al k)))"

lemma tally_Nil [simp]: "tally f [] = 0"
  by (simp add: tally_def)

lemma tally_delete: "tally f (AList.delete k al) = tally f al - opt_count f (map_of al k)"
proof (cases "map_of al k")
  case None
  then show ?thesis by (simp add: tally_def AList.delete_conv' domIff)
next
  case (Some v)
  have "(\<Sum>j\<in>dom (map_of al). f (the (map_of al j)))
      = f v + (\<Sum>j\<in>dom (map_of al) - {k}. f (the (map_of al j)))"
    using Some by (subst sum.remove [of _ k]) (auto simp: finite_dom_map_of)
  moreover have "(\<Sum>j\<in>dom (map_of al) - {k}. f (the (((map_of al)(k := None)) j)))
      = (\<Sum>j\<in>dom (map_of al) - {k}. f (the (map_of al j)))"
    by (rule sum.cong) auto
  ultimately show ?thesis using Some by (simp add: tally_def AList.delete_conv')
qed

lemma tally_update: "tally f (AList.update k v al) = tally f al - opt_count f (map_of al k) + f v"
proof -
  have "tally f (AList.update k v al) = f v + (\<Sum>j\<in>dom (map_of al) - {k}. f (the (map_of al j)))"
    unfolding tally_def by (subst sum.remove [of _ k])
      (auto simp: AList.update_conv' finite_dom_map_of intro!: sum.cong)
  moreover have "(\<Sum>j\<in>dom (map_of al) - {k}. f (the (map_of al j))) = tally f (AList.delete k al)"
    unfolding tally_def by (rule sum.cong) (auto simp: AList.delete_conv')
  ultimately show ?thesis by (simp add: tally_delete)
qed

lemma tally_nonneg: "(\<And>v. 0 \<le> f v) \<Longrightarrow> 0 \<le> tally f al"
  by (simp add: tally_def sum_nonneg)

lemma tally_ge: "(\<And>v. 0 \<le> f v) \<Longrightarrow> map_of al k = Some v \<Longrightarrow> f v \<le> tally f al"
  using tally_delete [of f k al] tally_nonneg [of f "AList.delete k al"] by simp

section \<open>Who holds an image\<close>

definition session_claim :: "string \<Rightarrow> session \<Rightarrow> int" where
  "session_claim img s = of_bool (held_image s = Some img)"

fun boot_claim :: "string \<Rightarrow> bootstrap \<Rightarrow> int" where
  "boot_claim img (Reserved m) = of_bool (mode_ref m = img)"
| "boot_claim img (Acquired ref) = of_bool (ref = img)"
| "boot_claim img (Dropping ref) = of_bool (ref = img)"
| "boot_claim img (Handled (Some ref)) = of_bool (ref = img)"
| "boot_claim img _ = 0"

fun task_claim :: "string \<Rightarrow> image_task \<Rightarrow> int" where
  "task_claim img (Pulling ref) = of_bool (ref = img)"
| "task_claim img (Holding ref) = of_bool (ref = img)"

definition holders :: "executor \<Rightarrow> string \<Rightarrow> int" where
  "holders st img = tally (session_claim img) (sessions st) + tally (boot_claim img) (boots st)
     + int (count_list (owed st) img) + tally (task_claim img) (image_tasks st)"

definition balance :: "executor \<Rightarrow> string \<Rightarrow> int" where
  "balance st img = uses (cache st) img - holders st img - int (count_list (leaks st) img)"

lemma claims_nonneg [simp]: "0 \<le> session_claim img s" "0 \<le> boot_claim img b" "0 \<le> task_claim img t"
  by (simp_all add: session_claim_def)
    ((cases "(img, b)" rule: boot_claim.cases; simp), (cases t; simp))

lemma holders_nonneg: "0 \<le> holders st img"
  by (simp add: holders_def tally_nonneg)

lemma opt_nonneg: "(\<And>v. 0 \<le> f v) \<Longrightarrow> 0 \<le> opt_count f x"
  by (cases x) simp_all

lemma boot_claim_le_holders: "boot_of st sid = Some b \<Longrightarrow> boot_claim img b \<le> holders st img"
  using tally_ge [of "boot_claim img" "boots st" sid b] tally_nonneg [of "session_claim img" "sessions st"]
    tally_nonneg [of "task_claim img" "image_tasks st"]
  by (simp add: holders_def boot_of_def)

lemma task_claim_le_holders: "map_of (image_tasks st) tid = Some t \<Longrightarrow> task_claim img t \<le> holders st img"
  using tally_ge [of "task_claim img" "image_tasks st" tid t] tally_nonneg [of "session_claim img" "sessions st"]
    tally_nonneg [of "boot_claim img" "boots st"]
  by (simp add: holders_def)

lemma owed_le_holders: "img \<in> set (owed st) \<Longrightarrow> 1 \<le> holders st img"
  using tally_nonneg [of "task_claim img" "image_tasks st"] tally_nonneg [of "session_claim img" "sessions st"]
    tally_nonneg [of "boot_claim img" "boots st"] count_list_0_iff [of "owed st" img]
  by (simp add: holders_def) 

lemma holders_simps [simp]:
  "holders (st\<lparr>cache := c\<rparr>) img = holders st img"
  "holders (st\<lparr>execs := x\<rparr>) img = holders st img"
  "holders (st\<lparr>finishers := x\<rparr>) img = holders st img"
  "holders (st\<lparr>deleters := x\<rparr>) img = holders st img"
  "holders (st\<lparr>reaping := x\<rparr>) img = holders st img"
  "holders (st\<lparr>leaks := x\<rparr>) img = holders st img"
  "holders (st\<lparr>rm_log := x\<rparr>) img = holders st img"
  "holders (st\<lparr>graded_ids := x\<rparr>) img = holders st img"
  "holders (st\<lparr>torn := x\<rparr>) img = holders st img"
  "holders (st\<lparr>seen := x\<rparr>) img = holders st img"
  "holders (st\<lparr>owed := x\<rparr>) img = holders st img - int (count_list (owed st) img) + int (count_list x img)"
  by (simp_all add: holders_def)

lemma holders_put_session [simp]:
  "holders (put_session sid s st) img = holders st img - opt_count (session_claim img) (lookup st sid) + session_claim img s"
  by (simp add: holders_def put_session_def lookup_def tally_update)

lemma holders_set_boot [simp]:
  "holders (set_boot sid b st) img = holders st img - opt_count (boot_claim img) (boot_of st sid) + boot_claim img b"
  by (simp add: holders_def set_boot_def boot_of_def tally_update)

lemma holders_end_boot [simp]:
  "holders (end_boot sid st) img = holders st img - opt_count (boot_claim img) (boot_of st sid)"
  by (simp add: holders_def end_boot_def boot_of_def tally_delete)

section \<open>Frame facts\<close>

lemma lookup_simps [simp]:
  "lookup (put_session sid s st) = (lookup st)(sid \<mapsto> s)"
  "lookup (set_boot sid b st) = lookup st"
  "lookup (end_boot sid st) = lookup st"
  "lookup (st\<lparr>cache := c\<rparr>) = lookup st"
  "lookup (st\<lparr>execs := x\<rparr>) = lookup st"
  "lookup (st\<lparr>finishers := x\<rparr>) = lookup st"
  "lookup (st\<lparr>deleters := x\<rparr>) = lookup st"
  "lookup (st\<lparr>reaping := x\<rparr>) = lookup st"
  "lookup (st\<lparr>leaks := x\<rparr>) = lookup st"
  "lookup (st\<lparr>rm_log := x\<rparr>) = lookup st"
  "lookup (st\<lparr>graded_ids := x\<rparr>) = lookup st"
  "lookup (st\<lparr>torn := x\<rparr>) = lookup st"
  "lookup (st\<lparr>seen := x\<rparr>) = lookup st"
  "lookup (st\<lparr>owed := x\<rparr>) = lookup st"
  "lookup (st\<lparr>image_tasks := ts\<rparr>) = lookup st"
  "lookup (st\<lparr>sessions := AList.delete sid (sessions st)\<rparr>) = (lookup st)(sid := None)"
  by (auto simp: fun_eq_iff lookup_def put_session_def set_boot_def end_boot_def AList.update_conv' AList.delete_conv')

lemma boot_of_simps [simp]:
  "boot_of (put_session sid s st) = boot_of st"
  "boot_of (set_boot sid b st) = (boot_of st)(sid \<mapsto> b)"
  "boot_of (end_boot sid st) = (boot_of st)(sid := None)"
  "boot_of (st\<lparr>cache := c\<rparr>) = boot_of st"
  "boot_of (st\<lparr>execs := x\<rparr>) = boot_of st"
  "boot_of (st\<lparr>finishers := x\<rparr>) = boot_of st"
  "boot_of (st\<lparr>deleters := x\<rparr>) = boot_of st"
  "boot_of (st\<lparr>reaping := x\<rparr>) = boot_of st"
  "boot_of (st\<lparr>leaks := x\<rparr>) = boot_of st"
  "boot_of (st\<lparr>rm_log := x\<rparr>) = boot_of st"
  "boot_of (st\<lparr>graded_ids := x\<rparr>) = boot_of st"
  "boot_of (st\<lparr>torn := x\<rparr>) = boot_of st"
  "boot_of (st\<lparr>seen := x\<rparr>) = boot_of st"
  "boot_of (st\<lparr>owed := x\<rparr>) = boot_of st"
  "boot_of (st\<lparr>image_tasks := ts\<rparr>) = boot_of st"
  "boot_of (st\<lparr>sessions := ss\<rparr>) = boot_of st"
  by (auto simp: fun_eq_iff boot_of_def put_session_def set_boot_def end_boot_def AList.update_conv' AList.delete_conv')

lemma put_session_fields [simp]:
  "cache (put_session sid s st) = cache st" "owed (put_session sid s st) = owed st"
  "execs (put_session sid s st) = execs st" "finishers (put_session sid s st) = finishers st"
  "deleters (put_session sid s st) = deleters st" "reaping (put_session sid s st) = reaping st"
  "image_tasks (put_session sid s st) = image_tasks st" "leaks (put_session sid s st) = leaks st"
  "rm_log (put_session sid s st) = rm_log st" "graded_ids (put_session sid s st) = graded_ids st"
  "torn (put_session sid s st) = torn st" "seen (put_session sid s st) = seen st"
  by (simp_all add: put_session_def)

lemma set_boot_fields [simp]:
  "cache (set_boot sid b st) = cache st" "owed (set_boot sid b st) = owed st"
  "execs (set_boot sid b st) = execs st" "finishers (set_boot sid b st) = finishers st"
  "deleters (set_boot sid b st) = deleters st" "reaping (set_boot sid b st) = reaping st"
  "image_tasks (set_boot sid b st) = image_tasks st" "leaks (set_boot sid b st) = leaks st"
  "rm_log (set_boot sid b st) = rm_log st" "graded_ids (set_boot sid b st) = graded_ids st"
  "torn (set_boot sid b st) = torn st" "seen (set_boot sid b st) = seen st"
  by (simp_all add: set_boot_def)

lemma end_boot_fields [simp]:
  "cache (end_boot sid st) = cache st" "owed (end_boot sid st) = owed st"
  "execs (end_boot sid st) = execs st" "finishers (end_boot sid st) = finishers st"
  "deleters (end_boot sid st) = deleters st" "reaping (end_boot sid st) = reaping st"
  "image_tasks (end_boot sid st) = image_tasks st" "leaks (end_boot sid st) = leaks st"
  "rm_log (end_boot sid st) = rm_log st" "graded_ids (end_boot sid st) = graded_ids st"
  "torn (end_boot sid st) = torn st" "seen (end_boot sid st) = seen st"
  by (simp_all add: end_boot_def)

definition released :: "docker \<Rightarrow> int \<Rightarrow> string \<Rightarrow> rat \<Rightarrow> executor \<Rightarrow> executor" where
  "released d cap ref now st = fst (release_now d cap ref now st)"

lemma released_fields [simp]:
  "lookup (released d cap ref now st) = lookup st" "boot_of (released d cap ref now st) = boot_of st"
  "owed (released d cap ref now st) = owed st" "execs (released d cap ref now st) = execs st"
  "finishers (released d cap ref now st) = finishers st" "deleters (released d cap ref now st) = deleters st"
  "reaping (released d cap ref now st) = reaping st" "image_tasks (released d cap ref now st) = image_tasks st"
  "leaks (released d cap ref now st) = leaks st" "graded_ids (released d cap ref now st) = graded_ids st"
  "torn (released d cap ref now st) = torn st" "seen (released d cap ref now st) = seen st"
  "holders (released d cap ref now st) img = holders st img"
  "uses (cache (released d cap ref now st)) = (uses (cache st))(ref := max 0 (uses (cache st) ref - 1))"
  by (simp_all add: released_def release_now_def Let_def)

lemma boot_drop_cases:
  "boot_drop d cap sid ref now st = end_boot sid (released d cap ref now st) \<or>
   (\<exists>e. boot_drop d cap sid ref now st = set_boot sid (Raised e (Some ref)) (released d cap ref now st))"
  by (cases "release_now d cap ref now st"; cases "snd (release_now d cap ref now st)")
    (auto simp: boot_drop_def released_def)

section \<open>The life of a session\<close>

fun active :: "bootstrap \<Rightarrow> bool" where
  "active (Handled rel) = False"
| "active _ = True"

text \<open>What holds of one session id: whether it was graded, torn down, handed out, its record and its bootstrap.\<close>

definition life_at :: "bool \<Rightarrow> bool \<Rightarrow> bool \<Rightarrow> session option \<Rightarrow> bootstrap option \<Rightarrow> bool" where
  "life_at g t n s b \<longleftrightarrow>
     (g \<or> t \<or> s \<noteq> None \<or> b \<noteq> None \<longrightarrow> n) \<and> (t \<longrightarrow> s = None) \<and>
     (case s of None \<Rightarrow> True
      | Some x \<Rightarrow> (g \<longrightarrow> sess_status x = Finishing) \<and>
          (case b of None \<Rightarrow> True | Some y \<Rightarrow> active y \<longrightarrow> sess_status x = Starting))"

definition life_inv :: "executor \<Rightarrow> bool" where
  "life_inv st \<longleftrightarrow> distinct (graded_ids st) \<and> distinct (torn st) \<and>
     (\<forall>sid. life_at (sid \<in> set (graded_ids st)) (sid \<in> set (torn st)) (sid \<in> set (seen st))
              (lookup st sid) (boot_of st sid))"

lemmas operation_defs =
  session_start_def boot_reserve_def boot_record_def boot_run_def boot_ready_def boot_clean_def
  boot_handler_def boot_settle_def teardown_release_def session_guard_def touch_session_def
  session_exec_begin_def session_exec_end_def session_export_begin_def session_finish_begin_def
  session_finish_end_def session_delete_check_def session_delete_end_def reap_next_def
  task_reserve_def task_release_def released_def [symmetric]

lemma life_inv_idle: "life_inv idle"
  by (simp add: life_inv_def life_at_def idle_def lookup_def boot_of_def)

lemma life_invD:
  "life_inv st \<Longrightarrow> life_at (sid \<in> set (graded_ids st)) (sid \<in> set (torn st)) (sid \<in> set (seen st))
     (lookup st sid) (boot_of st sid)"
  by (simp add: life_inv_def)

lemma life_inv_at:
  assumes "life_inv st" and "distinct (graded_ids st')" and "distinct (torn st')"
    and "\<And>x. x \<noteq> sid \<Longrightarrow> (x \<in> set (graded_ids st') \<longleftrightarrow> x \<in> set (graded_ids st)) \<and> (x \<in> set (torn st') \<longleftrightarrow> x \<in> set (torn st)) \<and>
      (x \<in> set (seen st') \<longleftrightarrow> x \<in> set (seen st)) \<and> lookup st' x = lookup st x \<and> boot_of st' x = boot_of st x"
    and "life_at (sid \<in> set (graded_ids st')) (sid \<in> set (torn st')) (sid \<in> set (seen st'))
     (lookup st' sid) (boot_of st' sid)"
  shows "life_inv st'"
  unfolding life_inv_def
proof (intro conjI allI)
  fix x
  show "life_at (x \<in> set (graded_ids st')) (x \<in> set (torn st')) (x \<in> set (seen st')) (lookup st' x) (boot_of st' x)"
    using assms(5) assms(4) [of x] life_invD [OF assms(1), of x] by (cases "x = sid") simp_all
qed (use assms in simp_all)

lemma life_inv_distinct: "life_inv st \<Longrightarrow> distinct (graded_ids st)" "life_inv st \<Longrightarrow> distinct (torn st)"
  by (simp_all add: life_inv_def)

lemma life_inv_teardown:
  assumes "life_inv st"
  shows "life_inv (fst (teardown_session sid st))"
proof (cases "lookup st sid")
  case (Some s)
  show ?thesis
    by (rule life_inv_at [of st _ sid])
      (use assms life_invD [OF assms, of sid] Some in
        \<open>simp_all add: teardown_session_def life_at_def life_inv_distinct split: option.splits\<close>)
qed (simp add: teardown_session_def assms)

lemma life_inv_fields [simp]:
  "life_inv (st\<lparr>cache := c\<rparr>) = life_inv st" "life_inv (st\<lparr>execs := x\<rparr>) = life_inv st"
  "life_inv (st\<lparr>finishers := x\<rparr>) = life_inv st" "life_inv (st\<lparr>deleters := x\<rparr>) = life_inv st"
  "life_inv (st\<lparr>reaping := x\<rparr>) = life_inv st" "life_inv (st\<lparr>leaks := x\<rparr>) = life_inv st"
  "life_inv (st\<lparr>rm_log := x\<rparr>) = life_inv st" "life_inv (st\<lparr>owed := x\<rparr>) = life_inv st"
  "life_inv (st\<lparr>image_tasks := ts\<rparr>) = life_inv st" "life_inv (released d cap ref now st) = life_inv st"
  by (simp_all add: life_inv_def)

lemma life_inv_set_boot:
  assumes "life_inv st" and "boot_of st sid = Some b" and "active b"
  shows "life_inv (set_boot sid b' st)"
  by (rule life_inv_at [of st _ sid])
    (use assms life_invD [OF assms(1), of sid] in \<open>auto simp: life_at_def life_inv_distinct split: option.splits\<close>)

lemma life_inv_end_boot: "life_inv st \<Longrightarrow> life_inv (end_boot sid st)"
  by (rule life_inv_at [of st _ sid])
    (use life_invD [of st sid] in \<open>simp_all add: life_at_def life_inv_distinct split: option.splits\<close>)

lemma life_inv_touch:
  assumes "life_inv st" and "lookup st sid = Some s" and "sess_status s' = sess_status s"
  shows "life_inv (put_session sid s' st)"
  by (rule life_inv_at [of st _ sid])
    (use assms life_invD [OF assms(1), of sid] in \<open>simp_all add: life_at_def life_inv_distinct split: option.splits\<close>)

lemma life_inv_settle:
  assumes "life_inv st" and "boot_of st sid = Some b" and "active b" and "lookup st sid = Some s"
  shows "life_inv (end_boot sid (put_session sid s' st)) \<and>
    life_inv (set_boot sid (Handled rel) (put_session sid s' st))"
proof -
  note facts = assms life_invD [OF assms(1), of sid]
  have "sess_status s = Starting" "sid \<notin> set (torn st)" "sid \<in> set (seen st)"
    using facts by (auto simp: life_at_def)
  moreover from this have "sid \<notin> set (graded_ids st)"
    using facts by (auto simp: life_at_def)
  ultimately show ?thesis
    by (intro conjI; rule_tac life_inv_at [of st _ sid, OF assms(1)];
        simp add: life_at_def life_inv_distinct assms(1))
qed

lemma life_inv_finish:
  assumes "life_inv st" and "lookup st sid = Some s" and "sess_status s = Ready" and "sess_status s' = Finishing"
  shows "life_inv (put_session sid s' st\<lparr>finishers := fs, graded_ids := graded_ids st @ [sid]\<rparr>)"
  by (rule life_inv_at [of st _ sid])
    (use assms life_invD [OF assms(1), of sid] in \<open>simp_all add: life_at_def life_inv_distinct split: option.splits\<close>)

lemma life_inv_start: "life_inv st \<Longrightarrow> sid \<notin> set (seen st) \<Longrightarrow> life_inv (session_start sid m now st)"
  by (rule life_inv_at [of st _ sid])
    (use life_invD [of st sid] in \<open>simp_all add: life_at_def life_inv_distinct session_start_def split: option.splits\<close>)

lemmas life_intros = life_inv_set_boot life_inv_end_boot life_inv_touch life_inv_teardown

lemma life_inv_boot_drop:
  "life_inv st \<Longrightarrow> boot_of st sid = Some (Dropping ref) \<Longrightarrow> life_inv (boot_drop d cap sid ref now st)"
  using boot_drop_cases [of d cap sid ref now st] by (auto intro!: life_intros)

lemma life_inv_step:
  assumes "life_inv st" and "step cap ev st = Some st'"
  shows "life_inv st'"
proof (cases ev)
  case (Session_start sid m now)
  then show ?thesis using assms by (auto intro: life_inv_start split: if_splits)
next
  case (Boot_ensure sid inspect pull)
  then show ?thesis using assms
    by (auto simp: boot_ensure_def Let_def intro!: life_intros split: option.splits bootstrap.splits prod.splits sum.splits)
next
  case (Boot_drop d sid now)
  then show ?thesis using assms by (auto intro!: life_inv_boot_drop split: option.splits bootstrap.splits)
next
  case (Finish_begin sid now)
  then show ?thesis using assms
    by (auto simp: operation_defs Let_def intro!: life_inv_finish split: option.splits if_splits)
next
  case (Task_ensure tid inspect pull)
  then show ?thesis using assms
    by (auto simp: task_ensure_def Let_def split: option.splits image_task.splits prod.splits sum.splits)
next
  case (Boot_ready sid now)
  then show ?thesis using assms
    by (auto simp: operation_defs intro: life_inv_settle [THEN conjunct1] life_inv_set_boot split: option.splits bootstrap.splits)
next
  case (Boot_handler sid)
  then show ?thesis using assms
    by (auto simp: operation_defs intro: life_inv_settle [THEN conjunct2] life_inv_set_boot split: option.splits bootstrap.splits)
qed (use assms in \<open>auto simp: operation_defs Let_def intro!: life_intros
       split: option.splits bootstrap.splits sum.splits if_splits list.splits image_task.splits\<close>)

end
