(* ===== verification/Sandbox_Accounting.thy ===== *)
theory Sandbox_Accounting
  imports Sandbox_Sessions
begin

text \<open>
  The correctness of the session machine of \<^verbatim>\<open>Sandbox_Sessions\<close>: the accounting of image references in the runs
  in which the reaper spares the sessions whose bootstrap still runs, what eviction may then
  remove, and, in every run, the single grading and teardown of a session and the moves of its
  status. The last section runs the interleavings in which the bookkeeping fails.
\<close>

section \<open>Accounting of image references\<close>

fun boot_ok :: "session option \<Rightarrow> bootstrap \<Rightarrow> bool" where
  "boot_ok s (Checking m) \<longleftrightarrow> (\<exists>x. s = Some x \<and> sess_status x = Starting \<and> held_image x = None)"
| "boot_ok s (Reserved m) \<longleftrightarrow> (\<exists>x. s = Some x \<and> sess_status x = Starting \<and> held_image x = None)"
| "boot_ok s (Acquired ref) \<longleftrightarrow> (\<exists>x. s = Some x \<and> sess_status x = Starting \<and> held_image x = None)"
| "boot_ok s (Running ref) \<longleftrightarrow> (\<exists>x. s = Some x \<and> sess_status x = Starting)"
| "boot_ok s (Started ref) \<longleftrightarrow> (\<exists>x. s = Some x \<and> sess_status x = Starting)"
| "boot_ok s (Raised e ref) \<longleftrightarrow> (\<exists>x. s = Some x \<and> sess_status x = Starting)"
| "boot_ok s (Dropping ref) \<longleftrightarrow> False"
| "boot_ok s (Cleaning ref) \<longleftrightarrow> False"
| "boot_ok s (Handled rel) \<longleftrightarrow> True"

definition pending :: "executor \<Rightarrow> string set" where
  "pending st = set (finishers st) \<union> set (deleters st)"

definition calm_at :: "bool \<Rightarrow> bool \<Rightarrow> session option \<Rightarrow> bootstrap option \<Rightarrow> bool" where
  "calm_at p n s b \<longleftrightarrow>
     (p \<longrightarrow> n \<and> (case s of None \<Rightarrow> True | Some x \<Rightarrow> sess_status x \<noteq> Starting)) \<and>
     (case b of None \<Rightarrow> True | Some y \<Rightarrow> boot_ok s y)"

definition threads_inv :: "executor \<Rightarrow> bool" where
  "threads_inv st \<longleftrightarrow> life_inv st \<and>
     (\<forall>sid. calm_at (sid \<in> pending st) (sid \<in> set (seen st)) (lookup st sid) (boot_of st sid))"

lemma threads_invD:
  assumes "threads_inv st"
  shows "life_inv st" "calm_at (sid \<in> pending st) (sid \<in> set (seen st)) (lookup st sid) (boot_of st sid)"
  using assms by (simp_all add: threads_inv_def)

lemma threads_inv_at:
  assumes "threads_inv st" and "life_inv st'"
    and "\<And>x. x \<noteq> sid \<Longrightarrow> (x \<in> pending st' \<longrightarrow> x \<in> pending st) \<and> (x \<in> set (seen st) \<longrightarrow> x \<in> set (seen st')) \<and>
      lookup st' x = lookup st x \<and> boot_of st' x = boot_of st x"
    and "calm_at (sid \<in> pending st') (sid \<in> set (seen st')) (lookup st' sid) (boot_of st' sid)"
  shows "threads_inv st'"
  unfolding threads_inv_def
proof (intro conjI allI)
  fix x
  show "calm_at (x \<in> pending st') (x \<in> set (seen st')) (lookup st' x) (boot_of st' x)"
  proof (cases "x = sid")
    case False
    then show ?thesis
      using assms(3) [of x] threads_invD(2) [OF assms(1), of x] by (auto simp: calm_at_def)
  qed (use assms(4) in simp)
qed (rule assms(2))

lemma threads_inv_frame:
  assumes "threads_inv st" and "life_inv st'" and "pending st' \<subseteq> pending st" and "seen st' = seen st"
    and "lookup st' = lookup st" and "boot_of st' = boot_of st"
  shows "threads_inv st'"
proof -
  have "calm_at (x \<in> pending st') (x \<in> set (seen st')) (lookup st' x) (boot_of st' x)" for x
    unfolding assms(4-6) using threads_invD(2) [OF assms(1), of x] assms(3) by (auto simp: calm_at_def)
  then show ?thesis using assms(2) by (simp add: threads_inv_def)
qed

lemma threads_inv_idle: "threads_inv idle"
  by (simp add: threads_inv_def life_inv_idle calm_at_def) (simp add: idle_def pending_def lookup_def boot_of_def)

text \<open>A session whose status is not \<open>Starting\<close> has no bootstrap that still needs it.\<close>

lemma calm_at_settled:
  "calm_at p n (Some s) b \<Longrightarrow> sess_status s \<noteq> Starting \<Longrightarrow> calm_at p n None b"
  by (cases b; cases "the b") (simp_all add: calm_at_def)

lemma threads_inv_teardown:
  assumes "threads_inv st"
    and "\<And>s. lookup st sid = Some s \<Longrightarrow> sess_status s \<noteq> Starting \<or> boot_of st sid = None"
  shows "threads_inv (fst (teardown_session sid st))"
proof (cases "lookup st sid")
  case (Some s)
  note c = threads_invD(2) [OF assms(1), of sid]
  have "calm_at (sid \<in> pending st) (sid \<in> set (seen st)) None (boot_of st sid)"
    using assms(2) [OF Some] c calm_at_settled Some by (auto simp: calm_at_def)
  then show ?thesis
    using life_inv_teardown [OF threads_invD(1) [OF assms(1)], of sid] Some
    by (intro threads_inv_at [OF assms(1), of _ sid]) (simp_all add: teardown_session_def pending_def)
qed (simp add: teardown_session_def assms)

lemma balance_teardown: "balance (fst (teardown_session sid st)) img = balance st img"
proof (cases "lookup st sid")
  case (Some s)
  have "map_of (sessions st) sid = Some s" using Some by (simp add: lookup_def)
  then show ?thesis using Some
    by (simp add: teardown_session_def balance_def holders_def tally_delete session_claim_def split: option.split)
qed (simp add: teardown_session_def)

lemma balance_start:
  assumes "life_inv st" and "sid \<notin> set (seen st)"
  shows "balance (session_start sid m now st) img = balance st img"
  using life_invD [OF assms(1), of sid] assms(2)
  by (simp add: life_at_def balance_def session_start_def session_claim_def held_image_def)

lemma uses_of_balance: "balance st img = 0 \<Longrightarrow> uses (cache st) img = holders st img + int (count_list (leaks st) img)"
  by (simp add: balance_def)

lemma uses_ge_holders: "balance st img = 0 \<Longrightarrow> holders st img \<le> uses (cache st) img"
  by (simp add: balance_def)

lemma balance_reserve:
  assumes "boot_of st sid = Some (Checking m)"
  shows "balance (boot_reserve sid m now st) img = balance st img"
  using assms by (simp add: balance_def boot_reserve_def)

lemma ensure_image_result:
  assumes "ensure_image inspect pull ref c = (c', r)"
  shows "(c' = c) \<or> (c' = unreserve_image ref c \<and> r = Inl RuntimeError)"
  using assms by (auto simp: ensure_image_def split: sum.splits if_splits)

lemma kept_accounts:
  assumes "ensure_image inspect pull ref c = (c', r)" and "1 \<le> uses c ref"
  shows "uses c' img - int (count_list (kept c c' ref) img) = uses c img - of_bool (ref = img)"
  using ensure_image_result [OF assms(1)] assms(2)
  by (auto simp: kept_def uses_unreserve)

lemma ensure_ok_same: "ensure_image inspect pull ref c = (c', Inr x) \<Longrightarrow> c' = c"
  using ensure_image_result by fastforce

lemma balance_ensure:
  assumes "boot_of st sid = Some (Reserved m)" and "balance st (mode_ref m) = 0"
  shows "balance (boot_ensure sid m inspect pull st) img = balance st img"
proof -
  obtain c r where e: "ensure_image inspect pull (mode_ref m) (cache st) = (c, r)"
    by fastforce
  have "1 \<le> uses (cache st) (mode_ref m)"
    using boot_claim_le_holders [OF assms(1), of "mode_ref m"] uses_ge_holders [OF assms(2)] by simp
  note k = kept_accounts [OF e this, of img]
  show ?thesis
  proof (cases r)
    case (Inl x)
    then show ?thesis using e k assms(1) by (simp add: boot_ensure_def balance_def)
  next
    case (Inr x)
    then show ?thesis using e ensure_ok_same [of inspect pull "mode_ref m" "cache st" c x] assms(1)
      by (simp add: boot_ensure_def balance_def)
  qed
qed

lemma balance_released:
  assumes "1 \<le> uses (cache st) ref"
  shows "balance (released d cap ref now st) img = balance st img - of_bool (ref = img)"
  using assms by (auto simp: balance_def)

lemma balance_fields [simp]:
  "balance (st\<lparr>execs := x\<rparr>) img = balance st img" "balance (st\<lparr>finishers := x\<rparr>) img = balance st img"
  "balance (st\<lparr>deleters := x\<rparr>) img = balance st img" "balance (st\<lparr>reaping := x\<rparr>) img = balance st img"
  "balance (st\<lparr>graded_ids := x\<rparr>) img = balance st img"
  by (simp_all add: balance_def)

lemma balance_set_boot:
  "balance (set_boot sid b st) img = balance st img + opt_count (boot_claim img) (boot_of st sid) - boot_claim img b"
  by (simp add: balance_def)

lemma balance_end_boot:
  "balance (end_boot sid st) img = balance st img + opt_count (boot_claim img) (boot_of st sid)"
  by (simp add: balance_def)

lemma balance_put_session:
  "balance (put_session sid s st) img =
     balance st img + opt_count (session_claim img) (lookup st sid) - session_claim img s"
  by (simp add: balance_def)

lemmas balance_simps = balance_set_boot balance_end_boot balance_put_session

lemma balance_settle:
  assumes "boot_of st sid = Some (Handled rel)" and "\<And>ref. balance st ref = 0"
  shows "balance (boot_settle d cap sid rel rm now st) img = 0"
proof (cases rel)
  case None
  then show ?thesis using assms by (simp add: boot_settle_def balance_end_boot)
next
  case (Some ref)
  have "1 \<le> uses (cache st) ref"
    using boot_claim_le_holders [OF assms(1), of ref] uses_ge_holders [OF assms(2), of ref] Some by simp
  then show ?thesis
    using assms Some
    by (cases rm)
      (simp_all add: boot_settle_def balance_end_boot balance_released released_def [symmetric],
        simp_all add: balance_def)
qed

lemma count_list_remove1:
  "x \<in> set xs \<Longrightarrow> int (count_list (remove1 x xs) y) = int (count_list xs y) - of_bool (x = y)"
  using count_list_0_iff [of xs x] by (cases "x = y") (auto simp: of_nat_diff Suc_le_eq)

lemma balance_teardown_release:
  assumes "ref \<in> set (owed st)" and "\<And>ref. balance st ref = 0"
  shows "balance (teardown_release d cap ref rm now st) img = 0"
proof -
  let ?st = "st\<lparr>owed := remove1 ref (owed st)\<rparr>"
  have c: "int (count_list (remove1 ref (owed st)) img) = int (count_list (owed st) img) - of_bool (ref = img)"
    using assms(1) by (rule count_list_remove1)
  have "1 \<le> uses (cache ?st) ref"
    using owed_le_holders [OF assms(1)] uses_ge_holders [OF assms(2), of ref] by simp
  moreover have "balance ?st img = of_bool (ref = img)"
    using assms(2) [of img] c by (simp add: balance_def)
  ultimately show ?thesis
    using assms(2) [of img] c
    by (cases rm) (simp_all add: teardown_release_def Let_def balance_released released_def [symmetric],
        simp_all add: balance_def)
qed

lemma balance_task_reserve:
  "map_of (image_tasks st) tid = None \<Longrightarrow> balance (task_reserve tid ref now st) img = balance st img"
  by (simp add: task_reserve_def balance_def holders_def tally_update)

lemma balance_task_ensure:
  assumes "map_of (image_tasks st) tid = Some (Pulling ref)" and "balance st ref = 0"
  shows "balance (task_ensure tid ref inspect pull st) img = balance st img"
proof -
  obtain c r where e: "ensure_image inspect pull ref (cache st) = (c, r)"
    by fastforce
  have "1 \<le> uses (cache st) ref"
    using task_claim_le_holders [OF assms(1), of ref] uses_ge_holders [OF assms(2)] by simp
  note k = kept_accounts [OF e this, of img]
  show ?thesis
    using e k assms(1) ensure_ok_same [of inspect pull ref "cache st" c]
    by (cases r) (auto simp: task_ensure_def balance_def holders_def tally_update tally_delete)
qed

lemma balance_task_release:
  assumes "map_of (image_tasks st) tid = Some (Holding ref)" and "\<And>ref. balance st ref = 0"
  shows "balance (task_release d cap tid ref now st) img = 0"
proof -
  let ?st = "st\<lparr>image_tasks := AList.delete tid (image_tasks st)\<rparr>"
  have "1 \<le> uses (cache ?st) ref"
    using task_claim_le_holders [OF assms(1), of ref] uses_ge_holders [OF assms(2), of ref] by simp
  moreover have "balance ?st img = of_bool (ref = img)"
    using assms(2) [of img] assms(1) by (simp add: balance_def holders_def tally_delete)
  ultimately show ?thesis
    by (simp add: task_release_def balance_released released_def [symmetric])
qed

lemma threads_inv_set_boot:
  assumes "threads_inv st" and "boot_of st sid = Some b" and "active b" and "boot_ok (lookup st sid) b'"
  shows "threads_inv (set_boot sid b' st)"
  by (rule threads_inv_at [OF assms(1), of _ sid])
    (use assms threads_invD(1) [OF assms(1)] threads_invD(2) [OF assms(1), of sid] in
      \<open>simp_all add: life_inv_set_boot pending_def calm_at_def\<close>)

lemma threads_inv_end_boot: "threads_inv st \<Longrightarrow> threads_inv (end_boot sid st)"
  by (rule threads_inv_at [of st _ sid])
    (use threads_invD(1) [of st] threads_invD(2) [of st sid] in \<open>simp_all add: life_inv_end_boot pending_def calm_at_def\<close>)

lemma threads_inv_fields [simp]:
  "threads_inv (st\<lparr>cache := c\<rparr>) = threads_inv st" "threads_inv (st\<lparr>execs := x\<rparr>) = threads_inv st"
  "threads_inv (st\<lparr>reaping := x\<rparr>) = threads_inv st" "threads_inv (st\<lparr>leaks := x\<rparr>) = threads_inv st"
  "threads_inv (st\<lparr>rm_log := x\<rparr>) = threads_inv st" "threads_inv (st\<lparr>owed := x\<rparr>) = threads_inv st"
  "threads_inv (st\<lparr>image_tasks := ts\<rparr>) = threads_inv st"
  "threads_inv (released d cap ref now st) = threads_inv st"
  by (simp_all add: threads_inv_def pending_def)

lemma threads_inv_pending:
  "threads_inv st \<Longrightarrow> threads_inv (st\<lparr>finishers := remove1 sid (finishers st)\<rparr>)"
  "threads_inv st \<Longrightarrow> threads_inv (st\<lparr>deleters := remove1 sid (deleters st)\<rparr>)"
  using threads_inv_frame [of st "st\<lparr>finishers := remove1 sid (finishers st)\<rparr>"]
    threads_inv_frame [of st "st\<lparr>deleters := remove1 sid (deleters st)\<rparr>"]
    set_remove1_subset [of sid "finishers st"] set_remove1_subset [of sid "deleters st"]
  by (auto simp: pending_def dest: threads_invD(1))

lemma threads_inv_put:
  assumes "threads_inv st" and "lookup st sid = Some s" and "life_inv (put_session sid s' st)"
    and "sess_status s' = sess_status s" and "held_image s' = held_image s"
  shows "threads_inv (put_session sid s' st)"
proof (rule threads_inv_at [OF assms(1), of _ sid])
  show "calm_at (sid \<in> pending (put_session sid s' st)) (sid \<in> set (seen (put_session sid s' st)))
     (lookup (put_session sid s' st) sid) (boot_of (put_session sid s' st) sid)"
    using assms(2,4,5) threads_invD(2) [OF assms(1), of sid]
    by (cases "boot_of st sid"; cases "the (boot_of st sid)") (auto simp: calm_at_def pending_def)
qed (use assms in \<open>simp_all add: pending_def\<close>)

definition accounted :: "executor \<Rightarrow> bool" where
  "accounted st \<longleftrightarrow> threads_inv st \<and> (\<forall>img. balance st img = 0)"

lemma accountedD:
  assumes "accounted st"
  shows "threads_inv st" and "life_inv st" and "balance st img = 0"
    and "boot_of st sid = Some b \<Longrightarrow> boot_ok (lookup st sid) b"
    and "sid \<in> pending st \<Longrightarrow> lookup st sid = Some s \<Longrightarrow> sess_status s \<noteq> Starting"
    and "sid \<in> pending st \<Longrightarrow> sid \<in> set (seen st)"
  using assms threads_invD [of st] by (auto simp: accounted_def calm_at_def dest!: threads_invD(2) [of st sid])

lemma accounted_record:
  assumes "accounted st" and "boot_of st sid = Some (Acquired ref)"
  shows "accounted (boot_record sid ref st)"
proof -
  note a = accountedD [OF assms(1)]
  from a(4) [OF assms(2)] obtain x where
    x: "lookup st sid = Some x" "sess_status x = Starting" "held_image x = None" by auto
  let ?x = "x\<lparr>sess_image := Some ref, image_held := True\<rparr>"
  have np: "sid \<notin> pending st" using a(5) x by blast
  have life: "life_inv (set_boot sid (Running ref) (put_session sid ?x st))"
    by (intro life_inv_set_boot [of _ _ "Acquired ref"] life_inv_touch [of _ _ x]) (use a(2) assms(2) x in simp_all)
  have "threads_inv (set_boot sid (Running ref) (put_session sid ?x st))"
    by (rule threads_inv_at [OF a(1) life, of sid]) (use x np in \<open>simp_all add: calm_at_def pending_def\<close>)
  then show ?thesis
    using x a(3) assms(2)
    by (auto simp: boot_record_def accounted_def balance_simps session_claim_def held_image_def)
qed

lemma accounted_ready:
  assumes "accounted st" and "boot_of st sid = Some (Started ref)"
  shows "accounted (boot_ready sid ref now st)"
proof -
  note a = accountedD [OF assms(1)]
  from a(4) [OF assms(2)] obtain x where
    x: "lookup st sid = Some x" "sess_status x = Starting" by auto
  let ?x = "x\<lparr>sess_status := Ready, sess_container := Some (session_container sid), sess_last_used := now\<rparr>"
  have np: "sid \<notin> pending st" using a(5) x by blast
  have life: "life_inv (end_boot sid (put_session sid ?x st))"
    using life_inv_settle [OF a(2) assms(2) _ x(1)] by simp
  have "threads_inv (end_boot sid (put_session sid ?x st))"
    by (rule threads_inv_at [OF a(1) life, of sid]) (use x np in \<open>simp_all add: calm_at_def pending_def\<close>)
  then show ?thesis
    using x a(3) assms(2)
    by (auto simp: boot_ready_def accounted_def balance_simps session_claim_def held_image_def)
qed

lemma accounted_handler:
  assumes "accounted st" and "boot_of st sid = Some (Raised e ref)"
  shows "accounted (boot_handler sid e ref st)"
proof -
  note a = accountedD [OF assms(1)]
  from a(4) [OF assms(2)] obtain x where
    x: "lookup st sid = Some x" "sess_status x = Starting" by auto
  let ?x = "x\<lparr>image_held := False, sess_status := Failed, sess_error := Some e\<rparr>"
  have np: "sid \<notin> pending st" using a(5) x by blast
  have life: "life_inv (set_boot sid (Handled (held_image x)) (put_session sid ?x st))"
    using life_inv_settle [OF a(2) assms(2) _ x(1)] by simp
  have "threads_inv (set_boot sid (Handled (held_image x)) (put_session sid ?x st))"
    by (rule threads_inv_at [OF a(1) life, of sid]) (use x np in \<open>simp_all add: calm_at_def pending_def\<close>)
  then show ?thesis
    using x a(3) assms(2)
    by (cases "held_image x") (auto simp: boot_handler_def accounted_def balance_simps session_claim_def held_image_def)
qed

lemma accounted_start:
  assumes "accounted st" and "sid \<notin> set (seen st)"
  shows "accounted (session_start sid m now st)"
proof -
  note a = accountedD [OF assms(1)]
  have np: "sid \<notin> pending st" using a(6) assms(2) by blast
  have "threads_inv (session_start sid m now st)"
    by (rule threads_inv_at [OF a(1) life_inv_start [OF a(2) assms(2)], of sid])
      (use np in \<open>simp_all add: calm_at_def pending_def session_start_def held_image_def\<close>)
  then show ?thesis
    using balance_start [OF a(2) assms(2)] a(3) by (simp add: accounted_def)
qed

lemma accounted_touch:
  assumes "accounted st" and "lookup st sid = Some s" and "sess_status s' = sess_status s"
    and "held_image s' = held_image s"
  shows "accounted (put_session sid s' st)"
  using assms accountedD(1-3) [OF assms(1)] life_inv_touch [OF _ assms(2,3)]
  by (auto simp: accounted_def balance_simps session_claim_def intro!: threads_inv_put)

lemma accounted_finish_begin:
  assumes "accounted st" and "lookup st sid = Some s" and "sess_status s = Ready"
  shows "accounted (put_session sid (s\<lparr>sess_status := Finishing, sess_last_used := now\<rparr>) st
    \<lparr>finishers := finishers st @ [sid], graded_ids := graded_ids st @ [sid]\<rparr>)" (is "accounted ?st")
proof -
  note a = accountedD [OF assms(1)]
  have "calm_at (sid \<in> pending st) (sid \<in> set (seen st)) (Some s) (boot_of st sid)"
    using threads_invD(2) [OF a(1), of sid] assms(2) by simp
  moreover have "sid \<in> set (seen st)"
    using life_invD [OF a(2), of sid] assms(2) by (simp add: life_at_def)
  moreover have life: "life_inv ?st"
    using life_inv_finish [OF a(2) assms(2,3)] by simp
  ultimately have "threads_inv ?st"
    using assms(2,3)
    by (intro threads_inv_at [OF a(1) life, of sid])
      (cases "boot_of st sid"; cases "the (boot_of st sid)"; auto simp: calm_at_def pending_def)+
  then show ?thesis
    using a(3) assms(2) by (auto simp: accounted_def balance_simps session_claim_def held_image_def)
qed

lemma accounted_delete_check:
  assumes "accounted st" and "lookup st sid = Some s" and "sess_status s \<noteq> Starting"
  shows "accounted (st\<lparr>deleters := deleters st @ [sid]\<rparr>)"
proof -
  note a = accountedD [OF assms(1)]
  have "sid \<in> set (seen st)"
    using life_invD [OF a(2), of sid] assms(2) by (simp add: life_at_def)
  then have "threads_inv (st\<lparr>deleters := deleters st @ [sid]\<rparr>)"
    using assms(2,3) threads_invD(2) [OF a(1), of sid] a(2)
    by (intro threads_inv_at [OF a(1), of _ sid]) (auto simp: calm_at_def pending_def)
  then show ?thesis using a(3) by (auto simp: accounted_def)
qed

lemma accounted_pending:
  "accounted st \<Longrightarrow> accounted (st\<lparr>finishers := remove1 sid (finishers st)\<rparr>)"
  "accounted st \<Longrightarrow> accounted (st\<lparr>deleters := remove1 sid (deleters st)\<rparr>)"
  by (simp_all add: accounted_def threads_inv_pending)

lemma accounted_teardown:
  assumes "accounted st" and "\<And>s. lookup st sid = Some s \<Longrightarrow> sess_status s \<noteq> Starting \<or> boot_of st sid = None"
  shows "accounted (fst (teardown_session sid st))"
  using assms by (simp add: accounted_def threads_inv_teardown balance_teardown)

lemma accounted_idle: "accounted idle"
  by (simp add: accounted_def threads_inv_idle) (simp add: idle_def balance_def uses_def holders_def)

lemma accounted_set_boot:
  assumes "accounted st" and "boot_of st sid = Some b" and "active b" and "boot_ok (lookup st sid) b'"
    and "\<And>img. boot_claim img b' = boot_claim img b"
  shows "accounted (set_boot sid b' st)"
  using assms accountedD(3) [OF assms(1)] threads_inv_set_boot [OF _ assms(2-4)]
  by (simp add: accounted_def balance_simps)

lemma accounted_step:
  assumes "accounted st" and "spares ev st" and "step cap ev st = Some st'"
  shows "accounted st'"
proof (cases ev)
  case (Session_start sid m now)
  then show ?thesis using assms by (auto intro: accounted_start split: if_splits)
next
  case (Boot_abort sid e)
  then show ?thesis using assms accountedD(4) [OF assms(1), of sid]
    by (auto split: option.splits bootstrap.splits intro!: accounted_set_boot)
next
  case (Boot_dies sid)
  then show ?thesis using assms
    by (auto simp: accounted_def balance_simps intro!: threads_inv_end_boot split: option.splits bootstrap.splits)
next
  case (Boot_reserve sid now)
  then obtain m where m: "boot_of st sid = Some (Checking m)" "st' = boot_reserve sid m now st"
    using assms(3) by (auto split: option.splits bootstrap.splits)
  then show ?thesis
    using assms(1) balance_reserve [OF m(1)] accountedD(4) [OF assms(1) m(1)]
    by (auto simp: accounted_def) (auto simp: boot_reserve_def intro!: threads_inv_set_boot)
next
  case (Boot_ensure sid inspect pull)
  then obtain m where m: "boot_of st sid = Some (Reserved m)" "st' = boot_ensure sid m inspect pull st"
    using assms(3) by (auto split: option.splits bootstrap.splits)
  have "threads_inv (boot_ensure sid m inspect pull st)"
    using assms(1) accountedD(4) [OF assms(1) m(1)] m(1)
    by (auto simp: boot_ensure_def Let_def accounted_def split: prod.split sum.split intro!: threads_inv_set_boot)
  then show ?thesis
    using assms(1) balance_ensure [OF m(1)] m(2) by (auto simp: accounted_def)
next
  case (Boot_record sid)
  then show ?thesis using assms by (auto intro: accounted_record split: option.splits bootstrap.splits)
next
  case (Boot_drop d sid now)
  then show ?thesis using assms accountedD(4) [OF assms(1), of sid] by (auto split: option.splits bootstrap.splits)
next
  case (Boot_run sid run startup)
  then obtain ref where r: "boot_of st sid = Some (Running ref)" "st' = boot_run sid ref run startup st"
    using assms(3) by (auto split: option.splits bootstrap.splits)
  show ?thesis
    using accountedD(4) [OF assms(1) r(1)] r assms(1)
    by (auto simp: boot_run_def intro!: accounted_set_boot split: sum.split option.split)
next
  case (Boot_ready sid now)
  then show ?thesis using assms by (auto intro: accounted_ready split: option.splits bootstrap.splits)
next
  case (Boot_clean sid rm)
  then show ?thesis using assms accountedD(4) [OF assms(1), of sid] by (auto split: option.splits bootstrap.splits)
next
  case (Boot_handler sid)
  then show ?thesis using assms by (auto intro: accounted_handler split: option.splits bootstrap.splits)
next
  case (Boot_settle d sid rm now)
  then obtain rel where r: "boot_of st sid = Some (Handled rel)" "st' = boot_settle d cap sid rel rm now st"
    using assms(3) by (auto split: option.splits bootstrap.splits)
  have "threads_inv st'"
    using r(2) assms(1)
    by (auto simp: boot_settle_def accounted_def released_def [symmetric] split: option.split sum.split
        intro!: threads_inv_end_boot)
  then show ?thesis
    using balance_settle [OF r(1)] assms(1) r(2) by (auto simp: accounted_def)
next
  case (Exec_begin sid now)
  then show ?thesis using assms
    by (auto simp: session_exec_begin_def session_guard_def touch_session_def Let_def accounted_def [of "_\<lparr>execs := _\<rparr>"]
        held_image_def accountedD(1,3) accounted_touch split: option.splits if_splits)
next
  case (Exec_end ref now)
  then show ?thesis using assms
    by (auto simp: session_exec_end_def accounted_def balance_def split: if_splits)
next
  case (Export_begin sid now)
  then show ?thesis using assms
    by (auto simp: session_export_begin_def session_guard_def touch_session_def held_image_def
        intro!: accounted_touch split: option.splits if_splits)
next
  case (Finish_begin sid now)
  then show ?thesis using assms
    by (auto simp: session_finish_begin_def session_guard_def Let_def
        intro!: accounted_finish_begin split: option.splits if_splits)
next
  case (Finish_end sid)
  then show ?thesis using assms accountedD(5) [OF assms(1), of sid]
    by (auto simp: session_finish_end_def pending_def intro!: accounted_teardown accounted_pending split: if_splits)
next
  case (Finish_dies sid)
  then show ?thesis using assms by (auto intro: accounted_pending split: if_splits)
next
  case (Delete_check sid)
  then show ?thesis using assms
    by (auto simp: session_delete_check_def intro!: accounted_delete_check split: option.splits if_splits)
next
  case (Delete_end sid)
  then show ?thesis using assms accountedD(5) [OF assms(1), of sid]
    by (auto simp: session_delete_end_def pending_def intro!: accounted_teardown accounted_pending split: if_splits)
next
  case (Reap_scan cutoff)
  then show ?thesis using assms by (auto simp: accounted_def split: if_splits)
next
  case Reap_next
  then show ?thesis using assms
    by (auto simp: reap_next_def neq_Nil_conv accounted_def [of "_\<lparr>reaping := _\<rparr>"] accountedD(1,3)
        intro!: accounted_teardown split: if_splits list.splits)
next
  case Reap_abort
  then show ?thesis using assms by (auto simp: accounted_def)
next
  case (Teardown_release d ref rm now)
  then have r: "ref \<in> set (owed st)" "st' = teardown_release d cap ref rm now st"
    using assms(3) by (auto split: if_splits)
  then have "threads_inv st'"
    using assms(1)
    by (cases rm) (simp_all add: teardown_release_def Let_def accounted_def released_def [symmetric])
  then show ?thesis
    using balance_teardown_release [OF r(1)] assms(1) r(2) by (auto simp: accounted_def)
next
  case (Task_reserve tid ref now)
  then show ?thesis using assms balance_task_reserve [of st tid ref now]
    by (auto simp: accounted_def split: if_splits) (simp add: task_reserve_def)
next
  case (Task_ensure tid inspect pull)
  then obtain ref where r: "map_of (image_tasks st) tid = Some (Pulling ref)"
      "st' = task_ensure tid ref inspect pull st"
    using assms(3) by (auto split: option.splits image_task.splits)
  have "threads_inv st'"
    using r(2) assms(1)
    by (auto simp: task_ensure_def Let_def accounted_def split: prod.split sum.split)
  then show ?thesis
    using balance_task_ensure [OF r(1)] assms(1) r(2) by (auto simp: accounted_def)
next
  case (Task_release d tid now)
  then obtain ref where r: "map_of (image_tasks st) tid = Some (Holding ref)"
      "st' = task_release d cap tid ref now st"
    using assms(3) by (auto split: option.splits image_task.splits)
  then have "threads_inv st'"
    using assms(1) by (simp add: task_release_def accounted_def released_def [symmetric])
  then show ?thesis
    using balance_task_release [OF r(1)] assms(1) r(2) by (auto simp: accounted_def)
qed

lemma calmly_reachable_accounted: "calmly_reachable cap st \<Longrightarrow> accounted st"
  by (induction rule: calmly_reachable.induct) (simp_all add: accounted_idle accounted_step)

lemma reachable_life: "reachable cap st \<Longrightarrow> life_inv st"
  by (induction rule: reachable.induct) (auto simp: life_inv_idle intro: life_inv_step)

section \<open>What is removed\<close>

lemma released_rm:
  "\<exists>rms. rm_log (released d cap ref now st) = rm_log st @ rms \<and>
     (\<forall>img\<in>set rms. uses (cache (released d cap ref now st)) img = 0)"
proof -
  have "rm_log (released d cap ref now st) = rm_log st @ rm_commands (release_image d cap ref now (cache st))"
    by (simp add: released_def release_now_def Let_def)
  then show ?thesis
    using release_only_unused [of _ d cap ref now "cache st"] by auto
qed

lemma released_rm_same [simp]:
  "rm_log (st\<lparr>owed := x\<rparr>) = rm_log st" "cache (st\<lparr>owed := x\<rparr>) = cache st"
  "rm_log (st\<lparr>image_tasks := ts\<rparr>) = rm_log st"
  by simp_all

lemma rm_log_teardown [simp]: "rm_log (fst (teardown_session sid st)) = rm_log st"
  by (simp add: teardown_session_def split: option.split)

definition removes_unused :: "executor \<Rightarrow> executor \<Rightarrow> bool" where
  "removes_unused st st' \<longleftrightarrow>
     (\<exists>rms. rm_log st' = rm_log st @ rms \<and> (\<forall>img\<in>set rms. uses (cache st') img = 0))"

lemma removes_unused_same: "rm_log st' = rm_log st \<Longrightarrow> removes_unused st st'"
  by (simp add: removes_unused_def)

lemma removes_unused_released:
  assumes "rm_log st0 = rm_log st"
  shows "removes_unused st (released d cap ref now st0)"
    and "removes_unused st (end_boot sid (released d cap ref now st0))"
    and "removes_unused st (set_boot sid b (released d cap ref now st0))"
  using released_rm [of d cap ref now st0] assms by (simp_all add: removes_unused_def)

lemmas removes_unused_intros = removes_unused_same removes_unused_released

lemma step_removes_unused:
  assumes "step cap ev st = Some st'"
  shows "removes_unused st st'"
proof (cases ev)
  case (Boot_drop d sid now)
  then obtain ref where "st' = boot_drop d cap sid ref now st"
    using assms by (auto split: option.splits bootstrap.splits)
  then show ?thesis
    using boot_drop_cases [of d cap sid ref now st]
    by (auto intro: removes_unused_released)
next
  case (Boot_settle d sid rm now)
  then obtain rel where "st' = boot_settle d cap sid rel rm now st"
    using assms by (auto split: option.splits bootstrap.splits)
  then show ?thesis
    by (auto simp: boot_settle_def released_def [symmetric] split: option.split sum.split
        intro: removes_unused_intros)
next
  case (Teardown_release d ref rm now)
  then have "st' = teardown_release d cap ref rm now st"
    using assms by (auto split: if_splits)
  then show ?thesis
    by (auto simp: teardown_release_def Let_def released_def [symmetric] split: sum.split
        intro: removes_unused_intros)
next
  case (Task_release d tid now)
  then obtain ref where "st' = task_release d cap tid ref now st"
    using assms by (auto split: option.splits image_task.splits)
  then show ?thesis
    by (auto simp: task_release_def released_def [symmetric]
        intro: removes_unused_intros)
next
  case (Boot_ensure sid inspect pull)
  then show ?thesis using assms
    by (auto simp: boot_ensure_def Let_def intro!: removes_unused_same
        split: option.splits bootstrap.splits prod.splits sum.splits)
next
  case (Task_ensure tid inspect pull)
  then show ?thesis using assms
    by (auto simp: task_ensure_def Let_def intro!: removes_unused_same
        split: option.splits image_task.splits prod.splits sum.splits)
next
  case (Session_start sid m now)
  then show ?thesis using assms
    by (auto simp: session_start_def intro!: removes_unused_same split: if_splits)
qed (use assms in \<open>auto simp: operation_defs Let_def intro!: removes_unused_same
       split: option.splits bootstrap.splits sum.splits if_splits list.splits image_task.splits\<close>)

section \<open>Runs\<close>

fun sandbox_run :: "int \<Rightarrow> sandbox_event list \<Rightarrow> executor \<Rightarrow> executor option" where
  "sandbox_run cap [] st = Some st"
| "sandbox_run cap (ev # evs) st = (case step cap ev st of None \<Rightarrow> None | Some st' \<Rightarrow> sandbox_run cap evs st')"

fun calm_run :: "int \<Rightarrow> sandbox_event list \<Rightarrow> executor \<Rightarrow> executor option" where
  "calm_run cap [] st = Some st"
| "calm_run cap (ev # evs) st =
     (if spares ev st then case step cap ev st of None \<Rightarrow> None | Some st' \<Rightarrow> calm_run cap evs st' else None)"

lemma run_reachable: "sandbox_run cap evs st = Some st' \<Longrightarrow> reachable cap st \<Longrightarrow> reachable cap st'"
  by (induction evs arbitrary: st) (auto split: option.splits intro: reachable_step)

lemma calm_run_reachable: "calm_run cap evs st = Some st' \<Longrightarrow> calmly_reachable cap st \<Longrightarrow> calmly_reachable cap st'"
  by (induction evs arbitrary: st) (auto split: option.splits if_splits intro: calm_step)

text \<open>A session on the image \<open>a\<close> that becomes ready, is graded and torn down.\<close>

definition quiet_docker :: docker where
  "quiet_docker = \<lparr>dk_total_size = \<lambda>_. Inr 10, dk_evict_size = \<lambda>_. Inr 10, dk_rm = \<lambda>_. Inr 0\<rparr>"

definition bring_up :: "string \<Rightarrow> string \<Rightarrow> sandbox_event list" where
  "bring_up sid ref =
     [Session_start sid (Image_mode ref) 0, Boot_reserve sid 1, Boot_ensure sid (Inr 1) (Inr 0),
      Boot_record sid, Boot_run sid (Inr 0) None, Boot_ready sid 2]"

definition graded_run :: "sandbox_event list" where
  "graded_run = bring_up ''s'' ''a'' @ [Finish_begin ''s'' 3, Finish_end ''s'']"

definition after_grading :: executor where
  "after_grading = the (calm_run 5 graded_run idle)"

lemma graded_run_ok: "calm_run 5 graded_run idle = Some after_grading"
proof -
  have "calm_run 5 graded_run idle \<noteq> None" by code_simp
  then show ?thesis by (auto simp: after_grading_def)
qed

lemma after_grading_reachable: "calmly_reachable 5 after_grading"
  by (rule calm_run_reachable [OF graded_run_ok calm_idle])

lemma run_of_calm_run: "calm_run cap evs st = Some st' \<Longrightarrow> sandbox_run cap evs st = Some st'"
  by (induction evs arbitrary: st) (auto split: option.splits if_splits)



text \<open>C13: In those runs no step removes an image that a session, a bootstrap, an owed teardown or a one-shot task
  holds, nor one whose reference was leaked.\<close>

theorem held_image_never_removed:
  assumes "calmly_reachable cap st" and "spares ev st" and "step cap ev st = Some st'"
    and "rm_log st' = rm_log st @ rms" and "img \<in> set rms"
  shows "holders st' img = 0 \<and> img \<notin> set (leaks st') \<and>
    (\<nexists>sid s. lookup st' sid = Some s \<and> held_image s = Some img)"
proof -
  have "accounted st'"
    using accounted_step [OF calmly_reachable_accounted [OF assms(1)] assms(2,3)] .
  then have "uses (cache st') img = holders st' img + int (count_list (leaks st') img)"
    using accountedD(3) [of st' img] by (simp add: balance_def)
  moreover have "uses (cache st') img = 0"
    using step_removes_unused [OF assms(3)] assms(4,5) by (auto simp: removes_unused_def)
  ultimately have z: "holders st' img = 0" "count_list (leaks st') img = 0"
    using holders_nonneg [of st' img] by linarith+
  have "held_image s \<noteq> Some img" if "lookup st' sid = Some s" for sid s
  proof
    assume "held_image s = Some img"
    then have "1 \<le> tally (session_claim img) (sessions st')"
      using tally_ge [of "session_claim img" "sessions st'" sid s] that
      by (simp add: lookup_def session_claim_def)
    then show False
      using z(1) tally_nonneg [of "task_claim img" "image_tasks st'"] tally_nonneg [of "boot_claim img" "boots st'"]
      by (simp add: holders_def)
  qed
  then show ?thesis using z by (auto simp: count_list_0_iff)
qed

theorem held_image_never_removed_witness:
  "\<exists>st'. step 5 (Teardown_release quiet_docker ''a'' (Inr 0) 4) after_grading = Some st' \<and>
     rm_log st' = [''a''] \<and> holders st' ''a'' = 0"
proof -
  let ?ev = "Teardown_release quiet_docker ''a'' (Inr 0) 4"
  have "step 5 ?ev after_grading \<noteq> None" and rm: "rm_log (the (step 5 ?ev after_grading)) = [''a'']"
    and "rm_log after_grading = []"
    unfolding after_grading_def by code_simp+
  then obtain st' where st': "step 5 ?ev after_grading = Some st'"
    "rm_log st' = rm_log after_grading @ [''a'']" "rm_log st' = [''a'']" by auto
  then show ?thesis
    using held_image_never_removed [OF after_grading_reachable _ st'(1,2), of "''a''"] by simp
qed

text \<open>C16: In every run, whatever is interleaved, the verifier of a session is run at most once, a session is torn down
  at most once and never seen again, and a session that was graded never returns to another
  status.\<close>

theorem session_graded_once:
  assumes "reachable cap st"
  shows "distinct (graded_ids st) \<and> distinct (torn st) \<and>
    (\<forall>sid\<in>set (torn st). lookup st sid = None) \<and>
    (\<forall>sid\<in>set (graded_ids st). lookup st sid = None \<or> (\<exists>s. lookup st sid = Some s \<and> sess_status s = Finishing))"
proof (intro conjI ballI)
  note life = reachable_life [OF assms]
  show "distinct (graded_ids st)" and "distinct (torn st)" using life_inv_distinct [OF life] by auto
  show "lookup st sid = None" if "sid \<in> set (torn st)" for sid
    using that life_invD [OF life, of sid] by (simp add: life_at_def)
  show "lookup st sid = None \<or> (\<exists>s. lookup st sid = Some s \<and> sess_status s = Finishing)"
    if "sid \<in> set (graded_ids st)" for sid
    using that life_invD [OF life, of sid] by (cases "lookup st sid") (simp_all add: life_at_def)
qed

theorem session_graded_once_witness:
  "graded_ids after_grading = [''s''] \<and> distinct (graded_ids after_grading) \<and> lookup after_grading ''s'' = None"
proof -
  have "graded_ids after_grading = [''s'']" and "torn after_grading = [''s'']"
    unfolding after_grading_def by code_simp+
  moreover have "reachable 5 after_grading"
    by (rule run_reachable [OF run_of_calm_run [OF graded_run_ok] reachable_idle])
  ultimately show ?thesis using session_graded_once [of 5 after_grading] by simp
qed

text \<open>The status of a session only moves from starting to ready or failed, and from ready to finishing.\<close>

definition status_move :: "session_status \<Rightarrow> session_status \<Rightarrow> bool" where
  "status_move a b \<longleftrightarrow> a = b \<or> (a = Starting \<and> b \<in> {Ready, Failed}) \<or> (a = Ready \<and> b = Finishing)"

lemma lookup_teardown: "lookup (fst (teardown_session sid st)) x = (if x = sid then None else lookup st x)"
  by (simp add: teardown_session_def lookup_def AList.delete_conv' split: option.split)

lemma session_status_moves:
  assumes "reachable cap st" and "step cap ev st = Some st'"
    and "lookup st sid = Some s" and "lookup st' sid = Some s'"
  shows "status_move (sess_status s) (sess_status s')"
proof -
  have starting: "sess_status s = Starting" if "boot_of st sid = Some b" "active b" for b
    using life_invD [OF reachable_life [OF assms(1)], of sid] assms(3) that by (simp add: life_at_def)
  have known: "sid \<in> set (seen st)"
    using life_invD [OF reachable_life [OF assms(1)], of sid] assms(3) by (simp add: life_at_def)
  show ?thesis
  proof (cases ev)
    case (Session_start sid' m now)
    then show ?thesis using assms(2-4) known
      by (auto simp: session_start_def status_move_def split: if_splits)
  next
    case (Boot_drop d sid' now)
    then obtain ref where "st' = boot_drop d cap sid' ref now st"
      using assms(2) by (auto split: option.splits bootstrap.splits)
    then show ?thesis
      using assms(3,4) boot_drop_cases [of d cap sid' ref now st] by (auto simp: status_move_def)
  next
    case (Boot_ensure sid' inspect pull)
    then show ?thesis using assms(2-4)
      by (auto simp: boot_ensure_def Let_def status_move_def
          split: option.splits bootstrap.splits prod.splits sum.splits)
  next
    case (Boot_ready sid' now)
    then show ?thesis using assms(2-4) starting
      by (auto simp: boot_ready_def status_move_def split: option.splits bootstrap.splits if_splits)
  next
    case (Boot_handler sid')
    then show ?thesis using assms(2-4) starting
      by (auto simp: boot_handler_def status_move_def split: option.splits bootstrap.splits if_splits)
  next
    case (Task_ensure tid inspect pull)
    then show ?thesis using assms(2-4)
      by (auto simp: task_ensure_def Let_def status_move_def
          split: option.splits image_task.splits prod.splits sum.splits)
  qed (use assms(2-4) in \<open>auto simp: operation_defs Let_def status_move_def lookup_teardown
         split: option.splits bootstrap.splits sum.splits if_splits list.splits image_task.splits\<close>)
qed

section \<open>Where the bookkeeping fails\<close>

text \<open>The reaper tears down a session while its bootstrap runs: teardown and bootstrap both release the image, and
  an image another session holds is removed.\<close>

definition double_release :: "sandbox_event list" where
  "double_release =
     bring_up ''t'' ''a'' @
     [Session_start ''s'' (Image_mode ''a'') 0, Boot_reserve ''s'' 1, Boot_ensure ''s'' (Inr 0) (Inr 0),
      Boot_record ''s'', Reap_scan 1, Reap_next, Teardown_release quiet_docker ''a'' (Inr 0) 5,
      Boot_run ''s'' (Inr 0) None, Boot_ready ''s'' 6, Boot_clean ''s'' (Inr 0), Boot_drop quiet_docker ''s'' 7]"

lemma double_release_removes_held_image:
  "\<exists>st s. reachable 5 st \<and> lookup st ''t'' = Some s \<and> sess_status s = Ready \<and> held_image s = Some ''a'' \<and>
     rm_log st = [''a''] \<and> uses (cache st) ''a'' = 0"
proof -
  have "sandbox_run 5 double_release idle \<noteq> None" by code_simp
  then obtain st where st: "sandbox_run 5 double_release idle = Some st" by auto
  have "map_option (\<lambda>st. map_option (\<lambda>s. (sess_status s = Ready, held_image s)) (lookup st ''t''))
        (sandbox_run 5 double_release idle) = Some (Some (True, Some ''a''))"
    and "map_option rm_log (sandbox_run 5 double_release idle) = Some [''a'']"
    and "map_option (\<lambda>st. uses (cache st) ''a'') (sandbox_run 5 double_release idle) = Some 0"
    by code_simp+
  then show ?thesis
    using st run_reachable [OF st reachable_idle] by auto
qed

text \<open>A pull that hangs leaks its reference: with the session gone and nothing left to run, the image still counts as
  in use, and it is never a candidate for eviction again.\<close>

lemma hung_pull_leaks_reference:
  "\<exists>st. calmly_reachable 5 st \<and> sessions st = [] \<and> boots st = [] \<and> owed st = [] \<and> image_tasks st = [] \<and>
     uses (cache st) ''a'' = 1"
proof -
  let ?evs = "[Session_start ''s'' (Image_mode ''a'') 0, Boot_reserve ''s'' 1,
      Boot_ensure ''s'' (Inr 1) (Inl RuntimeError), Boot_handler ''s'', Boot_settle quiet_docker ''s'' (Inr 0) 3,
      Delete_check ''s'', Delete_end ''s'']"
  have "calm_run 5 ?evs idle \<noteq> None" by code_simp
  then obtain st where st: "calm_run 5 ?evs idle = Some st" by auto
  have "map_option (\<lambda>st. (sessions st = [] \<and> boots st = [] \<and> owed st = [] \<and> image_tasks st = [])) (calm_run 5 ?evs idle)
      = Some True"
    and "map_option (\<lambda>st. uses (cache st) ''a'') (calm_run 5 ?evs idle) = Some 1"
    by code_simp+
  then show ?thesis
    using st calm_run_reachable [OF st calm_idle] by auto
qed

text \<open>A \<open>finish\<close> request whose \<open>timeout\<close> is not a number dies before its \<open>try\<close>: the session stays in the status
  \<open>finishing\<close>, no request will tear it down, and every further \<open>exec\<close>, \<open>export\<close> or \<open>finish\<close> is a
  conflict.\<close>

lemma finish_dies_leaves_session:
  "\<exists>st s. calmly_reachable 5 st \<and> lookup st ''s'' = Some s \<and> sess_status s = Finishing \<and> finishers st = [] \<and>
     (\<forall>now. snd (session_finish_begin ''s'' now st) = CONFLICT \<and> snd (session_exec_begin ''s'' now st) = CONFLICT)"
proof -
  let ?evs = "bring_up ''s'' ''a'' @ [Finish_begin ''s'' 3, Finish_dies ''s'']"
  have "calm_run 5 ?evs idle \<noteq> None" by code_simp
  then obtain st where st: "calm_run 5 ?evs idle = Some st" by auto
  have "map_option (\<lambda>st. map_option (\<lambda>s. sess_status s = Finishing) (lookup st ''s'')) (calm_run 5 ?evs idle)
      = Some (Some True)"
    and "map_option (\<lambda>st. finishers st = []) (calm_run 5 ?evs idle) = Some True"
    by code_simp+
  then show ?thesis
    using st calm_run_reachable [OF st calm_idle]
    by (auto simp: session_finish_begin_def session_exec_begin_def session_guard_def)
qed

end
