(* ===== verification/Sandbox_Text.thy ===== *)
theory Sandbox_Text
  imports Json
begin

text \<open>
  The text functions of the sandbox task executor
  (\<open>ubuntu-base/scripts/tools/task_executor.py\<close>): the resolution of workspace file names with
  \<open>os.path.join\<close> and \<open>os.path.normpath\<close> (the POSIX versions), the truncation of captured output, the normalisation
  of patches, the paths named by \<open>git apply --numstat\<close>, and the parsers of test reports. The regular expressions of the parsers
  are sequences of literals, blanks and numbers in which no choice can be undone, so a matcher
  without backtracking gives what \<open>re\<close> gives; \<open>\d\<close> is read as the ASCII digits.
\<close>

section \<open>Python text\<close>

definition py_space :: "nat \<Rightarrow> bool" where
  "py_space c \<longleftrightarrow> c \<in> set [9, 10, 11, 12, 13, 28, 29, 30, 31, 32, 133, 160, 5760, 8192, 8193, 8194, 8195, 8196, 8197,
     8198, 8199, 8200, 8201, 8202, 8232, 8233, 8239, 8287, 12288]"

definition strip :: "ustring \<Rightarrow> ustring" where
  "strip s = rev (dropWhile py_space (rev (dropWhile py_space s)))"

fun split_on :: "'a \<Rightarrow> 'a list \<Rightarrow> 'a list list" where
  "split_on c [] = [[]]"
| "split_on c (x # xs) =
     (if x = c then [] # split_on c xs
      else (case split_on c xs of [] \<Rightarrow> [[x]] | y # ys \<Rightarrow> (x # y) # ys))"

definition line_break :: "nat \<Rightarrow> bool" where
  "line_break c \<longleftrightarrow> c \<in> set [10, 11, 12, 13, 28, 29, 30, 133, 8232, 8233]"

text \<open>\<open>str.splitlines\<close>: a carriage return and the newline after it are one break; no line follows the last break.\<close>

fun splitlines_from :: "ustring \<Rightarrow> ustring \<Rightarrow> ustring list" where
  "splitlines_from acc [] = (if acc = [] then [] else [rev acc])"
| "splitlines_from acc (c # s) =
     (if line_break c
      then rev acc # (case s of d # s' \<Rightarrow> if c = 13 \<and> d = 10 then splitlines_from [] s' else splitlines_from [] s
                      | [] \<Rightarrow> [])
      else splitlines_from (c # acc) s)"

definition splitlines :: "ustring \<Rightarrow> ustring list" where
  "splitlines s = splitlines_from [] s"

definition slash :: nat where "slash = 47"

section \<open>Workspace paths\<close>

definition path_join :: "ustring \<Rightarrow> ustring \<Rightarrow> ustring" where
  "path_join a b =
     (if starts_with b [slash] then b
      else if a = [] \<or> last a = slash then a @ b
      else a @ [slash] @ b)"

definition dot :: ustring where "dot = u ''.''"
definition dotdot :: ustring where "dotdot = u ''..''"

definition initial_slashes :: "ustring \<Rightarrow> nat" where
  "initial_slashes path =
     (if starts_with path [slash, slash] \<and> \<not> starts_with path [slash, slash, slash] then 2
      else if starts_with path [slash] then 1 else 0)"

text \<open>One step of the loop of \<open>normpath\<close>, over the components kept so far, the last one first.\<close>

definition norm_step :: "bool \<Rightarrow> ustring \<Rightarrow> ustring list \<Rightarrow> ustring list" where
  "norm_step absolute part acc =
     (if part = [] \<or> part = dot then acc
      else if part \<noteq> dotdot \<or> (\<not> absolute \<and> acc = []) \<or> (acc \<noteq> [] \<and> hd acc = dotdot) then part # acc
      else if acc \<noteq> [] then tl acc
      else acc)"

definition normpath :: "ustring \<Rightarrow> ustring" where
  "normpath path =
     (if path = [] then dot
      else let n = initial_slashes path;
               comps = rev (fold (norm_step (n \<noteq> 0)) (split_on slash path) []);
               res = replicate n slash @ join [slash] comps
           in if res = [] then dot else res)"

definition safe_workspace_path :: "ustring \<Rightarrow> ustring \<Rightarrow> ustring result" where
  "safe_workspace_path base name =
     (let dest = normpath (path_join base name)
      in if dest \<noteq> base \<and> \<not> starts_with dest (base @ [slash]) then Inl ValueError else Inr dest)"

section \<open>Captured output and patches\<close>

definition truncate_output :: "ustring \<Rightarrow> int \<Rightarrow> ustring" where
  "truncate_output text limit =
     (if limit \<le> 0 \<or> int (length text) \<le> limit then text
      else let head = limit div 2;
               tail = limit - head;
               omitted = int (length text) - limit
           in py_prefix head text @ [10] @ u ''... ['' @ show_int omitted @ u '' bytes truncated] ...'' @ [10]
              @ py_suffix (- tail) text)"

definition patch_header :: "ustring \<Rightarrow> bool" where
  "patch_header line \<longleftrightarrow>
     starts_with line (u ''diff '') \<or> starts_with line (u ''index '') \<or> starts_with line (u ''--- '') \<or>
     starts_with line (u ''+++ '') \<or> starts_with line (u ''@@ '')"

definition normalise_patch :: "ustring \<Rightarrow> ustring list" where
  "normalise_patch patch = filter (\<lambda>line. \<not> patch_header line) (splitlines patch)"

definition patch_similarity :: "(ustring list \<Rightarrow> ustring list \<Rightarrow> rat) \<Rightarrow> ustring \<Rightarrow> ustring \<Rightarrow> rat" where
  "patch_similarity ratio agent_patch reference_patch =
     (let a = normalise_patch agent_patch; b = normalise_patch reference_patch
      in if a = [] \<and> b = [] then 1
         else if a = [] \<or> b = [] then 0
         else ratio a b)"

definition arrow :: ustring where "arrow = u '' => ''"

text \<open>The last piece of \<open>path.split(" => ")\<close>.\<close>

function after_last :: "ustring \<Rightarrow> ustring \<Rightarrow> ustring" where
  "after_last sep s =
     (if sep = [] then s
      else case find_sub sep s of None \<Rightarrow> s | Some (_, r) \<Rightarrow> after_last sep r)"
  by pat_completeness auto

termination
  by (relation "measure (length \<circ> snd)") (auto dest!: find_sub_sound)

declare after_last.simps [simp del]

definition numstat_path :: "ustring \<Rightarrow> ustring option" where
  "numstat_path line =
     (let cols = split_on 9 line
      in if length cols < 3 then None
         else let path = strip (cols ! 2);
                  path' =
                    (if find_sub arrow path \<noteq> None
                     then str_replace [slash, slash] [slash]
                            (after_last arrow (str_replace (u ''}'') [] (str_replace (u ''{'') [] path)))
                     else path)
              in if path' = [] then None else Some path')"

text \<open>\<open>_patch_target_paths\<close> on what \<open>git apply --numstat\<close> answered.\<close>

definition patch_target_paths :: "int \<times> ustring \<Rightarrow> ustring list" where
  "patch_target_paths answer =
     (if fst answer \<noteq> 0 then [] else List.map_filter numstat_path (splitlines (snd answer)))"

section \<open>Components of a path\<close>

lemma split_on_not_Nil [simp]: "split_on c xs \<noteq> []"
  by (induction xs) (auto split: list.split)

lemma split_on_append: "split_on c (xs @ c # ys) = split_on c xs @ split_on c ys"
  by (induction xs) (auto split: list.split)

lemma split_on_free: "c \<notin> set xs \<Longrightarrow> split_on c xs = [xs]"
  by (induction xs) auto

lemma split_on_components: "y \<in> set (split_on c xs) \<Longrightarrow> c \<notin> set y"
proof (induction xs arbitrary: y)
  case (Cons x xs)
  then show ?case by (cases "split_on c xs") (auto split: if_splits)
qed simp

lemma split_on_join: "ys \<noteq> [] \<Longrightarrow> \<forall>y\<in>set ys. c \<notin> set y \<Longrightarrow> split_on c (join [c] ys) = ys"
  by (induction "[c]" ys rule: join.induct) (simp_all add: split_on_free split_on_append)

lemma join_split_on: "join [c] (split_on c xs) = xs"
proof (induction xs)
  case (Cons x xs)
  then show ?case by (cases "split_on c xs"; cases "tl (split_on c xs)") (auto split: list.splits)
qed simp

definition plain :: "ustring \<Rightarrow> bool" where
  "plain part \<longleftrightarrow> part \<noteq> [] \<and> part \<noteq> dot \<and> part \<noteq> dotdot"

lemma norm_fold_plain:
  assumes "\<forall>x\<in>set acc. plain x"
  shows "\<forall>x\<in>set (fold (norm_step True) comps acc). plain x"
  using assms
proof (induction comps arbitrary: acc)
  case (Cons part comps)
  have "\<forall>x\<in>set (norm_step True part acc). plain x"
    using Cons.prems by (cases acc) (auto simp: norm_step_def plain_def)
  then show ?case using Cons.IH by simp
qed simp

lemma norm_fold_members:
  "x \<in> set (fold (norm_step a) comps acc) \<Longrightarrow> x \<in> set comps \<or> x \<in> set acc"
proof (induction comps arbitrary: acc)
  case (Cons part comps)
  then have "x \<in> set comps \<or> x \<in> set (norm_step a part acc)" by simp
  then show ?case by (cases acc) (auto simp: norm_step_def split: if_splits)
qed simp

lemma norm_fold_id:
  assumes "\<forall>x\<in>set comps. plain x"
  shows "fold (norm_step a) comps acc = rev comps @ acc"
  using assms by (induction comps arbitrary: acc) (auto simp: norm_step_def plain_def)

lemma split_on_replicate: "split_on c (replicate n c @ xs) = replicate n [] @ split_on c xs"
  by (induction n) simp_all

lemma starts_with_iff: "starts_with s p \<longleftrightarrow> (\<exists>r. s = p @ r)"
  by (metis append_eq_conv_conj append_take_drop_id starts_with_def)

lemma normpath_absolute:
  assumes "starts_with path [slash]"
  obtains n comps where "n = 1 \<or> n = 2" and "normpath path = replicate n slash @ join [slash] comps"
    and "\<forall>x\<in>set comps. plain x \<and> slash \<notin> set x"
proof -
  define comps where "comps = rev (fold (norm_step True) (split_on slash path) [])"
  define n where "n = initial_slashes path"
  have n: "n = 1 \<or> n = 2"
    using assms by (auto simp: n_def initial_slashes_def)
  have "path \<noteq> []" using assms by (auto simp: starts_with_def)
  then have np: "normpath path = replicate n slash @ join [slash] comps"
    using n by (auto simp: normpath_def n_def comps_def Let_def)
  have good: "plain x \<and> slash \<notin> set x" if "x \<in> set comps" for x
    using that norm_fold_plain [of "[]" "split_on slash path"]
      norm_fold_members [of x True "split_on slash path" "[]"] split_on_components [of x slash path]
    by (auto simp: comps_def)
  show ?thesis using that [OF n np] good by blast
qed

lemma path_join_absolute: "starts_with base [slash] \<Longrightarrow> starts_with (path_join base name) [slash]"
  by (cases base) (auto simp: path_join_def starts_with_def)

text \<open>A workspace file name is accepted only when it resolves to the base directory itself or to a path below it all
  of whose components are real names: nothing a client sends escapes the directory through
  \<open>..\<close>, an absolute name or repeated slashes.\<close>

lemma workspace_path_confined:
  assumes "base = slash # b" and "b \<noteq> []" and "safe_workspace_path base name = Inr dest"
  shows "dest = base \<or> (\<exists>r. dest = base @ slash # r \<and>
    (\<forall>part\<in>set (split_on slash r). part \<noteq> [] \<and> part \<noteq> dot \<and> part \<noteq> dotdot))"
proof (cases "dest = base")
  case False
  have dest: "dest = normpath (path_join base name)" and "starts_with dest (base @ [slash])"
    using assms(3) False by (auto simp: safe_workspace_path_def Let_def split: if_splits)
  then obtain r where r: "dest = base @ slash # r"
    by (auto simp: starts_with_iff)
  have "starts_with (path_join base name) [slash]"
    using assms(1) by (intro path_join_absolute) (simp add: starts_with_def)
  then obtain n comps where n: "n = 1 \<or> n = 2" and d: "dest = replicate n slash @ join [slash] comps"
    and comps: "\<forall>x\<in>set comps. plain x \<and> slash \<notin> set x"
    using normpath_absolute dest by metis
  define comps' where "comps' = (if comps = [] then [[]] else comps)"
  have "split_on slash (join [slash] comps) = comps'"
    using comps by (simp add: comps'_def split_on_join)
  then have "[] # split_on slash b @ split_on slash r = replicate n [] @ comps'"
    using r d assms(1) split_on_append [of slash base r] split_on_replicate [of slash n "join [slash] comps"] by simp
  moreover obtain x xs where b: "split_on slash b = x # xs"
    by (meson list.exhaust split_on_not_Nil)
  moreover have "x # xs \<noteq> [[]]"
    using b join_split_on [of slash b] assms(2) by auto
  ultimately have "set (split_on slash r) \<subseteq> set comps"
    using n by (auto simp: comps'_def eval_nat_numeral append_eq_Cons_conv split: if_splits)
  then show ?thesis using r comps by (auto simp: plain_def)
qed simp

lemma workspace_path_confined_witness:
  "safe_workspace_path (u ''/w/t'') (u ''a/./b//../c.txt'') = Inr (u ''/w/t/a/c.txt'') \<and>
   (\<forall>part\<in>set (split_on slash (u ''a/c.txt'')). part \<noteq> dotdot)"
proof -
  have e: "safe_workspace_path (u ''/w/t'') (u ''a/./b//../c.txt'') = Inr (u ''/w/t/a/c.txt'')"
    by code_simp
  have "u ''/w/t'' = slash # u ''w/t''" and "u ''w/t'' \<noteq> []" and "u ''/w/t/a/c.txt'' \<noteq> u ''/w/t''"
    by code_simp+
  with workspace_path_confined [OF _ _ e] obtain r where
    "u ''/w/t/a/c.txt'' = u ''/w/t'' @ slash # r" "\<forall>part\<in>set (split_on slash r). part \<noteq> dotdot"
    by blast
  moreover have "u ''/w/t/a/c.txt'' = u ''/w/t'' @ slash # u ''a/c.txt''" by code_simp
  ultimately show ?thesis using e by simp
qed

lemma join_append: "xs \<noteq> [] \<Longrightarrow> ys \<noteq> [] \<Longrightarrow> join sep (xs @ ys) = join sep xs @ sep @ join sep ys"
proof (induction sep xs rule: join.induct)
  case (2 sep x)
  then show ?case by (cases ys) simp_all
qed simp_all

text \<open>A name of plain components is accepted and lands under the base.\<close>

lemma workspace_path_accepts:
  assumes "base = slash # join [slash] bs" and "bs \<noteq> []" and "ns \<noteq> []"
    and good: "\<forall>x\<in>set (bs @ ns). plain x \<and> slash \<notin> set x"
  shows "safe_workspace_path base (join [slash] ns) = Inr (base @ slash # join [slash] ns)"
proof -
  have first: "\<not> starts_with (join [slash] xs @ ys) [slash]" "join [slash] xs \<noteq> []"
    if "xs \<noteq> []" "\<forall>x\<in>set xs. plain x \<and> slash \<notin> set x" for xs ys
    using that by (cases xs; cases "hd xs"; cases "tl xs"; auto simp: starts_with_def plain_def)+
  have last: "last (join [slash] xs) \<noteq> slash" if "xs \<noteq> []" "\<forall>x\<in>set xs. plain x \<and> slash \<notin> set x" for xs
    using that
  proof (induction "[slash]" xs rule: join.induct)
    case (2 x)
    then show ?case by (metis join.simps(2) last_in_set list.set_intros(1) plain_def)
  next
    case (3 x y ys)
    then show ?case using first(2) [of "y # ys"] by auto
  qed simp
  have path: "path_join base (join [slash] ns) = base @ slash # join [slash] ns"
    using first(1) [of ns "[]"] first(2) [of ns] first(2) [of bs] last [of bs] assms by (auto simp: path_join_def)
  have eq: "base @ slash # join [slash] ns = slash # join [slash] (bs @ ns)"
    using assms(1-3) by (simp add: join_append)
  have "split_on slash (slash # join [slash] (bs @ ns)) = [] # (bs @ ns)"
    using split_on_join [of "bs @ ns" slash] good assms(2) by simp
  moreover have "initial_slashes (slash # join [slash] (bs @ ns)) = 1"
    using first(1) [of "bs @ ns" "[]"] good assms(2) by (auto simp: initial_slashes_def starts_with_def)
  moreover have "norm_step True [] [] = []" by (simp add: norm_step_def)
  ultimately have "normpath (slash # join [slash] (bs @ ns)) = slash # join [slash] (bs @ ns)"
    using norm_fold_id [of "bs @ ns" True "[]"] good by (simp add: normpath_def)
  then show ?thesis
    unfolding safe_workspace_path_def path eq Let_def
    by (simp add: assms(1) eq [symmetric] starts_with_iff)
qed

end
