(* ===== verification/Sandbox_Reports.thy ===== *)
theory Sandbox_Reports
  imports Sandbox_Text
begin

text \<open>
  The parsers of test reports of the sandbox task executor
  (\<open>ubuntu-base/scripts/tools/task_executor.py\<close>). A regular expression is a list of items, matched
  from left to right without backtracking: no item can give back text that the next one would accept, except
  the lazy \<open>.*?\<close> of the cargo report, which is written out. \<open>\<^verbatim>\<open>\d\<close>\<close> is read as the ASCII digits, and the limit of
  4300 digits on \<open>int\<close> is not modelled. Of the linters' reports only the choice of the
  counted text is left to a parameter.
\<close>

section \<open>Regular expressions\<close>

datatype re_item = Lit ustring | Blanks | Some_blanks | Number | Word | Lazy

function match_items :: "re_item list \<Rightarrow> ustring \<Rightarrow> (nat list \<times> ustring) option" where
  "match_items [] s = Some ([], s)"
| "match_items (Lit w # is) s = (if starts_with s w then match_items is (drop (length w) s) else None)"
| "match_items (Blanks # is) s = match_items is (dropWhile py_space s)"
| "match_items (Some_blanks # is) s =
     (if takeWhile py_space s \<noteq> [] then match_items is (dropWhile py_space s) else None)"
| "match_items (Number # is) s =
     (if takeWhile is_digit s \<noteq> []
      then map_option (\<lambda>(ns, r). (digits_val (takeWhile is_digit s) # ns, r)) (match_items is (dropWhile is_digit s))
      else None)"
| "match_items (Word # is) s =
     (if takeWhile (\<lambda>c. \<not> py_space c) s \<noteq> []
      then match_items is (dropWhile (\<lambda>c. \<not> py_space c) s) else None)"
| "match_items (Lazy # is) s =
     (case match_items is s of
        Some m \<Rightarrow> Some m
      | None \<Rightarrow> (case s of [] \<Rightarrow> None | c # s' \<Rightarrow> if c = 10 then None else match_items (Lazy # is) s'))"
  by pat_completeness auto

termination
  by (relation "measures [\<lambda>(is, s). length is, \<lambda>(is, s). length s]") auto

text \<open>\<open>re.search\<close>, and \<open>re.finditer\<close> from a position that is (or is not) the start of a line; with \<open>anchored\<close> the
  expression starts with \<open>^\<close> under \<open>re.MULTILINE\<close>.\<close>

fun re_search :: "re_item list \<Rightarrow> ustring \<Rightarrow> (nat list \<times> ustring) option" where
  "re_search is [] = match_items is []"
| "re_search is (c # s) =
     (case match_items is (c # s) of Some m \<Rightarrow> Some m | None \<Rightarrow> re_search is s)"

function find_all :: "re_item list \<Rightarrow> bool \<Rightarrow> bool \<Rightarrow> ustring \<Rightarrow> nat list list" where
  "find_all is anchored bol [] = []"
| "find_all is anchored bol (c # s) =
     (case (if anchored \<and> \<not> bol then None else match_items is (c # s)) of
        Some (ns, r) \<Rightarrow>
          (if length r \<le> length s
           then ns # find_all is anchored ((c # s) ! (length s - length r) = 10) r
           else [])
      | None \<Rightarrow> find_all is anchored (c = 10) s)"
  by pat_completeness auto

termination
  by (relation "measure (\<lambda>(is, anchored, bol, s). length s)") auto

section \<open>Parsers\<close>

definition count_of :: "ustring \<Rightarrow> re_item list" where
  "count_of w = [Number, Some_blanks, Lit w]"

definition first_count :: "re_item list \<Rightarrow> ustring \<Rightarrow> nat" where
  "first_count is text = (case re_search is text of Some (n # _, _) \<Rightarrow> n | _ \<Rightarrow> 0)"

definition parse_pytest :: "ustring \<Rightarrow> nat \<times> nat" where
  "parse_pytest text =
     (first_count (count_of (u ''passed'')) text,
      first_count (count_of (u ''failed'')) text + first_count (count_of (u ''error'')) text)"

definition cargo_items :: "re_item list" where
  "cargo_items = [Lit (u ''test result:''), Lazy, Number, Some_blanks, Lit (u ''passed;''), Blanks, Number,
     Some_blanks, Lit (u ''failed'')]"

definition parse_cargo :: "ustring \<Rightarrow> nat \<times> nat" where
  "parse_cargo text =
     (let ms = find_all cargo_items False True text
      in (sum_list (map (\<lambda>m. m ! 0) ms), sum_list (map (\<lambda>m. m ! 1) ms)))"

definition parse_go :: "ustring \<Rightarrow> nat \<times> nat" where
  "parse_go text =
     (let passed = length (find_all [Lit (u ''--- PASS:'')] True True text);
          failed = length (find_all [Lit (u ''--- FAIL:'')] True True text)
      in if passed = 0 \<and> failed = 0
         then (length (find_all [Lit (u ''ok''), Some_blanks, Word] True True text),
               length (find_all [Lit (u ''FAIL''), Some_blanks, Word] True True text))
         else (passed, failed))"

text \<open>\<open>^Tests:\s+(.+)$\<close>: the rest of the line after the blanks, which may run over line ends; with nothing but blanks
  left, the summary the expression captures has no count.\<close>

fun jest_summary :: "bool \<Rightarrow> ustring \<Rightarrow> ustring" where
  "jest_summary bol [] = []"
| "jest_summary bol (c # s) =
     (if bol \<and> starts_with (c # s) (u ''Tests:'') \<and> takeWhile py_space (drop 6 (c # s)) \<noteq> []
      then takeWhile (\<lambda>x. x \<noteq> 10) (dropWhile py_space (drop 6 (c # s)))
      else jest_summary (c = 10) s)"

definition parse_jest :: "ustring \<Rightarrow> nat \<times> nat" where
  "parse_jest text =
     (let summary = jest_summary True text
      in (first_count (count_of (u ''passed'')) summary, first_count (count_of (u ''failed'')) summary))"

definition parse_dotnet :: "ustring \<Rightarrow> nat \<times> nat" where
  "parse_dotnet text =
     (case re_search [Lit (u ''Failed:''), Blanks, Number, Lit (u '',''), Blanks, Lit (u ''Passed:''), Blanks, Number] text of
        Some ([failed, passed], _) \<Rightarrow> (passed, failed)
      | _ \<Rightarrow> (0, 0))"

definition junit_items :: "re_item list" where
  "junit_items = [Lit (u ''Tests run:''), Blanks, Number, Lit (u '',''), Blanks, Lit (u ''Failures:''), Blanks, Number,
     Lit (u '',''), Blanks, Lit (u ''Errors:''), Blanks, Number]"

definition parse_junit :: "ustring \<Rightarrow> nat \<times> nat" where
  "parse_junit text =
     (let ms = find_all junit_items False True text
      in (sum_list (map (\<lambda>m. m ! 0 - m ! 1 - m ! 2) ms), sum_list (map (\<lambda>m. m ! 1 + m ! 2) ms)))"

definition mentions :: "ustring \<Rightarrow> string \<Rightarrow> bool" where
  "mentions text w \<longleftrightarrow> find_sub (u w) text \<noteq> None"

fun first_nonzero :: "(ustring \<Rightarrow> nat \<times> nat) list \<Rightarrow> ustring \<Rightarrow> nat \<times> nat" where
  "first_nonzero [] text = (0, 0)"
| "first_nonzero (f # fs) text = (if f text \<noteq> (0, 0) then f text else first_nonzero fs text)"

definition dispatch_test_parser :: "ustring \<Rightarrow> ustring \<Rightarrow> nat \<times> nat" where
  "dispatch_test_parser test_command text =
     (let cmd = lower test_command
      in if mentions cmd ''pytest'' \<or> mentions cmd ''py.test'' then parse_pytest text
         else if mentions cmd ''cargo'' then parse_cargo text
         else if mentions cmd ''go test'' then parse_go text
         else if mentions cmd ''jest'' \<or> (mentions cmd ''npm'' \<and> mentions cmd ''test'')
           \<or> (mentions cmd ''yarn'' \<and> mentions cmd ''test'') \<or> (mentions cmd ''pnpm'' \<and> mentions cmd ''test'')
         then parse_jest text
         else if mentions cmd ''dotnet'' then parse_dotnet text
         else if mentions cmd ''mvn'' \<or> mentions cmd ''gradle'' \<or> mentions cmd ''sbt'' \<or> mentions cmd ''junit''
         then parse_junit text
         else first_nonzero [parse_pytest, parse_cargo, parse_go, parse_jest, parse_dotnet, parse_junit] text)"

lemmas report_eval = u_def py_space_def is_digit_def count_of_def digits_val_def starts_with_def first_count_def

lemma sample_reports:
  "parse_pytest (u ''== 2 failed, 5 passed, 1 error in 0.3s =='') = (5, 3)"
  "parse_cargo (u ''test result: FAILED. 3 passed; 1 failed; 0 ignored'') = (3, 1)"
  "parse_go (u ''ok  pkg/a 0.1s'' @ [10] @ u ''FAIL pkg/b'' @ [10]) = (1, 1)"
  "parse_jest (u ''Tests:       1 failed, 4 passed, 5 total'' @ [10]) = (4, 1)"
  "parse_dotnet (u ''Failed!  - Failed:     1, Passed:    7, Skipped: 0'') = (7, 1)"
  by (simp_all add: report_eval parse_pytest_def parse_cargo_def cargo_items_def parse_go_def parse_jest_def parse_dotnet_def
      del: match_items.simps(7)) (simp add: report_eval)

section \<open>Totals of a JUnit report\<close>

text \<open>The counts Surefire prints for a test class, and a report: such lines among other text.\<close>

definition class_counts :: "nat \<times> nat \<times> nat \<Rightarrow> ustring" where
  "class_counts r =
     (case r of (n, f, e) \<Rightarrow>
        u ''Tests run:'' @ u '' '' @ show_nat n @ u '', Failures: '' @ show_nat f @ u '', Errors: '' @ show_nat e)"

fun junit_report :: "(ustring \<times> nat \<times> nat \<times> nat) list \<Rightarrow> ustring \<Rightarrow> ustring" where
  "junit_report [] rest = rest"
| "junit_report ((noise, r) # xs) rest = noise @ class_counts r @ junit_report xs rest"

definition silent :: "ustring \<Rightarrow> bool" where
  "silent text \<longleftrightarrow> find_sub (u ''Tests run:'') text = None \<and> (text = [] \<or> \<not> is_digit (hd text))"

lemma take_number:
  assumes "r = [] \<or> \<not> is_digit (hd r)"
  shows "takeWhile is_digit (show_nat n @ r) = show_nat n" "dropWhile is_digit (show_nat n @ r) = r"
    "show_nat n \<noteq> []" "dropWhile py_space (show_nat n @ r) = show_nat n @ r"
proof -
  have d: "\<forall>x\<in>set (show_nat n). is_digit x" and ne: "show_nat n \<noteq> []"
    using show_nat_digits [of n] by (auto simp: list_all_iff)
  have "takeWhile is_digit r = []" "dropWhile is_digit r = r"
    using assms by (cases r; simp)+
  then show "takeWhile is_digit (show_nat n @ r) = show_nat n" "dropWhile is_digit (show_nat n @ r) = r"
    using d by (simp_all add: takeWhile_append2 dropWhile_append2)
  show "show_nat n \<noteq> []" by (rule ne)
  show "dropWhile py_space (show_nat n @ r) = show_nat n @ r"
    using d ne by (cases "show_nat n") (auto simp: py_space_def is_digit_def)
qed

lemma match_number:
  assumes "r = [] \<or> \<not> is_digit (hd r)"
  shows "match_items (Number # is) (show_nat n @ r) = map_option (\<lambda>(ns, t). (n # ns, t)) (match_items is r)"
    and "match_items (Blanks # is) (32 # show_nat n @ r) = match_items is (show_nat n @ r)"
  using take_number [OF assms, of n] by (simp_all add: digits_val_show_nat py_space_def)

lemma match_class_counts:
  assumes "r = [] \<or> \<not> is_digit (hd r)"
  shows "match_items (tl junit_items) (u '' '' @ show_nat n @ u '', Failures: '' @ show_nat f @ u '', Errors: ''
      @ show_nat e @ r) = Some ([n, f, e], r)"
proof -
  have comma: "44 # s = [] \<or> \<not> is_digit (hd (44 # s))" for s :: ustring by (simp add: is_digit_def)
  show ?thesis
    by (simp add: junit_items_def u_def starts_with_def py_space_def take_number(4) [OF comma] take_number(4) [OF assms]
        match_number(1) [OF comma] match_number(1) [OF assms] del: match_items.simps(5))
qed

lemma find_all_from_find_sub:
  "find_all (Lit w # is) False bol s = find_all (Lit w # is) False bol' s"
  by (induction s arbitrary: bol bol') (auto split: option.split)

lemma starts_with_find_sub: "starts_with s w \<Longrightarrow> find_sub w s = Some ([], drop (length w) s)"
  by (cases s) (auto simp: starts_with_def)

lemma find_all_none:
  "find_sub w s = None \<Longrightarrow> find_all (Lit w # is) False bol s = []"
  by (induction s arbitrary: bol) (auto simp: starts_with_def split: if_splits)

lemma find_all_skip:
  assumes "find_sub w (a @ w @ s) = Some (a, s)" and "w \<noteq> []" and "match_items is s = Some (ns, r)"
    and "length r \<le> length s"
  shows "find_all (Lit w # is) False bol (a @ w @ s) = ns # find_all (Lit w # is) False bol r"
  using assms(1)
proof (induction a arbitrary: bol)
  case Nil
  obtain c v where w: "w = c # v" using assms(2) by (cases w) auto
  then have "match_items (Lit w # is) (c # v @ s) = Some (ns, r)"
    using assms(3) by (simp add: starts_with_def)
  then show ?case
    using w assms(4) find_all_from_find_sub [of w "is" _ r bol] by simp
next
  case (Cons c a)
  have "\<not> starts_with (c # a @ w @ s) w"
    using Cons.prems starts_with_find_sub [of "c # a @ w @ s" w] by auto
  moreover from this have "find_sub w (a @ w @ s) = Some (a, s)"
    using Cons.prems by (auto simp: starts_with_def split: if_splits)
  ultimately show ?case
    using Cons.IH [of bol] find_all_from_find_sub [of w "is" "c = 10" "a @ w @ s" bol] by simp
qed

lemma find_all_junit_report:
  assumes "\<forall>x\<in>set xs. silent (fst x)" and "silent rest"
  shows "find_all junit_items False bol (junit_report xs rest) = map (\<lambda>(_, n, f, e). [n, f, e]) xs"
  using assms(1)
proof (induction xs)
  case Nil
  then show ?case
    using assms(2) find_all_none [of "u ''Tests run:''" rest] by (simp add: silent_def junit_items_def)
next
  case (Cons x xs)
  obtain noise n f e where x: "x = (noise, n, f, e)" by (cases x) auto
  let ?w = "u ''Tests run:''" and ?R = "junit_report xs rest"
  let ?s = "u '' '' @ show_nat n @ u '', Failures: '' @ show_nat f @ u '', Errors: '' @ show_nat e @ ?R"
  have R: "?R = [] \<or> \<not> is_digit (hd ?R)"
  proof (cases xs)
    case Nil
    then show ?thesis using assms(2) by (auto simp: silent_def)
  next
    case (Cons y ys)
    then show ?thesis using Cons.prems
      by (cases y) (auto simp: silent_def class_counts_def u_def is_digit_def hd_append)
  qed
  have "?w = 84 # u ''ests run:''" "84 \<notin> set (u ''ests run:'')" by (simp_all add: u_def)
  moreover have "find_sub ?w noise = None" using Cons.prems x by (simp add: silent_def)
  ultimately have "find_sub ?w (noise @ ?w @ ?s) = Some (noise, ?s)"
    by (rule find_sub_first)
  then have "find_all (Lit ?w # tl junit_items) False bol (noise @ ?w @ ?s) =
      [n, f, e] # find_all (Lit ?w # tl junit_items) False bol ?R"
    by (rule find_all_skip) (use match_class_counts [OF R] in \<open>simp_all add: u_def\<close>)
  moreover have "Lit ?w # tl junit_items = junit_items" by (simp add: junit_items_def)
  ultimately show ?case
    using Cons.IH Cons.prems by (simp add: x class_counts_def)
qed

text \<open>The totals read from a JUnit report are the sums over all its class lines, whatever text stands between them,
  each class counting its failures and errors as failed and the rest of its tests as passed.\<close>

lemma junit_report_totals:
  assumes "\<forall>x\<in>set xs. silent (fst x)" and "silent rest"
  shows "parse_junit (junit_report xs rest) =
    (\<Sum>(_, n, f, e)\<leftarrow>xs. n - f - e, \<Sum>(_, n, f, e)\<leftarrow>xs. f + e)"
  unfolding parse_junit_def find_all_junit_report [OF assms] Let_def
  by (simp add: comp_def split_def)

lemma junit_report_totals_witness:
  "parse_junit (junit_report [(u ''[INFO] '', 3, 1, 0), (u '' in A; '', 4, 0, 1)] (u '' in B'')) = (5, 2)"
proof -
  have "\<forall>x\<in>set [(u ''[INFO] '', 3, 1, 0), (u '' in A; '', 4, 0, 1)]. silent (fst x)" and "silent (u '' in B'')"
    by (simp_all add: silent_def u_def is_digit_def)
  from junit_report_totals [OF this] show ?thesis by simp
qed

text \<open>The first count of a pytest run wins: text printed before the summary decides the number of passed tests.\<close>

lemma pytest_first_count_wins:
  "fst (parse_pytest (u ''999 passed'' @ s)) = 999"
  by (simp add: parse_pytest_def report_eval)

text \<open>A total line after the class lines is counted again.\<close>

lemma junit_total_line_doubles:
  "parse_junit (junit_report [([], 3, 1, 0), ([10], 4, 0, 1), ([10], 7, 1, 1)] []) = (10, 4)"
proof -
  have "\<forall>x\<in>set [([], 3, 1, 0), ([10], 4, 0, 1), ([10], 7, 1, 1)]. silent (fst x)" and "silent []"
    by (simp_all add: silent_def u_def is_digit_def)
  from find_all_junit_report [OF this] show ?thesis
    unfolding parse_junit_def by simp
qed

text \<open>A rename inside a directory loses the directory.\<close>

lemma numstat_rename_loses_directory:
  "numstat_path (u ''1'' @ [9] @ u ''1'' @ [9] @ u ''dir/{a => b}/f'') = Some (u ''b/f'')"
  by (simp add: numstat_path_def u_def strip_def py_space_def arrow_def str_replace.simps after_last.simps Let_def)

end
