(* ===== verification/Sandbox_Grading.thy ===== *)
theory Sandbox_Grading
  imports Sandbox_Reports
begin

text \<open>
  The grading of a patch by the sandbox task executor
  (\<open>ubuntu-base/scripts/tools/task_executor.py\<close>: \<open>_execute_clone\<close> and the restoration of the files the held-out
  test patch names). Git, the shell and the file system are the parameter \<open>sandbox\<close>: it answers a command
  in a world \<open>'w\<close> and gives the next one. A patch file is named by the text the code has just written to it.
  An exception is the message the code would append to the captured stderr; a hung command and
  one that could not be started are told apart where the code does. The wall-clock time of the
  result is not modelled, nor the count of a linter's report (the field \<open>lint_count\<close>) and the ratio of
  \<open>difflib\<close>.
\<close>

section \<open>Commands and the sandbox\<close>

datatype command =
    Git_clone ustring
  | Git_checkout ustring
  | Git_apply ustring
  | Git_numstat ustring
  | Git_cat_file ustring ustring
  | Git_checkout_path ustring ustring
  | Shell_test ustring int
  | Shell_lint ustring
  | Git_diff ustring

fun time_limit :: "command \<Rightarrow> int" where
  "time_limit (Git_clone _) = 120"
| "time_limit (Git_checkout _) = 60"
| "time_limit (Git_apply _) = 30"
| "time_limit (Git_numstat _) = 30"
| "time_limit (Git_cat_file _ _) = 15"
| "time_limit (Git_checkout_path _ _) = 30"
| "time_limit (Shell_test _ limit) = limit"
| "time_limit (Shell_lint _) = 120"
| "time_limit (Git_diff _) = 30"

datatype answer = Answer int ustring ustring | Hung | Crashed ustring

record 'w sandbox =
  answers :: "command \<Rightarrow> 'w \<Rightarrow> answer \<times> 'w"
  remove_file :: "ustring \<Rightarrow> 'w \<Rightarrow> 'w"
  lint_count :: "ustring \<Rightarrow> ustring \<Rightarrow> int \<Rightarrow> int"
  ratio :: "ustring list \<Rightarrow> ustring list \<Rightarrow> rat"
  round4 :: "rat \<Rightarrow> rat"

record 'w clone_state =
  box :: 'w
  stdout_parts :: "ustring list"
  stderr_parts :: "ustring list"

type_synonym ('w, 'a) prog = "'w clone_state \<Rightarrow> (ustring + 'a) \<times> 'w clone_state"

definition yield_value :: "'a \<Rightarrow> ('w, 'a) prog" where
  "yield_value x st = (Inr x, st)"

definition raise_error :: "ustring \<Rightarrow> ('w, 'a) prog" where
  "raise_error e st = (Inl e, st)"

definition and_then :: "('w, 'a) prog \<Rightarrow> ('a \<Rightarrow> ('w, 'b) prog) \<Rightarrow> ('w, 'b) prog" where
  "and_then m f st = (case m st of (Inl e, st') \<Rightarrow> (Inl e, st') | (Inr x, st') \<Rightarrow> f x st')"

definition timeout_message :: "int \<Rightarrow> ustring" where
  "timeout_message limit = u ''Command timed out after '' @ show_int limit @ u ''s''"

text \<open>\<open>_run\<close>, and a run whose output is captured.\<close>

definition run_command :: "'w sandbox \<Rightarrow> command \<Rightarrow> ('w, int \<times> ustring \<times> ustring) prog" where
  "run_command env c st =
     (case answers env c (box st) of
        (Answer rc out err, w) \<Rightarrow> (Inr (rc, out, err), st\<lparr>box := w\<rparr>)
      | (Hung, w) \<Rightarrow> (Inl (timeout_message (time_limit c)), st\<lparr>box := w\<rparr>)
      | (Crashed message, w) \<Rightarrow> (Inl message, st\<lparr>box := w\<rparr>))"

definition run_captured :: "'w sandbox \<Rightarrow> command \<Rightarrow> ('w, int \<times> ustring \<times> ustring) prog" where
  "run_captured env c =
     and_then (run_command env c) (\<lambda>(rc, out, err) st.
       (Inr (rc, out, err),
        st\<lparr>stdout_parts := stdout_parts st @ [out], stderr_parts := stderr_parts st @ [err]\<rparr>))"

definition failed_message :: "string \<Rightarrow> int \<Rightarrow> ustring \<Rightarrow> ustring" where
  "failed_message what rc err = u what @ u '' failed (rc='' @ show_int rc @ u ''): '' @ strip err"

definition given :: "ustring \<Rightarrow> bool" where
  "given text \<longleftrightarrow> text \<noteq> [] \<and> strip text \<noteq> []"

section \<open>Restoring the held-out files\<close>

definition restore_path :: "'w sandbox \<Rightarrow> ustring \<Rightarrow> ustring \<Rightarrow> ('w, unit) prog" where
  "restore_path env base path =
     and_then (run_command env (Git_cat_file base path)) (\<lambda>(rc, _, _).
       if rc = 0 then and_then (run_command env (Git_checkout_path base path)) (\<lambda>_. yield_value ())
       else (\<lambda>st. (Inr (), st\<lparr>box := remove_file env path (box st)\<rparr>)))"

fun restore_paths :: "'w sandbox \<Rightarrow> ustring \<Rightarrow> ustring list \<Rightarrow> ('w, unit) prog" where
  "restore_paths env base [] = yield_value ()"
| "restore_paths env base (path # paths) =
     and_then (restore_path env base path) (\<lambda>_. restore_paths env base paths)"

definition restore_paths_to_base :: "'w sandbox \<Rightarrow> ustring \<Rightarrow> ustring \<Rightarrow> ('w, unit) prog" where
  "restore_paths_to_base env base patch =
     and_then (run_command env (Git_numstat patch)) (\<lambda>(rc, out, _).
       restore_paths env base (patch_target_paths (rc, out)))"

section \<open>A clone task\<close>

record clone_task =
  repo_url :: ustring
  base_commit :: ustring
  agent_patch :: ustring
  test_patch :: ustring
  test_command :: ustring
  test_timeout :: int
  lint_command :: ustring
  capture_diff :: bool
  reference_patch :: ustring


definition clone_and_checkout :: "'w sandbox \<Rightarrow> clone_task \<Rightarrow> ('w, unit) prog" where
  "clone_and_checkout env t =
     and_then (run_captured env (Git_clone (repo_url t))) (\<lambda>(rc, _, err).
       if rc \<noteq> 0 then raise_error (failed_message ''git clone'' rc err)
       else and_then (run_captured env (Git_checkout (base_commit t))) (\<lambda>(rc, _, err).
         if rc \<noteq> 0 then raise_error (failed_message ''git checkout'' rc err) else yield_value ()))"

definition apply_agent_patch :: "'w sandbox \<Rightarrow> clone_task \<Rightarrow> ('w, bool) prog" where
  "apply_agent_patch env t =
     (if given (agent_patch t)
      then and_then (run_captured env (Git_apply (agent_patch t))) (\<lambda>(rc, _, _). yield_value (rc = 0))
      else yield_value True)"

definition apply_test_patch :: "'w sandbox \<Rightarrow> clone_task \<Rightarrow> ('w, unit) prog" where
  "apply_test_patch env t =
     (if given (test_patch t)
      then and_then (restore_paths_to_base env (base_commit t) (test_patch t)) (\<lambda>_.
        and_then (run_captured env (Git_apply (test_patch t))) (\<lambda>(rc, _, err).
          if rc \<noteq> 0 then raise_error (failed_message ''test_patch apply'' rc err) else yield_value ()))
      else yield_value ())"

text \<open>Everything before the test command: the result says whether the agent's patch applied.\<close>

definition prepare_clone :: "'w sandbox \<Rightarrow> clone_task \<Rightarrow> ('w, bool) prog" where
  "prepare_clone env t =
     and_then (clone_and_checkout env t) (\<lambda>_.
       and_then (apply_agent_patch env t) (\<lambda>applied.
         and_then (apply_test_patch env t) (\<lambda>_. yield_value applied)))"









section \<open>Sequencing\<close>


lemma yield_value_iff [simp]: "yield_value x st = (Inr y, st') \<longleftrightarrow> y = x \<and> st' = st"
  by (auto simp: yield_value_def)

lemma raise_error_iff [simp]: "raise_error e st = (Inr y, st') \<longleftrightarrow> False"
  by (simp add: raise_error_def)




section \<open>The held-out files\<close>





section \<open>A demonstration\<close>

text \<open>A repository with one test file, \<open>t\<close>: the agent's patch rewrites it, the held-out patch replaces the
  content it has at the base commit.\<close>

definition demo_base :: "ustring \<rightharpoonup> nat" where
  "demo_base = [u ''t'' \<mapsto> 1, u ''old'' \<mapsto> 3]"

fun demo_answers :: "command \<Rightarrow> (ustring \<rightharpoonup> nat) \<Rightarrow> answer \<times> (ustring \<rightharpoonup> nat)" where
  "demo_answers (Git_checkout c) w = (Answer 0 [] [], demo_base)"
| "demo_answers (Git_apply p) w =
     (if p = u ''gold'' then if w (u ''t'') = Some 1 then (Answer 0 [] [], w(u ''t'' \<mapsto> 2)) else (Answer 1 [] [], w)
      else if p = u ''move'' then (Answer 0 [] [], w(u ''new'' := w (u ''old''), u ''old'' := None))
      else (Answer 0 [] [], w(u ''t'' \<mapsto> 9, u ''old'' \<mapsto> 9)))"
| "demo_answers (Git_numstat p) w =
     (Answer 0 (if p = u ''gold'' then u ''1'' @ [9] @ u ''1'' @ [9] @ u ''t''
                else u ''0'' @ [9] @ u ''0'' @ [9] @ u ''old => new'') [], w)"
| "demo_answers (Git_cat_file c q) w = (Answer (if demo_base q = None then 128 else 0) [] [], w)"
| "demo_answers (Git_checkout_path c q) w = (Answer 0 [] [], w(q := demo_base q))"
| "demo_answers (Shell_test c limit) w = (Answer (if w (u ''t'') = Some 2 then 0 else 1) [] [], w)"
| "demo_answers _ w = (Answer 0 [] [], w)"

definition demo_sandbox :: "(ustring \<rightharpoonup> nat) sandbox" where
  "demo_sandbox = \<lparr>answers = demo_answers, remove_file = \<lambda>q w. w(q := None), lint_count = \<lambda>_ _ _. 0,
     ratio = \<lambda>_ _. 0, round4 = id\<rparr>"

definition demo_task :: "string \<Rightarrow> clone_task" where
  "demo_task p = \<lparr>repo_url = u ''r'', base_commit = u ''b'', agent_patch = u ''agent'', test_patch = u p,
     test_command = u ''pytest'', test_timeout = 300, lint_command = [], capture_diff = False, reference_patch = []\<rparr>"




lemma demo_rename: "patch_target_paths (0, u ''0'' @ [9] @ u ''0'' @ [9] @ u ''old => new'') = [u ''new'']"
  by (simp add: patch_target_paths_def splitlines_def line_break_def u_def numstat_path_def strip_def py_space_def
      arrow_def List.map_filter_simps str_replace.simps after_last.simps Let_def)

lemma demo_fields [simp]:
  "answers demo_sandbox = demo_answers" "remove_file demo_sandbox q w = w(q := None)"
  "repo_url (demo_task p) = u ''r''" "base_commit (demo_task p) = u ''b''" "agent_patch (demo_task p) = u ''agent''"
  "test_patch (demo_task p) = u p" "test_command (demo_task p) = u ''pytest''" "test_timeout (demo_task p) = 300"
  "lint_command (demo_task p) = []" "capture_diff (demo_task p) = False" "reference_patch (demo_task p) = []"
  by (simp_all add: demo_sandbox_def demo_task_def)

lemma demo_given [simp]: "given (u ''agent'')" "given (u ''gold'')" "given (u ''move'')" "\<not> given []"
  by (simp_all add: given_def u_def strip_def py_space_def)

lemma demo_texts [simp]:
  "u ''agent'' \<noteq> u ''gold''" "u ''agent'' \<noteq> u ''move''" "u ''move'' \<noteq> u ''gold''" "u ''old'' \<noteq> u ''t''"
  "u ''new'' \<noteq> u ''t''" "u ''new'' \<noteq> u ''old''" "u ''old'' \<noteq> u ''new''"
  by (simp_all add: u_def)

lemmas prog_eval = and_then_def run_captured_def run_command_def yield_value_def



text \<open>A held-out patch that moves a file takes the agent's version along: \<open>numstat\<close> names the new path only, so the old
  one is not restored. Here \<open>new\<close> holds 9, which the agent wrote, and not 3.\<close>

lemma moved_file_keeps_agent_content:
  "\<exists>st. prepare_clone demo_sandbox (demo_task ''move'') \<lparr>box = w, stdout_parts = [], stderr_parts = []\<rparr> = (Inr True, st) \<and>
     demo_base (u ''old'') = Some 3 \<and> box st (u ''new'') = Some 9"
proof -
  have n: "patch_target_paths (0, u ''0'' @ 9 # u ''0'' @ 9 # u ''old => new'') = [u ''new'']"
    using demo_rename by simp
  have b: "demo_base (u ''new'') = None" "demo_base (u ''old'') = Some 3" by (simp_all add: demo_base_def u_def)
  show ?thesis
    by (simp add: prog_eval prepare_clone_def clone_and_checkout_def apply_agent_patch_def apply_test_patch_def
        restore_paths_to_base_def restore_path_def n b)
qed



end
