(* ===== verification/Sandbox_Harness.thy ===== *)
theory Sandbox_Harness
  imports Sandbox_Text "HOL-Library.AList" "HOL-Library.List_Lexorder"
begin

text \<open>
  What the sandbox task executor (\<open>ubuntu-base/scripts/tools/task_executor.py\<close>) runs inside a container: the
  command of an \<open>exec\<close> request, the late-injected verifier of a \<open>finish\<close> request, and a one-shot image task with
  its read-only harness, and the key under which built images are shared. Docker and the file system are the parameter
  \<open>docker_env\<close>, which answers a command in a world \<open>'w\<close>; exceptions are values, their messages are
  not modelled, nor the measured times. A digest of a build description is a parameter of its input text.
\<close>

section \<open>Docker and files\<close>

datatype file_content = Text ustring | B64 ustring

datatype dk_command =
    Exec_in ustring ustring "ustring option"
  | Copy_in ustring ustring ustring
  | Run_image ustring ustring ustring bool
  | Remove_container ustring

datatype dk_answer = Exited int ustring ustring | Timed_out | Not_started py_error

record 'w docker_env =
  dk_answers :: "dk_command \<Rightarrow> int \<Rightarrow> 'w \<Rightarrow> dk_answer \<times> 'w"
  make_dirs :: "ustring \<Rightarrow> 'w \<Rightarrow> unit result \<times> 'w"
  write_content :: "ustring \<Rightarrow> file_content \<Rightarrow> 'w \<Rightarrow> unit result \<times> 'w"
  read_text :: "ustring \<Rightarrow> 'w \<Rightarrow> ustring result"
  copy_out :: "ustring \<Rightarrow> ustring \<Rightarrow> 'w \<Rightarrow> ustring option \<times> 'w"

text \<open>One write after the other, up to the first exception; an unsafe name raises before its write.\<close>

fun stage_files :: "'w docker_env \<Rightarrow> ustring \<Rightarrow> (ustring \<times> file_content) list \<Rightarrow> 'w \<Rightarrow> unit result \<times> 'w" where
  "stage_files env dest [] w = (Inr (), w)"
| "stage_files env dest ((name, c) # files) w =
     (case safe_workspace_path dest name of
        Inl e \<Rightarrow> (Inl e, w)
      | Inr path \<Rightarrow>
          (case write_content env path c w of
             (Inl e, w') \<Rightarrow> (Inl e, w')
           | (Inr _, w') \<Rightarrow> stage_files env dest files w'))"

section \<open>Commands of a session\<close>

record exec_result =
  ex_code :: int
  ex_stdout :: ustring
  ex_stderr :: ustring
  ex_timed_out :: bool

definition timeout_text :: "string \<Rightarrow> int \<Rightarrow> ustring" where
  "timeout_text what limit = u what @ u '' timed out after '' @ show_int limit @ u ''s''"

definition session_exec ::
  "'w docker_env \<Rightarrow> ustring \<Rightarrow> ustring \<Rightarrow> ustring option \<Rightarrow> int \<Rightarrow> int \<Rightarrow> 'w \<Rightarrow> exec_result result \<times> 'w" where
  "session_exec env container cmd cwd limit out_limit w =
     (case dk_answers env (Exec_in container cmd cwd) limit w of
        (Exited rc out err, w') \<Rightarrow>
          (Inr \<lparr>ex_code = rc, ex_stdout = truncate_output out out_limit, ex_stderr = truncate_output err out_limit,
             ex_timed_out = False\<rparr>, w')
      | (Timed_out, w') \<Rightarrow>
          (Inr \<lparr>ex_code = 124, ex_stdout = truncate_output [] out_limit,
             ex_stderr = truncate_output (timeout_text ''command'' limit) out_limit, ex_timed_out = True\<rparr>, w')
      | (Not_started e, w') \<Rightarrow> (Inl e, w'))"

section \<open>The verifier of a session\<close>

record finish_params =
  fp_harness_files :: "(ustring \<times> file_content) list"
  fp_harness_mount :: ustring
  fp_test_command :: ustring
  fp_result_files :: "ustring list"
  fp_timeout :: int
  fp_out_limit :: int

record finish_result =
  fr_code :: int
  fr_stdout :: ustring
  fr_stderr :: ustring
  fr_files :: "(ustring \<times> ustring option) list"
  fr_timed_out :: bool
  fr_error :: "py_error option"

definition or_else :: "ustring \<Rightarrow> ustring \<Rightarrow> ustring" where
  "or_else s d = (if s = [] then d else s)"

definition verifier_mount :: "finish_params \<Rightarrow> ustring" where
  "verifier_mount p = or_else (fp_harness_mount p) (u ''/verifier'')"

definition verifier_command :: "finish_params \<Rightarrow> ustring" where
  "verifier_command p = or_else (fp_test_command p) (u ''bash '' @ verifier_mount p @ u ''/test.sh'')"

text \<open>Staging the harness, making the mount point (its exit code is not looked at) and copying the harness in.\<close>

definition inject_harness :: "'w docker_env \<Rightarrow> ustring \<Rightarrow> ustring \<Rightarrow> finish_params \<Rightarrow> 'w \<Rightarrow> unit result \<times> 'w" where
  "inject_harness env stage_dir container p w =
     (if fp_harness_files p = [] then (Inr (), w)
      else case make_dirs env stage_dir w of
        (Inl e, w1) \<Rightarrow> (Inl e, w1)
      | (Inr _, w1) \<Rightarrow>
      (case stage_files env stage_dir (fp_harness_files p) w1 of
        (Inl e, w2) \<Rightarrow> (Inl e, w2)
      | (Inr _, w2) \<Rightarrow>
      (case dk_answers env (Exec_in container (u ''mkdir -p '' @ verifier_mount p) None) 30 w2 of
        (Not_started e, w3) \<Rightarrow> (Inl e, w3)
      | (Timed_out, w3) \<Rightarrow> (Inl RuntimeError, w3)
      | (Exited _ _ _, w3) \<Rightarrow>
      (case dk_answers env (Copy_in (stage_dir @ u ''/.'') container (verifier_mount p)) 120 w3 of
        (Not_started e, w4) \<Rightarrow> (Inl e, w4)
      | (Timed_out, w4) \<Rightarrow> (Inl RuntimeError, w4)
      | (Exited rc _ _, w4) \<Rightarrow> (if rc \<noteq> 0 then Inl RuntimeError else Inr (), w4)))))"

fun collect_files ::
  "'w docker_env \<Rightarrow> ustring \<Rightarrow> ustring list \<Rightarrow> (ustring \<times> ustring option) list \<Rightarrow> 'w \<Rightarrow>
     (ustring \<times> ustring option) list \<times> 'w" where
  "collect_files env container [] acc w = (acc, w)"
| "collect_files env container (path # paths) acc w =
     (let (text, w') = copy_out env container path w
      in collect_files env container paths (AList.update path text acc) w')"

definition failed_finish :: "py_error \<Rightarrow> int \<Rightarrow> finish_result" where
  "failed_finish e out_limit =
     \<lparr>fr_code = - 1, fr_stdout = truncate_output [] out_limit, fr_stderr = truncate_output [] out_limit, fr_files = [],
      fr_timed_out = False, fr_error = Some e\<rparr>"

definition session_finish_body ::
  "'w docker_env \<Rightarrow> ustring \<Rightarrow> ustring \<Rightarrow> finish_params \<Rightarrow> 'w \<Rightarrow> finish_result \<times> 'w" where
  "session_finish_body env stage_dir container p w =
     (case inject_harness env stage_dir container p w of
        (Inl e, w1) \<Rightarrow> (failed_finish e (fp_out_limit p), w1)
      | (Inr _, w1) \<Rightarrow>
      (case dk_answers env (Exec_in container (verifier_command p) None) (fp_timeout p) w1 of
        (Not_started e, w2) \<Rightarrow> (failed_finish e (fp_out_limit p), w2)
      | (Timed_out, w2) \<Rightarrow>
          (let (files, w3) = collect_files env container (fp_result_files p) [] w2
           in (\<lparr>fr_code = 124, fr_stdout = truncate_output [] (fp_out_limit p),
                fr_stderr = truncate_output (timeout_text ''verifier'' (fp_timeout p)) (fp_out_limit p),
                fr_files = files, fr_timed_out = True, fr_error = None\<rparr>, w3))
      | (Exited rc out err, w2) \<Rightarrow>
          (let (files, w3) = collect_files env container (fp_result_files p) [] w2
           in (\<lparr>fr_code = rc, fr_stdout = truncate_output out (fp_out_limit p),
                fr_stderr = truncate_output err (fp_out_limit p),
                fr_files = files, fr_timed_out = False, fr_error = None\<rparr>, w3))))"

section \<open>One-shot image tasks\<close>

record image_params =
  ip_image :: ustring
  ip_result_files :: "ustring list"
  ip_entry_command :: ustring
  ip_timeout :: int
  ip_block_network :: bool

record image_result =
  ir_completed :: bool
  ir_code :: int
  ir_stdout :: ustring
  ir_stderr :: ustring
  ir_files :: "(ustring \<times> ustring option) list"

text \<open>The message a failed task carries in its stderr is left out.\<close>

definition failed_image :: image_result where
  "failed_image = \<lparr>ir_completed = False, ir_code = - 1, ir_stdout = [], ir_stderr = [], ir_files = []\<rparr>"

text \<open>Reading a result file: a name outside the output directory raises, a file that cannot be read is \<open>None\<close>.\<close>

fun read_results ::
  "'w docker_env \<Rightarrow> ustring \<Rightarrow> ustring list \<Rightarrow> (ustring \<times> ustring option) list \<Rightarrow> 'w \<Rightarrow>
     (ustring \<times> ustring option) list result" where
  "read_results env out_dir [] acc w = Inr acc"
| "read_results env out_dir (name # names) acc w =
     (case safe_workspace_path out_dir name of
        Inl e \<Rightarrow> Inl e
      | Inr path \<Rightarrow>
          (case read_text env path w of
             Inr text \<Rightarrow> read_results env out_dir names (AList.update name (Some text) acc) w
           | Inl OSError \<Rightarrow> read_results env out_dir names (AList.update name None acc) w
           | Inl e \<Rightarrow> Inl e))"

text \<open>The run of the container once the harness is staged and the image is held; one that hangs is removed.\<close>

definition run_image_task ::
  "'w docker_env \<Rightarrow> ustring \<Rightarrow> ustring \<Rightarrow> image_params \<Rightarrow> 'w \<Rightarrow> image_result \<times> 'w" where
  "run_image_task env out_dir container p w =
     (case dk_answers env (Run_image container (ip_image p) (ip_entry_command p) (ip_block_network p)) (ip_timeout p) w of
        (Exited rc out err, w1) \<Rightarrow>
          (case read_results env out_dir (ip_result_files p) [] w1 of
             Inl e \<Rightarrow> (failed_image, w1)
           | Inr files \<Rightarrow> (\<lparr>ir_completed = True, ir_code = rc, ir_stdout = out, ir_stderr = err, ir_files = files\<rparr>, w1))
      | (Timed_out, w1) \<Rightarrow> (failed_image, snd (dk_answers env (Remove_container container) 30 w1))
      | (Not_started e, w1) \<Rightarrow> (failed_image, w1))"

section \<open>The key of a build\<close>

definition key_text :: "file_content \<Rightarrow> ustring" where
  "key_text c = (case c of Text s \<Rightarrow> s | B64 s \<Rightarrow> s)"

definition build_key_input ::
  "ustring \<Rightarrow> (ustring \<times> file_content) list \<Rightarrow> (ustring \<times> ustring) list \<Rightarrow> ustring" where
  "build_key_input dockerfile files args =
     dockerfile @
     concat (map (\<lambda>name. 0 # name @ 0 # key_text (the (map_of files name))) (sort (map fst files))) @
     concat (map (\<lambda>k. 0 # k @ u ''='' @ the (map_of args k)) (sort (map fst args)))"

definition build_key :: "(ustring \<Rightarrow> ustring) \<Rightarrow> ustring \<Rightarrow> (ustring \<times> file_content) list \<Rightarrow> (ustring \<times> ustring) list \<Rightarrow> ustring" where
  "build_key hexdigest dockerfile files args = take 24 (hexdigest (build_key_input dockerfile files args))"

section \<open>Confinement of staged files\<close>

definition below :: "ustring \<Rightarrow> ustring \<Rightarrow> bool" where
  "below base path \<longleftrightarrow> path = base \<or> (\<exists>r. path = base @ slash # r \<and> (\<forall>part\<in>set (split_on slash r). plain part))"

lemma safe_path_below:
  assumes "base = slash # b" and "b \<noteq> []" and "safe_workspace_path base name = Inr path"
  shows "below base path"
  using workspace_path_confined [OF assms] by (auto simp: below_def plain_def)

text \<open>C18: Whatever names and contents a client sends, staging a harness or a build context writes at no path outside the
  staging directory: a fact about the files that every write below the directory keeps is kept by the
  whole staging, also when it raises half way.\<close>

theorem staged_files_confined:
  assumes "base = slash # b" and "b \<noteq> []"
    and "\<And>path c w. below base path \<Longrightarrow> I w \<Longrightarrow> I (snd (write_content env path c w))"
    and "I w"
  shows "I (snd (stage_files env base files w))"
  using assms(4)
proof (induction files arbitrary: w)
  case Nil
  then show ?case by simp
next
  case (Cons f files)
  obtain name c where f: "f = (name, c)" by (cases f)
  show ?case
  proof (cases "safe_workspace_path base name")
    case (Inl e)
    then show ?thesis using Cons.prems f by simp
  next
    case (Inr path)
    obtain r w' where wr: "write_content env path c w = (r, w')" by fastforce
    have "I w'"
      using assms(3) [OF safe_path_below [OF assms(1,2) Inr] Cons.prems, of c] wr by simp
    then show ?thesis using Cons.IH [of w'] f Inr wr by (cases r) simp_all
  qed
qed

text \<open>An environment that records the paths it writes.\<close>

definition tracing_env :: "ustring list docker_env" where
  "tracing_env = \<lparr>dk_answers = \<lambda>c limit w. (Exited 0 [] [], w), make_dirs = \<lambda>d w. (Inr (), w),
     write_content = \<lambda>path c w. (Inr (), w @ [path]), read_text = \<lambda>path w. Inl OSError,
     copy_out = \<lambda>c path w. (None, w)\<rparr>"

theorem staged_files_confined_witness:
  "stage_files tracing_env (u ''/w'') [(u ''a'', Text []), (u ''../b'', Text [])] [] = (Inl ValueError, [u ''/w/a'']) \<and>
   below (u ''/w'') (u ''/w/a'')"
proof -
  let ?I = "\<lambda>w. \<forall>path\<in>set w. below (u ''/w'') path"
  have e: "stage_files tracing_env (u ''/w'') [(u ''a'', Text []), (u ''../b'', Text [])] [] = (Inl ValueError, [u ''/w/a''])"
    by code_simp
  have "?I (snd (stage_files tracing_env (u ''/w'') [(u ''a'', Text []), (u ''../b'', Text [])] []))"
    by (rule staged_files_confined [of _ "u ''w''"]) (simp_all add: u_def slash_def tracing_env_def)
  then show ?thesis unfolding e by simp
qed

section \<open>The verifier runs behind its harness\<close>

lemma inject_harness_Inr:
  assumes "inject_harness env stage_dir container p w = (Inr (), w')" and "fp_harness_files p \<noteq> []"
  shows "\<exists>v out err. dk_answers env (Copy_in (stage_dir @ u ''/.'') container (verifier_mount p)) 120 v
     = (Exited 0 out err, w')"
  using assms by (auto simp: inject_harness_def split: prod.splits sum.splits dk_answer.splits if_splits)

text \<open>A \<open>finish\<close> that reports no error has copied the verifier's files into the container and then run the verifier's
  command, whose exit code it reports (124 when it timed out); one that reports an error reports the exit
  code -1 and no result file, so that no verdict can be read from a verifier that was not in place.\<close>

lemma finish_verdict_from_injected_verifier:
  assumes "session_finish_body env stage_dir container p w = (r, w')"
  shows "case fr_error r of
      Some e \<Rightarrow> fr_code r = - 1 \<and> fr_files r = [] \<and> \<not> fr_timed_out r
    | None \<Rightarrow> (\<exists>v v'. inject_harness env stage_dir container p w = (Inr (), v) \<and>
        (fp_harness_files p = [] \<or> (\<exists>x out err.
          dk_answers env (Copy_in (stage_dir @ u ''/.'') container (verifier_mount p)) 120 x = (Exited 0 out err, v))) \<and>
        (if fr_timed_out r
         then dk_answers env (Exec_in container (verifier_command p) None) (fp_timeout p) v = (Timed_out, v') \<and> fr_code r = 124
         else \<exists>out err. dk_answers env (Exec_in container (verifier_command p) None) (fp_timeout p) v
           = (Exited (fr_code r) out err, v')))"
proof (cases "inject_harness env stage_dir container p w")
  case (Pair res v)
  show ?thesis
  proof (cases res)
    case (Inl e)
    then show ?thesis using assms Pair by (auto simp: session_finish_body_def failed_finish_def)
  next
    case (Inr x)
    have inject: "inject_harness env stage_dir container p w = (Inr (), v)" using Pair Inr by simp
    have copied: "fp_harness_files p = [] \<or> (\<exists>x out err.
        dk_answers env (Copy_in (stage_dir @ u ''/.'') container (verifier_mount p)) 120 x = (Exited 0 out err, v))"
      using inject_harness_Inr [OF inject] by (cases "fp_harness_files p = []") simp_all
    obtain a v' where a: "dk_answers env (Exec_in container (verifier_command p) None) (fp_timeout p) v = (a, v')"
      by fastforce
    obtain files v'' where c: "collect_files env container (fp_result_files p) [] v' = (files, v'')"
      by fastforce
    show ?thesis
      using assms inject copied a c
      by (cases a) (auto simp: session_finish_body_def failed_finish_def)
  qed
qed

lemma finish_verdict_from_injected_verifier_witness:
  "fr_error (fst (session_finish_body tracing_env (u ''/w'') (u ''c'') \<lparr>fp_harness_files = [(u ''t'', Text [])],
      fp_harness_mount = [], fp_test_command = [], fp_result_files = [], fp_timeout = 9, fp_out_limit = 9\<rparr> [])) = None \<and>
   (\<exists>v. inject_harness tracing_env (u ''/w'') (u ''c'') \<lparr>fp_harness_files = [(u ''t'', Text [])],
      fp_harness_mount = [], fp_test_command = [], fp_result_files = [], fp_timeout = 9, fp_out_limit = 9\<rparr> [] = (Inr (), v))"
proof -
  let ?p = "\<lparr>fp_harness_files = [(u ''t'', Text [])], fp_harness_mount = [], fp_test_command = [],
      fp_result_files = [], fp_timeout = 9, fp_out_limit = 9\<rparr>"
  obtain r w' where r: "session_finish_body tracing_env (u ''/w'') (u ''c'') ?p [] = (r, w')" by fastforce
  have "fr_error (fst (session_finish_body tracing_env (u ''/w'') (u ''c'') ?p [])) = None" by code_simp
  then show ?thesis
    using finish_verdict_from_injected_verifier [OF r] r by auto
qed

section \<open>Keys of builds\<close>

text \<open>The key does not depend on the order in which files and arguments are listed.\<close>

lemma build_key_order:
  assumes "mset files = mset files'" and "distinct (map fst files)" and "mset args = mset args'" and "distinct (map fst args)"
  shows "build_key hexdigest dockerfile files args = build_key hexdigest dockerfile files' args'"
proof -
  have same: "sort (map fst xs) = sort (map fst ys) \<and> map_of xs = map_of ys"
    if "mset xs = mset ys" "distinct (map fst xs)" for xs ys :: "(ustring \<times> 'b) list"
  proof
    have m: "mset (map fst xs) = mset (map fst ys)" using that(1) by (metis mset_map)
    show "sort (map fst xs) = sort (map fst ys)"
      using m by (metis sorted_list_of_multiset_mset)
    have "distinct (map fst ys)" using m that(2) mset_eq_imp_distinct_iff by blast
    then show "map_of xs = map_of ys"
      using that by (metis map_of_inject_set mset_eq_setD)
  qed
  show ?thesis
    unfolding build_key_def build_key_input_def
    using same [OF assms(1,2)] same [OF assms(3,4)] by simp
qed

text \<open>A text file and a binary file whose base64 form is that text give the same key, so the second environment is
  given the image of the first.\<close>

lemma build_key_text_and_b64_collide:
  "build_key hexdigest dockerfile [(name, Text s)] args = build_key hexdigest dockerfile [(name, B64 s)] args"
  by (simp add: build_key_def build_key_input_def key_text_def)

end
