(* ===== verification/Sandbox_Tasks.thy ===== *)
theory Sandbox_Tasks
  imports Sandbox_Sessions
begin

text \<open>
  The store of submitted tasks of the sandbox task executor
  (\<open>ubuntu-base/scripts/tools/task_executor.py\<close>): the REST operations on \<open>_tasks\<close>, the eviction of old
  results, and the worker threads with the directory each of them creates and removes, as a machine whose
  events are the regions run under \<open>_tasks_lock\<close>. Of a task record the status and the creation time are
  modelled; the fields of the result are those of \<^verbatim>\<open>Sandbox_Grading\<close>.
\<close>

section \<open>State\<close>

datatype store_status = Task_pending | Task_running | Task_completed | Task_failed

record task =
  task_status :: store_status
  task_created :: rat

datatype worker = Spawned | Preparing | Working | Removing

record store =
  tasks :: "(string \<times> task) list"
  workers :: "(string \<times> worker) list"
  task_dirs :: "string list"
  issued_ids :: "string list"

definition empty_store :: store where
  "empty_store = \<lparr>tasks = [], workers = [], task_dirs = [], issued_ids = []\<rparr>"

definition unfinished :: "task \<Rightarrow> bool" where
  "unfinished t \<longleftrightarrow> task_status t \<in> {Task_pending, Task_running}"

section \<open>Operations\<close>

definition evict_old_tasks :: "rat \<Rightarrow> store \<Rightarrow> store" where
  "evict_old_tasks cutoff st =
     st\<lparr>tasks := filter (\<lambda>(tid, t). \<not> (\<not> unfinished t \<and> task_created t < cutoff)) (tasks st)\<rparr>"

definition submit_task :: "rat \<Rightarrow> rat \<Rightarrow> string \<Rightarrow> store \<Rightarrow> store" where
  "submit_task now max_age tid st =
     (let st' = evict_old_tasks (now - max_age) st
      in st'\<lparr>tasks := AList.update tid \<lparr>task_status = Task_pending, task_created = now\<rparr> (tasks st'),
             workers := AList.update tid Spawned (workers st'), issued_ids := issued_ids st' @ [tid]\<rparr>)"

text \<open>\<open>_update\<close> of the worker: \<open>None\<close> is the \<open>KeyError\<close> of a task that is no longer in the store.\<close>

definition update_status :: "string \<Rightarrow> store_status \<Rightarrow> store \<Rightarrow> store option" where
  "update_status tid s st =
     (case map_of (tasks st) tid of
        None \<Rightarrow> None
      | Some t \<Rightarrow> Some (st\<lparr>tasks := AList.update tid (t\<lparr>task_status := s\<rparr>) (tasks st)\<rparr>))"

definition end_worker :: "string \<Rightarrow> store \<Rightarrow> store" where
  "end_worker tid st = st\<lparr>workers := AList.delete tid (workers st)\<rparr>"

definition set_worker :: "string \<Rightarrow> worker \<Rightarrow> store \<Rightarrow> store" where
  "set_worker tid w st = st\<lparr>workers := AList.update tid w (workers st)\<rparr>"

definition worker_begins :: "string \<Rightarrow> store \<Rightarrow> store" where
  "worker_begins tid st =
     (case update_status tid Task_running st of
        None \<Rightarrow> end_worker tid st
      | Some st' \<Rightarrow> set_worker tid Preparing st')"

definition make_task_dir :: "string \<Rightarrow> store \<Rightarrow> store" where
  "make_task_dir tid st = set_worker tid Working (st\<lparr>task_dirs := task_dirs st @ [tid]\<rparr>)"

text \<open>The \<open>finally\<close> block: the update, then the removal of the directory, which a raising update skips.\<close>

definition worker_finishes :: "string \<Rightarrow> bool \<Rightarrow> store \<Rightarrow> store" where
  "worker_finishes tid ok st =
     (case update_status tid (if ok then Task_completed else Task_failed) st of
        None \<Rightarrow> end_worker tid st
      | Some st' \<Rightarrow> set_worker tid Removing st')"

definition remove_task_dir :: "string \<Rightarrow> store \<Rightarrow> store" where
  "remove_task_dir tid st = end_worker tid (st\<lparr>task_dirs := removeAll tid (task_dirs st)\<rparr>)"

definition delete_task :: "string \<Rightarrow> store \<Rightarrow> store \<times> http" where
  "delete_task tid st =
     (if tid \<notin> fst ` set (tasks st) then (st, NOT_FOUND)
      else (st\<lparr>tasks := AList.delete tid (tasks st)\<rparr>, OK))"

definition task_result :: "store \<Rightarrow> string \<Rightarrow> http + task" where
  "task_result st tid =
     (case map_of (tasks st) tid of
        None \<Rightarrow> Inl NOT_FOUND
      | Some t \<Rightarrow> if unfinished t then Inl ACCEPTED else Inr t)"

section \<open>The machine\<close>

datatype task_event =
    Submit string rat rat
  | Worker_begins string
  | Make_dir string
  | Worker_finishes string bool
  | Worker_aborts string
  | Remove_dir string
  | Delete_task string

text \<open>\<open>Worker_aborts\<close> is the image task whose \<open>_release_image\<close> raises in the \<open>finally\<close> block, before the update, or
  whose \<open>pull_timeout\<close> is not a number, which raises before its first update.\<close>

fun task_step :: "task_event \<Rightarrow> store \<Rightarrow> store option" where
  "task_step (Submit tid now max_age) st =
     (if tid \<in> set (issued_ids st) then None else Some (submit_task now max_age tid st))"
| "task_step (Worker_begins tid) st =
     (case map_of (workers st) tid of Some Spawned \<Rightarrow> Some (worker_begins tid st) | _ \<Rightarrow> None)"
| "task_step (Make_dir tid) st =
     (case map_of (workers st) tid of Some Preparing \<Rightarrow> Some (make_task_dir tid st) | _ \<Rightarrow> None)"
| "task_step (Worker_finishes tid ok) st =
     (case map_of (workers st) tid of
        Some Preparing \<Rightarrow> Some (worker_finishes tid ok st)
      | Some Working \<Rightarrow> Some (worker_finishes tid ok st)
      | _ \<Rightarrow> None)"
| "task_step (Worker_aborts tid) st =
     (case map_of (workers st) tid of
        Some Spawned \<Rightarrow> Some (end_worker tid st)
      | Some Working \<Rightarrow> Some (end_worker tid st)
      | _ \<Rightarrow> None)"
| "task_step (Remove_dir tid) st =
     (case map_of (workers st) tid of Some Removing \<Rightarrow> Some (remove_task_dir tid st) | _ \<Rightarrow> None)"
| "task_step (Delete_task tid) st = Some (fst (delete_task tid st))"



section \<open>Invariant\<close>









lemma map_of_store [simp]:
  "map_of (AList.update k v al) x = (if x = k then Some v else map_of al x)"
  "map_of (AList.delete k al) x = (if x = k then None else map_of al x)"
  by (simp_all add: AList.update_conv' AList.delete_conv')










fun task_run :: "task_event list \<Rightarrow> store \<Rightarrow> store option" where
  "task_run [] st = Some st"
| "task_run (ev # evs) st = (case task_step ev st of None \<Rightarrow> None | Some st' \<Rightarrow> task_run evs st')"




text \<open>Deleting a running task makes the worker's last update raise: its directory is never removed.\<close>

lemma deleted_task_leaks_directory:
  "\<exists>st. task_run [Submit ''t'' 0 9, Worker_begins ''t'', Make_dir ''t'', Delete_task ''t'', Worker_finishes ''t'' True]
      empty_store = Some st \<and> tasks st = [] \<and> workers st = [] \<and> task_dirs st = [''t'']"
  by (simp add: empty_store_def submit_task_def evict_old_tasks_def worker_begins_def update_status_def
      set_worker_def make_task_dir_def delete_task_def worker_finishes_def end_worker_def)

text \<open>A worker that dies before its first update leaves the task pending, and eviction never takes it.\<close>

lemma dead_worker_leaves_task_pending:
  "\<exists>st t. task_run [Submit ''t'' 0 9, Worker_aborts ''t''] empty_store = Some st \<and> workers st = [] \<and>
     map_of (tasks st) ''t'' = Some t \<and> task_status t = Task_pending \<and>
     (\<forall>cutoff. map_of (tasks (evict_old_tasks cutoff st)) ''t'' = Some t)"
  by (simp add: empty_store_def submit_task_def evict_old_tasks_def end_worker_def unfinished_def)

text \<open>A release that raises in the \<open>finally\<close> block leaves the task running for ever.\<close>

lemma raising_release_leaves_task_running:
  "\<exists>st t. task_run [Submit ''t'' 0 9, Worker_begins ''t'', Make_dir ''t'', Worker_aborts ''t''] empty_store = Some st \<and>
     workers st = [] \<and> task_dirs st = [''t''] \<and> map_of (tasks st) ''t'' = Some t \<and> task_status t = Task_running"
  by (simp add: empty_store_def submit_task_def evict_old_tasks_def worker_begins_def update_status_def
      set_worker_def make_task_dir_def end_worker_def)

end
