(* ===== verification/Cua_Actions.thy ===== *)
theory Cua_Actions
  imports Sandbox_Text "HOL-Library.AList"
begin

text \<open>
  The actions of the computer-use agent: \<open>experience/cua/actions/pyautogui_parse.py\<close>, which finds the code and the
  control token of a turn, and the first stage of \<open>experience/cua/actions/cc_transpile.py\<close>, which turns the
  calls of a pyautogui program into commands of the control-center grammar. The program has been
  parsed by \<open>ast\<close>: a call is its name and its literal arguments, \<open>V_unresolved\<close> standing for one that is not a literal.
  Floats are exact rationals; \<open>float_of\<close> reads the decimal text of a float.
\<close>

section \<open>A turn of the agent\<close>

definition fence :: ustring where "fence = u ''```''"

text \<open>The text after an opening fence, its language tag and a run of blanks with a line end.\<close>

definition after_tag :: "ustring \<Rightarrow> ustring \<Rightarrow> ustring option" where
  "after_tag tag s =
     (if starts_with s tag \<and> 10 \<in> set (takeWhile py_space (drop (length tag) s))
      then Some (drop (length tag) s) else None)"

definition fence_body :: "ustring \<Rightarrow> ustring option" where
  "fence_body s =
     (case List.map_filter (\<lambda>tag. after_tag tag s) [u ''python'', u ''py'', u ''pyautogui'', []] of
        [] \<Rightarrow> None
      | r # _ \<Rightarrow> map_option fst (find_sub fence r))"

text \<open>\<open>_CODE_FENCE_RE.search\<close>: the first position at which the expression matches, the text up to the next fence.\<close>

fun search_fence :: "ustring \<Rightarrow> ustring option" where
  "search_fence [] = None"
| "search_fence (c # s) =
     (if starts_with (c # s) fence \<and> fence_body (drop 3 (c # s)) \<noteq> None
      then fence_body (drop 3 (c # s)) else search_fence s)"

datatype control = Wait | Fail | Done

text \<open>A line of the text that holds one control token between blanks; a blank may also be a line end.\<close>

definition control_of :: "ustring \<Rightarrow> control option" where
  "control_of line =
     (if line = u ''WAIT'' then Some Wait
      else if line = u ''FAIL'' then Some Fail
      else if line = u ''DONE'' then Some Done else None)"

definition search_token :: "ustring \<Rightarrow> control option" where
  "search_token text =
     (case List.map_filter (\<lambda>line. control_of (strip line)) (split_on 10 text) of [] \<Rightarrow> None | t # _ \<Rightarrow> Some t)"

record parsed_action =
  pa_code :: ustring
  pa_control :: "control option"
  pa_raw :: ustring

definition parse_action :: "ustring \<Rightarrow> parsed_action" where
  "parse_action text =
     \<lparr>pa_code = (case search_fence text of None \<Rightarrow> [] | Some body \<Rightarrow> strip body),
      pa_control = search_token text, pa_raw = text\<rparr>"

definition is_terminal :: "parsed_action \<Rightarrow> bool" where
  "is_terminal a \<longleftrightarrow> pa_control a = Some Fail \<or> pa_control a = Some Done"

definition is_noop :: "parsed_action \<Rightarrow> bool" where
  "is_noop a \<longleftrightarrow> pa_code a = [] \<and> pa_control a = None"

section \<open>Python values\<close>

datatype py_val =
    V_none
  | V_bool bool
  | V_int int
  | V_float rat
  | V_str ustring
  | V_list "py_val list"
  | V_unresolved

definition round_half_even :: "rat \<Rightarrow> int" where
  "round_half_even x =
     (let f = floor x; d = x - of_int f
      in if d < 1 / 2 then f else if d > 1 / 2 then f + 1 else if even f then f else f + 1)"

definition to_float :: "(ustring \<Rightarrow> rat option) \<Rightarrow> py_val \<Rightarrow> rat result" where
  "to_float float_of v =
     (case v of
        V_int i \<Rightarrow> Inr (of_int i)
      | V_float q \<Rightarrow> Inr q
      | V_bool b \<Rightarrow> Inr (of_bool b)
      | V_str s \<Rightarrow> (case float_of s of None \<Rightarrow> Inl ValueError | Some q \<Rightarrow> Inr q)
      | _ \<Rightarrow> Inl TypeError)"

text \<open>\<open>int\<close> of a decimal text, without underscores.\<close>

definition text_to_int :: "ustring \<Rightarrow> int option" where
  "text_to_int s =
     (let t = strip s;
          sgn = (if starts_with t (u ''-'') then - 1 else 1);
          ds = (if starts_with t (u ''-'') \<or> starts_with t (u ''+'') then tl t else t)
      in if ds \<noteq> [] \<and> list_all is_digit ds then Some (sgn * int (digits_val ds)) else None)"

definition to_int :: "py_val \<Rightarrow> int result" where
  "to_int v =
     (case v of
        V_int i \<Rightarrow> Inr i
      | V_float q \<Rightarrow> Inr (if 0 \<le> q then floor q else - floor (- q))
      | V_bool b \<Rightarrow> Inr (of_bool b)
      | V_str s \<Rightarrow> (case text_to_int s of None \<Rightarrow> Inl ValueError | Some i \<Rightarrow> Inr i)
      | _ \<Rightarrow> Inl TypeError)"

definition py_truthy :: "py_val \<Rightarrow> bool" where
  "py_truthy v = (v \<notin> {V_none, V_bool False, V_int 0, V_float 0, V_str [], V_list []})"

section \<open>Calls to grammar commands\<close>

record screen_sizes =
  screen_size :: "(int \<times> int) option"
  target_size :: "(int \<times> int) option"

record builder =
  cur :: "(int \<times> int) option"
  commands :: "ustring list"

definition emit :: "ustring list \<Rightarrow> builder \<Rightarrow> builder" where
  "emit cs b = b\<lparr>commands := commands b @ cs\<rparr>"

definition words :: "ustring list \<Rightarrow> ustring" where
  "words ws = join [32] ws"

definition here :: "string \<Rightarrow> ustring" where
  "here act = words [u ''here'', u act]"

definition at_point :: "int \<times> int \<Rightarrow> ustring list \<Rightarrow> ustring" where
  "at_point p ws = words (show_int (fst p) # show_int (snd p) # ws)"

definition get_arg :: "py_val list \<Rightarrow> (ustring \<times> py_val) list \<Rightarrow> nat \<Rightarrow> string \<Rightarrow> py_val \<Rightarrow> py_val" where
  "get_arg args kwargs i name dflt =
     (if i < length args \<and> args ! i \<noteq> V_unresolved then args ! i
      else case map_of kwargs (u name) of None \<Rightarrow> dflt | Some v \<Rightarrow> v)"

definition scale_factor :: "screen_sizes \<Rightarrow> (rat \<times> rat)" where
  "scale_factor sz =
     (case (screen_size sz, target_size sz) of
        (Some (sw, sh), Some (tw, th)) \<Rightarrow>
          if sw \<noteq> 0 \<and> sh \<noteq> 0 then (of_int tw / of_int sw, of_int th / of_int sh) else (1, 1)
      | _ \<Rightarrow> (1, 1))"

definition scale_point :: "screen_sizes \<Rightarrow> rat \<times> rat \<Rightarrow> int \<times> int" where
  "scale_point sz p =
     (round_half_even (fst p * fst (scale_factor sz)), round_half_even (snd p * snd (scale_factor sz)))"

definition scale ::
  "(ustring \<Rightarrow> rat option) \<Rightarrow> screen_sizes \<Rightarrow> py_val \<Rightarrow> py_val \<Rightarrow> builder \<Rightarrow> (builder \<times> int \<times> int) result" where
  "scale fo sz x y b =
     bind_res (to_float fo x) (\<lambda>fx. bind_res (to_float fo y) (\<lambda>fy.
       let p = scale_point sz (fx, fy) in Inr (b\<lparr>cur := Some p\<rparr>, p)))"

definition button_action :: "ustring \<Rightarrow> ustring" where
  "button_action button = (if button = u ''right'' \<or> button = u ''middle'' then button else u ''left'')"

definition do_click ::
  "(ustring \<Rightarrow> rat option) \<Rightarrow> screen_sizes \<Rightarrow> py_val \<Rightarrow> py_val \<Rightarrow> ustring \<Rightarrow> int \<Rightarrow> builder \<Rightarrow> builder result" where
  "do_click fo sz x y button clicks b =
     (let act = button_action button;
          more_clicks = replicate (nat (clicks - 2)) (here ''left'')
      in if x = V_none \<or> y = V_none
         then Inr (emit ((if clicks = 1 then words [u ''here'', act]
                          else if 2 \<le> clicks then here ''double'' else words [u ''here'', act]) # more_clicks) b)
         else bind_res (scale fo sz x y b) (\<lambda>(b', p).
           Inr (emit (if clicks \<le> 1 then [at_point p [act]] else at_point p [u ''double''] # more_clicks) b')))"

definition do_move ::
  "(ustring \<Rightarrow> rat option) \<Rightarrow> screen_sizes \<Rightarrow> py_val \<Rightarrow> py_val \<Rightarrow> builder \<Rightarrow> builder result" where
  "do_move fo sz x y b =
     bind_res (scale fo sz x y b) (\<lambda>(b', p). Inr (emit [at_point p [u ''move'']] b'))"

definition do_drag_to ::
  "(ustring \<Rightarrow> rat option) \<Rightarrow> screen_sizes \<Rightarrow> py_val \<Rightarrow> py_val \<Rightarrow> builder \<Rightarrow> builder result" where
  "do_drag_to fo sz x y b =
     bind_res (scale fo sz x y b) (\<lambda>(b', p).
       Inr (emit (case cur b of
           Some start \<Rightarrow> [at_point start [u ''drag'', show_int (fst p), show_int (snd p)]]
         | None \<Rightarrow> [here ''hold'', at_point p [u ''move''], here ''release'']) b'))"

definition do_drag_rel ::
  "(ustring \<Rightarrow> rat option) \<Rightarrow> screen_sizes \<Rightarrow> py_val \<Rightarrow> py_val \<Rightarrow> builder \<Rightarrow> builder result" where
  "do_drag_rel fo sz dx dy b =
     (case cur b of
        None \<Rightarrow> Inr b
      | Some (x, y) \<Rightarrow>
          bind_res (to_float fo dx) (\<lambda>fx. bind_res (to_float fo dy) (\<lambda>fy.
            do_drag_to fo sz (V_float (of_int x + fx)) (V_float (of_int y + fy)) b)))"

definition do_scroll ::
  "(ustring \<Rightarrow> rat option) \<Rightarrow> screen_sizes \<Rightarrow> py_val \<Rightarrow> py_val \<Rightarrow> py_val \<Rightarrow> builder \<Rightarrow> builder result" where
  "do_scroll fo sz clicks x y b =
     (case to_int clicks of
        Inl e \<Rightarrow> Inr b
      | Inr n \<Rightarrow>
          (let direction = u (if 0 \<le> n then ''scroll_up'' else ''scroll_down'');
               count = show_int (if n = 0 then 1 else \<bar>n\<bar>)
           in if x \<noteq> V_none \<and> y \<noteq> V_none
              then bind_res (scale fo sz x y b) (\<lambda>(b', p). Inr (emit [at_point p [direction, count]] b'))
              else Inr (emit [words [u ''here'', direction, count]] b)))"

definition do_type :: "py_val \<Rightarrow> builder \<Rightarrow> builder" where
  "do_type v b = (case v of V_str s \<Rightarrow> emit [u ''type '' @ s] b | _ \<Rightarrow> b)"

text \<open>The tables of key names.\<close>

definition braced :: "string \<Rightarrow> ustring" where
  "braced s = u ''{'' @ u s @ u ''}''"

definition key_table :: "(ustring \<times> ustring) list" where
  "key_table =
     [(u ''enter'', braced ''Enter''), (u ''return'', braced ''Enter''), ([10], braced ''Enter''), (u ''tab'', braced ''Tab''),
      (u ''esc'', braced ''Esc''), (u ''escape'', braced ''Esc''), (u ''backspace'', braced ''Backspace''),
      (u ''delete'', braced ''Delete''), (u ''del'', braced ''Delete''), (u ''space'', braced ''Space''),
      (u '' '', braced ''Space''), (u ''up'', braced ''Up''), (u ''down'', braced ''Down''), (u ''left'', braced ''Left''),
      (u ''right'', braced ''Right''), (u ''home'', braced ''Home''), (u ''end'', braced ''End''),
      (u ''pageup'', braced ''PgUp''), (u ''pgup'', braced ''PgUp''), (u ''pagedown'', braced ''PgDn''),
      (u ''pgdn'', braced ''PgDn''), (u ''insert'', braced ''Insert''), (u ''capslock'', braced ''CapsLock''),
      (u ''printscreen'', braced ''PrintScreen''), (u ''prtsc'', braced ''PrintScreen''), (u ''pause'', braced ''Pause'')] @
     map (\<lambda>n. (u ''f'' @ show_nat n, u ''{F'' @ show_nat n @ u ''}'')) [1..<13] @
     [(u ''ctrl'', braced ''LCtrl''), (u ''control'', braced ''LCtrl''), (u ''ctrlleft'', braced ''LCtrl''),
      (u ''ctrlright'', braced ''RCtrl''), (u ''alt'', braced ''LAlt''), (u ''altleft'', braced ''LAlt''),
      (u ''altright'', braced ''RAlt''), (u ''option'', braced ''LAlt''), (u ''shift'', braced ''LShift''),
      (u ''shiftleft'', braced ''LShift''), (u ''shiftright'', braced ''RShift''), (u ''win'', braced ''LWin''),
      (u ''winleft'', braced ''LWin''), (u ''winright'', braced ''RWin''), (u ''super'', braced ''LWin''),
      (u ''command'', braced ''LWin''), (u ''cmd'', braced ''LWin''), (u ''meta'', braced ''LWin'')]"

definition modifier_table :: "(ustring \<times> ustring) list" where
  "modifier_table =
     [(u ''ctrl'', u ''^''), (u ''control'', u ''^''), (u ''ctrlleft'', u ''^''), (u ''ctrlright'', u ''^''),
      (u ''shift'', u ''+''), (u ''shiftleft'', u ''+''), (u ''shiftright'', u ''+''),
      (u ''alt'', u ''!''), (u ''altleft'', u ''!''), (u ''altright'', u ''!''), (u ''option'', u ''!''),
      (u ''win'', u ''#''), (u ''winleft'', u ''#''), (u ''winright'', u ''#''), (u ''super'', u ''#''),
      (u ''command'', u ''#''), (u ''cmd'', u ''#''), (u ''meta'', u ''#'')]"

definition key_token :: "ustring \<Rightarrow> ustring" where
  "key_token k = (case map_of key_table (lower k) of Some t \<Rightarrow> t | None \<Rightarrow> k)"

definition modifier_symbol :: "ustring \<Rightarrow> ustring" where
  "modifier_symbol k = (case map_of modifier_table (lower k) of Some t \<Rightarrow> t | None \<Rightarrow> [])"

fun strings_of :: "py_val list \<Rightarrow> ustring list" where
  "strings_of [] = []"
| "strings_of (V_str s # vs) = s # strings_of vs"
| "strings_of (v # vs) = strings_of vs"

definition do_press :: "py_val \<Rightarrow> builder \<Rightarrow> builder" where
  "do_press keys b =
     (let ks = (case keys of V_list vs \<Rightarrow> vs | v \<Rightarrow> [v])
      in emit (map (\<lambda>k. u ''press '' @ key_token k) (strings_of ks)) b)"

definition do_hotkey :: "py_val list \<Rightarrow> builder \<Rightarrow> builder" where
  "do_hotkey keys b =
     (let ks = strings_of keys
      in if ks = [] then b
         else emit [u ''press '' @ concat (map modifier_symbol (butlast ks)) @ key_token (last ks)] b)"

record call =
  call_name :: ustring
  call_args :: "py_val list"
  call_kwargs :: "(ustring \<times> py_val) list"

text \<open>The calls of a program as \<open>ast\<close> gives them: what is called, each argument a literal or not, and where it stands.
  \<open>_call_info\<close> evaluates the literals; a starred argument gives up on the rest.\<close>

datatype ast_func = Attribute ustring | Name ustring | Other_func

datatype ast_arg = Literal py_val | Computed | Starred

record ast_call =
  ast_callee :: ast_func
  ast_args :: "ast_arg list"
  ast_keywords :: "(ustring option \<times> ast_arg) list"
  lineno :: nat
  col_offset :: nat

definition literal_eval :: "ast_arg \<Rightarrow> py_val" where
  "literal_eval a = (case a of Literal v \<Rightarrow> v | _ \<Rightarrow> V_unresolved)"

definition callee_name :: "ast_func \<Rightarrow> ustring option" where
  "callee_name f = (case f of Attribute n \<Rightarrow> Some n | Name n \<Rightarrow> Some n | Other_func \<Rightarrow> None)"

definition call_info :: "ast_call \<Rightarrow> call option" where
  "call_info node =
     map_option (\<lambda>name.
       if Starred \<in> set (ast_args node)
       then \<lparr>call_name = name, call_args = [V_unresolved], call_kwargs = []\<rparr>
       else \<lparr>call_name = name, call_args = map literal_eval (ast_args node),
             call_kwargs = List.map_filter (\<lambda>(k, a). map_option (\<lambda>n. (n, literal_eval a)) k) (ast_keywords node)\<rparr>)
     (callee_name (ast_callee node))"

text \<open>The calls in the order of their positions; calls at one position stay in the order of \<open>ast.walk\<close>.\<close>

definition program_calls :: "ast_call list \<Rightarrow> call list" where
  "program_calls nodes = List.map_filter call_info (sort_key lineno (sort_key col_offset nodes))"

definition button_text :: "py_val \<Rightarrow> ustring" where
  "button_text v = (case v of V_str s \<Rightarrow> s | _ \<Rightarrow> [])"

definition press_at ::
  "(ustring \<Rightarrow> rat option) \<Rightarrow> screen_sizes \<Rightarrow> py_val \<Rightarrow> py_val \<Rightarrow> string \<Rightarrow> builder \<Rightarrow> builder result" where
  "press_at fo sz x y act b =
     bind_res (if x \<noteq> V_none \<and> y \<noteq> V_none then do_move fo sz x y b else Inr b) (\<lambda>b'. Inr (emit [here act] b'))"

definition dispatch :: "(ustring \<Rightarrow> rat option) \<Rightarrow> screen_sizes \<Rightarrow> call \<Rightarrow> builder \<Rightarrow> builder result" where
  "dispatch fo sz c b =
     (let name = call_name c;
          arg = get_arg (call_args c) (call_kwargs c);
          x = arg 0 ''x'' V_none; y = arg 1 ''y'' V_none
      in if name = u ''click'' \<or> name = u ''leftClick'' then
           (let button = arg 4 ''button'' (V_str (u ''left''));
                cl = arg 2 ''clicks'' (V_int 1)
            in bind_res (to_int (if py_truthy cl then cl else V_int 1)) (\<lambda>n. do_click fo sz x y (button_text button) n b))
         else if name = u ''rightClick'' then do_click fo sz x y (u ''right'') 1 b
         else if name = u ''middleClick'' then do_click fo sz x y (u ''middle'') 1 b
         else if name = u ''doubleClick'' then do_click fo sz x y (u ''left'') 2 b
         else if name = u ''tripleClick'' then do_click fo sz x y (u ''left'') 3 b
         else if name = u ''moveTo'' \<or> name = u ''move'' then do_move fo sz x y b
         else if name = u ''dragTo'' then do_drag_to fo sz x y b
         else if name = u ''drag'' then do_drag_rel fo sz (arg 0 ''xOffset'' V_none) (arg 1 ''yOffset'' V_none) b
         else if name = u ''scroll'' \<or> name = u ''vscroll'' then
           do_scroll fo sz (arg 0 ''clicks'' (V_int 0)) (arg 1 ''x'' V_none) (arg 2 ''y'' V_none) b
         else if name = u ''mouseDown'' then press_at fo sz x y ''hold'' b
         else if name = u ''mouseUp'' then press_at fo sz x y ''release'' b
         else if name = u ''write'' \<or> name = u ''typewrite'' then Inr (do_type (arg 0 ''message'' V_none) b)
         else if name = u ''press'' then Inr (do_press (arg 0 ''keys'' V_none) b)
         else if name = u ''hotkey'' then Inr (do_hotkey (filter (\<lambda>a. a \<noteq> V_unresolved) (call_args c)) b)
         else Inr b)"

fun dispatch_all :: "(ustring \<Rightarrow> rat option) \<Rightarrow> screen_sizes \<Rightarrow> call list \<Rightarrow> builder \<Rightarrow> builder result" where
  "dispatch_all fo sz [] b = Inr b"
| "dispatch_all fo sz (c # cs) b = bind_res (dispatch fo sz c b) (dispatch_all fo sz cs)"

text \<open>\<open>pyautogui_to_grammar\<close>: \<open>None\<close> is a program that does not parse, \<open>Some (program_calls nodes)\<close> one that
  does.\<close>

definition pyautogui_to_grammar ::
  "(ustring \<Rightarrow> rat option) \<Rightarrow> screen_sizes \<Rightarrow> call list option \<Rightarrow> ustring list result" where
  "pyautogui_to_grammar fo sz program =
     (case program of
        None \<Rightarrow> Inr []
      | Some cs \<Rightarrow> bind_res (dispatch_all fo sz cs \<lparr>cur = None, commands = []\<rparr>) (\<lambda>b. Inr (commands b)))"

end
