(* ===== verification/Cua_Actuation.thy ===== *)
theory Cua_Actuation
  imports Cua_Actions
begin

text \<open>
  The second stage of \<open>experience/cua/actions/cc_transpile.py\<close>: a command of the control-center grammar as a shell
  command for \<open>xdotool\<close> (Linux), for the command files of the Windows agent, and for \<open>cliclick\<close> and
  \<open>osascript\<close> (macOS). A command that is not recognised is \<open>None\<close>; a malformed number raises.
\<close>

section \<open>Words\<close>

definition visible :: "nat \<Rightarrow> bool" where
  "visible c \<longleftrightarrow> \<not> py_space c"

text \<open>\<open>str.split()\<close> and \<open>str.split(maxsplit=1)\<close>.\<close>

function split_words :: "ustring \<Rightarrow> ustring list" where
  "split_words s =
     (let t = dropWhile py_space s
      in if t = [] then [] else takeWhile visible t # split_words (dropWhile visible t))"
  by pat_completeness auto

termination
proof (relation "measure length")
  fix s :: ustring and t
  assume t: "t = dropWhile py_space s" "t \<noteq> []"
  then have "visible (hd t)" by (simp add: hd_dropWhile visible_def)
  then have "length (dropWhile visible t) < length t"
    using t(2) by (cases t) (auto simp: less_Suc_eq_le length_dropWhile_le)
  also have "length t \<le> length s" by (simp add: t(1) length_dropWhile_le)
  finally show "(dropWhile visible t, s) \<in> measure length" by simp
qed simp

declare split_words.simps [simp del]

definition first_word :: "ustring \<Rightarrow> ustring" where
  "first_word s = takeWhile visible (dropWhile py_space s)"

definition after_first :: "ustring \<Rightarrow> ustring" where
  "after_first s = dropWhile py_space (dropWhile visible (dropWhile py_space s))"

definition is_number :: "ustring \<Rightarrow> bool" where
  "is_number w = (let ds = dropWhile (\<lambda>c. c = 45) w in ds \<noteq> [] \<and> list_all is_digit ds)"

definition mouse_first :: "ustring \<Rightarrow> bool" where
  "mouse_first w \<longleftrightarrow>
     w = u ''here'' \<or> w = u ''position'' \<or> w = u ''scroll_up'' \<or> w = u ''scroll_down'' \<or> is_number w"

section \<open>Linux\<close>

definition xdotool :: "ustring \<Rightarrow> ustring list \<Rightarrow> ustring" where
  "xdotool display ws = words ((u ''DISPLAY='' @ display) # u ''xdotool'' # ws)"

definition special_keys :: "(ustring \<times> ustring) list" where
  "special_keys =
     [(braced ''Enter'', u ''Return''), (braced ''Esc'', u ''Escape''), (braced ''Tab'', u ''Tab''),
      (braced ''Backspace'', u ''BackSpace''), (braced ''BS'', u ''BackSpace''), (braced ''Delete'', u ''Delete''),
      (braced ''Del'', u ''Delete''), (braced ''Space'', u ''space''), (braced ''Up'', u ''Up''), (braced ''Down'', u ''Down''),
      (braced ''Left'', u ''Left''), (braced ''Right'', u ''Right''), (braced ''Home'', u ''Home''), (braced ''End'', u ''End''),
      (braced ''PgUp'', u ''Prior''), (braced ''PgDn'', u ''Next'')] @
     map (\<lambda>n. (u ''{F'' @ show_nat n @ u ''}'', u ''F'' @ show_nat n)) [1..<13] @
     [(braced ''LWin'', u ''Super_L''), (braced ''RWin'', u ''Super_R''), (braced ''LCtrl'', u ''Control_L''),
      (braced ''RCtrl'', u ''Control_R''), (braced ''LAlt'', u ''Alt_L''), (braced ''RAlt'', u ''Alt_R''),
      (braced ''LShift'', u ''Shift_L''), (braced ''RShift'', u ''Shift_R''), (braced ''Insert'', u ''Insert''),
      (braced ''CapsLock'', u ''Caps_Lock''), (braced ''NumLock'', u ''Num_Lock''), (braced ''ScrollLock'', u ''Scroll_Lock''),
      (braced ''PrintScreen'', u ''Print''), (braced ''Pause'', u ''Pause'')]"

definition modifier_name :: "nat \<Rightarrow> ustring option" where
  "modifier_name c =
     (if c = 94 then Some (u ''ctrl'') else if c = 43 then Some (u ''shift'')
      else if c = 33 then Some (u ''alt'') else if c = 35 then Some (u ''super'') else None)"

definition translate_modifier_keys :: "ustring \<Rightarrow> ustring" where
  "translate_modifier_keys text =
     (let modifiers = List.map_filter modifier_name (takeWhile (\<lambda>c. modifier_name c \<noteq> None) text);
          key_part = fold (\<lambda>(ahk, xdo) s. str_replace ahk xdo s) special_keys
            (dropWhile (\<lambda>c. modifier_name c \<noteq> None) text)
      in if modifiers \<noteq> [] \<and> key_part \<noteq> [] then join (u ''+'') (modifiers @ [key_part])
         else if key_part \<noteq> [] then key_part
         else if modifiers \<noteq> [] then join (u ''+'') modifiers
         else text)"

definition scroll_button :: "ustring \<Rightarrow> ustring" where
  "scroll_button action = (if action = u ''scroll_up'' then u ''4'' else u ''5'')"

definition is_scroll :: "ustring \<Rightarrow> bool" where
  "is_scroll w \<longleftrightarrow> w = u ''scroll_up'' \<or> w = u ''scroll_down''"

definition here_to_xdotool :: "ustring list \<Rightarrow> ustring list option" where
  "here_to_xdotool parts =
     (if length parts < 2 then None
      else let action = parts ! 1 in
        if is_scroll action
        then if length parts < 3 then None
             else Some [u ''click'', u ''--repeat'', parts ! 2, scroll_button action]
        else map_of [(u ''left'', [u ''click'', u ''1'']), (u ''right'', [u ''click'', u ''3'']),
          (u ''middle'', [u ''click'', u ''2'']), (u ''double'', [u ''click'', u ''--repeat'', u ''2'', u ''1'']),
          (u ''hold'', [u ''mousedown'', u ''1'']), (u ''release'', [u ''mouseup'', u ''1''])] action)"

definition mousemove :: "int \<times> int \<Rightarrow> ustring list" where
  "mousemove p = [u ''mousemove'', show_int (fst p), show_int (snd p)]"

definition point_to_xdotool :: "int \<times> int \<Rightarrow> ustring list \<Rightarrow> ustring list option result" where
  "point_to_xdotool p parts =
     (if length parts = 2 then Inr (Some (mousemove p))
      else let action = parts ! 2 in
        if action = u ''move'' then Inr (Some (mousemove p))
        else if action = u ''left'' then Inr (Some (mousemove p @ [u ''click'', u ''1'']))
        else if action = u ''right'' then Inr (Some (mousemove p @ [u ''click'', u ''3'']))
        else if action = u ''middle'' then Inr (Some (mousemove p @ [u ''click'', u ''2'']))
        else if action = u ''double'' then Inr (Some (mousemove p @ [u ''click'', u ''--repeat'', u ''2'', u ''1'']))
        else if action = u ''drag'' \<and> 5 \<le> length parts
        then (case (text_to_int (parts ! 3), text_to_int (parts ! 4)) of
                (Some x2, Some y2) \<Rightarrow>
                  Inr (Some (mousemove p @ [u ''mousedown'', u ''1''] @ mousemove (x2, y2) @ [u ''mouseup'', u ''1'']))
              | _ \<Rightarrow> Inl ValueError)
        else if is_scroll action
        then Inr (Some (mousemove p @ [u ''click'', u ''--repeat'', (if 3 < length parts then parts ! 3 else u ''5''),
               scroll_button action]))
        else Inr None)"

definition mouse_to_xdotool :: "ustring list \<Rightarrow> ustring list option result" where
  "mouse_to_xdotool parts =
     (if parts ! 0 = u ''position'' then Inr (Some [u ''getmouselocation'', u ''--shell''])
      else if parts ! 0 = u ''here'' then Inr (here_to_xdotool parts)
      else case (text_to_int (parts ! 0), if 1 < length parts then text_to_int (parts ! 1) else None) of
        (Some x, Some y) \<Rightarrow> point_to_xdotool (x, y) parts
      | _ \<Rightarrow> Inr (if is_scroll (parts ! 0) \<and> 2 \<le> length parts
               then Some [u ''click'', u ''--repeat'', parts ! 1, scroll_button (parts ! 0)] else None))"

text \<open>\<open>replace("\\", "\\\\").replace('"', '\\"')\<close>\<close>

definition escape_text :: "ustring \<Rightarrow> ustring" where
  "escape_text s = str_replace [34] [92, 34] (str_replace [92] [92, 92] s)"

definition keyboard_to_xdotool :: "ustring \<Rightarrow> ustring \<Rightarrow> ustring option" where
  "keyboard_to_xdotool display command =
     (if after_first command = [] then None
      else if first_word command = u ''type''
      then Some (words [u ''DISPLAY='' @ display, u ''xdotool'', u ''type'', [34] @ escape_text (after_first command) @ [34]])
      else Some (words [u ''DISPLAY='' @ display, u ''xdotool'', u ''key'', translate_modifier_keys (after_first command)]))"

definition grammar_to_xdotool :: "ustring \<Rightarrow> ustring \<Rightarrow> ustring option result" where
  "grammar_to_xdotool display grammar =
     (let command = strip grammar; first = first_word command
      in if command = [] then Inr None
         else if first = u ''type'' \<or> first = u ''press'' then Inr (keyboard_to_xdotool display command)
         else if mouse_first first
         then bind_res (mouse_to_xdotool (split_words command)) (\<lambda>r. Inr (map_option (xdotool display) r))
         else Inr None)"

definition translate_all :: "(ustring \<Rightarrow> ustring option result) \<Rightarrow> ustring list result \<Rightarrow> ustring list result" where
  "translate_all f grammar =
     bind_res grammar (\<lambda>cmds. bind_res (map_res f cmds) (\<lambda>rs. Inr (List.map_filter (\<lambda>r. r) rs)))"

definition pyautogui_to_xdotool ::
  "(ustring \<Rightarrow> rat option) \<Rightarrow> screen_sizes \<Rightarrow> ustring \<Rightarrow> call list option \<Rightarrow> ustring list result" where
  "pyautogui_to_xdotool fo sz display program =
     translate_all (grammar_to_xdotool display) (pyautogui_to_grammar fo sz program)"

section \<open>Windows\<close>

definition win_standalone :: "ustring \<Rightarrow> ustring" where
  "win_standalone keys =
     (if keys = u ''#'' then braced ''LWin'' else if keys = u ''^'' then braced ''LCtrl''
      else if keys = u ''+'' then braced ''LShift'' else if keys = u ''!'' then braced ''LAlt'' else keys)"

definition win_modifier :: "nat \<Rightarrow> ustring option" where
  "win_modifier c =
     (if c = 94 then Some (u ''Ctrl'') else if c = 43 then Some (u ''Shift'')
      else if c = 33 then Some (u ''Alt'') else if c = 35 then Some (u ''LWin'') else None)"

definition win_down :: "ustring \<Rightarrow> ustring" where "win_down m = u ''{'' @ m @ u '' down}''"
definition win_up :: "ustring \<Rightarrow> ustring" where "win_up m = u ''{'' @ m @ u '' up}''"

definition win_modifiers_of :: "ustring \<Rightarrow> ustring list" where
  "win_modifiers_of keys = List.map_filter win_modifier (takeWhile (\<lambda>c. win_modifier c \<noteq> None) keys)"

definition win_convert_modifiers_to_explicit :: "ustring \<Rightarrow> ustring" where
  "win_convert_modifiers_to_explicit keys =
     (let ms = win_modifiers_of keys
      in if ms = [] then keys
         else concat (map win_down ms) @ dropWhile (\<lambda>c. win_modifier c \<noteq> None) keys @ concat (map win_up (rev ms)))"

definition win_keyboard_payload :: "ustring \<Rightarrow> ustring option" where
  "win_keyboard_payload command =
     (let text = after_first command
      in if text = [] then None
         else if first_word command = u ''type''
         then Some (if 94 \<in> set text then u ''press '' @ str_replace [94] (u ''{U+005E}'') text else u ''type '' @ text)
         else Some (u ''press '' @ win_convert_modifiers_to_explicit (win_standalone text)))"

definition grammar_to_windows :: "ustring \<Rightarrow> ustring option" where
  "grammar_to_windows grammar =
     (let command = strip grammar; first = first_word command
      in if command = [] then None
         else if first = u ''type'' \<or> first = u ''press''
         then map_option (\<lambda>payload. u ''cmd /c echo '' @ payload @ u '' > C:'' @ [92] @ u ''keyboard_cmd.txt'')
                (win_keyboard_payload command)
         else if mouse_first first
         then Some (u ''cmd /c echo '' @ command @ u '' > C:'' @ [92] @ u ''mouse_cmd.txt'')
         else None)"

definition pyautogui_to_windows ::
  "(ustring \<Rightarrow> rat option) \<Rightarrow> screen_sizes \<Rightarrow> call list option \<Rightarrow> ustring list result" where
  "pyautogui_to_windows fo sz program =
     translate_all (\<lambda>g. Inr (grammar_to_windows g)) (pyautogui_to_grammar fo sz program)"

end
