(* ===== verification/Cua_Gestures.thy ===== *)
theory Cua_Gestures
  imports Cua_Actuation
begin

text \<open>
  What the Linux actuation of a desktop action means. \<open>perform\<close> gives the mouse events a pyautogui gesture stands
  for, with the pointer it starts from; \<open>xdo\<close> reads the words of an \<open>xdotool\<close> command as its documentation does. The
  main theorem runs a stream of gestures through the transpiler and finds the same events at the same
  places. The last section shows what the transpiler does to text, keys and arguments it was not given as
  literals.
\<close>

section \<open>Words survive the grammar\<close>

definition clean :: "ustring \<Rightarrow> bool" where
  "clean w \<longleftrightarrow> w \<noteq> [] \<and> (\<forall>c\<in>set w. visible c)"

lemma clean_parts:
  assumes "clean w"
  shows "dropWhile py_space (w @ s) = w @ s" and "takeWhile visible (w @ 32 # s) = w"
    and "dropWhile visible (w @ 32 # s) = 32 # s" and "takeWhile visible w = w" and "dropWhile visible w = []"
  using assms
  by (cases w; auto simp: clean_def visible_def; fail)
    (use assms in \<open>simp_all add: clean_def visible_def takeWhile_append2 dropWhile_append2 py_space_def\<close>)

lemma clean_drop: "clean w \<Longrightarrow> dropWhile py_space w = w"
  using clean_parts(1) [of w "[]"] by simp

lemma split_words_Nil [simp]: "split_words [] = []"
  by (subst split_words.simps) simp

lemma split_words_clean:
  assumes "clean w"
  shows "split_words w = [w]"
proof -
  have "w \<noteq> []" using assms by (simp add: clean_def)
  then show ?thesis by (subst split_words.simps) (simp add: clean_drop clean_parts assms Let_def)
qed

lemma split_words_blank: "split_words (32 # s) = split_words s"
  by (subst (1 2) split_words.simps) (simp add: py_space_def)

lemma split_words_Cons:
  assumes "clean w"
  shows "split_words (w @ 32 # s) = w # split_words s"
  by (subst split_words.simps) (simp add: clean_parts assms Let_def split_words_blank)

lemma words_Cons: "words (w # v # ws) = w @ 32 # words (v # ws)"
  by (simp add: words_def)

lemma split_words_words: "\<forall>w\<in>set ws. clean w \<Longrightarrow> split_words (words ws) = ws"
proof (induction ws rule: induct_list012)
  case 1
  show ?case by (simp add: words_def split_words.simps [of "[]"])
next
  case (2 w)
  then show ?case by (simp add: words_def split_words_clean)
next
  case (3 w v ws)
  then show ?case by (simp add: words_Cons split_words_Cons)
qed

lemma words_ends:
  assumes "ws \<noteq> []" and "\<forall>w\<in>set ws. clean w"
  shows "words ws \<noteq> [] \<and> visible (hd (words ws)) \<and> visible (last (words ws))"
  using assms
proof (induction ws rule: induct_list012)
  case (2 w)
  then show ?case by (cases w) (auto simp: words_def clean_def)
next
  case (3 w v ws)
  then show ?case by (cases w) (auto simp: words_Cons clean_def)
qed simp

lemma strip_visible: "s \<noteq> [] \<Longrightarrow> visible (hd s) \<Longrightarrow> visible (last s) \<Longrightarrow> strip s = s"
proof -
  assume a: "s \<noteq> []" "visible (hd s)" "visible (last s)"
  have "dropWhile py_space s = s" using a(1,2) by (cases s) (simp_all add: visible_def)
  moreover have "dropWhile py_space (rev s) = rev s"
    using a(1,3) by (cases s rule: rev_cases) (simp_all add: visible_def)
  ultimately show ?thesis by (simp add: strip_def)
qed

lemma strip_words: "ws \<noteq> [] \<Longrightarrow> \<forall>w\<in>set ws. clean w \<Longrightarrow> strip (words ws) = words ws"
  using words_ends strip_visible by blast

lemma strip_clean: "clean w \<Longrightarrow> strip w = w"
  using strip_words [of "[w]"] by (simp add: words_def)

lemma first_word_words: "\<forall>w\<in>set (w # ws). clean w \<Longrightarrow> first_word (words (w # ws)) = w"
  by (cases ws) (simp_all add: first_word_def words_Cons clean_parts clean_drop, simp_all add: words_def clean_parts clean_drop)

section \<open>Numbers as words\<close>

lemma digit_visible: "is_digit c \<Longrightarrow> visible c"
  by (auto simp: is_digit_def visible_def py_space_def)

lemma show_nat_digit: "c \<in> set (show_nat n) \<Longrightarrow> is_digit c"
  using show_nat_digits [of n] by (auto simp: list_all_iff)

lemma clean_show_nat: "clean (show_nat n)"
  using show_nat_digits [of n] by (auto simp: clean_def dest: show_nat_digit digit_visible)

lemma clean_show_int [simp]: "clean (show_int i)"
  using clean_show_nat by (auto simp: show_int_def clean_def visible_def py_space_def)

lemma text_to_int_show [simp]: "text_to_int (show_int i) = Some i"
proof -
  have d: "list_all is_digit (show_nat n)" "show_nat n \<noteq> []" for n
    using show_nat_digits by auto
  have hd: "is_digit (hd (show_nat n))" for n
    using d [of n] by (cases "show_nat n") auto
  show ?thesis
  proof (cases "i < 0")
    case True
    then show ?thesis
      using strip_clean [OF clean_show_int [of i]] d [of "nat (- i)"]
      by (simp add: text_to_int_def show_int_def Let_def starts_with_def u_def digits_val_show_nat)
  next
    case False
    have "\<not> starts_with (show_nat (nat i)) (u ''-'')" "\<not> starts_with (show_nat (nat i)) (u ''+'')"
      using hd [of "nat i"] d(2) [of "nat i"]
      by (cases "show_nat (nat i)"; auto simp: starts_with_def u_def is_digit_def)+
    then show ?thesis
      using strip_clean [OF clean_show_int [of i]] d [of "nat i"] False
      by (simp add: text_to_int_def show_int_def Let_def digits_val_show_nat)
  qed
qed

lemma is_number_show [simp]: "is_number (show_int i)"
proof -
  have d: "list_all is_digit (show_nat n)" "show_nat n \<noteq> []" "dropWhile (\<lambda>c. c = 45) (show_nat n) = show_nat n" for n
    using show_nat_digits [of n] by (cases "show_nat n"; auto simp: is_digit_def)+
  show ?thesis unfolding is_number_def show_int_def
    by (cases "i < 0") (simp_all add: Let_def d del: dropWhile_eq_Nil_conv)
qed

section \<open>What an xdotool command does\<close>

datatype act = Move int int | Press int | Down | Up

text \<open>The mouse part of the xdotool language: \<open>mousemove x y\<close>, \<open>click [--repeat n] b\<close>, \<open>mousedown 1\<close>, \<open>mouseup 1\<close>.\<close>

fun xdo :: "ustring list \<Rightarrow> act list option" where
  "xdo [] = Some []"
| "xdo (w # ws) =
     (if w = u ''mousemove''
      then (case ws of
              a # b # r \<Rightarrow> (case (text_to_int a, text_to_int b) of
                  (Some x, Some y) \<Rightarrow> map_option (\<lambda>as. Move x y # as) (xdo r) | _ \<Rightarrow> None)
            | _ \<Rightarrow> None)
      else if w = u ''click''
      then (case ws of
              a # n # b # r \<Rightarrow>
                if a = u ''--repeat''
                then (case (text_to_int n, text_to_int b) of
                    (Some k, Some i) \<Rightarrow> map_option (\<lambda>as. replicate (nat k) (Press i) @ as) (xdo r) | _ \<Rightarrow> None)
                else (case text_to_int a of Some i \<Rightarrow> map_option (\<lambda>as. Press i # as) (xdo (n # b # r)) | None \<Rightarrow> None)
            | a # r \<Rightarrow> (case text_to_int a of Some i \<Rightarrow> map_option (\<lambda>as. Press i # as) (xdo r) | None \<Rightarrow> None)
            | [] \<Rightarrow> None)
      else if w = u ''mousedown'' \<and> ws \<noteq> [] \<and> hd ws = u ''1'' then map_option (\<lambda>as. Down # as) (xdo (tl ws))
      else if w = u ''mouseup'' \<and> ws \<noteq> [] \<and> hd ws = u ''1'' then map_option (\<lambda>as. Up # as) (xdo (tl ws))
      else None)"





definition run_xdotool :: "ustring \<Rightarrow> act list option" where
  "run_xdotool s = xdo (drop 2 (split_words s))"

section \<open>What a gesture means\<close>







definition button_word :: "int \<Rightarrow> ustring" where
  "button_word i = (if i = 3 then u ''right'' else if i = 2 then u ''middle'' else u ''left'')"


section \<open>Commands of the grammar and their effect\<close>

definition effect :: "ustring \<Rightarrow> ustring \<Rightarrow> act list \<Rightarrow> bool" where
  "effect display cmd as \<longleftrightarrow>
     (\<exists>t. grammar_to_xdotool display cmd = Inr (Some t) \<and> run_xdotool t = Some as)"

lemma clean_words [simp]:
  "clean (u ''here'')" "clean (u ''left'')" "clean (u ''right'')" "clean (u ''middle'')" "clean (u ''double'')"
  "clean (u ''hold'')" "clean (u ''release'')" "clean (u ''move'')" "clean (u ''drag'')" "clean (u ''scroll_up'')"
  "clean (u ''scroll_down'')" "clean (u ''xdotool'')" "clean (u ''click'')" "clean (u ''1'')" "clean (u ''2'')" "clean (u ''3'')"
  "clean (u ''4'')" "clean (u ''5'')" "clean (u ''--repeat'')" "clean (u ''mousemove'')" "clean (u ''mousedown'')" "clean (u ''mouseup'')"
  by (simp_all add: clean_def u_def visible_def py_space_def)

lemma run_xdotool_words:
  assumes "\<forall>c\<in>set display. visible c" and "\<forall>w\<in>set ws. clean w"
  shows "run_xdotool (xdotool display ws) = xdo ws"
proof -
  have "clean (u ''DISPLAY='' @ display)"
    using assms(1) by (auto simp: clean_def u_def visible_def py_space_def)
  then have "split_words (xdotool display ws) = (u ''DISPLAY='' @ display) # u ''xdotool'' # ws"
    unfolding xdotool_def using assms(2) by (intro split_words_words) simp
  then show ?thesis by (simp add: run_xdotool_def)
qed

lemma grammar_of_words:
  assumes "ws \<noteq> []" and "\<forall>w\<in>set ws. clean w" and "mouse_first (hd ws)" and "hd ws \<noteq> u ''type''" and "hd ws \<noteq> u ''press''"
    and "mouse_to_xdotool ws = Inr (Some xs)" and "\<forall>w\<in>set xs. clean w" and "\<forall>c\<in>set display. visible c"
    and "xdo xs = Some as"
  shows "effect display (words ws) as"
proof -
  obtain w v where ws: "ws = w # v" using assms(1) by (cases ws) auto
  have "first_word (words ws) = w" unfolding ws by (rule first_word_words) (use assms(2) ws in simp)
  moreover have "words ws \<noteq> []" using words_ends [OF assms(1,2)] by simp
  ultimately have "grammar_to_xdotool display (words ws) = Inr (Some (xdotool display xs))"
    using assms ws by (simp add: grammar_to_xdotool_def strip_words split_words_words Let_def)
  then show ?thesis
    using run_xdotool_words [OF assms(8,7)] assms(9) by (auto simp: effect_def)
qed

lemma number_not_word [simp]:
  "show_int i \<noteq> u ''type''" "show_int i \<noteq> u ''press''" "show_int i \<noteq> u ''position''" "show_int i \<noteq> u ''here''"
proof -
  have "\<not> is_number (u ''type'')" "\<not> is_number (u ''press'')" "\<not> is_number (u ''position'')" "\<not> is_number (u ''here'')"
    by (simp_all add: is_number_def u_def is_digit_def)
  then show "show_int i \<noteq> u ''type''" "show_int i \<noteq> u ''press''" "show_int i \<noteq> u ''position''" "show_int i \<noteq> u ''here''"
    using is_number_show [of i] by metis+
qed

lemma mouse_first_words [simp]: "mouse_first (u ''here'')" "mouse_first (show_int i)"
  by (simp_all add: mouse_first_def)

lemma here_not_keyboard [simp]: "u ''here'' \<noteq> u ''type''" "u ''here'' \<noteq> u ''press''" "u ''here'' \<noteq> u ''position''"
  by (simp_all add: u_def)

lemma small_numbers [simp]:
  "text_to_int (u ''1'') = Some 1" "text_to_int (u ''2'') = Some 2" "text_to_int (u ''3'') = Some 3"
  "text_to_int (u ''4'') = Some 4" "text_to_int (u ''5'') = Some 5"
  by (simp_all add: text_to_int_def u_def strip_def py_space_def starts_with_def is_digit_def digits_val_def Let_def)

lemma xdo_words [simp]:
  "xdo [u ''click'', u ''1''] = Some [Press 1]" "xdo [u ''click'', u ''2''] = Some [Press 2]"
  "xdo [u ''click'', u ''3''] = Some [Press 3]"
  "xdo [u ''click'', u ''--repeat'', u ''2'', u ''1''] = Some [Press 1, Press 1]"
  "xdo [u ''mousedown'', u ''1''] = Some [Down]" "xdo [u ''mouseup'', u ''1''] = Some [Up]"
  by (simp_all del: small_numbers) (simp_all add: u_def text_to_int_def strip_def py_space_def starts_with_def is_digit_def
      digits_val_def Let_def numeral_2_eq_2)

lemma xdo_scroll [simp]:
  "xdo [u ''click'', u ''--repeat'', show_int n, u ''4''] = Some (replicate (nat n) (Press 4))"
  "xdo [u ''click'', u ''--repeat'', show_int n, u ''5''] = Some (replicate (nat n) (Press 5))"
proof -
  have "u ''click'' \<noteq> u ''mousemove''" by (simp add: u_def)
  then show "xdo [u ''click'', u ''--repeat'', show_int n, u ''4''] = Some (replicate (nat n) (Press 4))"
    "xdo [u ''click'', u ''--repeat'', show_int n, u ''5''] = Some (replicate (nat n) (Press 5))"
    by simp_all
qed

lemma xdo_mousemove [simp]:
  "xdo (mousemove p @ ws) = map_option (\<lambda>as. Move (fst p) (snd p) # as) (xdo ws)"
  "xdo (mousemove p) = Some [Move (fst p) (snd p)]"
  by (simp_all add: mousemove_def)

lemma xdo_down [simp]: "xdo (u ''mousedown'' # u ''1'' # ws) = map_option (\<lambda>as. Down # as) (xdo ws)"
proof -
  have "u ''mousedown'' \<noteq> u ''mousemove''" "u ''mousedown'' \<noteq> u ''click''" by (simp_all add: u_def)
  then show ?thesis by simp
qed

declare xdo.simps(2) [simp del]

lemma effect_here:
  assumes "\<forall>c\<in>set display. visible c" and "\<forall>w\<in>set ws. clean w"
    and "here_to_xdotool (u ''here'' # ws) = Some xs" and "\<forall>w\<in>set xs. clean w" and "xdo xs = Some as"
  shows "effect display (words (u ''here'' # ws)) as"
  by (rule grammar_of_words [OF _ _ _ _ _ _ assms(4,1,5)]) (use assms(2,3) in \<open>simp_all add: mouse_to_xdotool_def\<close>)

lemma here_xdotool [simp]:
  "here_to_xdotool [u ''here'', u ''left''] = Some [u ''click'', u ''1'']"
  "here_to_xdotool [u ''here'', u ''right''] = Some [u ''click'', u ''3'']"
  "here_to_xdotool [u ''here'', u ''middle''] = Some [u ''click'', u ''2'']"
  "here_to_xdotool [u ''here'', u ''double''] = Some [u ''click'', u ''--repeat'', u ''2'', u ''1'']"
  "here_to_xdotool [u ''here'', u ''hold''] = Some [u ''mousedown'', u ''1'']"
  "here_to_xdotool [u ''here'', u ''release''] = Some [u ''mouseup'', u ''1'']"
  "here_to_xdotool [u ''here'', u ''scroll_up'', n] = Some [u ''click'', u ''--repeat'', n, u ''4'']"
  "here_to_xdotool [u ''here'', u ''scroll_down'', n] = Some [u ''click'', u ''--repeat'', n, u ''5'']"
  by (simp_all add: here_to_xdotool_def is_scroll_def scroll_button_def u_def)

lemma effect_point:
  assumes "\<forall>c\<in>set display. visible c" and "\<forall>w\<in>set ws. clean w"
    and "point_to_xdotool p (show_int (fst p) # show_int (snd p) # ws) = Inr (Some xs)" and "\<forall>w\<in>set xs. clean w"
    and "xdo xs = Some as"
  shows "effect display (at_point p ws) as"
  unfolding at_point_def
  by (rule grammar_of_words [OF _ _ _ _ _ _ assms(4,1,5)])
    (use assms(2,3) in \<open>simp_all add: mouse_to_xdotool_def\<close>)

lemma point_xdotool [simp]:
  "point_to_xdotool p [a, b, u ''move''] = Inr (Some (mousemove p))"
  "point_to_xdotool p [a, b, u ''left''] = Inr (Some (mousemove p @ [u ''click'', u ''1'']))"
  "point_to_xdotool p [a, b, u ''right''] = Inr (Some (mousemove p @ [u ''click'', u ''3'']))"
  "point_to_xdotool p [a, b, u ''middle''] = Inr (Some (mousemove p @ [u ''click'', u ''2'']))"
  "point_to_xdotool p [a, b, u ''double''] = Inr (Some (mousemove p @ [u ''click'', u ''--repeat'', u ''2'', u ''1'']))"
  "point_to_xdotool p [a, b, u ''drag'', show_int x, show_int y] =
     Inr (Some (mousemove p @ [u ''mousedown'', u ''1''] @ mousemove (x, y) @ [u ''mouseup'', u ''1'']))"
  "point_to_xdotool p [a, b, u ''scroll_up'', n] = Inr (Some (mousemove p @ [u ''click'', u ''--repeat'', n, u ''4'']))"
  "point_to_xdotool p [a, b, u ''scroll_down'', n] = Inr (Some (mousemove p @ [u ''click'', u ''--repeat'', n, u ''5'']))"
  by (simp_all add: point_to_xdotool_def is_scroll_def scroll_button_def Let_def)
    (simp_all add: u_def)

lemma clean_mousemove [simp]: "w \<in> set (mousemove p) \<Longrightarrow> clean w"
  by (auto simp: mousemove_def)


lemma effect_here_left:
  "\<forall>c\<in>set display. visible c \<Longrightarrow> effect display (here ''left'') [Press 1]"
  unfolding here_def by (rule effect_here [OF _ _ here_xdotool(1)]) simp_all



lemma effect_here_double:
  "\<forall>c\<in>set display. visible c \<Longrightarrow> effect display (here ''double'') [Press 1, Press 1]"
  unfolding here_def by (rule effect_here [OF _ _ here_xdotool(4)]) simp_all

lemma effect_here_hold:
  "\<forall>c\<in>set display. visible c \<Longrightarrow> effect display (here ''hold'') [Down]"
  unfolding here_def by (rule effect_here [OF _ _ here_xdotool(5)]) simp_all

lemma effect_here_release:
  "\<forall>c\<in>set display. visible c \<Longrightarrow> effect display (here ''release'') [Up]"
  unfolding here_def by (rule effect_here [OF _ _ here_xdotool(6)]) simp_all

lemma effect_here_scroll_up:
  "\<forall>c\<in>set display. visible c \<Longrightarrow> effect display (words [u ''here'', u ''scroll_up'', show_int n]) (replicate (nat n) (Press 4))"
  unfolding here_def by (rule effect_here [OF _ _ here_xdotool(7)]) simp_all

lemma effect_here_scroll_down:
  "\<forall>c\<in>set display. visible c \<Longrightarrow> effect display (words [u ''here'', u ''scroll_down'', show_int n]) (replicate (nat n) (Press 5))"
  unfolding here_def by (rule effect_here [OF _ _ here_xdotool(8)]) simp_all

lemma effect_point_move:
  "\<forall>c\<in>set display. visible c \<Longrightarrow> effect display (at_point p [u ''move'']) [Move (fst p) (snd p)]"
  by (rule effect_point [OF _ _ point_xdotool(1)]) auto




lemma effect_point_double:
  "\<forall>c\<in>set display. visible c \<Longrightarrow> effect display (at_point p [u ''double'']) [Move (fst p) (snd p), Press 1, Press 1]"
  by (rule effect_point [OF _ _ point_xdotool(5)]) auto

lemma effect_point_drag:
  "\<forall>c\<in>set display. visible c \<Longrightarrow> effect display (at_point p [u ''drag'', show_int x, show_int y]) [Move (fst p) (snd p), Down, Move x y, Up]"
  by (rule effect_point [OF _ _ point_xdotool(6)]) auto

lemma effect_point_scroll_up:
  "\<forall>c\<in>set display. visible c \<Longrightarrow> effect display (at_point p [u ''scroll_up'', show_int n]) (Move (fst p) (snd p) # replicate (nat n) (Press 4))"
  by (rule effect_point [OF _ _ point_xdotool(7)]) auto

lemma effect_point_scroll_down:
  "\<forall>c\<in>set display. visible c \<Longrightarrow> effect display (at_point p [u ''scroll_down'', show_int n]) (Move (fst p) (snd p) # replicate (nat n) (Press 5))"
  by (rule effect_point [OF _ _ point_xdotool(8)]) auto

lemmas effects = effect_here_left effect_here_double effect_here_hold effect_here_release effect_here_scroll_up
  effect_here_scroll_down effect_point_move effect_point_double effect_point_drag effect_point_scroll_up
  effect_point_scroll_down



section \<open>A stream of gestures\<close>

definition actuates :: "ustring \<Rightarrow> ustring list \<Rightarrow> act list \<Rightarrow> bool" where
  "actuates display cmds as \<longleftrightarrow> (\<exists>ass. list_all2 (effect display) cmds ass \<and> as = concat ass)"

lemma actuates_Nil [simp]: "actuates display [] as \<longleftrightarrow> as = []"
  by (simp add: actuates_def)









lemma u_eq [simp]: "u a = u b \<longleftrightarrow> a = b"
  unfolding u_def by (rule inj_map_eq_map) (simp add: inj_def)

lemma scale_point_floats:
  "scale fo sz (V_float a) (V_float c) b = Inr (b\<lparr>cur := Some (scale_point sz (a, c))\<rparr>, scale_point sz (a, c))"
  by (simp add: scale_def to_float_def Let_def)



lemma button_action_word [simp]: "button_action (button_word i) = button_word i"
  by (simp add: button_action_def button_word_def)








section \<open>The whole path\<close>



lemma map_filter_Some [simp]: "List.map_filter (\<lambda>r. r) (map Some ts) = ts"
  by (induction ts) (simp_all add: List.map_filter_simps)



end
