(* ===== verification/Cua_Keys.thy ===== *)
theory Cua_Keys
  imports Cua_Gestures
begin

text \<open>
  The keyboard side of the Linux actuation: text is typed as it is written, but for the blanks around it and for what the
  shell expands, and a hotkey becomes its modifiers and its key. The last section records the calls the transpiler turns
  into something else than they mean.
\<close>

section \<open>Typed text\<close>

lemma find_sub_one: "find_sub [a] (c # s) = (if c = a then Some ([], s) else map_option (\<lambda>(x, r). (c # x, r)) (find_sub [a] s))"
  by auto

lemma str_replace_one: "str_replace [a] new s = concat (map (\<lambda>c. if c = a then new else [c]) s)"
proof (induction s)
  case Nil
  show ?case by (subst str_replace.simps) simp
next
  case (Cons c s)
  have "str_replace [a] new (c # s) = (if c = a then new @ str_replace [a] new s else c # str_replace [a] new s)"
    by (subst (1 3) str_replace.simps) (simp add: find_sub_one split: option.splits)
  then show ?case using Cons.IH by simp
qed

definition escape_dq :: "nat \<Rightarrow> ustring" where
  "escape_dq c = (if c = 92 then [92, 92] else if c = 34 then [92, 34] else [c])"

lemma escape_text_chars: "escape_text s = concat (map escape_dq s)"
  by (induction s) (simp_all add: escape_text_def str_replace_one escape_dq_def)

text \<open>The shell's reading of a double-sq_word word from after its opening quote; \<open>None\<close> when the quote does not end the
  text, or when something is expanded.\<close>

fun dq_read :: "ustring \<Rightarrow> ustring option" where
  "dq_read [] = None"
| "dq_read (c # s) =
     (if c = 34 then (if s = [] then Some [] else None)
      else if c = 36 \<or> c = 96 then None
      else if c = 92
      then (case s of
              [] \<Rightarrow> None
            | d # r \<Rightarrow>
                if d = 10 then dq_read r
                else map_option (\<lambda>t. (if d \<in> {34, 36, 92, 96} then [d] else [92, d]) @ t) (dq_read r))
      else map_option (\<lambda>t. c # t) (dq_read s))"

lemma dq_read_escaped: "36 \<notin> set s \<Longrightarrow> 96 \<notin> set s \<Longrightarrow> dq_read (escape_text s @ [34]) = Some s"
  by (induction s) (auto simp: escape_text_chars escape_dq_def)

lemma dropWhile_spaces: "list_all py_space w \<Longrightarrow> dropWhile py_space (w @ s) = dropWhile py_space s"
  by (induction w) auto

lemma type_command:
  assumes "list_all py_space w1" and "list_all py_space w2" and "s \<noteq> []" and "visible (hd s)" and "visible (last s)"
  shows "strip (u ''type '' @ w1 @ s @ w2) = u ''type '' @ w1 @ s" and "first_word (u ''type '' @ w1 @ s) = u ''type''"
    and "after_first (u ''type '' @ w1 @ s) = s"
proof -
  have r: "list_all py_space (rev w2)" using assms(2) by (simp add: list_all_iff)
  have l: "dropWhile py_space (rev s @ t) = rev s @ t" for t
    using assms(3,5) by (cases s rule: rev_cases) (simp_all add: visible_def)
  have f: "dropWhile py_space s = s" using assms(3,4) by (cases s) (simp_all add: visible_def)
  show "strip (u ''type '' @ w1 @ s @ w2) = u ''type '' @ w1 @ s"
    using dropWhile_spaces [OF r] l by (simp add: strip_def u_def py_space_def)
  show "first_word (u ''type '' @ w1 @ s) = u ''type''"
    by (simp add: first_word_def u_def visible_def py_space_def)
  have "after_first (u ''type '' @ w1 @ s) = dropWhile py_space (w1 @ s)"
    by (simp add: after_first_def u_def visible_def py_space_def)
  then show "after_first (u ''type '' @ w1 @ s) = s" using dropWhile_spaces [OF assms(1)] f by simp
qed

text \<open>What a \<open>write\<close> types is its text without the blanks at its ends; a final newline, the usual way to press Enter, is
  among them.\<close>

lemma typed_text_exact:
  assumes "list_all py_space w1" and "list_all py_space w2" and "s \<noteq> []" and "visible (hd s)" and "visible (last s)"
    and "36 \<notin> set s" and "96 \<notin> set s"
  shows "\<exists>q. pyautogui_to_xdotool fo sz display
        (Some [\<lparr>call_name = u ''write'', call_args = [V_str (w1 @ s @ w2)], call_kwargs = []\<rparr>]) =
      Inr [words [u ''DISPLAY='' @ display, u ''xdotool'', u ''type'', 34 # q]] \<and> dq_read q = Some s"
proof -
  have "grammar_to_xdotool display (u ''type '' @ w1 @ s @ w2) =
      Inr (Some (words [u ''DISPLAY='' @ display, u ''xdotool'', u ''type'', 34 # escape_text s @ [34]]))"
    using assms(3) by (simp add: grammar_to_xdotool_def keyboard_to_xdotool_def type_command [OF assms(1-5)] Let_def)
  then show ?thesis
    using dq_read_escaped [OF assms(6,7)]
    by (intro exI [of _ "escape_text s @ [34]"]) (simp add: pyautogui_to_xdotool_def translate_all_def pyautogui_to_grammar_def
        dispatch_def get_arg_def do_type_def emit_def List.map_filter_simps)
qed

section \<open>Hotkeys\<close>

definition modifier_key :: "ustring \<Rightarrow> ustring option" where
  "modifier_key k =
     (case modifier_symbol k of [c] \<Rightarrow> modifier_name c | _ \<Rightarrow> None)"

text \<open>A key the transpiler passes on: none of the table, no modifier symbol in front, no brace, no blank around it.\<close>

definition plain_key :: "ustring \<Rightarrow> bool" where
  "plain_key k \<longleftrightarrow> map_of key_table (lower k) = None \<and> 123 \<notin> set k \<and> clean k \<and> modifier_name (hd k) = None"

lemma replace_braced: "123 \<notin> set k \<Longrightarrow> str_replace (u ''{'' @ s) t k = k"
  by (subst str_replace.simps) (simp add: u_def find_sub_absent)

lemma special_keys_braced: "(a, x) \<in> set special_keys \<Longrightarrow> \<exists>s. a = u ''{'' @ s"
  unfolding special_keys_def braced_def by (auto simp: u_def)

lemma fold_replace_plain:
  assumes "123 \<notin> set k"
  shows "set tbl \<subseteq> set special_keys \<Longrightarrow> fold (\<lambda>(ahk, xdo) s. str_replace ahk xdo s) tbl k = k"
proof (induction tbl)
  case (Cons e tbl)
  then show ?case using special_keys_braced [of "fst e" "snd e"] replace_braced [OF assms] by (cases e) auto
qed simp

lemma translate_hotkey:
  assumes "list_all (\<lambda>m. modifier_key m \<noteq> None) ms" and "plain_key k" and "ms \<noteq> []"
  shows "translate_modifier_keys (concat (map modifier_symbol ms) @ k) =
    join (u ''+'') (List.map_filter modifier_key ms @ [k])"
proof -
  have m: "takeWhile (\<lambda>c. modifier_name c \<noteq> None) (concat (map modifier_symbol ms) @ k) = concat (map modifier_symbol ms) \<and>
      dropWhile (\<lambda>c. modifier_name c \<noteq> None) (concat (map modifier_symbol ms) @ k) = k \<and>
      List.map_filter modifier_name (concat (map modifier_symbol ms)) = List.map_filter modifier_key ms"
    using assms(1)
  proof (induction ms)
    case Nil
    have "k \<noteq> []" "modifier_name (hd k) = None" using assms(2) by (auto simp: plain_key_def clean_def)
    then show ?case by (cases k) (simp_all add: List.map_filter_simps)
  next
    case (Cons m ms)
    then obtain c where "modifier_symbol m = [c]" "modifier_name c \<noteq> None" "modifier_key m = modifier_name c"
      by (auto simp: modifier_key_def split: list.splits)
    then show ?case using Cons by (simp add: List.map_filter_simps split: option.splits)
  qed
  have "List.map_filter modifier_key ms \<noteq> []"
    using assms(1,3) by (cases ms) (auto simp: List.map_filter_simps)
  moreover have "k \<noteq> []" "123 \<notin> set k" using assms(2) by (auto simp: plain_key_def clean_def)
  ultimately show ?thesis using m fold_replace_plain [of k special_keys] by (simp add: translate_modifier_keys_def Let_def)
qed

lemma press_command:
  assumes "clean t"
  shows "grammar_to_xdotool display (u ''press '' @ t) =
    Inr (Some (words [u ''DISPLAY='' @ display, u ''xdotool'', u ''key'', translate_modifier_keys t]))"
proof -
  have p: "u ''press '' @ t = words [u ''press'', t]" by (simp add: words_def u_def)
  have c: "\<forall>w\<in>set [u ''press'', t]. clean w" using assms by (simp add: clean_def u_def visible_def py_space_def)
  have "strip (words [u ''press'', t]) = words [u ''press'', t]" using strip_words [OF _ c] by simp
  moreover have "first_word (words [u ''press'', t]) = u ''press''" using first_word_words c by blast
  moreover have "after_first (words [u ''press'', t]) = t"
  proof -
    have "after_first (u ''press '' @ t) = dropWhile py_space t"
      by (simp add: after_first_def u_def visible_def py_space_def)
    then show ?thesis using p clean_drop [OF assms] by simp
  qed
  moreover have "words [u ''press'', t] \<noteq> []" "t \<noteq> []" using assms by (simp_all add: words_def clean_def u_def)
  ultimately show ?thesis unfolding p
    by (simp add: grammar_to_xdotool_def keyboard_to_xdotool_def Let_def)
qed

lemma strings_of_texts: "strings_of (map V_str ks) = ks"
  by (induction ks) simp_all

lemma modifier_key_clean:
  assumes "list_all (\<lambda>m. modifier_key m \<noteq> None) ms" and "clean k"
  shows "clean (concat (map modifier_symbol ms) @ k)"
  using assms(1)
proof (induction ms)
  case (Cons m ms)
  then obtain c where "modifier_symbol m = [c]" "modifier_name c \<noteq> None"
    by (auto simp: modifier_key_def split: list.splits)
  moreover have "visible c" using calculation(2)
    by (auto simp: modifier_name_def visible_def py_space_def split: if_splits)
  ultimately show ?case using Cons by (auto simp: clean_def)
qed (use assms(2) in simp)

text \<open>A hotkey of modifiers and a plain key presses them together, in the order given.\<close>

lemma hotkey_exact:
  assumes "list_all (\<lambda>m. modifier_key m \<noteq> None) ms" and "plain_key k" and "ms \<noteq> []"
  shows "pyautogui_to_xdotool fo sz display
      (Some [\<lparr>call_name = u ''hotkey'', call_args = map V_str (ms @ [k]), call_kwargs = []\<rparr>]) =
    Inr [words [u ''DISPLAY='' @ display, u ''xdotool'', u ''key'', join (u ''+'') (List.map_filter modifier_key ms @ [k])]]"
proof -
  have f: "filter (\<lambda>a. a \<noteq> V_unresolved) (map V_str (ms @ [k])) = map V_str (ms @ [k])" by (simp add: filter_id_conv)
  have "key_token k = k" using assms(2) by (simp add: plain_key_def key_token_def)
  then have d: "do_hotkey (map V_str (ms @ [k])) b = emit [u ''press '' @ concat (map modifier_symbol ms) @ k] b" for b
    using strings_of_texts [of "ms @ [k]"] by (simp add: do_hotkey_def del: map_append)
  have "grammar_to_xdotool display (u ''press '' @ concat (map modifier_symbol ms) @ k) =
      Inr (Some (words [u ''DISPLAY='' @ display, u ''xdotool'', u ''key'', join (u ''+'') (List.map_filter modifier_key ms @ [k])]))"
    using press_command [OF modifier_key_clean [OF assms(1)]] assms(2) translate_hotkey [OF assms] by (simp add: plain_key_def)
  then show ?thesis
    by (simp add: pyautogui_to_xdotool_def translate_all_def pyautogui_to_grammar_def dispatch_def get_arg_def f d emit_def
        List.map_filter_simps del: map_append)
qed

lemma hotkey_examples:
  "pyautogui_to_xdotool fo sz (u '':0'')
     (Some [\<lparr>call_name = u ''hotkey'', call_args = map V_str [u ''ctrl'', u ''shift'', u ''t''], call_kwargs = []\<rparr>]) =
   Inr [words [u ''DISPLAY=:0'', u ''xdotool'', u ''key'', u ''ctrl+shift+t'']]"
proof -
  have "list_all (\<lambda>m. modifier_key m \<noteq> None) [u ''ctrl'', u ''shift'']" "plain_key (u ''t'')"
    by (simp_all add: plain_key_def modifier_key_def modifier_symbol_def modifier_table_def lower_def u_def modifier_name_def
        key_table_def braced_def show_nat.simps upt_rec clean_def visible_def py_space_def)
  from hotkey_exact [OF this, of fo sz "u '':0''"] show ?thesis
    by (simp add: modifier_key_def modifier_symbol_def modifier_table_def lower_def u_def modifier_name_def List.map_filter_simps)
qed

section \<open>Calls that become something else\<close>

abbreviation empty_builder :: builder where "empty_builder \<equiv> \<lparr>cur = None, commands = []\<rparr>"

text \<open>Dollar signs and backquotes of a typed text reach the shell unescaped.\<close>

lemma typed_text_expands:
  "pyautogui_to_xdotool fo sz (u '':0'')
     (Some [\<lparr>call_name = u ''write'', call_args = [V_str (u ''$(id)'')], call_kwargs = []\<rparr>]) =
   Inr [words [u ''DISPLAY=:0'', u ''xdotool'', u ''type'', [34] @ u ''$(id)'' @ [34]]]"
proof -
  have "grammar_to_xdotool (u '':0'') (u ''type '' @ u ''$(id)'') =
      Inr (Some (words [u ''DISPLAY=:0'', u ''xdotool'', u ''type'', [34] @ u ''$(id)'' @ [34]]))"
    using type_command [of "[]" "[]" "u ''$(id)''"]
    by (simp add: grammar_to_xdotool_def keyboard_to_xdotool_def Let_def)
      (simp add: u_def visible_def py_space_def escape_dq_def escape_text_chars)
  then show ?thesis
    by (simp add: pyautogui_to_xdotool_def translate_all_def pyautogui_to_grammar_def dispatch_def get_arg_def do_type_def
      emit_def List.map_filter_simps)
qed

text \<open>A plus sign is read as the shift modifier: \<open>press('+')\<close> presses shift, \<open>hotkey('ctrl', '+')\<close> ctrl and shift.\<close>

lemma plus_becomes_shift:
  "grammar_to_xdotool display (u ''press '' @ key_token (u ''+'')) =
     Inr (Some (words [u ''DISPLAY='' @ display, u ''xdotool'', u ''key'', u ''shift'']))"
  "grammar_to_xdotool display (u ''press '' @ modifier_symbol (u ''ctrl'') @ key_token (u ''+'')) =
     Inr (Some (words [u ''DISPLAY='' @ display, u ''xdotool'', u ''key'', u ''ctrl+shift'']))"
proof -
  have k: "key_token (u ''+'') = u ''+''" and m: "modifier_symbol (u ''ctrl'') = u ''^''"
    by (simp_all add: key_token_def modifier_symbol_def modifier_table_def lower_def u_def key_table_def braced_def show_nat.simps upt_rec)
  have c: "clean (u ''+'')" "clean (u ''^+'')" by (simp_all add: clean_def u_def visible_def py_space_def)
  have e: "fold (\<lambda>(ahk, xdo) s. str_replace ahk xdo s) special_keys [] = []"
    using fold_replace_plain [of "[]" special_keys] by simp
  have t: "translate_modifier_keys (u ''+'') = u ''shift''" "translate_modifier_keys (u ''^+'') = u ''ctrl+shift''"
    by (simp_all add: translate_modifier_keys_def e u_def modifier_name_def List.map_filter_simps Let_def)
  have a: "u ''^'' @ u ''+'' = u ''^+''" by (simp add: u_def)
  show "grammar_to_xdotool display (u ''press '' @ key_token (u ''+'')) =
     Inr (Some (words [u ''DISPLAY='' @ display, u ''xdotool'', u ''key'', u ''shift'']))"
    unfolding k using press_command [OF c(1)] t(1) by simp
  show "grammar_to_xdotool display (u ''press '' @ modifier_symbol (u ''ctrl'') @ key_token (u ''+'')) =
     Inr (Some (words [u ''DISPLAY='' @ display, u ''xdotool'', u ''key'', u ''ctrl+shift'']))"
    unfolding k m a using press_command [OF c(2)] t(2) by simp
qed

text \<open>A relative drag scales its end twice: from the point \<open>(p, q)\<close> of the desktop by no distance it goes to
  \<open>(p, q)\<close> scaled again.\<close>

lemma drag_rel_scales_position:
  "cur b = Some p \<Longrightarrow> do_drag_rel fo sz (V_int 0) (V_int 0) b =
     do_drag_to fo sz (V_float (of_int (fst p))) (V_float (of_int (snd p))) b"
  by (cases p) (simp add: do_drag_rel_def to_float_def)

text \<open>Two clicks of the right button are a double click of the left one.\<close>

lemma double_right_is_left:
  "do_click fo sz V_none V_none (u ''right'') 2 b = do_click fo sz V_none V_none (u ''left'') 2 b"
  by (simp add: do_click_def)

text \<open>A move to a point that is not a literal, or a move with no point, raises out of the transpiler.\<close>

lemma unresolved_move_raises:
  "dispatch fo sz \<lparr>call_name = u ''moveTo'', call_args = [V_unresolved, V_unresolved], call_kwargs = []\<rparr> b = Inl TypeError"
  "dispatch fo sz \<lparr>call_name = u ''moveTo'', call_args = [], call_kwargs = [(u ''x'', V_unresolved)]\<rparr> b = Inl TypeError"
  by (simp_all add: dispatch_def get_arg_def do_move_def scale_def to_float_def)

text \<open>\<open>scroll(0)\<close> scrolls one step up; the repetitions of a \<open>press\<close> are ignored.\<close>

lemma scroll_zero:
  "do_scroll fo sz (V_int 0) V_none V_none b = do_scroll fo sz (V_int 1) V_none V_none b"
  by (simp add: do_scroll_def to_int_def)

lemma press_repetitions_ignored:
  "dispatch fo sz \<lparr>call_name = u ''press'', call_args = [V_str k], call_kwargs = [(u ''presses'', V_int n)]\<rparr> b =
   dispatch fo sz \<lparr>call_name = u ''press'', call_args = [V_str k], call_kwargs = []\<rparr> b"
  by (simp add: dispatch_def get_arg_def)

end
