(* ===== verification/Cua_Mac.thy ===== *)
theory Cua_Mac
  imports Cua_Keys
begin

text \<open>
  The macOS stage of \<open>experience/cua/actions/cc_transpile.py\<close>: a grammar command as a \<open>cliclick\<close> or
  \<open>osascript\<close> shell command.
\<close>

section \<open>Mouse\<close>

definition sq_word :: "ustring \<Rightarrow> ustring" where
  "sq_word s = [39] @ s @ [39]"

definition system_events :: ustring where
  "system_events = u ''tell application '' @ [34] @ u ''System Events'' @ [34] @ u '' to ''"

definition mac_scroll_keycode :: "ustring \<Rightarrow> nat option" where
  "mac_scroll_keycode d =
     map_of [(u ''scroll_up'', 126), (u ''scroll-up'', 126), (u ''scrollup'', 126),
       (u ''scroll_down'', 125), (u ''scroll-down'', 125), (u ''scrolldown'', 125),
       (u ''scroll_left'', 123), (u ''scroll-left'', 123), (u ''scrollleft'', 123),
       (u ''scroll_right'', 124), (u ''scroll-right'', 124), (u ''scrollright'', 124)] d"

definition pair :: "int \<times> int \<Rightarrow> ustring" where
  "pair p = show_int (fst p) @ u '','' @ show_int (snd p)"

definition mac_build_scroll :: "(int \<times> int) option \<Rightarrow> ustring \<Rightarrow> int \<Rightarrow> ustring option" where
  "mac_build_scroll pt direction amount =
     (case mac_scroll_keycode direction of
        None \<Rightarrow> None
      | Some code \<Rightarrow> Some (words
          [u ''cliclick'', u ''c:'' @ (case pt of Some p \<Rightarrow> pair p | None \<Rightarrow> u ''.''), u ''w:50'', u ''&&'', u ''osascript'',
           u ''-e'', sq_word (system_events @ words [u ''repeat'', show_int amount, u ''times'']),
           u ''-e'', sq_word (u ''key code '' @ show_nat code), u ''-e'', sq_word (u ''delay 0.02''), u ''-e'', sq_word (u ''end repeat'')]))"

definition cliclick :: "ustring \<Rightarrow> ustring option result" where
  "cliclick arg = Inr (Some (words [u ''cliclick'', arg]))"

definition mac_amount :: "ustring list \<Rightarrow> nat \<Rightarrow> int result" where
  "mac_amount parts i =
     (if i < length parts then (case text_to_int (parts ! i) of Some n \<Rightarrow> Inr n | None \<Rightarrow> Inl ValueError) else Inr 5)"

definition mac_scroll :: "(int \<times> int) option \<Rightarrow> ustring list \<Rightarrow> nat \<Rightarrow> ustring \<Rightarrow> ustring option result" where
  "mac_scroll pt parts i action =
     (if find_sub (u ''scroll'') action \<noteq> None
      then bind_res (mac_amount parts i) (\<lambda>n. Inr (mac_build_scroll pt action n))
      else Inr None)"

definition mac_here :: "ustring list \<Rightarrow> ustring option result" where
  "mac_here parts =
     (let action = (if 1 < length parts then parts ! 1 else u ''left'')
      in case map_of [(u ''left'', u ''c:.''), (u ''click'', u ''c:.''), (u ''right'', u ''rc:.''), (u ''double'', u ''dc:.''),
           (u ''triple'', u ''tc:.''), (u ''middle'', u ''mc:.''), (u ''hold'', u ''dd:.''), (u ''release'', u ''du:.'')] action of
        Some arg \<Rightarrow> cliclick arg
      | None \<Rightarrow> mac_scroll None parts 2 action)"

definition mac_point :: "int \<times> int \<Rightarrow> ustring list \<Rightarrow> ustring option result" where
  "mac_point p parts =
     (if length parts = 2 then cliclick (u ''m:'' @ pair p)
      else let action = parts ! 2
        in case map_of [(u ''move'', u ''m:''), (u ''left'', u ''c:''), (u ''click'', u ''c:''), (u ''right'', u ''rc:''),
             (u ''double'', u ''dc:''), (u ''triple'', u ''tc:''), (u ''middle'', u ''mc:''), (u ''hold'', u ''dd:''),
             (u ''release'', u ''du:'')] action of
          Some pre \<Rightarrow> cliclick (pre @ pair p)
        | None \<Rightarrow>
            if action = u ''drag'' \<and> 5 \<le> length parts
            then (case (text_to_int (parts ! 3), text_to_int (parts ! 4)) of
                    (Some x2, Some y2) \<Rightarrow> Inr (Some (words
                      [u ''cliclick'', u ''dd:'' @ pair p, u ''w:50'', u ''m:'' @ pair (x2, y2), u ''w:50'', u ''du:'' @ pair (x2, y2)]))
                  | _ \<Rightarrow> Inl ValueError)
            else mac_scroll (Some p) parts 3 action)"

definition mac_build_mouse :: "ustring list \<Rightarrow> ustring option result" where
  "mac_build_mouse parts =
     (if parts = [] then Inr None
      else if parts ! 0 = u ''position'' then cliclick (u ''p:.'')
      else if parts ! 0 = u ''here'' then mac_here parts
      else case (text_to_int (parts ! 0), if 1 < length parts then text_to_int (parts ! 1) else None) of
        (Some x, Some y) \<Rightarrow> mac_point (x, y) parts
      | _ \<Rightarrow> Inr None)"

section \<open>Keyboard\<close>

definition mac_special_keys :: "(ustring \<times> ustring) list" where
  "mac_special_keys =
     map (\<lambda>n. (u ''{F'' @ show_nat n @ u ''}'', u ''f'' @ show_nat n)) [1..<17] @
     [(braced ''Enter'', u ''return''), (braced ''Return'', u ''return''), (braced ''Tab'', u ''tab''), (braced ''Esc'', u ''esc''),
      (braced ''Escape'', u ''esc''), (braced ''Space'', u ''space''), (braced ''Backspace'', u ''delete''),
      (braced ''BS'', u ''delete''), (braced ''Delete'', u ''fwd-delete''), (braced ''Del'', u ''fwd-delete''),
      (braced ''Up'', u ''arrow-up''), (braced ''Down'', u ''arrow-down''), (braced ''Left'', u ''arrow-left''),
      (braced ''Right'', u ''arrow-right''), (braced ''Home'', u ''home''), (braced ''End'', u ''end''),
      (braced ''PgUp'', u ''page-up''), (braced ''PgDn'', u ''page-down''), (braced ''VolumeUp'', u ''volume-up''),
      (braced ''VolumeDown'', u ''volume-down''), (braced ''Mute'', u ''mute''), (braced ''BrightnessUp'', u ''brightness-up''),
      (braced ''BrightnessDown'', u ''brightness-down''), (braced ''PlayPause'', u ''play-pause'')]"

text \<open>The one-character names of \<open>_MAC_MODIFIER_MAP\<close>, ASCII and the four signs of the Mac keyboard; the loop compares
  single characters, so the braced names of the table are never met.\<close>

definition mac_modifier :: "nat \<Rightarrow> ustring option" where
  "mac_modifier c =
     (if c = 94 \<or> c = 8963 then Some (u ''ctrl'') else if c = 43 \<or> c = 8679 then Some (u ''shift'')
      else if c = 33 \<or> c = 8997 then Some (u ''alt'') else if c = 35 \<or> c = 8984 then Some (u ''cmd'') else None)"

definition mac_keycodes :: "(ustring \<times> nat) list" where
  "mac_keycodes =
     [(u ''return'', 36), (u ''tab'', 48), (u ''delete'', 51), (u ''fwd-delete'', 117), (u ''page-up'', 116), (u ''page-down'', 121),
      (u ''home'', 115), (u ''end'', 119), (u ''arrow-left'', 123), (u ''arrow-right'', 124), (u ''arrow-down'', 125),
      (u ''arrow-up'', 126)]"

definition mac_mods :: "(ustring \<times> ustring) list" where
  "mac_mods = [(u ''cmd'', u ''command down''), (u ''alt'', u ''option down''), (u ''ctrl'', u ''control down''),
     (u ''shift'', u ''shift down'')]"

text \<open>The loop over the leading modifiers: \<open>whole\<close> is the main key when nothing else follows.\<close>

fun mac_scan :: "ustring \<Rightarrow> ustring list \<Rightarrow> ustring \<Rightarrow> ustring list \<times> ustring" where
  "mac_scan whole ms [] = (ms, whole)"
| "mac_scan whole ms (c # s) =
     (case mac_modifier c of
        Some m \<Rightarrow> mac_scan whole (if m \<in> set ms then ms else ms @ [m]) s
      | None \<Rightarrow> (ms, c # s))"

definition mac_with_modifiers :: "ustring list \<Rightarrow> ustring \<Rightarrow> ustring" where
  "mac_with_modifiers ms act =
     (if ms \<noteq> [] then words [u ''cliclick'', u ''kd:'' @ join (u '','') ms, act, u ''ku:'' @ join (u '','') ms]
      else words [u ''cliclick'', act])"

definition mac_press :: "ustring \<Rightarrow> ustring option" where
  "mac_press text =
     (let (ms, main) = mac_scan text [] text;
          normalized = (case map_of mac_special_keys main of Some k \<Rightarrow> k | None \<Rightarrow> main)
      in case map_of mac_keycodes normalized of
        Some code \<Rightarrow>
          (let downs = List.map_filter (\<lambda>m. map_of mac_mods m) ms
           in Some (u ''osascript -e '' @ sq_word (system_events @ u ''key code '' @ show_nat code @
                (if downs \<noteq> [] then u '' using {'' @ join (u '', '') downs @ u ''}'' else []))))
      | None \<Rightarrow>
          (case map_of mac_special_keys main of
             Some k \<Rightarrow> Some (mac_with_modifiers ms (u ''kp:'' @ k))
           | None \<Rightarrow>
               if length main = 1 then Some (mac_with_modifiers ms (u ''t:'' @ main))
               else if lower main = u ''space'' then Some (mac_with_modifiers ms (u ''kp:space''))
               else if main = [] \<and> ms \<noteq> [] then Some (mac_with_modifiers ms (u ''w:50''))
               else if main \<noteq> [] then Some (mac_with_modifiers ms (u ''t:'' @ main))
               else None))"

definition mac_parse_keyboard :: "ustring \<Rightarrow> ustring option" where
  "mac_parse_keyboard command =
     (let text = after_first command; action = first_word command
      in if text = [] then None
         else if action = u ''type''
         then Some (u ''osascript -e '' @ sq_word (system_events @ u ''keystroke '' @ [34] @
                str_replace [39] [39, 34, 39, 34, 39] (escape_text text) @ [34]))
         else if action \<noteq> u ''press'' \<and> action \<noteq> u ''key'' then None
         else mac_press text)"

definition grammar_to_macos :: "ustring \<Rightarrow> ustring option result" where
  "grammar_to_macos grammar =
     (let command = strip grammar; first = first_word command
      in if command = [] then Inr None
         else if first = u ''type'' \<or> first = u ''press'' \<or> first = u ''key'' then Inr (mac_parse_keyboard command)
         else if mouse_first first then mac_build_mouse (split_words command)
         else Inr None)"

definition pyautogui_to_macos ::
  "(ustring \<Rightarrow> rat option) \<Rightarrow> screen_sizes \<Rightarrow> call list option \<Rightarrow> ustring list result" where
  "pyautogui_to_macos fo sz program = translate_all grammar_to_macos (pyautogui_to_grammar fo sz program)"

section \<open>Typed text and modifiers\<close>

text \<open>The shell's reading of a single-sq_word text whose quotes are written as \<open>'"'"'\<close>.\<close>

fun sq_read :: "ustring \<Rightarrow> ustring option" where
  "sq_read [] = None"
| "sq_read (c # s) =
     (if c \<noteq> 39 then map_option (\<lambda>t. c # t) (sq_read s)
      else if s = [] then Some []
      else if take 4 s = [34, 39, 34, 39] then map_option (\<lambda>t. 39 # t) (sq_read (drop 4 s)) else None)"

lemma sq_read_escaped: "sq_read (str_replace [39] [39, 34, 39, 34, 39] s @ t) = map_option (\<lambda>r. s @ r) (sq_read t)"
  by (induction s) (simp_all add: str_replace_one option.map_comp comp_def option.map_ident)

lemma str_replace_absent: "a \<notin> set s \<Longrightarrow> str_replace [a] new s = s"
  by (subst str_replace.simps) (simp add: find_sub_absent)

text \<open>AppleScript's reading of a string literal from after its opening quote.\<close>

fun as_read :: "ustring \<Rightarrow> ustring option" where
  "as_read [] = None"
| "as_read (c # s) =
     (if c = 34 then (if s = [] then Some [] else None)
      else if c = 92 then (case s of [] \<Rightarrow> None | d # r \<Rightarrow> if d = 34 \<or> d = 92 then map_option (\<lambda>t. d # t) (as_read r) else None)
      else map_option (\<lambda>t. c # t) (as_read s))"

lemma as_read_escaped: "as_read (escape_text s @ [34]) = Some s"
  by (induction s) (auto simp: escape_text_chars escape_dq_def)

text \<open>Typed text survives the two layers of quoting whatever it holds.\<close>

lemma mac_typed_text_exact:
  assumes "s \<noteq> []" and "visible (hd s)" and "visible (last s)"
  shows "\<exists>q script. grammar_to_macos (u ''type '' @ s) = Inr (Some (u ''osascript -e '' @ [39] @ q)) \<and>
    sq_read q = Some (system_events @ u ''keystroke '' @ [34] @ script) \<and> as_read script = Some s"
proof -
  note t = type_command [of "[]" "[]", OF _ _ assms, simplified]
  let ?q = "system_events @ u ''keystroke '' @ [34] @ str_replace [39] [39, 34, 39, 34, 39] (escape_text s) @ [34, 39]"
  have "39 \<notin> set (system_events @ u ''keystroke '' @ [34])" by (simp add: system_events_def u_def)
  from str_replace_absent [OF this, of "[39, 34, 39, 34, 39]"]
  have "sq_read ((system_events @ u ''keystroke '' @ [34]) @ r) =
      map_option (\<lambda>x. (system_events @ u ''keystroke '' @ [34]) @ x) (sq_read r)" for r
    using sq_read_escaped [of "system_events @ u ''keystroke '' @ [34]" r] by simp
  from this [of "str_replace [39] [39, 34, 39, 34, 39] (escape_text s) @ [34, 39]"]
  have "sq_read ?q = Some (system_events @ u ''keystroke '' @ [34] @ escape_text s @ [34])"
    by (simp add: sq_read_escaped)
  moreover have "grammar_to_macos (u ''type '' @ s) = Inr (Some (u ''osascript -e '' @ [39] @ ?q))"
    using assms(1) t by (simp add: grammar_to_macos_def mac_parse_keyboard_def Let_def sq_word_def)
  ultimately show ?thesis using as_read_escaped [of s] by (intro exI [of _ ?q] exI [of _ "escape_text s @ [34]"]) simp
qed

text \<open>Modifier keys and the keys \<open>cliclick\<close> has no name for are typed as the text of their token.\<close>

lemma mac_modifier_key_is_typed:
  "mac_press (key_token (u ''ctrl'')) = Some (u ''cliclick t:{LCtrl}'')"
  "mac_press (key_token (u ''insert'')) = Some (u ''cliclick t:{Insert}'')"
  by (simp_all add: key_token_def key_table_def lower_def braced_def u_def show_nat.simps upt_rec mac_press_def mac_modifier_def
      mac_special_keys_def mac_keycodes_def mac_with_modifiers_def words_def Let_def)

text \<open>A run of modifiers alone is typed as their symbols, with the modifiers held.\<close>

lemma mac_modifiers_alone:
  "mac_press (u ''^+'') = Some (u ''cliclick kd:ctrl,shift t:^+ ku:ctrl,shift'')"
  by (simp add: u_def mac_press_def mac_modifier_def mac_special_keys_def mac_keycodes_def mac_with_modifiers_def words_def
      Let_def braced_def show_nat.simps upt_rec lower_def)

end
