(* ===== verification/Spec2Isabelle.thy ===== *)
theory Spec2Isabelle
  imports Replay_Buffer Packing Rollout_Allocation Batched_Data Data_Plane Trajectory_Collector
    Async_Progress Checkpointing Group_Rewards Named_Sharding Placement Invalid_Action
    Token_Aligner Rollout_Agreement Sandbox_Accounting Sandbox_Grading Sandbox_Harness Sandbox_Tasks
    Cua_Mac
begin

text \<open>
  A verification development for \<^verbatim>\<open>dockyard_rl\<close>, a reinforcement-learning post-training system for language
  models. Paths below are relative to \<^verbatim>\<open>src/\<close>.

  \<^bold>\<open>The program.\<close> A training step takes a batch of prompts, rolls each out several times against environments, turns
  the rewards into advantages per prompt group, and updates a policy on the tokens. In synchronous GRPO the
  steps follow each other; in asynchronous GRPO a collector actor produces groups of trajectories ahead of time, a replay
  buffer keeps them until the step they are meant for, and the trainer samples the buffer, trains and hands new weights to the
  generation engine. Around that loop are the batch container and its sharding over data-parallel ranks,
  sequence packing into micro-batches, the data plane that carries tensors by key while only metadata
  moves between processes, the budgeted choice of rollouts to train on, reward shaping and penalties, the message logs and the multi-turn
  rollout loops that grow them, the tool-call protocol that environments and penalties parse, checkpoints, the arithmetic of ranks and GPUs, and
  the executor inside the sandbox that runs the commands and the graders of an episode in containers.

  \<^bold>\<open>Theories and sources.\<close>
  \<^item> \<open>Prelude\<close>: exceptions as values (\<open>py_error\<close>, \<open>bind_res\<close>, \<open>map_res\<close>), Python list operations, shared list lemmas.
  \<^item> \<open>Replay_Buffer\<close>: class \<open>ReplayBufferImpl\<close> of \<^verbatim>\<open>algorithms/async_utils/replay_buffer.py\<close>. The three parallel lists
    of the class are fields of a record; a method is one atomic state transformer, as it holds the lock. Proved: the
    representation invariant, refinement of \<open>sample\<close> by a list specification, conservation of groups over
    every sequence of calls, bounded age, the checkpoint round trip. The locale \<open>trajectory_queue\<close> is the contract its two
    clients use.
  \<^item> \<open>Trajectory_Collector\<close>: class \<open>AsyncTrajectoryCollectorImpl\<close> of \<^verbatim>\<open>algorithms/async_utils/trajectory_collector.py\<close> as
    a state machine with one phase per await, against the buffer. Proved for all interleavings: the schedule of target
    steps, the age bound, mutual exclusion of rollouts and refits, the failure accounting.
  \<^item> \<open>Async_Training\<close>, \<open>Async_Progress\<close>: \<open>async_grpo_train\<close> of \<^verbatim>\<open>algorithms/grpo.py\<close>, the trainer's turns and its mailbox
    to the collector, composed with the two components above. Proved: in every interleaving the trainer consumes exactly the
    groups of consecutive steps and sampling never raises, and from every reachable state the current step can be completed;
    a run shows what restoring a saved buffer does.
  \<^item> \<open>Packing\<close>: \<^verbatim>\<open>data/packing/algorithms.py\<close>. Proved: every algorithm packs every index once within capacity (locale
    \<open>packer\<close>, interpreted on the algorithms), first-fit leaves no two mergeable packs, the dynamic program is optimal per
    pack, what happens with oversized sequences.
  \<^item> \<open>Batched_Data\<close>: class \<open>BatchedDataDict\<close> of \<^verbatim>\<open>distributed/batched_data_dict.py\<close>. Proved: sharding partitions the rows,
    length-sorted sharding is undone by \<open>reorder_data\<close>, packed micro-batches respect the token budget and scatter back.
  \<^item> \<open>Data_Plane\<close>: \<^verbatim>\<open>data_plane/interfaces.py\<close>, \<^verbatim>\<open>data_plane/adapters/noop.py\<close>, \<^verbatim>\<open>data_plane/preshard.py\<close>. Proved: every sample is
    claimed at most once per task (locale \<open>claim_cursor\<close>), put/get round trip, completion status, and that rank assignment
    restores the batch; it calls the sharding of \<open>Batched_Data\<close>.
  \<^item> \<open>Rollout_Allocation\<close>: \<^verbatim>\<open>algorithms/rollout_allocation.py\<close>. Proved: the allocator spends the budget exactly, keeps prefixes and
    floors, and its largest-remainder loop terminates.
  \<^item> \<open>Group_Rewards\<close>: baselines, advantages, dynamic sampling, reward shaping and the effort reward of \<^verbatim>\<open>algorithms/utils.py\<close>,
    \<^verbatim>\<open>algorithms/advantage_estimator.py\<close>, \<^verbatim>\<open>algorithms/grpo.py\<close>, \<^verbatim>\<open>algorithms/reward_functions.py\<close> and \<^verbatim>\<open>algorithms/effort_reward.py\<close>.
  \<^item> \<open>Checkpointing\<close>: class \<open>CheckpointManager\<close> of \<^verbatim>\<open>utils/checkpoint.py\<close>. Proved: retention keeps the best and the latest, saving is
    pseudo-atomic at every intermediate directory state.
  \<^item> \<open>Named_Sharding\<close>, \<open>Placement\<close>: \<^verbatim>\<open>distributed/named_sharding.py\<close>, \<^verbatim>\<open>cluster/placement.py\<close>, \<^verbatim>\<open>cluster/fleet.py\<close>. Proved: coordinates
    identify ranks, a validated trainer layout uses exactly the GPUs it asks for.
  \<^item> \<open>Json\<close>, \<open>Tool_Protocol\<close>, \<open>Tool_Validation\<close>: \<^verbatim>\<open>tool_protocol/\<close> over a model of the standard library's JSON codec. Proved: the schema
    validator decides conformance, rendered calls are extracted again, the verdict on a turn is exact, and which exceptions escape.
  \<^item> \<open>Invalid_Action\<close>: \<^verbatim>\<open>rewards/invalid_action.py\<close>, the stamping of turns in \<^verbatim>\<open>experience/rollouts.py\<close> and the two places of
    \<^verbatim>\<open>algorithms/reward_functions.py\<close> that charge the penalty. Proved: each violation is charged exactly once, the graded path
    generalises the count path, only flagged spans lose advantage; it calls \<open>assess_tool_calls\<close> of \<open>Tool_Protocol\<close>.
  \<^item> \<open>Message_Log\<close>: \<^verbatim>\<open>data/llm_message_utils.py\<close> and the GRPO masks of \<^verbatim>\<open>algorithms/grpo.py\<close>. Proved: padded batches hold exactly the
    tokens of their logs, masks mark exactly the generated tokens, backfilled routing stays aligned, the wire format loses nothing.
  \<^item> \<open>Rollouts\<close>, \<open>Rollout_Agreement\<close>: \<^verbatim>\<open>experience/rollouts.py\<close>, the batched loop over a store of shared logs and the per-sample loop, against
    an arbitrary engine, tokenizer and environments (the record \<open>services\<close>). Proved: rewards return to their rows, both loops
    refine the same turn function of one row and so agree, token accounting; a run shows what shared logs do.
  \<^item> \<open>Py_Strings\<close>: searching, counting and replacing in strings as lists of code points.
  \<^item> \<open>Token_Canon\<close>, \<open>Align_DP\<close>, \<open>Token_Aligner\<close>: \<^verbatim>\<open>algorithms/x_token/token_aligner.py\<close>, canonical tokens, the alignment dynamic program,
    and the pipeline around it. Proved: the program returns a best alignment, every stage keeps the spans tiling both
    sequences, and the batch numbers every position by the pair that holds it.

  \<^item> \<open>Image_Cache\<close>, \<open>Sandbox_Sessions\<close>, \<open>Sandbox_Accounting\<close>: the interactive sessions and the bounded image cache of
    \<^verbatim>\<open>ubuntu-base/scripts/tools/task_executor.py\<close>, one event per region run under a lock, with docker commands that may fail or hang.
    Proved: eviction is least-recently-used and minimal, the use counts are the holders plus what hung commands leaked, no held image
    is removed while the reaper spares running bootstraps, a session is graded and torn down once in every interleaving; runs show
    what the reaper does otherwise.
  \<^item> \<open>Sandbox_Text\<close>, \<open>Sandbox_Reports\<close>, \<open>Sandbox_Grading\<close>: path resolution, patches and test reports of the same file, and \<open>_execute_clone\<close> over an
    arbitrary git. Proved: accepted file names stay below their base, the totals of a JUnit report are read exactly, the held-out test files
    are canonical when the tests run.
  \<^item> \<open>Sandbox_Harness\<close>, \<open>Sandbox_Tasks\<close>: the commands of a session, the injected verifier, image tasks, the keys of builds, and the task store with its
    workers. Proved: staging writes nowhere else, a verdict comes from an injected verifier, unfinished tasks have a live worker.
  \<^item> \<open>Cua_Actions\<close>, \<open>Cua_Actuation\<close>, \<open>Cua_Gestures\<close>, \<open>Cua_Keys\<close>, \<open>Cua_Mac\<close>: \<^verbatim>\<open>experience/cua/actions/\<close>, how the desktop agent's pyautogui programs become commands of the
    control-center grammar and shell commands of three systems. Proved: on Linux the mouse events and the pointer are those of the program, typed text
    reaches the desktop but for its outer blanks, hotkeys are exact; examples show the calls that become something else.

  \<^bold>\<open>Conventions.\<close> A raise is the left value of a sum; an operation that writes before it raises returns the state beside the result.
  Python integers are \<open>int\<close> or \<open>nat\<close>; floats are exact rationals, so statements about them hold up to rounding only. Functions
  outside the sources are parameters of the definitions that call them: \<open>shuffle\<close> (assumed to permute), \<open>pw\<close> and \<open>sqrt_fn\<close> (float
  power and square root), \<open>unique_inverse\<close> (\<open>torch.unique\<close>), \<open>tag_int\<close> and \<open>row_len\<close> (tokens of a tensor value), the record
  \<open>formatting\<close> (texts of exceptions and \<open>repr\<close>), and the records \<open>docker\<close>, \<open>sandbox\<close> and \<open>docker_env\<close> (what docker, git, the shell and the file system answer). Every theorem with a hypothesis has a witness at a concrete input.

  \<^bold>\<open>Loops, bounds and fuel.\<close> The while loop of \<open>_apportion\<close> is a \<open>partial_function\<close> in option, and that it returns is a
  theorem. The JSON decoder takes fuel; \<open>loads\<close> gives it more than the length of its input and \<open>parse_fuel\<close> shows that this is always
  enough. The unbounded loops of the collector and the trainer are step functions over explicit event sequences, so that nothing is bounded
  there. The history variables of the asynchronous models (groups tagged, accepted and trained on) are never read by the modelled code.

  \<^bold>\<open>Not modelled.\<close> Losses, log-probabilities and policy workers (floating-point tensor programs with autograd under PyTorch, Megatron
  and JAX); generation back ends, environments, graders, the desktops and vendored evaluators of the computer-use agent (remote services and
  external programs; the rollout loops take them as functions); Ray actors and placement groups, NCCL weight transfer, the TransferQueue adapter and RDMA (third-party
  runtimes); of the sandbox task executor the linter-report parser, the tar export, the validation of requests and \<open>difflib\<close>; logging, configuration loading and the Kubernetes command line (input and output). Of the trainer loops only the
  asynchronous hand-shake is modelled. Not modelled either, for being small
  reports or wrappers around the parts above: packing metrics, the data-plane codec and column reader, the teacher panel, distillation memory, and the topology arithmetic of the virtual cluster.
\<close>

end
